(* ===== verification/Base.thy ===== *)
theory Base
  imports Main "HOL-Library.Word"
begin

text \<open>
  Prelude of the development: the types and byte-level helpers every component shares, the
  collections of rewrite rules, and the interface of a keyed store.

  A C++ \<open>char\<close> is one byte, so a \<open>std::string\<close> or \<open>std::string_view\<close> is a HOL
  \<open>string\<close>, a list of \<open>char\<close>; \<open>ubyte\<close> reads a byte as \<open>unsigned char\<close> does and
  \<open>sbyte\<close> as the signed \<open>char\<close> of the platforms the build targets.  A 64-bit integer is a
  \<open>64 word\<close>, read as \<open>uint64_t\<close> by \<open>unat\<close> and as \<open>int64_t\<close> by \<open>sint\<close>.
  Offsets and sizes (\<open>size_t\<close>) are \<open>nat\<close>.
\<close>

named_theorems byte_simps "unfolding rules of byte classification"
named_theorems loop_simps "unfolding rules of loop bodies"

type_synonym u64 = "64 word"
type_synonym i64 = "64 word"
type_synonym bytes = string

definition ubyte :: "char \<Rightarrow> nat" where
  "ubyte c = of_char c"

definition sbyte :: "char \<Rightarrow> int" where
  "sbyte c = (if ubyte c < 128 then int (ubyte c) else int (ubyte c) - 256)"

lemma ubyte_less [simp]: "ubyte c < 256"
  by (simp add: ubyte_def)

lemma ubyte_inject [simp]: "ubyte c = ubyte d \<longleftrightarrow> c = d"
  by (simp add: ubyte_def)

lemma ubyte_char_of [simp]: "n < 256 \<Longrightarrow> ubyte (char_of n) = n"
  by (simp add: ubyte_def)

lemma char_of_ubyte [simp]: "char_of (ubyte c) = c"
  by (simp add: ubyte_def)

lemma sbyte_range: "- 128 \<le> sbyte c \<and> sbyte c < 128"
  by (cases "ubyte c < 128") (use ubyte_less [of c] in \<open>simp add: sbyte_def; linarith\<close>)+

lemma sbyte_ascii_le:
  "ubyte a < 128 \<Longrightarrow> ubyte b < 128 \<Longrightarrow> sbyte a \<le> sbyte b \<longleftrightarrow> ubyte a \<le> ubyte b"
  by (simp add: sbyte_def)

lemma sint64_of_int:
  "- (2 ^ 63) \<le> k \<Longrightarrow> k < 2 ^ 63 \<Longrightarrow> sint (word_of_int k :: i64) = k"
  by (simp add: sint_sbintrunc' signed_take_bit_int_eq_self)

lemma sint64_range: "- (2 ^ 63) \<le> sint (w :: i64) \<and> sint w < 2 ^ 63"
  using sint_ge [of w] sint_lt [of w] by simp

subsection \<open>Views of a byte string\<close>

text \<open>
  \<open>substr\<close> is \<open>string_view::substr(pos, n)\<close> for \<open>pos\<close> inside the text (outside, the
  C++ call throws; no modelled caller gets there), \<open>find_at\<close> the first occurrence of a byte
  string at or after a position.
\<close>

definition substr :: "'a list \<Rightarrow> nat \<Rightarrow> nat \<Rightarrow> 'a list" where
  "substr s at n = take n (drop at s)"

definition starts_with :: "'a list \<Rightarrow> 'a list \<Rightarrow> bool" where
  "starts_with s p \<longleftrightarrow> take (length p) s = p"

fun find_sub :: "'a list \<Rightarrow> 'a list \<Rightarrow> nat option" where
  "find_sub p [] = (if p = [] then Some 0 else None)"
| "find_sub p (x # xs) =
     (if starts_with (x # xs) p then Some 0 else map_option Suc (find_sub p xs))"

definition find_at :: "'a list \<Rightarrow> 'a list \<Rightarrow> nat \<Rightarrow> nat option" where
  "find_at s p at = map_option (\<lambda>i. i + at) (find_sub p (drop at s))"

lemma starts_with_append [simp]: "starts_with (p @ s) p"
  by (simp add: starts_with_def)

lemma starts_with_Nil [simp]: "starts_with s []"
  by (simp add: starts_with_def)

lemma starts_with_Cons [simp]:
  "starts_with (x # xs) (y # ys) \<longleftrightarrow> x = y \<and> starts_with xs ys"
  by (auto simp: starts_with_def)

lemma starts_with_Nil_left [simp]: "starts_with [] p \<longleftrightarrow> p = []"
  by (auto simp: starts_with_def)

lemma starts_with_iff: "starts_with s p \<longleftrightarrow> (\<exists>r. s = p @ r)"
  by (metis append_eq_conv_conj append_take_drop_id starts_with_def)

lemma find_sub_Some: "find_sub p s = Some i \<Longrightarrow> starts_with (drop i s) p \<and> i \<le> length s"
proof (induction s arbitrary: i)
  case Nil
  then show ?case by (auto split: if_splits)
next
  case (Cons x xs)
  show ?case
  proof (cases "starts_with (x # xs) p")
    case True
    with Cons.prems show ?thesis by simp
  next
    case False
    with Cons.prems obtain j where "find_sub p xs = Some j" "i = Suc j" by auto
    with Cons.IH show ?thesis by simp
  qed
qed

lemma find_sub_Some_less:
  "find_sub p s = Some i \<Longrightarrow> p \<noteq> [] \<Longrightarrow> i + length p \<le> length s"
  using find_sub_Some [of p s i] by (fastforce simp: starts_with_iff dest: arg_cong [where f = length])

lemma find_sub_least:
  "find_sub p s = Some i \<Longrightarrow> j < i \<Longrightarrow> \<not> starts_with (drop j s) p"
proof (induction s arbitrary: i j)
  case Nil
  then show ?case by (auto split: if_splits)
next
  case (Cons x xs)
  show ?case
  proof (cases "starts_with (x # xs) p")
    case True
    with Cons.prems show ?thesis by simp
  next
    case False
    with Cons.prems(1) obtain k where k: "find_sub p xs = Some k" "i = Suc k" by auto
    show ?thesis
    proof (cases j)
      case 0
      with False show ?thesis by simp
    next
      case (Suc m)
      with Cons.IH [OF k(1), of m] Cons.prems(2) k(2) show ?thesis by simp
    qed
  qed
qed

lemma find_sub_None: "find_sub p s = None \<Longrightarrow> \<not> starts_with (drop j s) p"
proof (induction s arbitrary: j)
  case Nil
  then show ?case by (auto split: if_splits)
next
  case (Cons x xs)
  then show ?case by (cases j) (auto split: if_splits)
qed

subsection \<open>Bounded searches\<close>

lemma ex_le_Suc: "(\<exists>k \<le> Suc n. P k) \<longleftrightarrow> P 0 \<or> (\<exists>k \<le> n. P (Suc k))"
proof
  assume "\<exists>k \<le> Suc n. P k"
  then obtain k where "k \<le> Suc n" "P k" by blast
  then show "P 0 \<or> (\<exists>k \<le> n. P (Suc k))" by (cases k) auto
qed (auto intro: exI [of _ "Suc _"])

lemma ex_ge1_le_Suc: "(\<exists>k. 1 \<le> k \<and> k \<le> Suc n \<and> P k) \<longleftrightarrow> (\<exists>k \<le> n. P (Suc k))"
proof
  assume "\<exists>k. 1 \<le> k \<and> k \<le> Suc n \<and> P k"
  then obtain k where "1 \<le> k" "k \<le> Suc n" "P k" by blast
  then show "\<exists>k \<le> n. P (Suc k)" by (cases k) auto
qed (auto intro: exI [of _ "Suc _"])

lemma ex_le_split: "(\<exists>k \<le> n. P k) \<longleftrightarrow> P 0 \<or> (\<exists>k. 1 \<le> k \<and> k \<le> n \<and> P k)" for n :: nat
proof
  assume "\<exists>k \<le> n. P k"
  then obtain k where "k \<le> n" "P k" by blast
  then show "P 0 \<or> (\<exists>k. 1 \<le> k \<and> k \<le> n \<and> P k)" by (cases "k = 0") auto
qed auto

subsection \<open>Prefixes of a list selected by a predicate\<close>

lemma drop_takeWhile_length [simp]: "drop (length (takeWhile P xs)) xs = dropWhile P xs"
  by (simp add: dropWhile_eq_drop)

lemma dropWhile_Nil_iff: "dropWhile P xs = [] \<longleftrightarrow> (\<forall>x \<in> set xs. P x)"
  by simp

subsection \<open>The interface of a keyed store\<close>

text \<open>
  Several components keep a table from keys to values: the kill store (key to register), the
  keymap table (key sequence to action), the alias and the variable tables of the shell.  Each
  promises the same three laws; what a run of writes leaves behind is proved once, here.
\<close>

locale keyed_store =
  fixes put :: "'k \<Rightarrow> 'v \<Rightarrow> 's \<Rightarrow> 's"
    and get :: "'s \<Rightarrow> 'k \<Rightarrow> 'v option"
    and inv :: "'s \<Rightarrow> bool"
  assumes get_put_same: "inv s \<Longrightarrow> get (put k v s) k = Some v"
    and get_put_other: "inv s \<Longrightarrow> k \<noteq> j \<Longrightarrow> get (put k v s) j = get s j"
    and inv_put: "inv s \<Longrightarrow> inv (put k v s)"
begin

lemma get_put: "inv s \<Longrightarrow> get (put k v s) = (get s)(k \<mapsto> v)"
  by (rule ext) (auto simp: get_put_same get_put_other)

lemma inv_puts: "inv s \<Longrightarrow> inv (fold (\<lambda>(k, v). put k v) kvs s)"
  by (induction kvs arbitrary: s) (auto simp: inv_put split: prod.splits)

lemma get_puts:
  "inv s \<Longrightarrow> get (fold (\<lambda>(k, v). put k v) kvs s) = get s ++ map_of (rev kvs)"
proof (induction kvs arbitrary: s)
  case Nil
  then show ?case by simp
next
  case (Cons kv kvs)
  obtain k v where kv: "kv = (k, v)" by (cases kv)
  have "get (fold (\<lambda>(k, v). put k v) (kv # kvs) s) = get (put k v s) ++ map_of (rev kvs)"
    using Cons.IH [OF inv_put [OF Cons.prems]] kv by simp
  also have "\<dots> = (get s)(k \<mapsto> v) ++ map_of (rev kvs)"
    by (simp add: get_put Cons.prems)
  also have "\<dots> = get s ++ map_of (rev (kv # kvs))"
    by (rule ext) (auto simp: kv map_add_def split: option.splits)
  finally show ?case .
qed

lemma put_idem: "inv s \<Longrightarrow> get (put k v (put k w s)) = get (put k v s)"
  by (simp add: get_put inv_put)

lemma put_commute:
  "inv s \<Longrightarrow> k \<noteq> j \<Longrightarrow> get (put k v (put j w s)) = get (put j w (put k v s))"
  by (simp add: get_put inv_put fun_upd_twist)

end

end
