(* ===== verification/CharUtils.thy ===== *)
theory CharUtils
  imports Base
begin

text \<open>
  \<^verbatim>\<open>src/substrate/char_utils.h\<close>: the two name alphabets, variable names and the snake-case names of
  bindings and prompt modules.  The two 256-entry tables of the code are their index sets.
\<close>

definition ascii_lower :: "char \<Rightarrow> bool" where
  [byte_simps]: "ascii_lower c \<longleftrightarrow> 97 \<le> ubyte c \<and> ubyte c \<le> 122"

definition ascii_upper :: "char \<Rightarrow> bool" where
  [byte_simps]: "ascii_upper c \<longleftrightarrow> 65 \<le> ubyte c \<and> ubyte c \<le> 90"

definition ascii_digit :: "char \<Rightarrow> bool" where
  [byte_simps]: "ascii_digit c \<longleftrightarrow> 48 \<le> ubyte c \<and> ubyte c \<le> 57"

definition is_snake_case :: "string \<Rightarrow> bool" where
  "is_snake_case name =
     (if name = [] \<or> \<not> ascii_lower (hd name) then False
      else list_all (\<lambda>one. ascii_lower one \<or> ascii_digit one \<or> one = CHR ''_'') name)"

definition is_valid_var_name_first_char :: "char \<Rightarrow> bool" where
  "is_valid_var_name_first_char c \<longleftrightarrow>
     c \<in> set ''ABCDEFGHIJKLMNOPQRSTUVWXYZabcdefghijklmnopqrstuvwxyz_''"

definition is_valid_var_name_non_first_char :: "char \<Rightarrow> bool" where
  "is_valid_var_name_non_first_char c \<longleftrightarrow>
     c \<in> set ''ABCDEFGHIJKLMNOPQRSTUVWXYZabcdefghijklmnopqrstuvwxyz_0123456789''"

lemma var_name_first_is_non_first [intro]:
  "is_valid_var_name_first_char c \<Longrightarrow> is_valid_var_name_non_first_char c"
  by (auto simp: is_valid_var_name_first_char_def is_valid_var_name_non_first_char_def)

lemma snake_case_is_var_name:
  assumes "is_snake_case s" "c \<in> set s"
  shows "ascii_lower c \<or> ascii_digit c \<or> c = CHR ''_''"
  using assms by (auto simp: is_snake_case_def list_all_iff split: if_splits)

end
