(* ===== verification/Numeric.thy ===== *)
theory Numeric
  imports Base
begin

text \<open>
  \<^verbatim>\<open>src/substrate/numeric.h\<close>: the one reader of numeric operands.  The policy table is a list in
  the enumerators' order, \<open>accumulate_digit\<close> works on \<open>uint64_t\<close> (\<open>64 word\<close>, so its
  multiplication and addition would wrap), and \<open>parse_integer\<close> negates in the unsigned domain.
  The lemmas show that no operation ever wraps, that the scan clamps exactly, and that
  \<open>parse_integer\<close> agrees with a reading of the text over the mathematical integers.
\<close>

datatype numeric_parse = Num_ok | Not_a_number | Out_of_range

record numeric_result =
  nr_status :: numeric_parse
  nr_value :: i64

definition numeric_result_init :: numeric_result where
  "numeric_result_init = \<lparr>nr_status = Not_a_number, nr_value = 0\<rparr>"

datatype numeric_blanks = Blanks_none | Space_tab | Whitespace

datatype numeric_site =
    Arithmetic_literal | Variable_as_number | Test_operand | Trap_signal_number
  | Kill_list_operand | Kill_pid_operand | Optind | Loop_flow_level | Exit_status
  | Return_status | Shift_count | Wait_pid_operand | Redirection_target_fd
  | Redirection_word_fd | Positional_parameter_index | Csi_parameter
  | Editor_repeat_count | Option_argument

record numeric_policy =
  np_site :: numeric_site
  np_low :: i64
  np_high :: i64
  np_sign :: bool
  np_blanks :: numeric_blanks

definition int64_max :: i64 where "int64_max = 9223372036854775807"
definition int64_min :: i64 where "int64_min = - 9223372036854775808"
definition kNumericIntMax :: i64 where "kNumericIntMax = 2147483647"
definition kNumericIntMin :: i64 where "kNumericIntMin = - 2147483647 - 1"
definition kNumericUnsignedMax :: i64 where "kNumericUnsignedMax = 4294967295"

abbreviation policy_row ::
  "numeric_site \<Rightarrow> i64 \<Rightarrow> i64 \<Rightarrow> bool \<Rightarrow> numeric_blanks \<Rightarrow> numeric_policy" where
  "policy_row s lo hi sg bl \<equiv>
     \<lparr>np_site = s, np_low = lo, np_high = hi, np_sign = sg, np_blanks = bl\<rparr>"

definition kNumericPolicies :: "numeric_policy list" where
  "kNumericPolicies =
    [policy_row Arithmetic_literal 0 int64_max False Blanks_none,
     policy_row Variable_as_number int64_min int64_max True Blanks_none,
     policy_row Test_operand int64_min int64_max True Whitespace,
     policy_row Trap_signal_number 0 kNumericIntMax False Blanks_none,
     policy_row Kill_list_operand 0 kNumericIntMax False Blanks_none,
     policy_row Kill_pid_operand (- kNumericIntMax) kNumericIntMax True Space_tab,
     policy_row Optind 0 int64_max False Blanks_none,
     policy_row Loop_flow_level 0 kNumericIntMax False Blanks_none,
     policy_row Exit_status kNumericIntMin kNumericIntMax True Blanks_none,
     policy_row Return_status kNumericIntMin kNumericIntMax True Blanks_none,
     policy_row Shift_count 0 kNumericIntMax False Blanks_none,
     policy_row Wait_pid_operand 0 kNumericIntMax False Blanks_none,
     policy_row Redirection_target_fd 0 kNumericIntMax False Blanks_none,
     policy_row Redirection_word_fd 0 kNumericIntMax False Blanks_none,
     policy_row Positional_parameter_index 0 int64_max False Blanks_none,
     policy_row Csi_parameter 0 kNumericUnsignedMax False Blanks_none,
     policy_row Editor_repeat_count 0 kNumericIntMax False Blanks_none,
     policy_row Option_argument int64_min int64_max True Blanks_none]"

text \<open>The enumerators' numeric values, in the order of the enum.\<close>

fun site_index :: "numeric_site \<Rightarrow> nat" where
  "site_index Arithmetic_literal = 0"
| "site_index Variable_as_number = 1"
| "site_index Test_operand = 2"
| "site_index Trap_signal_number = 3"
| "site_index Kill_list_operand = 4"
| "site_index Kill_pid_operand = 5"
| "site_index Optind = 6"
| "site_index Loop_flow_level = 7"
| "site_index Exit_status = 8"
| "site_index Return_status = 9"
| "site_index Shift_count = 10"
| "site_index Wait_pid_operand = 11"
| "site_index Redirection_target_fd = 12"
| "site_index Redirection_word_fd = 13"
| "site_index Positional_parameter_index = 14"
| "site_index Csi_parameter = 15"
| "site_index Editor_repeat_count = 16"
| "site_index Option_argument = 17"

definition policy_for :: "numeric_site \<Rightarrow> numeric_policy" where
  "policy_for s = kNumericPolicies ! site_index s"

definition numeric_policies_are_ordered :: bool where
  "numeric_policies_are_ordered \<longleftrightarrow>
     list_all (\<lambda>i. site_index (np_site (kNumericPolicies ! i)) = i) [0..<length kNumericPolicies]"

definition numeric_limit :: "numeric_policy \<Rightarrow> bool \<Rightarrow> u64" where
  "numeric_limit p negative = (if negative then 0 - np_low p else np_high p)"

text \<open>\<open>accumulate_digit\<close> returns its flag and the updated accumulator.\<close>

definition accumulate_digit :: "u64 \<Rightarrow> u64 \<Rightarrow> u64 \<Rightarrow> u64 \<Rightarrow> bool \<times> u64" where
  "accumulate_digit value digit base limit =
     (if digit > limit \<or> value > (limit - digit) div base then (False, limit)
      else (True, value * base + digit))"

definition digit_value :: "char \<Rightarrow> u64 \<Rightarrow> int" where
  "digit_value c base =
     (let n = ubyte c;
          digit = (if 48 \<le> n \<and> n \<le> 57 then int n - 48
                   else if 97 \<le> n \<and> n \<le> 102 then int n - 97 + 10
                   else if 65 \<le> n \<and> n \<le> 70 then int n - 65 + 10
                   else - 1)
      in if digit \<ge> 0 \<and> (word_of_int digit :: u64) < base then digit else - 1)"

record digit_run =
  dr_consumed :: nat
  dr_value :: u64
  dr_overflowed :: bool

fun scan_digits_loop :: "string \<Rightarrow> u64 \<Rightarrow> u64 \<Rightarrow> digit_run \<Rightarrow> digit_run" where
  "scan_digits_loop [] base limit run = run"
| "scan_digits_loop (c # cs) base limit run =
     (if digit_value c base < 0 then run
      else (case accumulate_digit (dr_value run) (word_of_int (digit_value c base)) base limit of
              (ok, v) \<Rightarrow>
                scan_digits_loop cs base limit
                  (run\<lparr>dr_consumed := Suc (dr_consumed run), dr_value := v,
                       dr_overflowed := (dr_overflowed run \<or> \<not> ok)\<rparr>)))"

definition scan_digits :: "string \<Rightarrow> u64 \<Rightarrow> u64 \<Rightarrow> digit_run" where
  "scan_digits text base limit =
     scan_digits_loop text base limit \<lparr>dr_consumed = 0, dr_value = 0, dr_overflowed = False\<rparr>"

fun is_blank :: "char \<Rightarrow> numeric_blanks \<Rightarrow> bool" where
  "is_blank c Blanks_none = False"
| "is_blank c Space_tab = (c = CHR '' '' \<or> c = CHR 0x09)"
| "is_blank c Whitespace = (c = CHR '' '' \<or> c = CHR 0x09 \<or> c = CHR 0x0A)"

text \<open>
  The whole-string form.  The index \<open>at\<close> of the code is the suffix still to be read.
\<close>

definition parse_integer :: "string \<Rightarrow> numeric_site \<Rightarrow> numeric_result" where
  "parse_integer text site =
     (let policy = policy_for site;
          t1 = dropWhile (\<lambda>c. is_blank c (np_blanks policy)) text;
          signed = (np_sign policy \<and> t1 \<noteq> [] \<and> (hd t1 = CHR ''-'' \<or> hd t1 = CHR ''+''));
          negative = (signed \<and> hd t1 = CHR ''-'');
          t2 = (if signed then tl t1 else t1);
          limit = numeric_limit policy negative;
          run = scan_digits t2 10 limit;
          t3 = drop (dr_consumed run) t2
      in if dr_consumed run = 0 then numeric_result_init
         else if dropWhile (\<lambda>c. is_blank c (np_blanks policy)) t3 \<noteq> [] then numeric_result_init
         else \<lparr>nr_status = (if dr_overflowed run then Out_of_range else Num_ok),
               nr_value = (if negative then 0 - dr_value run else dr_value run)\<rparr>)"

subsection \<open>The policy table\<close>

lemma policy_for_rows [simp]:
  "policy_for Arithmetic_literal = policy_row Arithmetic_literal 0 int64_max False Blanks_none"
  "policy_for Variable_as_number = policy_row Variable_as_number int64_min int64_max True Blanks_none"
  "policy_for Test_operand = policy_row Test_operand int64_min int64_max True Whitespace"
  "policy_for Trap_signal_number = policy_row Trap_signal_number 0 kNumericIntMax False Blanks_none"
  "policy_for Kill_list_operand = policy_row Kill_list_operand 0 kNumericIntMax False Blanks_none"
  "policy_for Kill_pid_operand =
     policy_row Kill_pid_operand (- kNumericIntMax) kNumericIntMax True Space_tab"
  "policy_for Optind = policy_row Optind 0 int64_max False Blanks_none"
  "policy_for Loop_flow_level = policy_row Loop_flow_level 0 kNumericIntMax False Blanks_none"
  "policy_for Exit_status = policy_row Exit_status kNumericIntMin kNumericIntMax True Blanks_none"
  "policy_for Return_status = policy_row Return_status kNumericIntMin kNumericIntMax True Blanks_none"
  "policy_for Shift_count = policy_row Shift_count 0 kNumericIntMax False Blanks_none"
  "policy_for Wait_pid_operand = policy_row Wait_pid_operand 0 kNumericIntMax False Blanks_none"
  "policy_for Redirection_target_fd = policy_row Redirection_target_fd 0 kNumericIntMax False Blanks_none"
  "policy_for Redirection_word_fd = policy_row Redirection_word_fd 0 kNumericIntMax False Blanks_none"
  "policy_for Positional_parameter_index =
     policy_row Positional_parameter_index 0 int64_max False Blanks_none"
  "policy_for Csi_parameter = policy_row Csi_parameter 0 kNumericUnsignedMax False Blanks_none"
  "policy_for Editor_repeat_count = policy_row Editor_repeat_count 0 kNumericIntMax False Blanks_none"
  "policy_for Option_argument = policy_row Option_argument int64_min int64_max True Blanks_none"
  by (simp_all add: policy_for_def kNumericPolicies_def)

lemmas numeric_bounds =
  int64_max_def int64_min_def kNumericIntMax_def kNumericIntMin_def kNumericUnsignedMax_def

lemma policy_high: "0 \<le> sint (np_high (policy_for s)) \<and> unat (np_high (policy_for s)) < 2 ^ 63"
  by (cases s) (simp_all add: numeric_bounds)

lemma policy_low:
  "np_sign (policy_for s) \<Longrightarrow>
     sint (np_low (policy_for s)) < 0 \<and>
     int (unat (0 - np_low (policy_for s))) = - sint (np_low (policy_for s))"
  by (cases s) (simp_all add: numeric_bounds)

lemma policy_low_le: "sint (np_low (policy_for s)) \<le> 0 \<and> - (2 ^ 63) \<le> sint (np_low (policy_for s))"
  by (cases s) (simp_all add: numeric_bounds)

subsection \<open>One digit\<close>

lemma gt_div_iff:
  fixes v l b d :: nat
  assumes "0 < b" "d \<le> l"
  shows "(l - d) div b < v \<longleftrightarrow> l < v * b + d"
proof -
  have "(l - d) div b < v \<longleftrightarrow> l - d < v * b"
    using assms(1) by (simp add: div_less_iff_less_mult)
  then show ?thesis using assms(2) by linarith
qed

lemma accumulate_digit_unat:
  fixes v digit base limit :: u64
  assumes b: "0 < base"
  defines "r \<equiv> unat v * unat base + unat digit"
  shows "fst (accumulate_digit v digit base limit) \<longleftrightarrow> r \<le> unat limit"
    and "unat (snd (accumulate_digit v digit base limit)) = min r (unat limit)"
proof -
  have b': "0 < unat base" using b by (simp add: unat_gt_0 word_gt_0)
  have main: "fst (accumulate_digit v digit base limit) = (r \<le> unat limit) \<and>
    unat (snd (accumulate_digit v digit base limit)) = min r (unat limit)"
  proof (cases "digit > limit")
    case True
    then have "unat limit < unat digit" by (simp add: word_less_nat_alt)
    then have "unat limit < r" unfolding r_def by linarith
    with True show ?thesis by (simp add: accumulate_digit_def)
  next
    case False
    then have d: "unat digit \<le> unat limit" by (simp add: word_le_nat_alt not_less)
    have cmp: "v > (limit - digit) div base \<longleftrightarrow> unat limit < r"
      using False d gt_div_iff [OF b' d, of "unat v"]
      by (simp add: word_less_nat_alt unat_div unat_sub r_def not_less word_le_nat_alt)
    show ?thesis
    proof (cases "unat limit < r")
      case True
      with cmp show ?thesis by (simp add: accumulate_digit_def)
    next
      case small: False
      have "unat limit < 2 ^ LENGTH(64)" by (rule unsigned_less)
      with small have lt: "r < 2 ^ 64" by simp
      then have m: "unat (v * base) = unat v * unat base"
        using unat_mult_lem [of v base] by (simp add: r_def)
      have "unat (v * base + digit) = r"
        using unat_add_lem [of "v * base" digit] m lt by (simp add: r_def)
      with False small cmp show ?thesis by (simp add: accumulate_digit_def)
    qed
  qed
  show "fst (accumulate_digit v digit base limit) \<longleftrightarrow> r \<le> unat limit"
    and "unat (snd (accumulate_digit v digit base limit)) = min r (unat limit)"
    using main by blast+
qed

subsection \<open>A run of digits\<close>

definition digit_nat :: "u64 \<Rightarrow> char \<Rightarrow> nat" where
  "digit_nat base c = nat (digit_value c base)"

definition is_digit_of :: "u64 \<Rightarrow> char \<Rightarrow> bool" where
  "is_digit_of base c \<longleftrightarrow> 0 \<le> digit_value c base"

definition digits_from :: "u64 \<Rightarrow> nat \<Rightarrow> string \<Rightarrow> nat" where
  "digits_from base n ds = foldl (\<lambda>v c. v * unat base + digit_nat base c) n ds"

lemma digits_from_simps [simp]:
  "digits_from base n [] = n"
  "digits_from base n (c # ds) = digits_from base (n * unat base + digit_nat base c) ds"
  by (simp_all add: digits_from_def)

lemma digits_from_append:
  "digits_from base n (xs @ ys) = digits_from base (digits_from base n xs) ys"
  by (simp add: digits_from_def)

lemma digit_value_bound: "digit_value c base < 16"
  by (simp add: digit_value_def Let_def)

lemma unat_digit: "is_digit_of base c \<Longrightarrow> unat (word_of_int (digit_value c base) :: u64) = digit_nat base c"
  using digit_value_bound [of c base]
  by (simp add: digit_nat_def is_digit_of_def unat_eq_nat_uint uint_word_of_int_eq take_bit_int_eq_self)

lemma scan_digits_loop_spec:
  fixes cs :: string
  assumes b: "0 < base"
    and v: "unat (dr_value run) = min n (unat limit)"
    and ov: "dr_overflowed run \<longleftrightarrow> unat limit < n"
  defines "ds \<equiv> takeWhile (is_digit_of base) cs"
  shows "dr_consumed (scan_digits_loop cs base limit run) = dr_consumed run + length ds \<and>
    unat (dr_value (scan_digits_loop cs base limit run)) = min (digits_from base n ds) (unat limit) \<and>
    (dr_overflowed (scan_digits_loop cs base limit run) \<longleftrightarrow> unat limit < digits_from base n ds)"
  using v ov unfolding ds_def
proof (induction cs arbitrary: run n)
  case Nil
  then show ?case by simp
next
  case (Cons c cs)
  show ?case
  proof (cases "is_digit_of base c")
    case False
    with Cons.prems show ?thesis by (simp add: is_digit_of_def)
  next
    case True
    let ?d = "word_of_int (digit_value c base) :: u64"
    let ?n = "n * unat base + digit_nat base c"
    obtain ok w where acc: "accumulate_digit (dr_value run) ?d base limit = (ok, w)"
      by (cases "accumulate_digit (dr_value run) ?d base limit")
    have pos: "1 \<le> unat base" using b by (simp add: unat_gt_0 word_gt_0 Suc_leI)
    have clip: "min (min n l * unat base + d) l = min (n * unat base + d) l" for l d :: nat
    proof (cases "n \<le> l")
      case False
      then have "l * 1 \<le> l * unat base" "l * unat base \<le> n * unat base"
        using pos by (auto intro: mult_le_mono)
      then have "l \<le> l * unat base + d" "l \<le> n * unat base + d" by linarith+
      with False show ?thesis by (simp add: min_absorb2)
    qed simp
    have w: "unat w = min ?n (unat limit)"
      using accumulate_digit_unat(2) [OF b, of "dr_value run" ?d limit] acc Cons.prems(1)
        unat_digit [OF True] clip by simp
    have ok: "ok \<longleftrightarrow> min n (unat limit) * unat base + digit_nat base c \<le> unat limit"
      using accumulate_digit_unat(1) [OF b, of "dr_value run" ?d limit] acc Cons.prems(1)
        unat_digit [OF True] by simp
    have step: "(dr_overflowed run \<or> \<not> ok) \<longleftrightarrow> unat limit < ?n"
    proof (cases "n \<le> unat limit")
      case True
      with ok Cons.prems(2) show ?thesis by auto
    next
      case False
      from pos have "n \<le> n * unat base" by simp
      with False have "unat limit < ?n" by linarith
      with False Cons.prems(2) show ?thesis by simp
    qed
    let ?run = "run\<lparr>dr_consumed := Suc (dr_consumed run), dr_value := w,
        dr_overflowed := (dr_overflowed run \<or> \<not> ok)\<rparr>"
    have "scan_digits_loop (c # cs) base limit run = scan_digits_loop cs base limit ?run"
      using True acc by (simp add: is_digit_of_def)
    with Cons.IH [of ?run ?n] w step True show ?thesis by simp
  qed
qed

lemma scan_digits_spec:
  assumes "0 < base"
  shows "dr_consumed (scan_digits s base limit) = length (takeWhile (is_digit_of base) s)"
    and "unat (dr_value (scan_digits s base limit)) =
      min (digits_from base 0 (takeWhile (is_digit_of base) s)) (unat limit)"
    and "dr_overflowed (scan_digits s base limit) \<longleftrightarrow>
      unat limit < digits_from base 0 (takeWhile (is_digit_of base) s)"
  using scan_digits_loop_spec [OF assms, of "\<lparr>dr_consumed = 0, dr_value = 0, dr_overflowed = False\<rparr>"
      0 limit s]
  by (simp_all add: scan_digits_def)

lemma is_digit_of_ten: "is_digit_of 10 c \<longleftrightarrow> 48 \<le> ubyte c \<and> ubyte c \<le> 57"
  by (auto simp: is_digit_of_def digit_value_def Let_def word_less_def uint_word_of_int_eq
      take_bit_int_eq_self)

lemma digit_nat_ten: "is_digit_of 10 c \<Longrightarrow> digit_nat 10 c = ubyte c - 48"
  unfolding is_digit_of_ten
  by (simp add: digit_nat_def digit_value_def Let_def word_less_def uint_word_of_int_eq
      take_bit_int_eq_self)

subsection \<open>The whole operand\<close>

text \<open>
  The reading of an operand over the mathematical integers: blanks, an optional sign, decimal
  digits, blanks, nothing else; a value outside the policy's range is clamped to it.
\<close>

definition read_operand :: "string \<Rightarrow> numeric_policy \<Rightarrow> numeric_parse \<times> int" where
  "read_operand s p =
     (let t1 = dropWhile (\<lambda>c. is_blank c (np_blanks p)) s;
          signed = (np_sign p \<and> t1 \<noteq> [] \<and> (hd t1 = CHR ''-'' \<or> hd t1 = CHR ''+''));
          t2 = (if signed then tl t1 else t1);
          ds = takeWhile (is_digit_of 10) t2;
          n = (if signed \<and> hd t1 = CHR ''-'' then - int (digits_from 10 0 ds)
               else int (digits_from 10 0 ds))
      in if ds = [] \<or> dropWhile (\<lambda>c. is_blank c (np_blanks p)) (dropWhile (is_digit_of 10) t2) \<noteq> []
         then (Not_a_number, 0)
         else if n < sint (np_low p) then (Out_of_range, sint (np_low p))
         else if sint (np_high p) < n then (Out_of_range, sint (np_high p))
         else (Num_ok, n))"

lemma nat_int_63: "(n :: nat) < 2 ^ 63 \<longleftrightarrow> int n < 2 ^ 63" "n \<le> 2 ^ 63 \<longleftrightarrow> int n \<le> 2 ^ 63"
proof -
  have e: "(2 :: int) ^ 63 = int (2 ^ 63)" by simp
  show "n < 2 ^ 63 \<longleftrightarrow> int n < 2 ^ 63" unfolding e by (simp only: of_nat_less_iff)
  show "n \<le> 2 ^ 63 \<longleftrightarrow> int n \<le> 2 ^ 63" unfolding e by (simp only: of_nat_le_iff)
qed

lemma sint_small:
  assumes "unat (v :: i64) < 2 ^ 63"
  shows "sint v = int (unat v)"
proof -
  have "sint (word_of_int (int (unat v)) :: i64) = int (unat v)"
    by (rule sint64_of_int) (use assms [unfolded nat_int_63] in linarith)+
  then show ?thesis by simp
qed

lemma sint_neg:
  assumes "unat (v :: i64) \<le> 2 ^ 63"
  shows "sint (0 - v) = - int (unat v)"
proof -
  have "sint (word_of_int (- int (unat v)) :: i64) = - int (unat v)"
  proof (rule sint64_of_int)
    show "- (2 ^ 63) \<le> - int (unat v)" using assms [unfolded nat_int_63] by linarith
    have "(0 :: int) < 2 ^ 63" by simp
    then show "- int (unat v) < 2 ^ 63" by linarith
  qed
  then show ?thesis by simp
qed

lemma parse_integer_reads:
  "(nr_status (parse_integer s site), sint (nr_value (parse_integer s site))) =
     read_operand s (policy_for site)"
proof -
  let ?p = "policy_for site"
  define t1 where "t1 = dropWhile (\<lambda>c. is_blank c (np_blanks ?p)) s"
  define sg where "sg \<longleftrightarrow> np_sign ?p \<and> t1 \<noteq> [] \<and> (hd t1 = CHR ''-'' \<or> hd t1 = CHR ''+'')"
  define neg where "neg \<longleftrightarrow> sg \<and> hd t1 = CHR ''-''"
  define t2 where "t2 = (if sg then tl t1 else t1)"
  define ds where "ds = takeWhile (is_digit_of 10) t2"
  define L where "L = numeric_limit ?p neg"
  define run where "run = scan_digits t2 10 L"
  define N where "N = digits_from 10 0 ds"
  have run: "dr_consumed run = length ds" "unat (dr_value run) = min N (unat L)"
    "dr_overflowed run \<longleftrightarrow> unat L < N"
    using scan_digits_spec [of 10 t2 L] by (simp_all add: run_def ds_def N_def)
  have rest: "drop (dr_consumed run) t2 = dropWhile (is_digit_of 10) t2"
    by (simp add: run ds_def)
  have code: "parse_integer s site =
    (if ds = [] then numeric_result_init
     else if dropWhile (\<lambda>c. is_blank c (np_blanks ?p)) (dropWhile (is_digit_of 10) t2) \<noteq> []
     then numeric_result_init
     else \<lparr>nr_status = (if dr_overflowed run then Out_of_range else Num_ok),
           nr_value = (if neg then 0 - dr_value run else dr_value run)\<rparr>)"
    unfolding parse_integer_def Let_def t1_def [symmetric] sg_def [symmetric] neg_def [symmetric]
      t2_def [symmetric] L_def [symmetric] run_def [symmetric] rest by (simp add: run)
  define n where "n = (if neg then - int N else int N)"
  have spec: "read_operand s ?p =
    (if ds = [] \<or> dropWhile (\<lambda>c. is_blank c (np_blanks ?p)) (dropWhile (is_digit_of 10) t2) \<noteq> []
         then (Not_a_number, 0)
         else if n < sint (np_low ?p) then (Out_of_range, sint (np_low ?p))
         else if sint (np_high ?p) < n then (Out_of_range, sint (np_high ?p))
         else (Num_ok, n))"
    unfolding read_operand_def Let_def t1_def [symmetric] sg_def [symmetric] neg_def [symmetric]
      t2_def [symmetric] ds_def [symmetric] N_def [symmetric] n_def [symmetric] ..
  have val: "(if dr_overflowed run then Out_of_range else Num_ok,
       sint (if neg then 0 - dr_value run else dr_value run)) =
     (if n < sint (np_low ?p) then (Out_of_range, sint (np_low ?p))
      else if sint (np_high ?p) < n then (Out_of_range, sint (np_high ?p)) else (Num_ok, n))"
  proof (cases neg)
    case True
    obtain l where l: "unat L = l" by blast
    from True have L: "int l = - sint (np_low ?p)"
      using policy_low [of site] by (auto simp: neg_def sg_def L_def numeric_limit_def l [symmetric])
    then have "int l \<le> 2 ^ 63" using policy_low_le [of site] by linarith
    then have "l \<le> 2 ^ 63" by (simp only: nat_int_63)
    then have "sint (0 - dr_value run) = - int (min N l)"
      by (subst sint_neg) (simp_all add: run l)
    with True L run(3) [unfolded l] policy_high [of site] show ?thesis
      by (simp add: n_def min_def)
  next
    case False
    obtain l where l: "unat L = l" by blast
    from False have L: "l < 2 ^ 63" "sint (np_high ?p) = int l"
      using policy_high [of site] sint_small [of "np_high ?p"]
      by (auto simp: L_def numeric_limit_def l [symmetric])
    then have "sint (dr_value run) = int (min N l)"
      by (subst sint_small) (simp_all add: run l)
    with False L run(3) [unfolded l] policy_low_le [of site] show ?thesis
      by (simp add: n_def min_def)
  qed
  show ?thesis unfolding spec code using val by (simp add: numeric_result_init_def)
qed

subsection \<open>Decimal rendering, and the round trip\<close>

text \<open>\<open>std::to_string\<close> of an \<open>int64_t\<close> or a \<open>size_t\<close>.\<close>

fun nat_decimal :: "nat \<Rightarrow> string" where
  "nat_decimal n =
     (if n < 10 then [char_of (48 + n)] else nat_decimal (n div 10) @ [char_of (48 + n mod 10)])"

declare nat_decimal.simps [simp del]

definition to_decimal :: "int \<Rightarrow> string" where
  "to_decimal i = (if i < 0 then CHR ''-'' # nat_decimal (nat (- i)) else nat_decimal (nat i))"

lemma decimal_char: "d < 10 \<Longrightarrow> is_digit_of 10 (char_of (48 + d :: nat)) \<and> digit_nat 10 (char_of (48 + d)) = d"
  using digit_nat_ten [of "char_of (48 + d)"] by (simp add: is_digit_of_ten)

lemma nat_decimal_small: "n < 10 \<Longrightarrow> nat_decimal n = [char_of (48 + n)]"
  by (subst nat_decimal.simps) simp

lemma nat_decimal_big:
  "\<not> n < 10 \<Longrightarrow> nat_decimal n = nat_decimal (n div 10) @ [char_of (48 + n mod 10)]"
  by (subst nat_decimal.simps) simp

lemma nat_decimal_digits: "list_all (is_digit_of 10) (nat_decimal n) \<and> nat_decimal n \<noteq> []"
proof (induction n rule: nat_decimal.induct)
  case (1 n)
  then show ?case
    by (cases "n < 10") (simp_all add: nat_decimal_small nat_decimal_big decimal_char)
qed

lemma nat_decimal_value: "digits_from 10 0 (nat_decimal n) = n"
proof (induction n rule: nat_decimal.induct)
  case (1 n)
  then show ?case
    by (cases "n < 10")
      (simp_all add: nat_decimal_small nat_decimal_big digits_from_append decimal_char)
qed

lemma blank_not_digit: "is_blank c b \<Longrightarrow> \<not> is_digit_of 10 c"
  by (cases b) (auto simp: is_digit_of_ten ubyte_def)

lemma sign_not_blank: "\<not> is_blank (CHR ''-'') b"
  by (cases b) simp_all

lemma digit_not_sign: "is_digit_of 10 c \<Longrightarrow> c \<noteq> CHR ''-'' \<and> c \<noteq> CHR ''+''"
  by (auto simp: is_digit_of_ten ubyte_def)

lemma read_operand_decimal:
  assumes "sint (np_low p) \<le> i" "i \<le> sint (np_high p)" "i < 0 \<Longrightarrow> np_sign p"
  shows "read_operand (to_decimal i) p = (Num_ok, i)"
proof -
  define m where "m = nat_decimal (nat \<bar>i\<bar>)"
  have ds: "takeWhile (is_digit_of 10) m = m" "dropWhile (is_digit_of 10) m = []"
    and ne: "m \<noteq> []"
    using nat_decimal_digits [of "nat \<bar>i\<bar>"] by (simp_all add: list_all_iff m_def)
  then have hd: "is_digit_of 10 (hd m)"
    using nat_decimal_digits [of "nat \<bar>i\<bar>"] by (cases m) (simp_all add: m_def [symmetric])
  have val: "digits_from 10 0 m = nat \<bar>i\<bar>" by (simp add: m_def nat_decimal_value)
  show ?thesis
  proof (cases "i < 0")
    case True
    then have t: "to_decimal i = CHR ''-'' # m" by (simp add: to_decimal_def m_def)
    show ?thesis
      unfolding read_operand_def t Let_def
      using True assms val ne by (simp add: sign_not_blank ds)
  next
    case False
    then have t: "to_decimal i = m" by (simp add: to_decimal_def m_def)
    have d: "dropWhile (\<lambda>c. is_blank c (np_blanks p)) m = m"
      using ne hd blank_not_digit by (cases m) auto
    show ?thesis
      unfolding read_operand_def t Let_def d
      using False assms val ne digit_not_sign [OF hd] by (simp add: ds)
  qed
qed

lemma parse_integer_decimal:
  assumes "sint (np_low (policy_for site)) \<le> i" "i \<le> sint (np_high (policy_for site))"
  shows "parse_integer (to_decimal i) site = \<lparr>nr_status = Num_ok, nr_value = word_of_int i\<rparr>"
proof -
  have "i < 0 \<Longrightarrow> np_sign (policy_for site)"
    using assms(1) by (cases site) simp_all
  then have "(nr_status (parse_integer (to_decimal i) site), sint (nr_value (parse_integer (to_decimal i) site)))
      = (Num_ok, i)"
    using assms by (simp add: parse_integer_reads read_operand_decimal)
  then show ?thesis
    by (cases "parse_integer (to_decimal i) site") (auto simp: word_of_int_eq_iff [symmetric])
qed

subsection \<open>Properties\<close>

text \<open>C1: the numeric reader, on every text and at every site of the shell, agrees with reading the
  operand over the unbounded integers: no arithmetic of the implementation wraps, a malformed
  operand is \<open>Not_a_number\<close> with value 0, and a value outside the site's range is
  \<open>Out_of_range\<close> with the range's nearest bound.\<close>
theorem parse_integer_correct:
  "(nr_status (parse_integer s site), sint (nr_value (parse_integer s site))) =
     read_operand s (policy_for site)"
  by (rule parse_integer_reads)

text \<open>The digit scanner takes exactly the leading run of digits of the base, clamps the value of
  the run at the limit, and reports the overflow exactly when the true value exceeds the limit.\<close>
theorem scan_digits_clamps:
  assumes "0 < base"
  shows "let ds = takeWhile (is_digit_of base) s; run = scan_digits s base limit in
    dr_consumed run = length ds \<and>
    unat (dr_value run) = min (digits_from base 0 ds) (unat limit) \<and>
    (dr_overflowed run \<longleftrightarrow> unat limit < digits_from base 0 ds)"
  using scan_digits_spec [OF assms] by (simp add: Let_def)

theorem scan_digits_clamps_witness:
  "unat (dr_value (scan_digits ''300x'' 10 255)) = 255 \<and> dr_consumed (scan_digits ''300x'' 10 255) = 3"
proof -
  have b: "(0 :: u64) < 10" by simp
  have "takeWhile (is_digit_of 10) ''300x'' = ''300''" by (simp add: is_digit_of_ten ubyte_def)
  moreover have "digits_from 10 0 ''300'' = 300"
    by (simp add: digit_nat_ten is_digit_of_ten ubyte_def)
  ultimately show ?thesis
    using scan_digits_clamps [OF b, of "''300x''" 255] by (simp add: Let_def)
qed

text \<open>Every \<open>int64_t\<close>, the least one included, survives being written as a decimal variable value
  and read back as a number.\<close>
theorem variable_number_roundtrip:
  "parse_integer (to_decimal (sint w)) Variable_as_number = \<lparr>nr_status = Num_ok, nr_value = w\<rparr>"
proof -
  have "- (2 ^ 63) \<le> sint w" "sint w < 2 ^ 63" using sint64_range [of w] by auto
  then show ?thesis
    using parse_integer_decimal [of Variable_as_number "sint w"] by (simp add: numeric_bounds)
qed

end
