(* ===== verification/Pattern.thy ===== *)
theory Pattern
  imports Base
begin

text \<open>
  \<^verbatim>\<open>src/runtime/pattern.h\<close> and \<^verbatim>\<open>pattern.cpp\<close>: the shell's one pattern matcher.  An index into
  the pattern or the text of the code is the suffix that begins there; \<open>match_loop\<close> keeps the
  last \<open>*\<close> and the text position to resume from, as \<open>match_here\<close> does.  The lemmas give the
  matcher a declarative meaning (\<open>matches\<close>) and prove the one-star backtracking sound and
  complete for it, and show what the two gates \<open>is_pattern\<close> and \<open>has_pattern_characters\<close>
  promise.
\<close>

definition in_class :: "string \<Rightarrow> nat \<Rightarrow> bool" where
  "in_class name c =
     (let lower = (97 \<le> c \<and> c \<le> 122); upper = (65 \<le> c \<and> c \<le> 90); digit = (48 \<le> c \<and> c \<le> 57)
      in if name = ''lower'' then lower
         else if name = ''upper'' then upper
         else if name = ''alpha'' then lower \<or> upper
         else if name = ''digit'' then digit
         else if name = ''alnum'' then lower \<or> upper \<or> digit
         else if name = ''xdigit'' then digit \<or> (97 \<le> c \<and> c \<le> 102) \<or> (65 \<le> c \<and> c \<le> 70)
         else if name = ''blank'' then c = 32 \<or> c = 9
         else if name = ''space'' then c = 32 \<or> c = 9 \<or> c = 10 \<or> c = 11 \<or> c = 12 \<or> c = 13
         else if name = ''cntrl'' then c < 32 \<or> c = 127
         else if name = ''print'' then 32 \<le> c \<and> c < 127
         else if name = ''graph'' then 32 < c \<and> c < 127
         else if name = ''punct'' then 32 < c \<and> c < 127 \<and> \<not> (lower \<or> upper \<or> digit)
         else False)"

record bracket_element =
  be_well_formed :: bool
  be_is_class :: bool
  be_matched :: bool
  be_value :: char

definition bracket_element_init :: bracket_element where
  "bracket_element_init =
     \<lparr>be_well_formed = True, be_is_class = False, be_matched = False, be_value = CHR 0x00\<rparr>"

text \<open>
  \<open>read_element p c\<close> reads the element at the front of \<open>p\<close> (never empty where the code calls
  it) for the subject byte \<open>c\<close>, and returns the suffix past it.
\<close>

definition read_element :: "string \<Rightarrow> nat \<Rightarrow> bracket_element \<times> string" where
  "read_element p c =
     (let e = bracket_element_init in
      if 2 \<le> length p \<and> p ! 0 = CHR ''['' \<and>
         (p ! 1 = CHR '':'' \<or> p ! 1 = CHR ''.'' \<or> p ! 1 = CHR ''='')
      then let delimiter = p ! 1; body = drop 2 p in
           case find_sub [delimiter, CHR '']''] body of
             None \<Rightarrow> (e\<lparr>be_well_formed := False\<rparr>, p)
           | Some close \<Rightarrow>
               let name = take close body in
               if delimiter = CHR '':'' then
                 (e\<lparr>be_is_class := True, be_matched := in_class name c\<rparr>, drop (close + 2) body)
               else if length name = 1 then (e\<lparr>be_value := name ! 0\<rparr>, drop (close + 2) body)
               else (e\<lparr>be_well_formed := False\<rparr>, p)
      else let q = (if 2 \<le> length p \<and> p ! 0 = CHR 0x5C then tl p else p)
           in (e\<lparr>be_value := hd q\<rparr>, tl q))"

lemma read_element_shorter:
  "p \<noteq> [] \<Longrightarrow> read_element p c = (e, r) \<Longrightarrow> be_well_formed e \<Longrightarrow> length r < length p"
  by (cases p)
    (auto simp: read_element_def bracket_element_init_def Let_def split: if_splits option.splits)

lemma read_element_shorter2:
  assumes "p \<noteq> []" "(e, r) = read_element p c" "be_well_formed e" "2 \<le> length r"
    "(e', r') = read_element (tl r) c" "be_well_formed e'"
  shows "length r' < length p"
proof -
  have "length r < length p" using assms read_element_shorter [of p c e r] by simp
  moreover have "tl r \<noteq> []" using assms(4) by (cases r) auto
  then have "length r' < length (tl r)"
    using assms read_element_shorter [of "tl r" c e' r'] by simp
  ultimately show ?thesis by simp
qed

text \<open>
  The loop of \<open>match_bracket\<close>: \<open>None\<close> is the code's \<open>well_formed = false\<close>.
\<close>

function bracket_loop :: "string \<Rightarrow> char \<Rightarrow> bool \<Rightarrow> bool \<Rightarrow> (bool \<times> string) option" where
  "bracket_loop p c matched first =
     (if p = [] then None
      else if hd p = CHR '']'' \<and> \<not> first then Some (matched, tl p)
      else case read_element p (ubyte c) of (low, at1) \<Rightarrow>
        if \<not> be_well_formed low then None
        else if be_is_class low then bracket_loop at1 c (matched \<or> be_matched low) False
        else if 2 \<le> length at1 \<and> at1 ! 0 = CHR ''-'' \<and> at1 ! 1 \<noteq> CHR '']'' then
          (case read_element (tl at1) (ubyte c) of (high, after) \<Rightarrow>
             if \<not> be_well_formed high \<or> be_is_class high then None
             else bracket_loop after c
               (matched \<or> (sbyte (be_value low) \<le> sbyte c \<and> sbyte c \<le> sbyte (be_value high))) False)
        else bracket_loop at1 c (matched \<or> c = be_value low) False)"
  by pat_completeness auto
termination
proof (relation "measure (\<lambda>(p, c, m, f). length p)", goal_cases)
  case 1
  show ?case by simp
next
  case 2
  then show ?case by (auto dest: read_element_shorter [OF _ sym])
next
  case 3
  then show ?case by (auto dest: read_element_shorter2)
next
  case 4
  then show ?case by (auto dest: read_element_shorter [OF _ sym])
qed

declare bracket_loop.simps [simp del]

definition match_bracket :: "string \<Rightarrow> char \<Rightarrow> (bool \<times> string) option" where
  "match_bracket p c =
     (let q = tl p;
          negated = (q \<noteq> [] \<and> (hd q = CHR ''!'' \<or> hd q = CHR ''^''))
      in case bracket_loop (if negated then tl q else q) c False True of
           None \<Rightarrow> None
         | Some (matched, rest) \<Rightarrow> Some (if negated then \<not> matched else matched, rest))"

text \<open>
  One byte of text against the front of the pattern, when that is not a \<open>*\<close>: the suffix of the
  pattern left when it matched.
\<close>

definition match_one :: "string \<Rightarrow> char \<Rightarrow> string option" where
  "match_one p c =
     (case p of
        [] \<Rightarrow> None
      | pc # p' \<Rightarrow>
          if pc = CHR 0x5C \<and> p' \<noteq> [] then (if hd p' = c then Some (tl p') else None)
          else if pc = CHR ''?'' then Some p'
          else if pc = CHR ''['' then
            (case match_bracket p c of
               None \<Rightarrow> (if c = CHR ''['' then Some p' else None)
             | Some (ok, next) \<Rightarrow> (if ok then Some next else None))
          else if pc = c then Some p' else None)"

function match_loop :: "string \<Rightarrow> string \<Rightarrow> (string \<times> string) option \<Rightarrow> bool" where
  "match_loop p t star =
     (case t of
        [] \<Rightarrow> dropWhile (\<lambda>c. c = CHR ''*'') p = []
      | c # t' \<Rightarrow>
          if p \<noteq> [] \<and> hd p = CHR ''*'' then match_loop (tl p) t (Some (tl p, t))
          else (case match_one p c of
                  Some p' \<Rightarrow> match_loop p' t' star
                | None \<Rightarrow>
                    (case star of
                       None \<Rightarrow> False
                     | Some (sp, st) \<Rightarrow> match_loop sp (tl st) (Some (sp, tl st)))))"
  by pat_completeness auto
termination
  by (relation "measures
      [\<lambda>(p, t, star). case star of None \<Rightarrow> 0 | Some (sp, st) \<Rightarrow> if length t \<le> length st then 0 else 1,
       \<lambda>(p, t, star). case star of None \<Rightarrow> Suc (length t) | Some (sp, st) \<Rightarrow> length st,
       \<lambda>(p, t, star). length t,
       \<lambda>(p, t, star). length p]")
    (auto split: option.splits if_splits)

declare match_loop.simps [simp del]

definition match_here :: "string \<Rightarrow> string \<Rightarrow> bool \<Rightarrow> bool" where
  "match_here pattern s period_is_special =
     (if period_is_special \<and> s \<noteq> [] \<and> hd s = CHR ''.'' \<and>
         (pattern = [] \<or> (hd pattern \<noteq> CHR ''.'' \<and> hd pattern \<noteq> CHR 0x5C))
      then False else match_loop pattern s None)"

definition pattern_match :: "string \<Rightarrow> string \<Rightarrow> bool \<Rightarrow> bool" where
  "pattern_match pattern s period_is_special = match_here pattern s period_is_special"

fun has_pattern_characters :: "string \<Rightarrow> bool" where
  "has_pattern_characters [] = False"
| "has_pattern_characters (c # cs) =
     (if c = CHR 0x5C then has_pattern_characters (tl cs)
      else if c = CHR ''*'' \<or> c = CHR ''?'' \<or> c = CHR ''['' then True
      else has_pattern_characters cs)"

text \<open>
  The scan for the last live \<open>]\<close>, and the loop of \<open>is_pattern\<close>.  The code computes
  \<open>last_close\<close> at the first \<open>[\<close> it meets; its value depends on the whole word only.
\<close>

fun last_close_loop :: "string \<Rightarrow> nat \<Rightarrow> nat option \<Rightarrow> nat option" where
  "last_close_loop [] j acc = acc"
| "last_close_loop (c # cs) j acc =
     (if c = CHR 0x5C then last_close_loop (tl cs) (j + 2) acc
      else if c = CHR '']'' then last_close_loop cs (j + 1) (Some j)
      else last_close_loop cs (j + 1) acc)"

fun is_pattern_loop :: "string \<Rightarrow> string \<Rightarrow> nat \<Rightarrow> bool" where
  "is_pattern_loop word [] i = False"
| "is_pattern_loop word (c # cs) i =
     (if c = CHR 0x5C then is_pattern_loop word (tl cs) (i + 2)
      else if c = CHR ''*'' \<or> c = CHR ''?'' then True
      else if c \<noteq> CHR ''['' then is_pattern_loop word cs (i + 1)
      else (case last_close_loop word 0 None of
              None \<Rightarrow> is_pattern_loop word cs (i + 1)
            | Some last_close \<Rightarrow>
                if last_close \<le> i then is_pattern_loop word cs (i + 1)
                else if match_bracket (c # cs) (CHR 0x00) \<noteq> None then True
                else is_pattern_loop word cs (i + 1)))"

definition is_pattern :: "string \<Rightarrow> bool" where
  "is_pattern word = is_pattern_loop word word 0"

definition is_pattern_syntax :: "char \<Rightarrow> bool" where
  "is_pattern_syntax c \<longleftrightarrow>
     c = CHR 0x5C \<or> c = CHR ''*'' \<or> c = CHR ''?'' \<or> c = CHR ''['' \<or> c = CHR '']'' \<or>
     c = CHR ''-'' \<or> c = CHR ''!'' \<or> c = CHR ''^''"

fun remove_pattern_escapes :: "string \<Rightarrow> string" where
  "remove_pattern_escapes [] = []"
| "remove_pattern_escapes (c # cs) =
     (if c = CHR 0x5C \<and> cs \<noteq> [] then hd cs # remove_pattern_escapes (tl cs)
      else c # remove_pattern_escapes cs)"

text \<open>\<open>no_match\<close> of the code is \<open>None\<close>; the loops try the lengths in the code's order.\<close>

fun match_prefix_loop :: "string \<Rightarrow> string \<Rightarrow> bool \<Rightarrow> nat list \<Rightarrow> nat option" where
  "match_prefix_loop pattern s longest [] = None"
| "match_prefix_loop pattern s longest (n # ns) =
     (let len = (if longest then length s - n else n)
      in if pattern_match pattern (take len s) False then Some len
         else match_prefix_loop pattern s longest ns)"

definition match_prefix :: "string \<Rightarrow> string \<Rightarrow> bool \<Rightarrow> nat option" where
  "match_prefix pattern s longest = match_prefix_loop pattern s longest [0..<Suc (length s)]"

fun match_suffix_loop :: "string \<Rightarrow> string \<Rightarrow> bool \<Rightarrow> nat list \<Rightarrow> nat option" where
  "match_suffix_loop pattern s longest [] = None"
| "match_suffix_loop pattern s longest (n # ns) =
     (let len = (if longest then length s - n else n)
      in if pattern_match pattern (drop (length s - len) s) False then Some len
         else match_suffix_loop pattern s longest ns)"

definition match_suffix :: "string \<Rightarrow> string \<Rightarrow> bool \<Rightarrow> nat option" where
  "match_suffix pattern s longest = match_suffix_loop pattern s longest [0..<Suc (length s)]"

subsection \<open>The subject byte never decides where an element ends\<close>

lemma read_element_indep:
  "snd (read_element p c) = snd (read_element p d)"
  "be_well_formed (fst (read_element p c)) = be_well_formed (fst (read_element p d))"
  "be_is_class (fst (read_element p c)) = be_is_class (fst (read_element p d))"
  "be_value (fst (read_element p c)) = be_value (fst (read_element p d))"
  by (auto simp: read_element_def Let_def split: option.splits)

lemma bracket_loop_indep:
  "map_option snd (bracket_loop p c m f) = map_option snd (bracket_loop p d m' f)"
proof (induction p c m f arbitrary: m' rule: bracket_loop.induct)
  case (1 p c m f)
  obtain low at1 where low: "read_element p (ubyte c) = (low, at1)" by fastforce
  obtain low' where low': "read_element p (ubyte d) = (low', at1)"
    "be_well_formed low' = be_well_formed low" "be_is_class low' = be_is_class low"
    using read_element_indep [of p "ubyte c" "ubyte d"] low by (metis fst_conv snd_conv surj_pair)
  obtain high after where high: "read_element (tl at1) (ubyte c) = (high, after)" by fastforce
  obtain high' where high': "read_element (tl at1) (ubyte d) = (high', after)"
    "be_well_formed high' = be_well_formed high" "be_is_class high' = be_is_class high"
    using read_element_indep [of "tl at1" "ubyte c" "ubyte d"] high
    by (metis fst_conv snd_conv surj_pair)
  show ?case
    using 1 low low' high high'
    by (subst (1 2) bracket_loop.simps) (auto simp: Let_def split: if_splits)
qed

lemma match_bracket_indep: "map_option snd (match_bracket p c) = map_option snd (match_bracket p d)"
proof -
  have "map_option snd (case bracket_loop q c False True of None \<Rightarrow> None
      | Some (matched, rest) \<Rightarrow> Some (if n then \<not> matched else matched, rest)) =
    map_option snd (bracket_loop q c False True)" for q c n
    by (auto split: option.splits)
  then show ?thesis
    unfolding match_bracket_def Let_def by (simp add: bracket_loop_indep [of _ c _ _ d False])
qed

lemma match_bracket_None_indep: "match_bracket p c = None \<longleftrightarrow> match_bracket p d = None"
  using match_bracket_indep [of p c d] by (metis map_option_is_None)

lemma match_one_rest_unique:
  assumes "match_one p c = Some p1" "match_one p d = Some p2"
  shows "p1 = p2"
proof (cases p)
  case Nil
  with assms show ?thesis by (simp add: match_one_def)
next
  case (Cons x xs)
  show ?thesis
    using assms match_bracket_indep [of p c d]
    by (auto simp: match_one_def Cons split: if_splits option.splits)
qed

subsection \<open>The meaning of a pattern\<close>

inductive matches :: "string \<Rightarrow> string \<Rightarrow> bool" where
  nothing: "matches [] []"
| star_none: "matches p t \<Longrightarrow> matches (CHR ''*'' # p) t"
| star_more: "matches (CHR ''*'' # p) t \<Longrightarrow> matches (CHR ''*'' # p) (c # t)"
| one: "match_one p c = Some p' \<Longrightarrow> hd p \<noteq> CHR ''*'' \<Longrightarrow> matches p' t \<Longrightarrow> matches p (c # t)"

inductive_cases matches_NilE: "matches [] t"
inductive_cases matches_starE: "matches (CHR ''*'' # p) t"
inductive_cases matches_endE: "matches p []"
inductive_cases matches_ConsE: "matches p (c # t)"

lemma match_one_Nil [simp]: "match_one [] c = None"
  by (simp add: match_one_def)

lemma matches_Nil_iff [simp]: "matches [] t \<longleftrightarrow> t = []"
  by (auto intro: matches.nothing elim: matches_NilE)

lemma matches_end_iff: "matches p [] \<longleftrightarrow> dropWhile (\<lambda>c. c = CHR ''*'') p = []"
proof (induction p)
  case (Cons x xs)
  have "matches (x # xs) [] \<Longrightarrow> x = CHR ''*'' \<and> matches xs []" by (erule matches_endE) auto
  then have "matches (x # xs) [] \<longleftrightarrow> x = CHR ''*'' \<and> matches xs []"
    using matches.star_none [of xs "[]"] by blast
  with Cons.IH show ?case by simp
qed simp

lemma matches_star_iff:
  "matches (CHR ''*'' # p) t \<longleftrightarrow> (\<exists>k \<le> length t. matches p (drop k t))"
proof (induction t)
  case Nil
  then show ?case by (auto simp: matches_end_iff)
next
  case (Cons c t)
  have "matches (CHR ''*'' # p) (c # t) \<longleftrightarrow> matches p (c # t) \<or> matches (CHR ''*'' # p) t"
    by (auto elim: matches_starE intro: matches.intros)
  also have "\<dots> \<longleftrightarrow> (\<exists>k \<le> length (c # t). matches p (drop k (c # t)))"
    using ex_le_Suc [of "length t" "\<lambda>k. matches p (drop k (c # t))"] by (simp add: Cons)
  finally show ?case .
qed

lemma matches_star_absorb: "matches (CHR ''*'' # p) (drop k t) \<Longrightarrow> matches (CHR ''*'' # p) t"
proof (induction t arbitrary: k)
  case (Cons c t)
  then show ?case by (cases k) (auto intro: matches.star_more)
qed simp

lemma matches_one_iff:
  "match_one p c = Some p' \<Longrightarrow> hd p \<noteq> CHR ''*'' \<Longrightarrow> matches p (c # t) \<longleftrightarrow> matches p' t"
  by (auto elim: matches_ConsE intro: matches.one)

lemma matches_none: "match_one p c = None \<Longrightarrow> p = [] \<or> hd p \<noteq> CHR ''*'' \<Longrightarrow> \<not> matches p (c # t)"
  by (auto elim: matches_ConsE)

subsection \<open>Resuming at the last star is enough\<close>

text \<open>
  \<open>reach sp st p t\<close>: from the pattern \<open>sp\<close> that follows a star and the text \<open>st\<close>, the loop has
  come to \<open>p\<close> and \<open>t\<close> without meeting another star.
\<close>

inductive reach :: "string \<Rightarrow> string \<Rightarrow> string \<Rightarrow> string \<Rightarrow> bool" for sp st where
  start: "reach sp st sp st"
| advance: "reach sp st p (c # t) \<Longrightarrow> hd p \<noteq> CHR ''*'' \<Longrightarrow> match_one p c = Some p' \<Longrightarrow> reach sp st p' t"

lemma reach_shorter: "reach sp st p t \<Longrightarrow> length t \<le> length st"
  by (induction rule: reach.induct) auto

lemma reach_shift: "reach sp st p t \<Longrightarrow> matches sp (drop k st) \<Longrightarrow> matches p (drop k t)"
proof (induction rule: reach.induct)
  case (advance p c t p')
  from advance.IH advance.prems have m: "matches p (drop k (c # t))" .
  have ne: "p \<noteq> []" using advance.hyps(3) by auto
  from m ne advance.hyps(2) obtain d u p'' where
    u: "drop k (c # t) = d # u" "match_one p d = Some p''" "matches p'' u"
    by (cases rule: matches.cases) auto
  have "u = drop k t" using u(1) by (metis drop_Suc_Cons list.sel(3) tl_drop list.sel(3) drop_tl)
  moreover have "p'' = p'" using match_one_rest_unique u(2) advance.hyps(3) by blast
  ultimately show ?case using u(3) by simp
qed simp

definition resumable :: "(string \<times> string) option \<Rightarrow> bool" where
  "resumable star =
     (case star of None \<Rightarrow> False
      | Some (sp, st) \<Rightarrow> \<exists>k. 1 \<le> k \<and> k \<le> length st \<and> matches sp (drop k st))"

lemma match_loop_correct:
  "(\<And>sp st. star = Some (sp, st) \<Longrightarrow> reach sp st p t) \<Longrightarrow>
     match_loop p t star \<longleftrightarrow> matches p t \<or> resumable star"
proof (induction p t star rule: match_loop.induct)
  case (1 p t star)
  have shift: "matches p (drop k t)"
    if "star = Some (sp, st)" "matches sp (drop k st)" for sp st k
    using 1(4) [OF that(1)] that(2) by (rule reach_shift)
  show ?case
  proof (cases t)
    case Nil
    have "resumable star \<Longrightarrow> matches p []"
      using shift Nil by (fastforce simp: resumable_def split: option.splits)
    with Nil show ?thesis by (subst match_loop.simps) (auto simp: matches_end_iff)
  next
    case t: (Cons c t')
    consider (star) q where "p = CHR ''*'' # q"
      | (adv) p' where "match_one p c = Some p'" "p \<noteq> []" "hd p \<noteq> CHR ''*''"
      | (stuck) "match_one p c = None" "p = [] \<or> hd p \<noteq> CHR ''*''"
      by (cases p; cases "match_one p c") auto
    then show ?thesis
    proof cases
      case (star q)
      have "match_loop p t star = match_loop q t (Some (q, t))"
        by (subst match_loop.simps) (simp add: star t)
      also have "\<dots> \<longleftrightarrow> matches q t \<or> resumable (Some (q, t))"
        using 1(1) [OF t] star by (auto intro: reach.start)
      also have "\<dots> \<longleftrightarrow> matches p t"
        using ex_le_split [of "length t" "\<lambda>k. matches q (drop k t)"]
        by (simp add: star matches_star_iff resumable_def)
      also have "\<dots> \<longleftrightarrow> matches p t \<or> resumable star"
        using shift matches_star_absorb
        by (fastforce simp: resumable_def star split: option.splits)
      finally show ?thesis .
    next
      case (adv p')
      have "match_loop p t star = match_loop p' t' star"
        by (subst match_loop.simps) (simp add: adv t)
      also have "\<dots> \<longleftrightarrow> matches p' t' \<or> resumable star"
        using 1(3) [OF t _ adv(1)] adv 1(4) by (auto simp: t intro: reach.advance)
      finally show ?thesis using matches_one_iff [OF adv(1,3)] by (simp add: t)
    next
      case stuck
      note no = matches_none [OF stuck]
      show ?thesis
      proof (cases star)
        case None
        with stuck no show ?thesis
          by (subst match_loop.simps) (auto simp: t resumable_def)
      next
        case (Some ss)
        then obtain sp st where ss: "star = Some (sp, st)" by (cases ss) auto
        have len: "st \<noteq> []" using reach_shorter [OF 1(4) [OF ss]] t by auto
        have "match_loop p t star = match_loop sp (tl st) (Some (sp, tl st))"
          using stuck by (subst match_loop.simps) (auto simp: t ss)
        also have "\<dots> \<longleftrightarrow> matches sp (tl st) \<or> resumable (Some (sp, tl st))"
          using 1(2) [OF t _ stuck(1) ss refl] stuck(2) by (auto intro: reach.start)
        also have "\<dots> \<longleftrightarrow> resumable star"
          using len unfolding ss resumable_def
          using ex_ge1_le_Suc [of "length (tl st)" "\<lambda>k. matches sp (drop k st)"]
            ex_le_split [of "length (tl st)" "\<lambda>k. matches sp (drop k (tl st))"]
          by (simp add: drop_Suc)
        finally show ?thesis using no by (simp add: t)
      qed
    qed
  qed
qed

lemma match_loop_matches: "match_loop p t None \<longleftrightarrow> matches p t"
  using match_loop_correct [of None p t] by (simp add: resumable_def)

subsection \<open>What the gates promise\<close>

text \<open>\<open>live\<close> is \<open>is_pattern\<close> without its shortcut: every unescaped \<open>[\<close> is asked.\<close>

fun live :: "string \<Rightarrow> bool" where
  "live [] = False"
| "live (c # cs) =
     (if c = CHR 0x5C then live (tl cs)
      else if c = CHR ''*'' \<or> c = CHR ''?'' then True
      else if c = CHR ''['' \<and> match_bracket (c # cs) (CHR 0x00) \<noteq> None then True
      else live cs)"

fun closes_visibly :: "string \<Rightarrow> bool" where
  "closes_visibly [] = False"
| "closes_visibly (c # cs) =
     (if c = CHR 0x5C then closes_visibly (tl cs) else c = CHR '']'' \<or> closes_visibly cs)"

lemma closes_after_delimiter:
  "d \<noteq> CHR 0x5C \<Longrightarrow> closes_visibly (xs @ d # CHR '']'' # ys)"
proof (induction xs rule: closes_visibly.induct)
  case (2 c cs)
  then show ?case by (cases cs) auto
qed simp

lemma read_element_closes:
  assumes "p \<noteq> []" "read_element p c = (e, r)" "be_well_formed e" "closes_visibly r"
  shows "closes_visibly p"
proof (cases "2 \<le> length p \<and> p ! 0 = CHR ''['' \<and>
         (p ! 1 = CHR '':'' \<or> p ! 1 = CHR ''.'' \<or> p ! 1 = CHR ''='')")
  case True
  then obtain d body where p: "p = CHR ''['' # d # body" "d \<in> {CHR '':'', CHR ''.'', CHR ''=''}"
    by (cases p; cases "tl p") auto
  from True assms(2,3) obtain close where "find_sub [d, CHR '']''] body = Some close"
    by (auto simp: read_element_def bracket_element_init_def Let_def p split: option.splits if_splits)
  then obtain ys where "drop close body = d # CHR '']'' # ys"
    using find_sub_Some by (fastforce simp: starts_with_iff)
  then have "body = take close body @ d # CHR '']'' # ys" by (metis append_take_drop_id)
  moreover from p(2) have "d \<noteq> CHR 0x5C" by auto
  ultimately have "closes_visibly body" using closes_after_delimiter [of d "take close body" ys] by simp
  with p show ?thesis by auto
next
  case False
  then have "(if 2 \<le> length p \<and> p ! 0 = CHR 0x5C then tl (tl p) else tl p) = r"
    using assms(2) by (auto simp: read_element_def Let_def)
  with assms(1,4) show ?thesis by (cases p; cases "tl p") (auto split: if_splits)
qed

lemma bracket_loop_closes: "bracket_loop p c m f = Some x \<Longrightarrow> closes_visibly p"
proof (induction p c m f rule: bracket_loop.induct)
  case (1 p c m f)
  obtain low at1 where low: "read_element p (ubyte c) = (low, at1)" by fastforce
  obtain high after where high: "read_element (tl at1) (ubyte c) = (high, after)" by fastforce
  have ne: "p \<noteq> []" using 1(4) by (auto simp: bracket_loop.simps)
  have dash: "closes_visibly (tl at1) \<Longrightarrow> at1 ! 0 = CHR ''-'' \<Longrightarrow> closes_visibly at1"
    by (cases at1) auto
  have tl: "2 \<le> length at1 \<Longrightarrow> tl at1 \<noteq> []" by (cases at1) auto
  show ?case
    using 1(4) 1(1-3) [OF ne _ low [symmetric]] low high ne
      read_element_closes [OF ne low] read_element_closes [OF tl high] dash
    by (subst (asm) bracket_loop.simps) (cases p; auto split: if_splits)
qed

lemma match_bracket_closes:
  assumes "match_bracket p c = Some x"
  shows "closes_visibly (tl p)"
proof -
  let ?neg = "tl p \<noteq> [] \<and> (hd (tl p) = CHR ''!'' \<or> hd (tl p) = CHR ''^'')"
  from assms obtain y where "bracket_loop (if ?neg then tl (tl p) else tl p) c False True = Some y"
    by (auto simp: match_bracket_def Let_def split: option.splits)
  then have "closes_visibly (if ?neg then tl (tl p) else tl p)" by (rule bracket_loop_closes)
  then show ?thesis by (cases "tl p") (auto split: if_splits)
qed

lemma last_close_loop_spec:
  "last_close_loop s j acc =
     (if closes_visibly s then last_close_loop s j None else acc) \<and>
   (closes_visibly s \<longrightarrow> (\<exists>n \<ge> j. last_close_loop s j None = Some n))"
proof (induction s j acc rule: last_close_loop.induct)
  case (2 c cs j acc)
  have shift: "\<exists>n \<ge> j + k. P n \<Longrightarrow> \<exists>n \<ge> j. P n" for k P
    by (meson le_add1 le_trans)
  show ?case
  proof (cases "c = CHR 0x5C")
    case True
    with 2(1) [OF True] shift [of 2] show ?thesis by fastforce
  next
    case esc: False
    show ?thesis
    proof (cases "c = CHR '']''")
      case True
      with 2(2) [OF esc True] esc shift [of 1] show ?thesis
        by (cases "closes_visibly cs") fastforce+
    next
      case False
      with 2(3) [OF esc False] esc shift [of 1] show ?thesis by fastforce
    qed
  qed
qed simp

lemma is_pattern_loop_live:
  "\<exists>acc. last_close_loop word 0 None = last_close_loop s i acc \<and> (\<forall>a. acc = Some a \<longrightarrow> a < i) \<Longrightarrow>
     is_pattern_loop word s i = live s"
proof (induction word s i rule: is_pattern_loop.induct)
  case (2 word c cs i)
  then obtain acc where acc: "last_close_loop word 0 None = last_close_loop (c # cs) i acc"
    "\<forall>a. acc = Some a \<longrightarrow> a < i" by blast
  show ?case
  proof (cases "c = CHR 0x5C")
    case True
    have "\<exists>acc'. last_close_loop word 0 None = last_close_loop (tl cs) (i + 2) acc' \<and>
        (\<forall>a. acc' = Some a \<longrightarrow> a < i + 2)"
      using acc True by (intro exI [of _ acc]) auto
    with 2(1) [OF True] True show ?thesis by simp
  next
    case esc: False
    show ?thesis
    proof (cases "c = CHR ''[''")
      case True
      have sync: "\<exists>acc'. last_close_loop word 0 None = last_close_loop cs (i + 1) acc' \<and>
          (\<forall>a. acc' = Some a \<longrightarrow> a < i + 1)"
        using acc True by (auto dest: less_SucI)
      show ?thesis
      proof (cases "closes_visibly cs")
        case vis: True
        then obtain n where "n \<ge> i + 1" "last_close_loop word 0 None = Some n"
          using last_close_loop_spec [of cs "i + 1" acc] last_close_loop_spec [of cs "i + 1" None]
            acc True by auto
        with 2(5) sync esc True show ?thesis by (auto simp: Let_def)
      next
        case False
        then have "match_bracket (c # cs) (CHR 0x00) = None"
          using match_bracket_closes [of "c # cs" "CHR 0x00"]
          by (cases "match_bracket (c # cs) (CHR 0x00)") auto
        moreover have "last_close_loop word 0 None = acc"
          using False last_close_loop_spec [of cs "i + 1" acc] acc True by simp
        ultimately show ?thesis
          using 2(3,4) sync esc True acc(2) by (cases acc) (auto dest: less_imp_le)
      qed
    next
      case nb: False
      have "\<exists>acc'. last_close_loop word 0 None = last_close_loop cs (i + 1) acc' \<and>
          (\<forall>a. acc' = Some a \<longrightarrow> a < i + 1)"
        using acc esc by (cases "c = CHR '']''") (auto dest: less_SucI)
      with 2(2) esc nb show ?thesis by auto
    qed
  qed
qed simp

lemma is_pattern_live: "is_pattern w = live w"
  unfolding is_pattern_def by (rule is_pattern_loop_live) auto

lemma live_has_pattern_characters: "live w \<Longrightarrow> has_pattern_characters w"
  by (induction w rule: live.induct) (auto split: if_splits)

lemma not_live_matches: "\<not> live p \<Longrightarrow> matches p t \<longleftrightarrow> t = remove_pattern_escapes p"
proof (induction p arbitrary: t rule: live.induct)
  case (2 c cs)
  have ns: "hd (c # cs) \<noteq> CHR ''*''" using 2(3) by (auto split: if_splits)
  obtain rest byte where rb: "\<And>d. match_one (c # cs) d = (if d = byte then Some rest else None)"
    "remove_pattern_escapes (c # cs) = byte # remove_pattern_escapes rest" "\<not> live rest"
    "\<And>t. matches rest t \<longleftrightarrow> t = remove_pattern_escapes rest"
  proof (cases "c = CHR 0x5C \<and> cs \<noteq> []")
    case True
    then show ?thesis using 2(1) 2(3) that [of "hd cs" "tl cs"] by (simp add: match_one_def)
  next
    case False
    have nl: "\<not> live cs" and b: "c = CHR ''['' \<Longrightarrow> match_bracket (c # cs) d = None" for d
      using 2(3) False match_bracket_None_indep [of "c # cs" d "CHR 0x00"]
      by (auto split: if_splits)
    have "c \<noteq> CHR ''?''" using 2(3) by (auto split: if_splits)
    then have m: "match_one (c # cs) d = (if d = c then Some cs else None)" for d
      using False b [of d] by (auto simp: match_one_def)
    have ih: "matches cs t \<longleftrightarrow> t = remove_pattern_escapes cs" for t
    proof (cases "c = CHR 0x5C")
      case True
      with False show ?thesis by simp
    next
      case c: False
      with 2(3) show ?thesis using 2(2) nl by (auto split: if_splits)
    qed
    from False have "remove_pattern_escapes (c # cs) = c # remove_pattern_escapes cs" by auto
    then show ?thesis using m nl ih that [of c cs] by simp
  qed
  show ?case
  proof (cases t)
    case Nil
    with ns rb(2) show ?thesis by (simp add: matches_end_iff)
  next
    case (Cons d u)
    show ?thesis
    proof (cases "d = byte")
      case True
      with rb(1) have "match_one (c # cs) d = Some rest" by simp
      from matches_one_iff [OF this ns] True show ?thesis by (simp only: Cons rb(2,4)) simp
    next
      case False
      with rb(1) have "match_one (c # cs) d = None" by simp
      from matches_none [OF this] ns False show ?thesis by (simp only: Cons rb(2)) simp
    qed
  qed
qed simp

subsection \<open>Prefix and suffix trimming\<close>

lemma match_prefix_loop_find:
  "match_prefix_loop p s l ns =
     find (\<lambda>len. pattern_match p (take len s) False) (map (\<lambda>n. if l then length s - n else n) ns)"
  by (induction ns) (simp_all add: Let_def)

lemma match_suffix_loop_find:
  "match_suffix_loop p s l ns =
     find (\<lambda>len. pattern_match p (drop (length s - len) s) False)
       (map (\<lambda>n. if l then length s - n else n) ns)"
  by (induction ns) (simp_all add: Let_def)

lemma find_up: "find P [0..<Suc m] = Some n \<longleftrightarrow> n \<le> m \<and> P n \<and> (\<forall>k < n. \<not> P k)"
proof
  assume "find P [0..<Suc m] = Some n"
  then show "n \<le> m \<and> P n \<and> (\<forall>k < n. \<not> P k)"
    unfolding find_Some_iff by (auto simp del: upt_Suc simp: less_Suc_eq_le)
next
  assume "n \<le> m \<and> P n \<and> (\<forall>k < n. \<not> P k)"
  then show "find P [0..<Suc m] = Some n"
    unfolding find_Some_iff by (intro exI [of _ n]) (auto simp del: upt_Suc simp: less_Suc_eq_le)
qed

lemma find_down:
  "find P (map (\<lambda>i. m - i) [0..<Suc m]) = Some n \<longleftrightarrow> n \<le> m \<and> P n \<and> (\<forall>k \<le> m. n < k \<longrightarrow> \<not> P k)"
proof
  assume "find P (map (\<lambda>i. m - i) [0..<Suc m]) = Some n"
  then obtain i where i: "i \<le> m" "P (m - i)" "n = m - i" "\<forall>j < i. \<not> P (m - j)"
    unfolding find_Some_iff by (auto simp del: upt_Suc simp: less_Suc_eq_le)
  have "\<not> P k" if "k \<le> m" "n < k" for k
    using i(4) [rule_format, of "m - k"] i(1,3) that by simp
  with i show "n \<le> m \<and> P n \<and> (\<forall>k \<le> m. n < k \<longrightarrow> \<not> P k)" by simp
next
  assume n: "n \<le> m \<and> P n \<and> (\<forall>k \<le> m. n < k \<longrightarrow> \<not> P k)"
  then show "find P (map (\<lambda>i. m - i) [0..<Suc m]) = Some n"
    unfolding find_Some_iff by (intro exI [of _ "m - n"]) (auto simp del: upt_Suc simp: less_Suc_eq_le)
qed

lemma find_range_None:
  "find P (map f [0..<Suc m]) = None \<longleftrightarrow> (\<forall>i \<le> m. \<not> P (f i))"
  by (auto simp del: upt_Suc simp: find_None_iff less_Suc_eq_le)

lemma match_prefix_Some:
  "match_prefix p s longest = Some n \<longleftrightarrow>
     n \<le> length s \<and> pattern_match p (take n s) False \<and>
     (\<forall>k \<le> length s. (if longest then n < k else k < n) \<longrightarrow> \<not> pattern_match p (take k s) False)"
  unfolding match_prefix_def match_prefix_loop_find
  using find_up [of "\<lambda>len. pattern_match p (take len s) False" "length s" n]
    find_down [of "\<lambda>len. pattern_match p (take len s) False" "length s" n]
  by (cases longest) (auto simp del: upt_Suc)

lemma match_suffix_Some:
  "match_suffix p s longest = Some n \<longleftrightarrow>
     n \<le> length s \<and> pattern_match p (drop (length s - n) s) False \<and>
     (\<forall>k \<le> length s. (if longest then n < k else k < n) \<longrightarrow>
        \<not> pattern_match p (drop (length s - k) s) False)"
  unfolding match_suffix_def match_suffix_loop_find
  using find_up [of "\<lambda>len. pattern_match p (drop (length s - len) s) False" "length s" n]
    find_down [of "\<lambda>len. pattern_match p (drop (length s - len) s) False" "length s" n]
  by (cases longest) (auto simp del: upt_Suc)

lemma match_prefix_None:
  "match_prefix p s longest = None \<longleftrightarrow> (\<forall>k \<le> length s. \<not> pattern_match p (take k s) False)"
proof -
  have "(\<forall>i \<le> length s. \<not> pattern_match p (take (length s - i) s) False) \<longleftrightarrow>
      (\<forall>k \<le> length s. \<not> pattern_match p (take k s) False)"
    by (metis diff_diff_cancel diff_le_self)
  then show ?thesis
    unfolding match_prefix_def match_prefix_loop_find find_range_None by auto
qed

subsection \<open>Properties\<close>

text \<open>C2: the matcher, which remembers only the last star and resumes there, accepts exactly the texts
  the pattern denotes (each \<open>*\<close> any run of bytes, every other element one byte), with the
  leading-period rule of pathname expansion as the only addition.\<close>
theorem pattern_match_correct:
  "pattern_match p t period \<longleftrightarrow>
     matches p t \<and>
     \<not> (period \<and> t \<noteq> [] \<and> hd t = CHR ''.'' \<and> (p = [] \<or> hd p \<noteq> CHR ''.'' \<and> hd p \<noteq> CHR 0x5C))"
  by (auto simp: pattern_match_def match_here_def match_loop_matches)

text \<open>A word the pathname-expansion gate \<open>is_pattern\<close> rejects matches exactly one text, the word
  with its escapes removed: skipping the directory scan for it loses nothing.\<close>
theorem rejected_word_is_literal:
  assumes "\<not> is_pattern p"
  shows "pattern_match p t False \<longleftrightarrow> t = remove_pattern_escapes p"
  using not_live_matches [of p t] assms
  by (simp add: pattern_match_def match_here_def match_loop_matches is_pattern_live)

theorem rejected_word_is_literal_witness:
  "pattern_match [CHR ''['', CHR ''a'', CHR 0x5C, CHR ''*''] ''[a*'' False"
proof -
  have "\<not> is_pattern [CHR ''['', CHR ''a'', CHR 0x5C, CHR ''*'']"
    by (simp add: is_pattern_def)
  from rejected_word_is_literal [OF this, of "''[a*''"] show ?thesis by simp
qed

text \<open>The shortcuts of the two gates are exact and conservative: remembering the last closing
  bracket of the word never changes the answer of \<open>is_pattern\<close>, and the per-segment test
  \<open>has_pattern_characters\<close> never misses a pattern.\<close>
theorem pattern_gates_agree:
  "is_pattern w = live w \<and> (is_pattern w \<longrightarrow> has_pattern_characters w)"
  by (simp add: is_pattern_live live_has_pattern_characters)

theorem pattern_gates_agree_witness:
  "is_pattern ''a[bc]'' \<and> has_pattern_characters ''a[bc]''"
proof -
  have "is_pattern ''a[bc]''"
    by (simp add: is_pattern_def match_bracket_def bracket_loop.simps read_element_def
        bracket_element_init_def Let_def)
  with pattern_gates_agree [of "''a[bc]''"] show ?thesis by simp
qed

text \<open>C3: \<open>match_prefix\<close> and \<open>match_suffix\<close> (the \<open>${x#p}\<close>, \<open>${x##p}\<close>, \<open>${x%p}\<close>, \<open>${x%%p}\<close> family) return
  the shortest or the longest matching prefix or suffix, and nothing only when none matches.\<close>
theorem trimming_is_extremal:
  "(match_prefix p s longest = Some n \<longleftrightarrow>
     n \<le> length s \<and> pattern_match p (take n s) False \<and>
     (\<forall>k \<le> length s. (if longest then n < k else k < n) \<longrightarrow> \<not> pattern_match p (take k s) False)) \<and>
   (match_suffix p s longest = Some n \<longleftrightarrow>
     n \<le> length s \<and> pattern_match p (drop (length s - n) s) False \<and>
     (\<forall>k \<le> length s. (if longest then n < k else k < n) \<longrightarrow>
        \<not> pattern_match p (drop (length s - k) s) False))"
  using match_prefix_Some match_suffix_Some by blast

theorem trimming_is_extremal_witness:
  "match_prefix ''*a'' ''aba'' False = Some 1 \<and> \<not> pattern_match ''*a'' [] False"
proof -
  have "match_prefix ''*a'' ''aba'' False = Some 1" by code_simp
  with trimming_is_extremal [of "''*a''" "''aba''" False 1] show ?thesis
    by (auto dest: spec [of _ 0])
qed

end
