(* ===== verification/Arithmetic.thy ===== *)
theory Arithmetic
  imports Numeric CharUtils "HOL-Library.Signed_Division" "HOL-Library.Monad_Syntax"
begin

unbundle bit_operations_syntax

text \<open>
  \<^verbatim>\<open>src/runtime/arithmetic.h\<close> and \<^verbatim>\<open>arithmetic.cpp\<close>: the evaluator of \<open>$(( ))\<close>, which computes
  while it parses.  The position \<open>_at\<close> is the suffix of the text that begins there; the
  variables interface is a record of three functions over a state of any type.  The precedence
  levels are one definition each, over the recursive calls as a parameter (\<open>rec\<close>) and the fuel of
  their loops; \<open>parse_at\<close> ties the knot.  A run out of fuel is \<open>None\<close>; \<open>parse_at_total\<close>
  shows that the length of the text plus one is always enough, and in the same induction what a
  skipped operand may not do.
\<close>

subsection \<open>Operators\<close>

definition wrap_add :: "i64 \<Rightarrow> i64 \<Rightarrow> i64" where "wrap_add a b = a + b"
definition wrap_sub :: "i64 \<Rightarrow> i64 \<Rightarrow> i64" where "wrap_sub a b = a - b"
definition wrap_mul :: "i64 \<Rightarrow> i64 \<Rightarrow> i64" where "wrap_mul a b = a * b"
definition wrap_neg :: "i64 \<Rightarrow> i64" where "wrap_neg a = wrap_sub 0 a"

definition wrap_div :: "i64 \<Rightarrow> i64 \<Rightarrow> i64" where
  "wrap_div a b = (if sint b = - 1 then wrap_neg a else word_of_int (sint a sdiv sint b))"

definition wrap_mod :: "i64 \<Rightarrow> i64 \<Rightarrow> i64" where
  "wrap_mod a b = (if sint b = - 1 then 0 else word_of_int (sint a smod sint b))"

definition shift_left :: "i64 \<Rightarrow> i64 \<Rightarrow> i64" where
  "shift_left a b = push_bit (unat (b AND 63)) a"

definition shift_right :: "i64 \<Rightarrow> i64 \<Rightarrow> i64" where
  "shift_right a b = signed_drop_bit (unat (b AND 63)) a"

definition of_bool64 :: "bool \<Rightarrow> i64" where
  "of_bool64 b = (if b then 1 else 0)"

subsection \<open>State\<close>

record 's arithmetic_variables =
  av_get :: "'s \<Rightarrow> string \<Rightarrow> i64"
  av_set :: "'s \<Rightarrow> string \<Rightarrow> i64 \<Rightarrow> bool \<times> 's"
  av_defined :: "'s \<Rightarrow> string \<Rightarrow> bool"

record arithmetic_result =
  ar_value :: i64
  ar_ok :: bool
  ar_error :: "string option"
  ar_unset_name :: string
  ar_assignment_refused :: bool

record 's evaluator =
  ev_text :: string
  ev_failed :: bool
  ev_refused :: bool
  ev_live :: bool
  ev_error :: "string option"
  ev_unset_name :: string
  ev_vars :: 's

type_synonym 's parser = "'s evaluator \<Rightarrow> (i64 \<times> 's evaluator) option"

definition read_variable ::
  "'s arithmetic_variables \<Rightarrow> string \<Rightarrow> 's evaluator \<Rightarrow> i64 \<times> 's evaluator" where
  "read_variable vp name st =
     (if \<not> ev_live st then (0, st)
      else (av_get vp (ev_vars st) name,
            if ev_unset_name st = [] \<and> \<not> av_defined vp (ev_vars st) name
            then st\<lparr>ev_unset_name := name\<rparr> else st))"

definition fail :: "string \<Rightarrow> 's evaluator \<Rightarrow> 's evaluator" where
  "fail why st = (if ev_failed st then st else st\<lparr>ev_failed := True, ev_error := Some why\<rparr>)"

definition divide_by_zero :: "'s evaluator \<Rightarrow> bool \<times> 's evaluator" where
  "divide_by_zero st =
     (if \<not> ev_live st then (False, st) else (True, fail ''division by zero'' st))"

definition skip_blanks :: "'s evaluator \<Rightarrow> 's evaluator" where
  "skip_blanks st =
     st\<lparr>ev_text := dropWhile (\<lambda>c. c = CHR '' '' \<or> c = CHR 0x09 \<or> c = CHR 0x0A) (ev_text st)\<rparr>"

definition peek :: "string \<Rightarrow> nat \<Rightarrow> char" where
  "peek t ahead = (if ahead < length t then t ! ahead else CHR 0x00)"

definition consume :: "string \<Rightarrow> 's evaluator \<Rightarrow> bool \<times> 's evaluator" where
  "consume op st0 =
     (let st = skip_blanks st0; t = ev_text st in
      if \<not> starts_with t op then (False, st)
      else if op = ''='' \<and> peek t 1 = CHR ''='' then (False, st)
      else if (op = ''<'' \<or> op = ''>'') \<and> (peek t 1 = CHR ''='' \<or> peek t 1 = op ! 0) then (False, st)
      else if (op = ''&'' \<or> op = ''|'') \<and> peek t 1 = op ! 0 then (False, st)
      else (True, st\<lparr>ev_text := drop (length op) t\<rparr>))"

definition kCompound :: "string list" where
  "kCompound =
     [''<<='', ''>>='', ''+='', ''-='', ''*='', ''/='', ''%='', ''&='', ''^='', ''|='']"

definition apply_compound :: "string \<Rightarrow> i64 \<Rightarrow> i64 \<Rightarrow> 's evaluator \<Rightarrow> i64 \<times> 's evaluator" where
  "apply_compound op a b st =
     (if op = ''+='' then (wrap_add a b, st)
      else if op = ''-='' then (wrap_sub a b, st)
      else if op = ''*='' then (wrap_mul a b, st)
      else if op = ''/='' then (if b = 0 then (0, snd (divide_by_zero st)) else (wrap_div a b, st))
      else if op = ''%='' then (if b = 0 then (0, snd (divide_by_zero st)) else (wrap_mod a b, st))
      else if op = ''<<='' then (shift_left a b, st)
      else if op = ''>>='' then (shift_right a b, st)
      else if op = ''&='' then (a AND b, st)
      else if op = ''^='' then (a XOR b, st)
      else if op = ''|='' then (a OR b, st)
      else (b, st))"

subsection \<open>Levels\<close>

text \<open>
  The four nonterminals the levels call recursively, and the loop every left-associative level
  runs: \<open>step\<close> returns whether to go round again, the value so far and the state.
\<close>

datatype entry = Comma | Assignment | Conditional | Unary

fun level_loop ::
  "nat \<Rightarrow> (i64 \<Rightarrow> 's evaluator \<Rightarrow> (bool \<times> i64 \<times> 's evaluator) option) \<Rightarrow> i64 \<Rightarrow> 's parser" where
  "level_loop 0 step value st = None"
| "level_loop (Suc n) step value st =
     do { (more, value', st') \<leftarrow> step value st;
          if more then level_loop n step value' st' else Some (value', st') }"

definition parse_number :: "'s evaluator \<Rightarrow> i64 \<times> 's evaluator" where
  "parse_number st =
     (let t = ev_text st;
          (base, t') =
            (if peek t 0 = CHR ''0'' \<and> (peek t 1 = CHR ''x'' \<or> peek t 1 = CHR ''X'')
             then (16 :: u64, drop 2 t)
             else if peek t 0 = CHR ''0'' \<and> sbyte (CHR ''0'') \<le> sbyte (peek t 1) \<and>
                     sbyte (peek t 1) \<le> sbyte (CHR ''7'')
             then (8, drop 1 t)
             else (10, t));
          run = scan_digits t' base (np_high (policy_for Arithmetic_literal));
          st' = st\<lparr>ev_text := drop (dr_consumed run) t'\<rparr>
      in (dr_value run,
          if dr_consumed run = 0 \<and> base = 16 then fail ''malformed number'' st' else st'))"

definition parse_primary :: "'s arithmetic_variables \<Rightarrow> (entry \<Rightarrow> 's parser) \<Rightarrow> 's parser" where
  "parse_primary vp rec st0 =
     (let st = skip_blanks st0 in
      if ev_text st = [] then Some (0, fail ''unexpected end of expression'' st)
      else (case consume ''('' st of
        (True, st1) \<Rightarrow>
          do { (value, st2) \<leftarrow> rec Comma st1;
               let (closed, st3) = consume '')'' st2;
               Some (value, if closed then st3 else fail (''expected '' @ [CHR 0x27, CHR '')'', CHR 0x27]) st3) }
      | (False, st1) \<Rightarrow>
          (let c = peek (ev_text st1) 0 in
           if sbyte (CHR ''0'') \<le> sbyte c \<and> sbyte c \<le> sbyte (CHR ''9'') then Some (parse_number st1)
           else if is_valid_var_name_first_char c then
             (let name = takeWhile is_valid_var_name_non_first_char (ev_text st1)
              in Some (read_variable vp name
                   (st1\<lparr>ev_text := dropWhile is_valid_var_name_non_first_char (ev_text st1)\<rparr>)))
           else Some (0, fail ''unexpected character'' st1))))"

definition parse_unary :: "'s arithmetic_variables \<Rightarrow> (entry \<Rightarrow> 's parser) \<Rightarrow> 's parser" where
  "parse_unary vp rec st0 =
     (case consume ''!'' (skip_blanks st0) of
        (True, st) \<Rightarrow> do { (v, st') \<leftarrow> rec Unary st; Some (of_bool64 (v = 0), st') }
      | (False, st) \<Rightarrow>
     (case consume ''~'' st of
        (True, st) \<Rightarrow> do { (v, st') \<leftarrow> rec Unary st; Some (NOT v, st') }
      | (False, st) \<Rightarrow>
     (case consume ''-'' st of
        (True, st) \<Rightarrow> do { (v, st') \<leftarrow> rec Unary st; Some (wrap_neg v, st') }
      | (False, st) \<Rightarrow>
     (case consume ''+'' st of
        (True, st) \<Rightarrow> rec Unary st
      | (False, st) \<Rightarrow> parse_primary vp rec st))))"

definition divide_step ::
  "(i64 \<Rightarrow> i64 \<Rightarrow> i64) \<Rightarrow> i64 \<Rightarrow> i64 \<times> 's evaluator \<Rightarrow> (bool \<times> i64 \<times> 's evaluator) option" where
  "divide_step f value r =
     (case r of (divisor, st) \<Rightarrow>
        if divisor = 0 then
          (case divide_by_zero st of
             (True, st') \<Rightarrow> Some (False, 0, st')
           | (False, st') \<Rightarrow> Some (True, 0, st'))
        else Some (True, f value divisor, st))"

definition parse_multiplicative ::
  "nat \<Rightarrow> 's arithmetic_variables \<Rightarrow> (entry \<Rightarrow> 's parser) \<Rightarrow> 's parser" where
  "parse_multiplicative n vp rec st0 =
     do { (value, st) \<leftarrow> parse_unary vp rec st0;
          level_loop n (\<lambda>value st.
            case consume ''*'' st of
              (True, st) \<Rightarrow> do { (v, st') \<leftarrow> parse_unary vp rec st; Some (True, wrap_mul value v, st') }
            | (False, st) \<Rightarrow>
            (case consume ''/'' st of
              (True, st) \<Rightarrow> do { r \<leftarrow> parse_unary vp rec st; divide_step wrap_div value r }
            | (False, st) \<Rightarrow>
            (case consume ''%'' st of
              (True, st) \<Rightarrow> do { r \<leftarrow> parse_unary vp rec st; divide_step wrap_mod value r }
            | (False, st) \<Rightarrow> Some (False, value, st)))) value st }"

definition parse_additive ::
  "nat \<Rightarrow> 's arithmetic_variables \<Rightarrow> (entry \<Rightarrow> 's parser) \<Rightarrow> 's parser" where
  "parse_additive n vp rec st0 =
     do { (value, st) \<leftarrow> parse_multiplicative n vp rec st0;
          level_loop n (\<lambda>value st.
            case consume ''+'' st of
              (True, st) \<Rightarrow>
                do { (v, st') \<leftarrow> parse_multiplicative n vp rec st; Some (True, wrap_add value v, st') }
            | (False, st) \<Rightarrow>
            (case consume ''-'' st of
              (True, st) \<Rightarrow>
                do { (v, st') \<leftarrow> parse_multiplicative n vp rec st; Some (True, wrap_sub value v, st') }
            | (False, st) \<Rightarrow> Some (False, value, st))) value st }"

definition parse_shift ::
  "nat \<Rightarrow> 's arithmetic_variables \<Rightarrow> (entry \<Rightarrow> 's parser) \<Rightarrow> 's parser" where
  "parse_shift n vp rec st0 =
     do { (value, st) \<leftarrow> parse_additive n vp rec st0;
          level_loop n (\<lambda>value st.
            case consume ''<<'' st of
              (True, st) \<Rightarrow>
                do { (v, st') \<leftarrow> parse_additive n vp rec st; Some (True, shift_left value v, st') }
            | (False, st) \<Rightarrow>
            (case consume ''>>'' st of
              (True, st) \<Rightarrow>
                do { (v, st') \<leftarrow> parse_additive n vp rec st; Some (True, shift_right value v, st') }
            | (False, st) \<Rightarrow> Some (False, value, st))) value st }"

definition parse_relational ::
  "nat \<Rightarrow> 's arithmetic_variables \<Rightarrow> (entry \<Rightarrow> 's parser) \<Rightarrow> 's parser" where
  "parse_relational n vp rec st0 =
     do { (value, st) \<leftarrow> parse_shift n vp rec st0;
          level_loop n (\<lambda>value st.
            case consume ''<='' st of
              (True, st) \<Rightarrow>
                do { (v, st') \<leftarrow> parse_shift n vp rec st; Some (True, of_bool64 (value <=s v), st') }
            | (False, st) \<Rightarrow>
            (case consume ''>='' st of
              (True, st) \<Rightarrow>
                do { (v, st') \<leftarrow> parse_shift n vp rec st; Some (True, of_bool64 (v <=s value), st') }
            | (False, st) \<Rightarrow>
            (case consume ''<'' st of
              (True, st) \<Rightarrow>
                do { (v, st') \<leftarrow> parse_shift n vp rec st; Some (True, of_bool64 (value <s v), st') }
            | (False, st) \<Rightarrow>
            (case consume ''>'' st of
              (True, st) \<Rightarrow>
                do { (v, st') \<leftarrow> parse_shift n vp rec st; Some (True, of_bool64 (v <s value), st') }
            | (False, st) \<Rightarrow> Some (False, value, st))))) value st }"

definition parse_equality ::
  "nat \<Rightarrow> 's arithmetic_variables \<Rightarrow> (entry \<Rightarrow> 's parser) \<Rightarrow> 's parser" where
  "parse_equality n vp rec st0 =
     do { (value, st) \<leftarrow> parse_relational n vp rec st0;
          level_loop n (\<lambda>value st.
            case consume ''=='' st of
              (True, st) \<Rightarrow>
                do { (v, st') \<leftarrow> parse_relational n vp rec st; Some (True, of_bool64 (value = v), st') }
            | (False, st) \<Rightarrow>
            (case consume ''!='' st of
              (True, st) \<Rightarrow>
                do { (v, st') \<leftarrow> parse_relational n vp rec st; Some (True, of_bool64 (value \<noteq> v), st') }
            | (False, st) \<Rightarrow> Some (False, value, st))) value st }"

text \<open>
  \<open>parse_bit_and\<close>, \<open>parse_bit_xor\<close> and \<open>parse_bit_or\<close> are the same loop over one operator.
\<close>

definition bit_level ::
  "nat \<Rightarrow> string \<Rightarrow> (i64 \<Rightarrow> i64 \<Rightarrow> i64) \<Rightarrow> 's parser \<Rightarrow> 's parser" where
  "bit_level n op f sub st0 =
     do { (value, st) \<leftarrow> sub st0;
          level_loop n (\<lambda>value st.
            case consume op st of
              (True, st) \<Rightarrow> do { (v, st') \<leftarrow> sub st; Some (True, f value v, st') }
            | (False, st) \<Rightarrow> Some (False, value, st)) value st }"

definition parse_bit_and ::
  "nat \<Rightarrow> 's arithmetic_variables \<Rightarrow> (entry \<Rightarrow> 's parser) \<Rightarrow> 's parser" where
  "parse_bit_and n vp rec = bit_level n ''&'' (AND) (parse_equality n vp rec)"

definition parse_bit_xor ::
  "nat \<Rightarrow> 's arithmetic_variables \<Rightarrow> (entry \<Rightarrow> 's parser) \<Rightarrow> 's parser" where
  "parse_bit_xor n vp rec = bit_level n ''^'' (XOR) (parse_bit_and n vp rec)"

definition parse_bit_or ::
  "nat \<Rightarrow> 's arithmetic_variables \<Rightarrow> (entry \<Rightarrow> 's parser) \<Rightarrow> 's parser" where
  "parse_bit_or n vp rec = bit_level n ''|'' (OR) (parse_bit_xor n vp rec)"

text \<open>
  \<open>parse_logical_and\<close> and \<open>parse_logical_or\<close> parse the right operand with the effects off
  when the left one settles the answer.
\<close>

definition parse_logical_and ::
  "nat \<Rightarrow> 's arithmetic_variables \<Rightarrow> (entry \<Rightarrow> 's parser) \<Rightarrow> 's parser" where
  "parse_logical_and n vp rec st0 =
     do { (value, st) \<leftarrow> parse_bit_or n vp rec st0;
          level_loop n (\<lambda>value st.
            case consume ''&&'' st of
              (True, st) \<Rightarrow>
                (let live = ev_live st;
                     st1 = (if value = 0 then st\<lparr>ev_live := False\<rparr> else st)
                 in do { (rhs, st2) \<leftarrow> parse_bit_or n vp rec st1;
                         Some (True, of_bool64 (value \<noteq> 0 \<and> rhs \<noteq> 0), st2\<lparr>ev_live := live\<rparr>) })
            | (False, st) \<Rightarrow> Some (False, value, st)) value st }"

definition parse_logical_or ::
  "nat \<Rightarrow> 's arithmetic_variables \<Rightarrow> (entry \<Rightarrow> 's parser) \<Rightarrow> 's parser" where
  "parse_logical_or n vp rec st0 =
     do { (value, st) \<leftarrow> parse_logical_and n vp rec st0;
          level_loop n (\<lambda>value st.
            case consume ''||'' st of
              (True, st) \<Rightarrow>
                (let live = ev_live st;
                     st1 = (if value \<noteq> 0 then st\<lparr>ev_live := False\<rparr> else st)
                 in do { (rhs, st2) \<leftarrow> parse_logical_and n vp rec st1;
                         Some (True, of_bool64 (value \<noteq> 0 \<or> rhs \<noteq> 0), st2\<lparr>ev_live := live\<rparr>) })
            | (False, st) \<Rightarrow> Some (False, value, st)) value st }"

definition parse_conditional ::
  "nat \<Rightarrow> 's arithmetic_variables \<Rightarrow> (entry \<Rightarrow> 's parser) \<Rightarrow> 's parser" where
  "parse_conditional n vp rec st0 =
     do { (condition, st1) \<leftarrow> parse_logical_or n vp rec st0;
          case consume ''?'' st1 of
            (False, st2) \<Rightarrow> Some (condition, st2)
          | (True, st2) \<Rightarrow>
              (let live = ev_live st2;
                   st3 = (if condition = 0 then st2\<lparr>ev_live := False\<rparr> else st2)
               in do { (when_true, st4) \<leftarrow> rec Assignment st3;
                       case consume '':'' (st4\<lparr>ev_live := live\<rparr>) of
                         (False, st5) \<Rightarrow>
                           Some (0, fail (''expected '' @ [CHR 0x27, CHR '':'', CHR 0x27]) st5)
                       | (True, st5) \<Rightarrow>
                           (let st6 = (if condition \<noteq> 0 then st5\<lparr>ev_live := False\<rparr> else st5)
                            in do { (when_false, st7) \<leftarrow> rec Conditional st6;
                                    Some (if condition \<noteq> 0 then when_true else when_false,
                                          st7\<lparr>ev_live := live\<rparr>) }) }) }"

text \<open>The write at the end of an assignment, which a skipped operand does not make.\<close>

definition assign_variable ::
  "'s arithmetic_variables \<Rightarrow> string \<Rightarrow> i64 \<Rightarrow> 's evaluator \<Rightarrow> 's evaluator" where
  "assign_variable vp name value st =
     (if \<not> ev_live st then st
      else (case av_set vp (ev_vars st) name value of
              (True, vars) \<Rightarrow> st\<lparr>ev_vars := vars\<rparr>
            | (False, vars) \<Rightarrow>
                fail ''readonly variable'' (st\<lparr>ev_vars := vars, ev_refused := True\<rparr>)))"

definition parse_assignment ::
  "nat \<Rightarrow> 's arithmetic_variables \<Rightarrow> (entry \<Rightarrow> 's parser) \<Rightarrow> 's parser" where
  "parse_assignment n vp rec st0 =
     (let st = skip_blanks st0; t = ev_text st in
      if t \<noteq> [] \<and> is_valid_var_name_first_char (hd t) then
        (let name = takeWhile is_valid_var_name_non_first_char t;
             after = dropWhile (\<lambda>c. c = CHR '' '' \<or> c = CHR 0x09)
                       (dropWhile is_valid_var_name_non_first_char t)
         in case find (\<lambda>op. starts_with after op) kCompound of
              Some op \<Rightarrow>
                do { (rhs, st1) \<leftarrow> rec Assignment (st\<lparr>ev_text := drop (length op) after\<rparr>);
                     let (lhs, st2) = read_variable vp name st1;
                         (result, st3) = apply_compound op lhs rhs st2
                     in Some (result, assign_variable vp name result st3) }
            | None \<Rightarrow>
                if after \<noteq> [] \<and> hd after = CHR ''='' \<and>
                   (length after < 2 \<or> after ! 1 \<noteq> CHR ''='') then
                  do { (rhs, st1) \<leftarrow> rec Assignment (st\<lparr>ev_text := drop 1 after\<rparr>);
                       Some (rhs, assign_variable vp name rhs st1) }
                else parse_conditional n vp rec st0)
      else parse_conditional n vp rec st0)"

definition parse_comma ::
  "nat \<Rightarrow> 's arithmetic_variables \<Rightarrow> (entry \<Rightarrow> 's parser) \<Rightarrow> 's parser" where
  "parse_comma n vp rec st0 =
     do { (value, st) \<leftarrow> parse_assignment n vp rec st0;
          level_loop n (\<lambda>value st.
            case consume '','' st of
              (True, st) \<Rightarrow> do { (v, st') \<leftarrow> parse_assignment n vp rec st; Some (True, v, st') }
            | (False, st) \<Rightarrow> Some (False, value, st)) value st }"

primrec parse_at :: "'s arithmetic_variables \<Rightarrow> nat \<Rightarrow> entry \<Rightarrow> 's parser" where
  "parse_at vp 0 = (\<lambda>e st. None)"
| "parse_at vp (Suc n) =
     (\<lambda>e. case e of
        Comma \<Rightarrow> parse_comma (Suc n) vp (parse_at vp n)
      | Assignment \<Rightarrow> parse_assignment (Suc n) vp (parse_at vp n)
      | Conditional \<Rightarrow> parse_conditional (Suc n) vp (parse_at vp n)
      | Unary \<Rightarrow> parse_unary vp (parse_at vp n))"

definition evaluator_init :: "string \<Rightarrow> 's \<Rightarrow> 's evaluator" where
  "evaluator_init t vars =
     \<lparr>ev_text = t, ev_failed = False, ev_refused = False, ev_live = True, ev_error = None,
      ev_unset_name = [], ev_vars = vars\<rparr>"

definition run_result :: "i64 \<Rightarrow> 's evaluator \<Rightarrow> arithmetic_result" where
  "run_result value st0 =
     (let st = skip_blanks st0 in
      if ev_failed st then
        \<lparr>ar_value = 0, ar_ok = False, ar_error = ev_error st, ar_unset_name = [],
         ar_assignment_refused = ev_refused st\<rparr>
      else if ev_text st \<noteq> [] then
        \<lparr>ar_value = 0, ar_ok = False, ar_error = Some ''unexpected character'',
         ar_unset_name = [], ar_assignment_refused = False\<rparr>
      else
        \<lparr>ar_value = value, ar_ok = True, ar_error = None, ar_unset_name = ev_unset_name st,
         ar_assignment_refused = False\<rparr>)"

text \<open>
  \<open>evaluate\<close>, with its result and the variables it leaves.  The fuel is the length of the
  expression plus one, which \<open>evaluate_total\<close> shows is always enough.
\<close>

definition evaluate ::
  "string \<Rightarrow> 's arithmetic_variables \<Rightarrow> 's \<Rightarrow> (arithmetic_result \<times> 's) option" where
  "evaluate expression vp vars =
     do { (value, st) \<leftarrow> parse_at vp (length expression + 1) Comma (evaluator_init expression vars);
          Some (run_result value st, ev_vars st) }"


subsection \<open>Every run ends, and a skipped operand does nothing\<close>

definition syntax_errors :: "string list" where
  "syntax_errors =
     [''unexpected end of expression'', ''unexpected character'', ''malformed number'',
      ''expected '' @ [CHR 0x27, CHR '':'', CHR 0x27], ''expected '' @ [CHR 0x27, CHR '')'', CHR 0x27]]"

text \<open>What any piece of the parser may do to the state.\<close>

definition writes :: "'s arithmetic_variables \<Rightarrow> 's \<Rightarrow> 's \<Rightarrow> bool" where
  "writes vp = (\<lambda>v w. \<exists>name value. w = snd (av_set vp v name value))\<^sup>*\<^sup>*"

definition step_ok :: "'s arithmetic_variables \<Rightarrow> 's evaluator \<Rightarrow> 's evaluator \<Rightarrow> bool" where
  "step_ok vp s t \<longleftrightarrow>
     length (ev_text t) \<le> length (ev_text s) \<and> ev_live t = ev_live s \<and>
     (ev_failed s \<longrightarrow> ev_failed t \<and> ev_error t = ev_error s) \<and>
     (\<not> ev_live s \<longrightarrow> ev_vars t = ev_vars s \<and> ev_unset_name t = ev_unset_name s \<and>
        ev_refused t = ev_refused s \<and>
        (\<not> ev_failed s \<longrightarrow> ev_failed t \<longrightarrow> ev_error t \<in> Some ` set syntax_errors)) \<and>
     (ev_refused t \<longrightarrow> ev_refused s \<or> ev_failed t) \<and>
     (ev_failed t \<longrightarrow> ev_failed s \<or> ev_error t \<noteq> None) \<and>
     writes vp (ev_vars s) (ev_vars t)"

lemma writes_refl [simp]: "writes vp v v"
  by (simp add: writes_def)

lemma writes_trans: "writes vp u v \<Longrightarrow> writes vp v w \<Longrightarrow> writes vp u w"
  by (simp add: writes_def)

lemma writes_step [simp]: "writes vp v (snd (av_set vp v name x))"
  unfolding writes_def by (rule r_into_rtranclp) blast

lemma writes_invariant:
  assumes "writes vp v w" "P v" "\<And>v name x. P v \<Longrightarrow> P (snd (av_set vp v name x))"
  shows "P w"
  using assms(1,2) unfolding writes_def
  by (induction rule: rtranclp_induct) (auto intro: assms(3))

lemma step_ok_refl [simp]: "step_ok vp s s"
  by (simp add: step_ok_def)

lemma step_ok_trans: "step_ok vp s t \<Longrightarrow> step_ok vp t u \<Longrightarrow> step_ok vp s u"
  unfolding step_ok_def by (cases "ev_failed t"; cases "ev_live s") (auto intro: writes_trans)

lemma step_ok_length: "step_ok vp s t \<Longrightarrow> length (ev_text t) \<le> length (ev_text s)"
  by (simp add: step_ok_def)

lemma step_ok_live: "step_ok vp s t \<Longrightarrow> ev_live t = ev_live s"
  by (simp add: step_ok_def)

lemma step_ok_text: "length t \<le> length (ev_text s) \<Longrightarrow> step_ok vp s (s\<lparr>ev_text := t\<rparr>)"
  by (simp add: step_ok_def)

lemma step_ok_fail: "why \<in> set syntax_errors \<Longrightarrow> step_ok vp s (fail why s)"
  by (simp add: step_ok_def fail_def)

lemma step_ok_fail_live: "ev_live s \<Longrightarrow> step_ok vp s (fail why s)"
  by (simp add: step_ok_def fail_def)

lemma step_ok_muted:
  assumes "step_ok vp (s\<lparr>ev_live := False\<rparr>) t"
  shows "step_ok vp s (t\<lparr>ev_live := ev_live s\<rparr>)"
  using assms unfolding step_ok_def by (cases "ev_failed s") auto

lemma step_ok_restored: "step_ok vp s t \<Longrightarrow> step_ok vp s (t\<lparr>ev_live := ev_live s\<rparr>)"
  by (auto simp: step_ok_def)

lemma step_ok_maybe_muted:
  "step_ok vp (if b then s\<lparr>ev_live := False\<rparr> else s) t \<Longrightarrow> step_ok vp s (t\<lparr>ev_live := ev_live s\<rparr>)"
  by (cases b) (simp_all add: step_ok_muted step_ok_restored)

lemma step_ok_skip_blanks [simp]: "step_ok vp s (skip_blanks s)"
  by (simp add: skip_blanks_def step_ok_text length_dropWhile_le)

lemma consume_cases:
  assumes "consume op s = (b, t)"
  shows "ev_text t = (if b then drop (length op) (ev_text (skip_blanks s)) else ev_text (skip_blanks s))"
    "t = skip_blanks s\<lparr>ev_text := ev_text t\<rparr>"
    "b \<Longrightarrow> starts_with (ev_text (skip_blanks s)) op"
  using assms by (auto simp: consume_def Let_def split: if_splits)

lemma consume_ok:
  assumes "consume op s = (b, t)"
  shows "step_ok vp s t"
proof -
  have "length (ev_text t) \<le> length (ev_text (skip_blanks s))"
    using consume_cases(1) [OF assms] by (simp split: if_splits)
  then have "step_ok vp (skip_blanks s) t"
    using consume_cases(2) [OF assms] step_ok_text [of "ev_text t" "skip_blanks s"] by metis
  then show ?thesis by (rule step_ok_trans [OF step_ok_skip_blanks])
qed

lemma consume_shorter:
  assumes "consume op s = (True, t)" "op \<noteq> []"
  shows "length (ev_text t) < length (ev_text s)"
proof -
  obtain r where "ev_text (skip_blanks s) = op @ r"
    using consume_cases(3) [OF assms(1)] by (auto simp: starts_with_iff)
  then have "length (ev_text t) < length (ev_text (skip_blanks s))"
    using consume_cases(1) [OF assms(1)] assms(2) by simp
  also have "\<dots> \<le> length (ev_text s)" by (rule step_ok_length) simp
  finally show ?thesis .
qed

definition good :: "'s arithmetic_variables \<Rightarrow> nat \<Rightarrow> 's parser \<Rightarrow> bool" where
  "good vp m p \<longleftrightarrow> (\<forall>s. length (ev_text s) < m \<longrightarrow> (\<exists>v t. p s = Some (v, t) \<and> step_ok vp s t))"

lemma goodE:
  assumes "good vp m p" "length (ev_text s) < m"
  obtains v t where "p s = Some (v, t)" "step_ok vp s t"
  using assms by (auto simp: good_def)

lemma good_mono: "good vp m p \<Longrightarrow> k \<le> m \<Longrightarrow> good vp k p"
  by (auto simp: good_def)

definition good_step ::
  "'s arithmetic_variables \<Rightarrow> nat \<Rightarrow> (i64 \<Rightarrow> 's evaluator \<Rightarrow> (bool \<times> i64 \<times> 's evaluator) option) \<Rightarrow> bool" where
  "good_step vp m step \<longleftrightarrow> (\<forall>v s. length (ev_text s) < m \<longrightarrow>
     (\<exists>b v' t. step v s = Some (b, v', t) \<and> step_ok vp s t \<and>
        (b \<longrightarrow> length (ev_text t) < length (ev_text s))))"

lemma level_loop_ok:
  assumes "good_step vp m step"
  shows "length (ev_text s) < m \<Longrightarrow> length (ev_text s) < n \<Longrightarrow>
    \<exists>v' t. level_loop n step v s = Some (v', t) \<and> step_ok vp s t"
proof (induction n arbitrary: v s)
  case (Suc n)
  from assms Suc.prems obtain b v1 t where step: "step v s = Some (b, v1, t)" "step_ok vp s t"
    "b \<longrightarrow> length (ev_text t) < length (ev_text s)"
    unfolding good_step_def by blast
  show ?case
  proof (cases b)
    case True
    with step Suc.prems Suc.IH [of t v1] show ?thesis by (auto intro: step_ok_trans)
  next
    case False
    with step show ?thesis by simp
  qed
qed simp

lemma good_level:
  assumes "good vp m sub" "good_step vp m step" "m \<le> n"
  shows "good vp m (\<lambda>st0. do { (value, st) \<leftarrow> sub st0; level_loop n step value st })"
  unfolding good_def
proof (intro allI impI)
  fix s :: "'a evaluator"
  assume s: "length (ev_text s) < m"
  obtain v t where t: "sub s = Some (v, t)" "step_ok vp s t" using goodE [OF assms(1) s] .
  then have "length (ev_text t) < m" using s step_ok_length [of vp s t] by simp
  with level_loop_ok [OF assms(2), of t n v] assms(3) obtain v' u
    where "level_loop n step v t = Some (v', u)" "step_ok vp t u" by auto
  with t show "\<exists>v t. (do { (value, st) \<leftarrow> sub s; level_loop n step value st }) = Some (v, t) \<and> step_ok vp s t"
    by (auto intro: step_ok_trans)
qed

lemma good_step_stop: "good_step vp m (\<lambda>value st. Some (False, value, st))"
  by (auto simp: good_step_def)

lemma good_step_branch:
  assumes "\<And>value s. length (ev_text s) < m \<Longrightarrow> \<exists>b v t. f value s = Some (b, v, t) \<and> step_ok vp s t"
    and "good_step vp (Suc m) other" "op \<noteq> []"
  shows "good_step vp (Suc m) (\<lambda>value st. case consume op st of
           (True, st) \<Rightarrow> f value st | (False, st) \<Rightarrow> other value st)"
  unfolding good_step_def
proof (intro allI impI)
  fix x :: i64 and s :: "'a evaluator"
  assume s: "length (ev_text s) < Suc m"
  obtain b t where c: "consume op s = (b, t)" by fastforce
  note t = consume_ok [of op s b t vp, OF c]
  show "\<exists>b v' u. (case consume op s of (True, st) \<Rightarrow> f x st | (False, st) \<Rightarrow> other x st) =
      Some (b, v', u) \<and> step_ok vp s u \<and> (b \<longrightarrow> length (ev_text u) < length (ev_text s))"
  proof (cases b)
    case True
    with consume_shorter [of op s t] c assms(3)
    have short: "length (ev_text t) < length (ev_text s)" by simp
    with s assms(1) [of t x] obtain b' v u where "f x t = Some (b', v, u)" "step_ok vp t u"
      by auto
    with short step_ok_length [of vp t u] step_ok_trans [OF t, of u] c True show ?thesis by auto
  next
    case False
    have "length (ev_text t) < Suc m" using step_ok_length [OF t] s by simp
    with assms(2) obtain b' v u where "other x t = Some (b', v, u)" "step_ok vp t u"
      "b' \<longrightarrow> length (ev_text u) < length (ev_text t)"
      unfolding good_step_def by meson
    with step_ok_trans [OF t, of u] step_ok_length [OF t] c False show ?thesis by auto
  qed
qed

lemma good_step_op:
  assumes "good vp m sub" "good_step vp (Suc m) other" "op \<noteq> []"
  shows "good_step vp (Suc m) (\<lambda>value st. case consume op st of
           (True, st) \<Rightarrow> do { (v, st') \<leftarrow> sub st; Some (True, g value v, st') }
         | (False, st) \<Rightarrow> other value st)"
proof (rule good_step_branch [OF _ assms(2,3)])
  fix x :: i64 and s :: "'a evaluator"
  assume "length (ev_text s) < m"
  then obtain v t where "sub s = Some (v, t)" "step_ok vp s t" using goodE [OF assms(1)] by blast
  then show "\<exists>b v u. (do { (v, st') \<leftarrow> sub s; Some (True, g x v, st') }) = Some (b, v, u) \<and> step_ok vp s u"
    by auto
qed

lemma good_step_divide:
  assumes "good vp m sub" "good_step vp (Suc m) other" "op \<noteq> []"
  shows "good_step vp (Suc m) (\<lambda>value st. case consume op st of
           (True, st) \<Rightarrow> do { r \<leftarrow> sub st; divide_step g value r }
         | (False, st) \<Rightarrow> other value st)"
proof (rule good_step_branch [OF _ assms(2,3)])
  fix x :: i64 and s :: "'a evaluator"
  assume "length (ev_text s) < m"
  then obtain v t where t: "sub s = Some (v, t)" "step_ok vp s t" using goodE [OF assms(1)] by blast
  have "\<exists>b v' u. divide_step g x (v, t) = Some (b, v', u) \<and> step_ok vp t u"
    by (auto simp: divide_step_def divide_by_zero_def intro: step_ok_fail_live)
  with t show "\<exists>b v' u. (do { r \<leftarrow> sub s; divide_step g x r }) = Some (b, v', u) \<and> step_ok vp s u"
    by (auto intro: step_ok_trans)
qed

lemma good_step_muted:
  assumes "good vp m sub" "good_step vp (Suc m) other" "op \<noteq> []"
  shows "good_step vp (Suc m) (\<lambda>value st. case consume op st of
           (True, st) \<Rightarrow>
             (let live = ev_live st; st1 = (if c value then st\<lparr>ev_live := False\<rparr> else st)
              in do { (rhs, st2) \<leftarrow> sub st1; Some (True, g value rhs, st2\<lparr>ev_live := live\<rparr>) })
         | (False, st) \<Rightarrow> other value st)"
proof (rule good_step_branch [OF _ assms(2,3)])
  fix x :: i64 and s :: "'a evaluator"
  assume s: "length (ev_text s) < m"
  let ?s = "if c x then s\<lparr>ev_live := False\<rparr> else s"
  from s have "length (ev_text ?s) < m" by simp
  then obtain v t where "sub ?s = Some (v, t)" "step_ok vp ?s t" using goodE [OF assms(1)] by blast
  then show "\<exists>b v u. (let live = ev_live s; st1 = ?s
      in do { (rhs, st2) \<leftarrow> sub st1; Some (True, g x rhs, st2\<lparr>ev_live := live\<rparr>) }) =
      Some (b, v, u) \<and> step_ok vp s u"
    using step_ok_maybe_muted by (auto simp: Let_def)
qed

lemma step_ok_parse_number: "step_ok vp s (snd (parse_number s))"
  by (auto simp: parse_number_def Let_def step_ok_text syntax_errors_def
      intro!: step_ok_trans [OF step_ok_text step_ok_fail] split: if_splits)

lemma step_ok_read_variable: "step_ok vp s (snd (read_variable vp name s))"
  by (simp add: read_variable_def step_ok_def)

lemma step_ok_divide_by_zero: "divide_by_zero s = (b, t) \<Longrightarrow> step_ok vp s t"
  by (auto simp: divide_by_zero_def intro: step_ok_fail_live split: if_splits)

lemma step_ok_apply_compound: "step_ok vp s (snd (apply_compound op a b s))"
  using step_ok_divide_by_zero [of s] by (simp add: apply_compound_def split: prod.splits)
    (metis surjective_pairing)

lemma step_ok_assign_variable: "step_ok vp s (assign_variable vp name v s)"
  using writes_step [of vp "ev_vars s" name v]
  by (cases "av_set vp (ev_vars s) name v") (auto simp: assign_variable_def step_ok_def fail_def split: prod.splits bool.splits)

text \<open>
  One lemma per level: with recursive calls that are total on texts shorter than \<open>m\<close>, the level is
  total on texts shorter than \<open>m + 1\<close>.
\<close>

lemma good_primary:
  assumes "\<And>e. good vp m (rec e)"
  shows "good vp (Suc m) (parse_primary vp rec)"
  unfolding good_def
proof (intro allI impI)
  fix s :: "'a evaluator"
  assume s: "length (ev_text s) < Suc m"
  let ?s = "skip_blanks s"
  obtain b t where c: "consume ''('' ?s = (b, t)" by fastforce
  have t: "step_ok vp s t" using step_ok_trans [OF step_ok_skip_blanks consume_ok [OF c]] .
  show "\<exists>v u. parse_primary vp rec s = Some (v, u) \<and> step_ok vp s u"
  proof (cases "ev_text ?s = []")
    case True
    then show ?thesis
      by (auto simp: parse_primary_def Let_def syntax_errors_def
          intro!: step_ok_trans [OF step_ok_skip_blanks step_ok_fail])
  next
    case False
    show ?thesis
    proof (cases b)
      case True
      with consume_shorter [of "''(''" ?s t] c
      have "length (ev_text t) < length (ev_text ?s)" by simp
      also have "\<dots> \<le> length (ev_text s)" by (rule step_ok_length) simp
      finally have "length (ev_text t) < m" using s by simp
      then obtain v u where u: "rec Comma t = Some (v, u)" "step_ok vp t u"
        using goodE [OF assms] by blast
      obtain b' w where w: "consume '')'' u = (b', w)" by fastforce
      let ?w = "if b' then w else fail (''expected '' @ [CHR 0x27, CHR '')'', CHR 0x27]) w"
      have "step_ok vp w ?w" by (auto intro: step_ok_fail simp: syntax_errors_def)
      then have "step_ok vp s ?w" using t u(2) consume_ok [OF w] step_ok_trans by meson
      with False c True u w show ?thesis by (simp add: parse_primary_def Let_def)
    next
      case b: False
      have "step_ok vp t (snd (parse_number t))" by (rule step_ok_parse_number)
      moreover have "step_ok vp t (snd (read_variable vp (takeWhile is_valid_var_name_non_first_char (ev_text t))
          (t\<lparr>ev_text := dropWhile is_valid_var_name_non_first_char (ev_text t)\<rparr>)))"
        by (rule step_ok_trans [OF step_ok_text step_ok_read_variable]) (simp add: length_dropWhile_le)
      moreover have "step_ok vp t (fail ''unexpected character'' t)"
        by (rule step_ok_fail) (simp add: syntax_errors_def)
      ultimately show ?thesis
        using False c b step_ok_trans [OF t]
        by (simp add: parse_primary_def Let_def) (metis prod.collapse)
    qed
  qed
qed

lemma consume_then:
  assumes "consume op s = (True, t)" "op \<noteq> []" "length (ev_text s) < Suc m" "good vp m p"
  obtains v u where "p t = Some (v, u)" "step_ok vp s u"
proof -
  have "length (ev_text t) < m" using consume_shorter [OF assms(1,2)] assms(3) by simp
  with goodE [OF assms(4)] obtain v u where "p t = Some (v, u)" "step_ok vp t u" by blast
  with that step_ok_trans [OF consume_ok [OF assms(1)]] show thesis by blast
qed

lemma good_prefix_operator:
  assumes "good vp m p" "good vp (Suc m) q" "op \<noteq> []"
  shows "good vp (Suc m) (\<lambda>s. case consume op s of
      (True, st) \<Rightarrow> do { (v, st') \<leftarrow> p st; Some (g v, st') } | (False, st) \<Rightarrow> q st)"
  unfolding good_def
proof (intro allI impI)
  fix s :: "'a evaluator"
  assume s: "length (ev_text s) < Suc m"
  obtain b t where c: "consume op s = (b, t)" by fastforce
  have t: "length (ev_text t) < Suc m" using step_ok_length [OF consume_ok [OF c]] s by simp
  show "\<exists>v u. (case consume op s of
      (True, st) \<Rightarrow> do { (v, st') \<leftarrow> p st; Some (g v, st') } | (False, st) \<Rightarrow> q st) = Some (v, u) \<and> step_ok vp s u"
  proof (cases b)
    case True
    with c have "consume op s = (True, t)" by simp
    from consume_then [OF this assms(3) s assms(1)]
    obtain v u where "p t = Some (v, u)" "step_ok vp s u" .
    with c True show ?thesis by simp
  next
    case False
    from goodE [OF assms(2) t] obtain v u where "q t = Some (v, u)" "step_ok vp t u" by blast
    with c False step_ok_trans [OF consume_ok [OF c]] show ?thesis by auto
  qed
qed

lemma bind_Some_pair: "do { (v, st') \<leftarrow> x; Some (v, st') } = x"
  by (cases x) auto

lemma good_unary:
  assumes "\<And>e. good vp m (rec e)"
  shows "good vp (Suc m) (parse_unary vp rec)"
proof -
  note step = good_prefix_operator [OF assms [of Unary]]
  have "good vp (Suc m) (\<lambda>s. case consume ''+'' s of
      (True, st) \<Rightarrow> do { (v, st') \<leftarrow> rec Unary st; Some (v, st') }
    | (False, st) \<Rightarrow> parse_primary vp rec st)"
    by (rule step [OF good_primary [OF assms]]) simp
  then have "good vp (Suc m) (\<lambda>s. case consume ''+'' s of
      (True, st) \<Rightarrow> rec Unary st | (False, st) \<Rightarrow> parse_primary vp rec st)"
    unfolding bind_Some_pair .
  from step [OF this, of "''-''" wrap_neg]
  have "good vp (Suc m) (\<lambda>s. case consume ''-'' s of
        (True, st) \<Rightarrow> do { (v, st') \<leftarrow> rec Unary st; Some (wrap_neg v, st') }
      | (False, st) \<Rightarrow>
     (case consume ''+'' st of
        (True, st) \<Rightarrow> rec Unary st
      | (False, st) \<Rightarrow> parse_primary vp rec st))" by simp
  from step [OF this, of "''~''" "\<lambda>v. NOT v"]
  have "good vp (Suc m) (\<lambda>s. case consume ''~'' s of
        (True, st) \<Rightarrow> do { (v, st') \<leftarrow> rec Unary st; Some (NOT v, st') }
      | (False, st) \<Rightarrow>
     (case consume ''-'' st of
        (True, st) \<Rightarrow> do { (v, st') \<leftarrow> rec Unary st; Some (wrap_neg v, st') }
      | (False, st) \<Rightarrow>
     (case consume ''+'' st of
        (True, st) \<Rightarrow> rec Unary st
      | (False, st) \<Rightarrow> parse_primary vp rec st)))" by simp
  from step [OF this, of "''!''" "\<lambda>v. of_bool64 (v = 0)"]
  have g: "good vp (Suc m) (\<lambda>s. case consume ''!'' s of
        (True, st) \<Rightarrow> do { (v, st') \<leftarrow> rec Unary st; Some (of_bool64 (v = 0), st') }
      | (False, st) \<Rightarrow>
     (case consume ''~'' st of
        (True, st) \<Rightarrow> do { (v, st') \<leftarrow> rec Unary st; Some (NOT v, st') }
      | (False, st) \<Rightarrow>
     (case consume ''-'' st of
        (True, st) \<Rightarrow> do { (v, st') \<leftarrow> rec Unary st; Some (wrap_neg v, st') }
      | (False, st) \<Rightarrow>
     (case consume ''+'' st of
        (True, st) \<Rightarrow> rec Unary st
      | (False, st) \<Rightarrow> parse_primary vp rec st))))" (is "good vp _ ?p") by simp
  show ?thesis unfolding good_def
  proof (intro allI impI)
    fix s :: "'a evaluator"
    assume "length (ev_text s) < Suc m"
    then have "length (ev_text (skip_blanks s)) < Suc m"
      using step_ok_length [OF step_ok_skip_blanks, of s] by simp
    from goodE [OF g this] obtain v t where "?p (skip_blanks s) = Some (v, t)" "step_ok vp (skip_blanks s) t"
      by blast
    then show "\<exists>v t. parse_unary vp rec s = Some (v, t) \<and> step_ok vp s t"
      unfolding parse_unary_def using step_ok_trans [OF step_ok_skip_blanks] by blast
  qed
qed

lemmas good_level_rules =
  good_level good_step_op good_step_divide good_step_muted good_step_stop

definition level_ok :: "'s arithmetic_variables \<Rightarrow> nat \<Rightarrow> 's parser \<Rightarrow> bool" where
  "level_ok vp m p \<longleftrightarrow> good vp m p \<and> good vp (Suc m) p"

lemma level_okI: "good vp (Suc m) p \<Longrightarrow> level_ok vp m p"
  by (auto simp: level_ok_def intro: good_mono)

lemma good_bit_level: "level_ok vp m sub \<Longrightarrow> m < n \<Longrightarrow> op \<noteq> [] \<Longrightarrow> level_ok vp m (bit_level n op f sub)"
  unfolding bit_level_def level_ok_def [of _ m sub]
  by (intro level_okI good_level_rules) auto

lemma good_multiplicative:
  assumes "\<And>e. good vp m (rec e)" "m < n"
  shows "level_ok vp m (parse_multiplicative n vp rec)"
proof -
  have "level_ok vp m (parse_unary vp rec)" by (rule level_okI [OF good_unary]) (use assms in auto)
  then show ?thesis
    unfolding parse_multiplicative_def level_ok_def [of _ m "parse_unary vp rec"] using assms(2)
    by (intro level_okI good_level_rules) auto
qed

lemma good_additive:
  assumes "\<And>e. good vp m (rec e)" "m < n"
  shows "level_ok vp m (parse_additive n vp rec)"
proof -
  have "level_ok vp m (parse_multiplicative n vp rec)" by (rule good_multiplicative) (use assms in auto)
  then show ?thesis
    unfolding parse_additive_def level_ok_def [of _ m "parse_multiplicative n vp rec"] using assms(2)
    by (intro level_okI good_level_rules) auto
qed

lemma good_shift:
  assumes "\<And>e. good vp m (rec e)" "m < n"
  shows "level_ok vp m (parse_shift n vp rec)"
proof -
  have "level_ok vp m (parse_additive n vp rec)" by (rule good_additive) (use assms in auto)
  then show ?thesis
    unfolding parse_shift_def level_ok_def [of _ m "parse_additive n vp rec"] using assms(2)
    by (intro level_okI good_level_rules) auto
qed

lemma good_relational:
  assumes "\<And>e. good vp m (rec e)" "m < n"
  shows "level_ok vp m (parse_relational n vp rec)"
proof -
  have "level_ok vp m (parse_shift n vp rec)" by (rule good_shift) (use assms in auto)
  then show ?thesis
    unfolding parse_relational_def level_ok_def [of _ m "parse_shift n vp rec"] using assms(2)
    by (intro level_okI good_level_rules) auto
qed

lemma good_equality:
  assumes "\<And>e. good vp m (rec e)" "m < n"
  shows "level_ok vp m (parse_equality n vp rec)"
proof -
  have "level_ok vp m (parse_relational n vp rec)" by (rule good_relational) (use assms in auto)
  then show ?thesis
    unfolding parse_equality_def level_ok_def [of _ m "parse_relational n vp rec"] using assms(2)
    by (intro level_okI good_level_rules) auto
qed

lemma good_bit_and:
  assumes "\<And>e. good vp m (rec e)" "m < n"
  shows "level_ok vp m (parse_bit_and n vp rec)"
  unfolding parse_bit_and_def by (intro good_bit_level good_equality assms) simp

lemma good_bit_xor:
  assumes "\<And>e. good vp m (rec e)" "m < n"
  shows "level_ok vp m (parse_bit_xor n vp rec)"
  unfolding parse_bit_xor_def by (intro good_bit_level good_bit_and assms) simp

lemma good_bit_or:
  assumes "\<And>e. good vp m (rec e)" "m < n"
  shows "level_ok vp m (parse_bit_or n vp rec)"
  unfolding parse_bit_or_def by (intro good_bit_level good_bit_xor assms) simp

lemma good_logical_and:
  assumes "\<And>e. good vp m (rec e)" "m < n"
  shows "level_ok vp m (parse_logical_and n vp rec)"
proof -
  have "level_ok vp m (parse_bit_or n vp rec)" by (rule good_bit_or) (use assms in auto)
  then show ?thesis
    unfolding parse_logical_and_def level_ok_def [of _ m "parse_bit_or n vp rec"] using assms(2)
    by (intro level_okI good_level_rules) auto
qed

lemma good_logical_or:
  assumes "\<And>e. good vp m (rec e)" "m < n"
  shows "level_ok vp m (parse_logical_or n vp rec)"
proof -
  have "level_ok vp m (parse_logical_and n vp rec)" by (rule good_logical_and) (use assms in auto)
  then show ?thesis
    unfolding parse_logical_or_def level_ok_def [of _ m "parse_logical_and n vp rec"] using assms(2)
    by (intro level_okI good_level_rules) auto
qed

lemma good_conditional:
  assumes "\<And>e. good vp m (rec e)" "m < n"
  shows "good vp (Suc m) (parse_conditional n vp rec)"
  unfolding good_def
proof (intro allI impI)
  fix s :: "'a evaluator"
  assume s: "length (ev_text s) < Suc m"
  have "good vp (Suc m) (parse_logical_or n vp rec)"
    using good_logical_or [OF assms] by (simp add: level_ok_def)
  from goodE [OF this s] obtain c s1 where s1: "parse_logical_or n vp rec s = Some (c, s1)" "step_ok vp s s1" .
  then have l1: "length (ev_text s1) < Suc m" using s step_ok_length [of vp s s1] by simp
  obtain b s2 where s2: "consume ''?'' s1 = (b, s2)" by fastforce
  have ok2: "step_ok vp s s2" using step_ok_trans [OF s1(2) consume_ok [OF s2]] .
  show "\<exists>v t. parse_conditional n vp rec s = Some (v, t) \<and> step_ok vp s t"
  proof (cases b)
    case False
    with s1 s2 ok2 show ?thesis by (simp add: parse_conditional_def)
  next
    case True
    let ?s3 = "if c = 0 then s2\<lparr>ev_live := False\<rparr> else s2"
    have l2: "length (ev_text s2) < m" using consume_shorter [of "''?''" s1 s2] s2 True l1 by simp
    then have "length (ev_text ?s3) < m" by simp
    from goodE [OF assms(1) this] obtain v s4 where s4: "rec Assignment ?s3 = Some (v, s4)" "step_ok vp ?s3 s4" .
    let ?s4 = "s4\<lparr>ev_live := ev_live s2\<rparr>"
    have ok4: "step_ok vp s ?s4" using step_ok_trans [OF ok2 step_ok_maybe_muted [OF s4(2)]] .
    obtain b' s5 where s5: "consume '':'' ?s4 = (b', s5)" by fastforce
    have ok5: "step_ok vp s s5" using step_ok_trans [OF ok4 consume_ok [OF s5]] .
    have l5: "length (ev_text s5) < m"
      using l2 step_ok_length [OF s4(2)] step_ok_length [OF consume_ok [OF s5]]
      by (simp split: if_splits)
    show ?thesis
    proof (cases b')
      case False
      have "step_ok vp s5 (fail (''expected '' @ [CHR 0x27, CHR '':'', CHR 0x27]) s5)"
        by (rule step_ok_fail) (simp add: syntax_errors_def)
      with False s1 s2 s4 s5 True step_ok_trans [OF ok5] show ?thesis
        by (simp add: parse_conditional_def Let_def)
    next
      case b': True
      let ?s6 = "if c \<noteq> 0 then s5\<lparr>ev_live := False\<rparr> else s5"
      from l5 have "length (ev_text ?s6) < m" by simp
      from goodE [OF assms(1) this] obtain w s7 where s7: "rec Conditional ?s6 = Some (w, s7)" "step_ok vp ?s6 s7" .
      have "ev_live s5 = ev_live s2" using step_ok_live [OF consume_ok [OF s5]] by simp
      then have "step_ok vp s (s7\<lparr>ev_live := ev_live s2\<rparr>)"
        using step_ok_trans [OF ok5 step_ok_maybe_muted [OF s7(2)]] by simp
      with b' s1 s2 s4 s5 s7 True show ?thesis
        by (simp add: parse_conditional_def Let_def)
    qed
  qed
qed

lemma good_assignment:
  assumes "\<And>e. good vp m (rec e)" "m < n"
  shows "level_ok vp m (parse_assignment n vp rec)"
proof (rule level_okI, unfold good_def, intro allI impI)
  fix s :: "'a evaluator"
  assume s: "length (ev_text s) < Suc m"
  let ?s = "skip_blanks s"
  let ?t = "ev_text ?s"
  let ?name = "takeWhile is_valid_var_name_non_first_char ?t"
  let ?after = "dropWhile (\<lambda>c. c = CHR '' '' \<or> c = CHR 0x09) (dropWhile is_valid_var_name_non_first_char ?t)"
  from goodE [OF good_conditional [OF assms] s] obtain v0 t0
    where cond: "parse_conditional n vp rec s = Some (v0, t0)" "step_ok vp s t0" .
  have short: "\<exists>v u. rec Assignment (?s\<lparr>ev_text := drop k ?after\<rparr>) = Some (v, u) \<and> step_ok vp s u"
    if "?t \<noteq> []" "is_valid_var_name_first_char (hd ?t)" for k
  proof -
    have "length (dropWhile is_valid_var_name_non_first_char ?t) < length ?t"
      using that var_name_first_is_non_first by (cases ?t) (auto intro: le_imp_less_Suc length_dropWhile_le)
    then have l: "length (drop k ?after) < length ?t"
      using length_dropWhile_le [of "\<lambda>c. c = CHR '' '' \<or> c = CHR 0x09"
          "dropWhile is_valid_var_name_non_first_char ?t"] by (simp add: less_imp_diff_less)
    moreover have "length ?t \<le> length (ev_text s)" by (rule step_ok_length) simp
    ultimately have "length (ev_text (?s\<lparr>ev_text := drop k ?after\<rparr>)) < m" using s by simp
    from goodE [OF assms(1) this] obtain v u
      where "rec Assignment (?s\<lparr>ev_text := drop k ?after\<rparr>) = Some (v, u)"
        "step_ok vp (?s\<lparr>ev_text := drop k ?after\<rparr>) u" .
    moreover have "step_ok vp s (?s\<lparr>ev_text := drop k ?after\<rparr>)"
      using l by (intro step_ok_trans [OF step_ok_skip_blanks step_ok_text]) simp
    ultimately show ?thesis using step_ok_trans by blast
  qed
  have stores: "step_ok vp u (assign_variable vp ?name r (snd (apply_compound op a b (snd (read_variable vp ?name u)))))"
    for u :: "'a evaluator" and r op a b
    using step_ok_read_variable step_ok_apply_compound step_ok_assign_variable step_ok_trans by meson
  show "\<exists>v t. parse_assignment n vp rec s = Some (v, t) \<and> step_ok vp s t"
  proof (cases "?t \<noteq> [] \<and> is_valid_var_name_first_char (hd ?t)")
    case False
    with cond show ?thesis by (auto simp: parse_assignment_def Let_def)
  next
    case True
    note short = short [OF conjunct1 [OF True] conjunct2 [OF True]]
    show ?thesis
    proof (cases "find (\<lambda>op. starts_with ?after op) kCompound")
      case (Some op)
      obtain v u where u: "rec Assignment (?s\<lparr>ev_text := drop (length op) ?after\<rparr>) = Some (v, u)" "step_ok vp s u"
        using short by blast
      obtain lhs u1 where u1: "read_variable vp ?name u = (lhs, u1)" by fastforce
      obtain r u2 where u2: "apply_compound op lhs v u1 = (r, u2)" by fastforce
      have "step_ok vp s (assign_variable vp ?name r u2)"
        using stores [of u r op lhs v] u1 u2 step_ok_trans [OF u(2)] by simp
      with True Some u u1 u2 show ?thesis by (simp add: parse_assignment_def Let_def)
    next
      case None
      obtain v u where u: "rec Assignment (?s\<lparr>ev_text := drop 1 ?after\<rparr>) = Some (v, u)" "step_ok vp s u"
        using short by blast
      then have "step_ok vp s (assign_variable vp ?name v u)"
        using step_ok_trans step_ok_assign_variable by blast
      with True None u cond show ?thesis by (auto simp: parse_assignment_def Let_def)
    qed
  qed
qed

lemma good_comma:
  assumes "\<And>e. good vp m (rec e)" "m < n"
  shows "good vp (Suc m) (parse_comma n vp rec)"
proof -
  have "level_ok vp m (parse_assignment n vp rec)" by (rule good_assignment [OF assms])
  then show ?thesis
    unfolding parse_comma_def level_ok_def using assms(2) by (intro good_level_rules) auto
qed

lemma parse_at_good: "good vp n (parse_at vp n e)"
proof (induction n arbitrary: e)
  case 0
  then show ?case by (simp add: good_def)
next
  case (Suc m)
  then show ?case
    using good_comma [of vp m "parse_at vp m" "Suc m"] good_conditional [of vp m "parse_at vp m" "Suc m"]
      good_assignment [of vp m "parse_at vp m" "Suc m"] good_unary [of vp m "parse_at vp m"]
    by (cases e) (simp_all add: level_ok_def)
qed


lemma parse_at_total:
  "length (ev_text s) < n \<Longrightarrow> \<exists>v t. parse_at vp n e s = Some (v, t) \<and> step_ok vp s t"
  using parse_at_good [of vp n e] by (simp add: good_def)

subsection \<open>The operators over the integers\<close>

lemma sint_wrap: "sint (word_of_int k :: i64) = signed_take_bit 63 k"
  by (simp add: sint_sbintrunc')

lemma wrap_div_int: "b \<noteq> 0 \<Longrightarrow> wrap_div a b = word_of_int (sint a sdiv sint b)"
proof (cases "sint b = - 1")
  case True
  have "sint a sdiv (- 1) = - sint a"
    by (simp add: signed_divide_int_def mult.assoc [symmetric] abs_mult_sgn sgn_mult_abs)
  with True show ?thesis by (simp add: wrap_div_def wrap_neg_def wrap_sub_def)
qed (simp add: wrap_div_def)

lemma wrap_mod_int: "b \<noteq> 0 \<Longrightarrow> wrap_mod a b = word_of_int (sint a smod sint b)"
proof (cases "sint b = - 1")
  case True
  have "sint a smod (- 1) = 0"
    by (simp add: signed_modulo_int_def)
  with True show ?thesis by (simp add: wrap_mod_def)
qed (simp add: wrap_mod_def)

lemma smod_between:
  "0 \<le> a \<Longrightarrow> 0 \<le> a smod b \<and> a smod b \<le> a" "a \<le> 0 \<Longrightarrow> a \<le> a smod b \<and> a smod b \<le> 0" for a b :: int
  using zmod_le_nonneg_dividend [of "\<bar>a\<bar>" "\<bar>b\<bar>"]
  by (cases "b = 0"; cases "a = 0"; simp add: smod_int_alt_def sgn_if)+

lemma sint_wrap_mod: "b \<noteq> 0 \<Longrightarrow> sint (wrap_mod a b) = sint a smod sint b"
  unfolding wrap_mod_int
  by (rule sint64_of_int)
    (use smod_between [of "sint a" "sint b"] sint64_range [of a] in linarith)+

lemma shift_count: "unat (b AND 63 :: i64) = nat (sint b mod 64)"
proof -
  have "b AND 63 = take_bit 6 b" by (simp add: take_bit_eq_mask mask_eq_exp_minus_1)
  then have "uint (b AND 63) = take_bit 6 (uint b)" by (simp add: unsigned_take_bit_eq)
  also have "\<dots> = take_bit 6 (sint b)" by (simp add: take_bit_signed_take_bit sint_uint)
  finally show ?thesis by (simp add: take_bit_eq_mod unat_eq_nat_uint)
qed

lemma sint_shift_right: "sint (shift_right a b) = sint a div 2 ^ nat (sint b mod 64)"
  by (simp add: shift_right_def shift_count sint_signed_drop_bit_eq drop_bit_eq_div)

lemma shift_left_mult: "shift_left a b = a * 2 ^ nat (sint b mod 64)"
  by (simp add: shift_left_def shift_count push_bit_eq_mult)

subsection \<open>The variables port\<close>

text \<open>
  What the evaluator relies on of the variables it is lent: \<open>view\<close> is what the provider answers for
  a name.  A write that is accepted is read back and changes no other name, a refused one changes
  nothing, and a name that refuses writes goes on refusing them.
\<close>

locale variables_port =
  fixes vp :: "'s arithmetic_variables"
    and view :: "'s \<Rightarrow> string \<Rightarrow> string option"
  assumes get_set: "av_set vp s n x = (True, t) \<Longrightarrow> av_get vp t n = x"
    and view_other: "av_set vp s n x = (True, t) \<Longrightarrow> m \<noteq> n \<Longrightarrow> view t m = view s m"
    and view_set: "av_set vp s n x = (True, t) \<Longrightarrow> view t n \<noteq> None"
    and refused: "av_set vp s n x = (False, t) \<Longrightarrow> t = s"
    and get_view: "view s n = view t n \<Longrightarrow> av_get vp s n = av_get vp t n"
    and defined_view: "av_defined vp s n \<longleftrightarrow> view s n \<noteq> None"
    and refuses_stable: "\<not> fst (av_set vp s n x) \<Longrightarrow> \<not> fst (av_set vp (snd (av_set vp s m y)) n z)"
begin

definition sealed :: "'s \<Rightarrow> string \<Rightarrow> bool" where
  "sealed s n \<longleftrightarrow> (\<forall>x. \<not> fst (av_set vp s n x))"

lemma sealed_write:
  assumes "sealed s n"
  shows "sealed (snd (av_set vp s m y)) n \<and> view (snd (av_set vp s m y)) n = view s n"
proof -
  obtain ok t where t: "av_set vp s m y = (ok, t)" by fastforce
  have "view t n = view s n"
  proof (cases ok)
    case True
    with assms t have "m \<noteq> n" by (auto simp: sealed_def) (metis fst_conv)
    with view_other [of s m y t n] t True show ?thesis by auto
  next
    case False
    with refused t show ?thesis by metis
  qed
  moreover have "sealed t n"
    using assms refuses_stable [of s n _ m y] t by (auto simp: sealed_def)
  ultimately show ?thesis by (simp add: t)
qed

lemma sealed_writes: "writes vp s t \<Longrightarrow> sealed s n \<Longrightarrow> sealed t n \<and> view t n = view s n"
  using writes_invariant [of vp s t "\<lambda>v. sealed v n \<and> view v n = view s n"] sealed_write by auto

lemma sealed_evaluate:
  assumes "evaluate e vp s = Some (r, t)" "sealed s n"
  shows "view t n = view s n"
proof -
  let ?i = "evaluator_init e s"
  have "length (ev_text ?i) < length e + 1" by (simp add: evaluator_init_def)
  from parse_at_total [OF this, of vp Comma] assms(1) have "writes vp s t"
    by (auto simp: evaluate_def step_ok_def evaluator_init_def)
  with sealed_writes assms(2) show ?thesis by blast
qed

lemma assigned_is_read:
  assumes "ev_live s" "av_set vp (ev_vars s) n x = (True, v)"
  shows "fst (read_variable vp n (assign_variable vp n x s)) = x"
    and "ev_unset_name (snd (read_variable vp n (assign_variable vp n x s))) = ev_unset_name s"
proof -
  have "av_defined vp v n" using view_set [OF assms(2)] by (simp add: defined_view)
  then show "fst (read_variable vp n (assign_variable vp n x s)) = x"
    and "ev_unset_name (snd (read_variable vp n (assign_variable vp n x s))) = ev_unset_name s"
    using assms get_set [OF assms(2)] by (simp_all add: assign_variable_def read_variable_def)
qed

end

subsection \<open>Properties\<close>

text \<open>C4: the evaluator returns on every expression, well formed or not: the recursion is bounded by
  the text, a failing result carries a diagnostic and the value 0, a refused assignment is always a
  failure, and every change of the variables went through the port's own write.\<close>
theorem evaluate_total:
  "\<exists>r w. evaluate expression vp vars = Some (r, w) \<and> writes vp vars w \<and>
     (\<not> ar_ok r \<longrightarrow> ar_error r \<noteq> None \<and> ar_value r = 0) \<and> (ar_assignment_refused r \<longrightarrow> \<not> ar_ok r)"
proof -
  let ?s = "evaluator_init expression vars"
  have "length (ev_text ?s) < length expression + 1" by (simp add: evaluator_init_def)
  from parse_at_total [OF this] obtain v t
    where t: "parse_at vp (length expression + 1) Comma ?s = Some (v, t)" "step_ok vp ?s t" by blast
  then show ?thesis
    by (auto simp: evaluate_def run_result_def skip_blanks_def Let_def step_ok_def evaluator_init_def)
qed

theorem evaluate_total_witness:
  "\<exists>r w. evaluate ''1/0''
       \<lparr>av_get = \<lambda>v n. 0, av_set = \<lambda>v n x. (True, v), av_defined = \<lambda>v n. True\<rparr> () = Some (r, w) \<and>
     \<not> ar_ok r \<and> ar_error r \<noteq> None"
proof -
  let ?vp = "\<lparr>av_get = \<lambda>v n. 0, av_set = \<lambda>v n x. (True, v), av_defined = \<lambda>v n. True\<rparr> :: unit arithmetic_variables"
  have "map_option (\<lambda>r. ar_ok (fst r)) (evaluate ''1/0'' ?vp ()) = Some False" by code_simp
  with evaluate_total [of "''1/0''" ?vp "()"] show ?thesis by auto
qed



text \<open>C6: the operators are C's over \<open>int64_t\<close> with the overflow wrapped: sums, differences and
  products are the exact ones modulo \<open>2^64\<close>, division and remainder are the truncating ones,
  \<open>INT64_MIN / -1\<close> included, and the shifts take their count modulo 64.\<close>
theorem operators_wrap:
  assumes "b \<noteq> 0"
  shows "sint (wrap_add a b) = signed_take_bit 63 (sint a + sint b) \<and>
    sint (wrap_sub a b) = signed_take_bit 63 (sint a - sint b) \<and>
    sint (wrap_mul a b) = signed_take_bit 63 (sint a * sint b) \<and>
    sint (wrap_neg a) = signed_take_bit 63 (- sint a) \<and>
    sint (wrap_div a b) = signed_take_bit 63 (sint a sdiv sint b) \<and>
    sint (wrap_mod a b) = sint a smod sint b \<and>
    sint (shift_left a b) = signed_take_bit 63 (sint a * 2 ^ nat (sint b mod 64)) \<and>
    sint (shift_right a b) = sint a div 2 ^ nat (sint b mod 64)"
proof -
  have "word_of_int (sint a + sint b) = a + b" "word_of_int (sint a - sint b) = a - b"
    "word_of_int (sint a * sint b) = a * b" "word_of_int (- sint a) = - a"
    "word_of_int (sint a * 2 ^ k) = a * 2 ^ k" for k
    by simp_all
  then show ?thesis
    using assms by (simp add: sint_wrap [symmetric] wrap_add_def wrap_sub_def wrap_mul_def
        wrap_neg_def wrap_div_int sint_wrap_mod shift_left_mult sint_shift_right)
qed

theorem operators_wrap_witness:
  "sint (wrap_div int64_min (- 1)) = - (2 ^ 63) \<and> sint (wrap_mod int64_min (- 1)) = 0"
proof -
  have "(- 1 :: i64) \<noteq> 0" "sint (int64_min) = - (2 ^ 63)" "sint (- 1 :: i64) = - 1"
    by (simp_all add: int64_min_def)
  with operators_wrap [of "- 1" int64_min] show ?thesis
    by (simp add: signed_divide_int_def signed_modulo_int_def)
qed

end
