(* ===== verification/Args.thy ===== *)
theory Args
  imports Numeric
begin

text \<open>
  \<^verbatim>\<open>src/substrate/args.h\<close> and \<^verbatim>\<open>args.cpp\<close>: the one option parser.  \<open>argv\<close> is the list of its
  words (the null pointer that ends it is the absence of a word), a row's projection \<open>at\<close> to the
  field it binds is the number of the field, and the struct the rows write into is a function from
  fields to contents.  \<open>next_step\<close> is the resumable grammar step, \<open>scan\<close> and \<open>parse_core\<close> the
  two loops over it.  \<open>option_groups\<close> is the grammar as POSIX states it, over words and letters
  without a cursor, and the lemmas show the stepping parser equal to it.
\<close>

subsection \<open>Rows\<close>

datatype arg = Arg_none | Arg_required

datatype setter = Set_bool | Set_enum_value | Increment | Store_view | Store_integral | Toggle

datatype error_kind = Err_none | Unknown_option | Missing_argument | Invalid_argument

record error =
  err_kind :: error_kind
  err_letter :: char

definition no_error :: error where
  "no_error = \<lparr>err_kind = Err_none, err_letter = CHR 0x00\<rparr>"

definition mk_error :: "error_kind \<Rightarrow> char \<Rightarrow> error" where
  "mk_error k c = \<lparr>err_kind = k, err_letter = c\<rparr>"

definition is_error :: "error \<Rightarrow> bool" where
  "is_error e \<longleftrightarrow> err_kind e \<noteq> Err_none"

record option_row =
  letter :: char
  row_set :: setter
  takes :: arg
  plus :: bool
  width :: nat
  is_signed :: bool
  long_name :: "string option"
  placeholder :: "string option"
  help_text :: "string option"
  at_field :: nat
  bound_to :: nat
  baked :: "nat list"

text \<open>
  What a bound field holds: a bool, an enum's bytes, an integer (as the field's own type reads it),
  or a view into \<open>argv\<close> (the null view is \<open>None\<close>).
\<close>

datatype content = Bool_field bool | Enum_field "nat list" | Int_field int | View_field "string option"

type_synonym bound_struct = "nat \<Rightarrow> content"

definition alphanumeric :: "char \<Rightarrow> bool" where
  "alphanumeric c \<longleftrightarrow>
     (97 \<le> ubyte c \<and> ubyte c \<le> 122) \<or> (65 \<le> ubyte c \<and> ubyte c \<le> 90) \<or> (48 \<le> ubyte c \<and> ubyte c \<le> 57)"

definition same_name :: "string option \<Rightarrow> string option \<Rightarrow> bool" where
  "same_name a b = (case (a, b) of (Some x, Some y) \<Rightarrow> x = y | _ \<Rightarrow> False)"

text \<open>The compile-time check of a table; the code refuses to build when it is false.\<close>

definition validate :: "nat \<Rightarrow> option_row list \<Rightarrow> bool" where
  "validate struct rows \<longleftrightarrow>
     length rows \<le> 64 \<and>
     list_all (\<lambda>i.
       alphanumeric (letter (rows ! i)) \<and> bound_to (rows ! i) = struct \<and>
       ((row_set (rows ! i) = Store_view \<or> row_set (rows ! i) = Store_integral) \<longleftrightarrow>
          takes (rows ! i) = Arg_required) \<and>
       list_all (\<lambda>j. letter (rows ! j) \<noteq> letter (rows ! i) \<and>
           \<not> same_name (long_name (rows ! i)) (long_name (rows ! j)))
         [Suc i..<length rows])
     [0..<length rows]"

subsection \<open>The grammar step\<close>

record cursor =
  cu_word :: nat
  cu_letter :: nat

datatype step_kind = Step_done | Step_matched | Step_failed

record step =
  what :: step_kind
  st_index :: nat
  st_plus :: bool
  st_argument :: "string option"
  st_err :: error

definition step_init :: step where
  "step_init = \<lparr>what = Step_done, st_index = 0, st_plus = False, st_argument = None, st_err = no_error\<rparr>"

definition failed_step :: "error_kind \<Rightarrow> char \<Rightarrow> step" where
  "failed_step k c = step_init\<lparr>what := Step_failed, st_err := mk_error k c\<rparr>"

definition matched_step :: "nat \<Rightarrow> bool \<Rightarrow> string option \<Rightarrow> step" where
  "matched_step i p a = step_init\<lparr>what := Step_matched, st_index := i, st_plus := p, st_argument := a\<rparr>"

definition argv_at :: "string list \<Rightarrow> nat \<Rightarrow> string option" where
  "argv_at argv i = (if i < length argv then Some (argv ! i) else None)"

fun admits_plus :: "option_row list \<Rightarrow> bool" where
  "admits_plus [] = False"
| "admits_plus (row # rows) = (if plus row then True else admits_plus rows)"

fun index_of :: "option_row list \<Rightarrow> char \<Rightarrow> nat" where
  "index_of [] c = 0"
| "index_of (row # rows) c = (if letter row = c then 0 else Suc (index_of rows c))"

fun index_of_name :: "option_row list \<Rightarrow> string \<Rightarrow> nat" where
  "index_of_name [] name = 0"
| "index_of_name (row # rows) name =
     (if long_name row = Some name then 0 else Suc (index_of_name rows name))"

definition long_option :: "option_row list \<Rightarrow> string list \<Rightarrow> string \<Rightarrow> cursor \<Rightarrow> step \<times> cursor" where
  "long_option rows argv word c =
     (let body = drop 2 word;
          equals = (CHR ''='' \<in> set body);
          name = takeWhile (\<lambda>x. x \<noteq> CHR ''='') body;
          i = index_of_name rows name
      in if i = length rows then (failed_step Unknown_option (CHR 0x00), c)
         else if takes (rows ! i) \<noteq> Arg_required then
           (if equals then (failed_step Invalid_argument (letter (rows ! i)), c)
            else (matched_step i False None, c\<lparr>cu_word := cu_word c + 1\<rparr>))
         else if equals then
           (matched_step i False (Some (tl (dropWhile (\<lambda>x. x \<noteq> CHR ''='') body))),
            c\<lparr>cu_word := cu_word c + 1\<rparr>)
         else (case argv_at argv (cu_word c + 1) of
                 Some argument \<Rightarrow> (matched_step i False (Some argument), c\<lparr>cu_word := cu_word c + 2\<rparr>)
               | None \<Rightarrow> (failed_step Missing_argument (letter (rows ! i)), c)))"

function next_step :: "option_row list \<Rightarrow> string list \<Rightarrow> cursor \<Rightarrow> step \<times> cursor" where
  "next_step rows argv c =
     (case argv_at argv (cu_word c) of
        None \<Rightarrow> (step_init, c)
      | Some word \<Rightarrow>
          if cu_letter c = 1 \<and> word = ''--'' then (step_init, c\<lparr>cu_word := cu_word c + 1\<rparr>)
          else if cu_letter c = 1 \<and>
              (length word < 2 \<or> \<not> (word ! 0 = CHR ''-'' \<or> word ! 0 = CHR ''+'' \<and> admits_plus rows))
            then (step_init, c)
          else if cu_letter c = 1 \<and> word ! 0 = CHR ''-'' \<and> word ! 1 = CHR ''-'' then
            long_option rows argv word c
          else if length word \<le> cu_letter c then
            next_step rows argv (c\<lparr>cu_word := cu_word c + 1, cu_letter := 1\<rparr>)
          else
            (let plus' = (word ! 0 = CHR ''+'');
                 l = word ! cu_letter c;
                 c1 = c\<lparr>cu_letter := cu_letter c + 1\<rparr>;
                 i = index_of rows l
             in if i = length rows \<or> (plus' \<and> \<not> plus (rows ! i)) then (failed_step Unknown_option l, c1)
                else if takes (rows ! i) \<noteq> Arg_required then (matched_step i plus' None, c1)
                else if cu_letter c1 < length word then
                  (matched_step i plus' (Some (drop (cu_letter c1) word)),
                   c1\<lparr>cu_word := cu_word c + 1, cu_letter := 1\<rparr>)
                else (case argv_at argv (cu_word c + 1) of
                        Some argument \<Rightarrow>
                          (matched_step i plus' (Some argument),
                           c1\<lparr>cu_word := cu_word c + 2, cu_letter := 1\<rparr>)
                      | None \<Rightarrow> (failed_step Missing_argument l, c1))))"
  by pat_completeness auto
termination
  by (relation "measure (\<lambda>(rows, argv, c). length argv - cu_word c)")
    (auto simp: argv_at_def split: if_splits)

declare next_step.simps [simp del]

subsection \<open>The loops over the step\<close>

text \<open>\<open>rest\<close> is the index of the first operand in \<open>argv\<close>, or the null pointer.\<close>

record scan_result =
  sr_rest :: "nat option"
  sr_err :: error

text \<open>What is left to read: every step that matches makes it smaller.\<close>

definition unread :: "string list \<Rightarrow> cursor \<Rightarrow> nat" where
  "unread argv c =
     sum_list (map (\<lambda>w. length w + 2) (drop (cu_word c) argv)) - min (cu_letter c)
       (if cu_word c < length argv then length (argv ! cu_word c) + 1 else 0)"

lemma argv_at_Some: "argv_at argv i = Some w \<longleftrightarrow> i < length argv \<and> argv ! i = w"
  by (auto simp: argv_at_def)

lemma argv_at_None: "argv_at argv i = None \<longleftrightarrow> length argv \<le> i"
  by (auto simp: argv_at_def)

lemma unread_here:
  assumes "cu_word c < length argv"
  shows "unread argv c = length (argv ! cu_word c) + 2 - min (cu_letter c) (length (argv ! cu_word c) + 1) +
    sum_list (map (\<lambda>w. length w + 2) (drop (Suc (cu_word c)) argv))"
proof -
  have "drop (cu_word c) argv = argv ! cu_word c # drop (Suc (cu_word c)) argv"
    using assms by (simp add: Cons_nth_drop_Suc)
  then show ?thesis using assms by (simp add: unread_def)
qed

lemma unread_le: "unread argv c \<le> sum_list (map (\<lambda>w. length w + 2) (drop (cu_word c) argv))"
  by (simp add: unread_def)

lemma sum_drop_le:
  "i \<le> j \<Longrightarrow> sum_list (map f (drop j xs)) \<le> sum_list (map (f :: 'a \<Rightarrow> nat) (drop i xs))"
proof (induction xs arbitrary: i j)
  case (Cons x xs)
  then show ?case by (cases i; cases j) (auto intro: trans_le_add2 order_trans [OF Cons.IH [of 0]])
qed simp

lemma unread_skip:
  assumes "cu_word c < length argv" "cu_word c < cu_word d"
  shows "unread argv d < unread argv c"
proof -
  have "unread argv d \<le> sum_list (map (\<lambda>w. length w + 2) (drop (cu_word d) argv))" by (rule unread_le)
  also have "\<dots> \<le> sum_list (map (\<lambda>w. length w + 2) (drop (Suc (cu_word c)) argv))"
    using assms(2) by (intro sum_drop_le) simp
  also have "\<dots> < unread argv c" using unread_here [OF assms(1)] by simp
  finally show ?thesis .
qed

lemma next_step_progress:
  "next_step rows argv c = (s, d) \<Longrightarrow> what s = Step_matched \<Longrightarrow> unread argv d < unread argv c"
proof (induction rows argv c arbitrary: s d rule: next_step.induct)
  case (1 rows argv c)
  note [simp] = step_init_def failed_step_def matched_step_def
  show ?case
  proof (cases "argv_at argv (cu_word c)")
    case None
    with "1.prems" show ?thesis by (auto simp: next_step.simps [of rows argv c])
  next
    case (Some word)
    then have w: "cu_word c < length argv" "argv ! cu_word c = word" by (simp_all add: argv_at_Some)
    note step = "1.prems"(1) [unfolded next_step.simps [of rows argv c] Some option.case]
    show ?thesis
    proof (cases "\<not> (cu_letter c = 1 \<and> word = ''--'') \<and> \<not> (cu_letter c = 1 \<and>
        (length word < 2 \<or> \<not> (word ! 0 = CHR ''-'' \<or> word ! 0 = CHR ''+'' \<and> admits_plus rows))) \<and>
        \<not> (cu_letter c = 1 \<and> word ! 0 = CHR ''-'' \<and> word ! 1 = CHR ''-'')")
      case False
      then show ?thesis using step "1.prems"(2) unread_skip [OF w(1), of d]
        by (auto simp: long_option_def Let_def split: if_splits option.splits)
    next
      case True
      show ?thesis
      proof (cases "length word \<le> cu_letter c")
        case long: True
        let ?d = "c\<lparr>cu_word := cu_word c + 1, cu_letter := 1\<rparr>"
        from True long step have "next_step rows argv ?d = (s, d)" by (simp only: if_False if_True)
        then have "unread argv d < unread argv ?d"
          using "1.IH" [OF Some] True long "1.prems"(2) by blast
        also have "\<dots> < unread argv c" by (rule unread_skip) (use w in simp_all)
        finally show ?thesis .
      next
        case short: False
        have "unread argv d < unread argv c"
          if "cu_word d = cu_word c" "cu_letter d = cu_letter c + 1"
          using that w short unread_here [of d argv] unread_here [of c argv] by simp
        moreover have "cu_word d = cu_word c \<and> cu_letter d = cu_letter c + 1 \<or> cu_word c < cu_word d"
          using step True short "1.prems"(2) by (auto simp: Let_def split: if_splits option.splits)
        ultimately show ?thesis using unread_skip [OF w(1), of d] by blast
      qed
    qed
  qed
qed

function scan_loop :: "option_row list \<Rightarrow> string list \<Rightarrow> cursor \<Rightarrow> scan_result" where
  "scan_loop rows argv c =
     (case next_step rows argv c of (s, d) \<Rightarrow>
        (case what s of
           Step_failed \<Rightarrow> \<lparr>sr_rest = None, sr_err = st_err s\<rparr>
         | Step_done \<Rightarrow> \<lparr>sr_rest = Some (cu_word d), sr_err = no_error\<rparr>
         | Step_matched \<Rightarrow> scan_loop rows argv d))"
  by pat_completeness auto
termination
  by (relation "measure (\<lambda>(rows, argv, c). unread argv c)") (auto dest: next_step_progress [OF sym])

declare scan_loop.simps [simp del]

definition cursor_init :: cursor where
  "cursor_init = \<lparr>cu_word = 1, cu_letter = 1\<rparr>"

definition scan :: "option_row list \<Rightarrow> string list \<Rightarrow> scan_result" where
  "scan rows argv = scan_loop rows argv cursor_init"

subsection \<open>The setters\<close>

text \<open>
  An integral field of \<open>w\<close> bytes reads a value modulo its width, as a two's complement number when
  it is signed.  (Incrementing a signed field of 4 or 8 bytes past its maximum is undefined in C++;
  the model wraps there.)
\<close>

definition field_read :: "nat \<Rightarrow> bool \<Rightarrow> int \<Rightarrow> int" where
  "field_read w sg v = (if sg then signed_take_bit (8 * w - 1) v else take_bit (8 * w) v)"

definition field_width :: "nat \<Rightarrow> nat" where
  "field_width w = (if w = 1 \<or> w = 2 \<or> w = 4 then w else 8)"

definition increment_field :: "content \<Rightarrow> nat \<Rightarrow> bool \<Rightarrow> content" where
  "increment_field at w sg =
     (case at of Int_field v \<Rightarrow> Int_field (field_read (field_width w) sg (v + 1)) | other \<Rightarrow> other)"

definition convert :: "string \<Rightarrow> nat \<Rightarrow> bool \<Rightarrow> u64 option" where
  "convert s w sg =
     (let r = parse_integer s Option_argument; v = sint (nr_value r); field_bits = 8 * w in
      if nr_status r \<noteq> Num_ok then None
      else if sg then
        (if field_bits < 64 \<and> (let high = 2 ^ (field_bits - 1) - 1 in v < - high - 1 \<or> high < v) then None
         else Some (nr_value r))
      else if v < 0 then None
      else if field_bits < 64 \<and> 2 ^ field_bits - 1 < v then None
      else Some (nr_value r))"

definition store_number :: "u64 \<Rightarrow> nat \<Rightarrow> bool \<Rightarrow> content" where
  "store_number bits w sg = Int_field (field_read (field_width w) sg (uint bits))"

text \<open>\<open>apply\<close> of the code; an argument the row does not take is the null pointer.\<close>

definition apply_row :: "option_row \<Rightarrow> bool \<Rightarrow> string option \<Rightarrow> bound_struct \<Rightarrow> error \<times> bound_struct" where
  "apply_row row plus' argument into =
     (let at = at_field row in
      case row_set row of
        Set_bool \<Rightarrow> (no_error, into(at := Bool_field True))
      | Toggle \<Rightarrow> (no_error, into(at := Bool_field (\<not> plus')))
      | Set_enum_value \<Rightarrow> (no_error, into(at := Enum_field (take (width row) (baked row))))
      | Increment \<Rightarrow> (no_error, into(at := increment_field (into at) (width row) (is_signed row)))
      | Store_view \<Rightarrow> (no_error, into(at := View_field argument))
      | Store_integral \<Rightarrow>
          (case convert (the argument) (width row) (is_signed row) of
             None \<Rightarrow> (mk_error Invalid_argument (letter row), into)
           | Some bits \<Rightarrow> (no_error, into(at := store_number bits (width row) (is_signed row)))))"

function parse_core_loop ::
  "option_row list \<Rightarrow> string list \<Rightarrow> cursor \<Rightarrow> bound_struct \<Rightarrow> scan_result \<times> bound_struct" where
  "parse_core_loop rows argv c into =
     (case next_step rows argv c of (s, d) \<Rightarrow>
        (case what s of
           Step_failed \<Rightarrow> (\<lparr>sr_rest = None, sr_err = st_err s\<rparr>, into)
         | Step_done \<Rightarrow> (\<lparr>sr_rest = Some (cu_word d), sr_err = no_error\<rparr>, into)
         | Step_matched \<Rightarrow>
             (case apply_row (rows ! st_index s) (st_plus s) (st_argument s) into of (err, into') \<Rightarrow>
                if is_error err then (\<lparr>sr_rest = None, sr_err = err\<rparr>, into')
                else parse_core_loop rows argv d into')))"
  by pat_completeness auto
termination
  by (relation "measure (\<lambda>(rows, argv, c, into). unread argv c)") (auto dest: next_step_progress [OF sym])

declare parse_core_loop.simps [simp del]

definition parse_core ::
  "option_row list \<Rightarrow> string list \<Rightarrow> bound_struct \<Rightarrow> scan_result \<times> bound_struct" where
  "parse_core rows argv into = parse_core_loop rows argv cursor_init into"

subsection \<open>Usage\<close>

definition usage_argument :: "option_row \<Rightarrow> string" where
  "usage_argument row =
     (if takes row = Arg_required
      then '' '' @ (case placeholder row of Some p \<Rightarrow> p | None \<Rightarrow> ''ARG'') else [])"

definition write_usage :: "string \<Rightarrow> option_row list \<Rightarrow> string" where
  "write_usage name rows =
     ''usage: '' @ name @
     concat (map (\<lambda>row. '' [-'' @ [letter row] @ usage_argument row @ '']'') rows) @
     '' [operand...]'' @ [CHR 0x0A] @
     concat (map (\<lambda>row. ''  -'' @ [letter row] @
         (case long_name row of Some n \<Rightarrow> '', --'' @ n | None \<Rightarrow> []) @
         usage_argument row @
         (case help_text row of Some h \<Rightarrow> ''   '' @ h | None \<Rightarrow> []) @ [CHR 0x0A]) rows)"


subsection \<open>The grammar without a cursor\<close>

datatype item = Item nat bool "string option"

fun read_letters ::
  "option_row list \<Rightarrow> bool \<Rightarrow> string \<Rightarrow> string list \<Rightarrow> item list \<times> (error + string list)" where
  "read_letters rows p [] ws = ([], Inr ws)"
| "read_letters rows p (l # ls) ws =
     (let i = index_of rows l in
      if i = length rows \<or> (p \<and> \<not> plus (rows ! i)) then ([], Inl (mk_error Unknown_option l))
      else if takes (rows ! i) \<noteq> Arg_required then
        (case read_letters rows p ls ws of (items, r) \<Rightarrow> (Item i p None # items, r))
      else if ls \<noteq> [] then ([Item i p (Some ls)], Inr ws)
      else (case ws of [] \<Rightarrow> ([], Inl (mk_error Missing_argument l))
            | a # ws' \<Rightarrow> ([Item i p (Some a)], Inr ws')))"

definition read_long :: "option_row list \<Rightarrow> string \<Rightarrow> string list \<Rightarrow> item list \<times> (error + string list)" where
  "read_long rows body ws =
     (let name = takeWhile (\<lambda>x. x \<noteq> CHR ''='') body;
          equals = (CHR ''='' \<in> set body);
          i = index_of_name rows name
      in if i = length rows then ([], Inl (mk_error Unknown_option (CHR 0x00)))
         else if takes (rows ! i) \<noteq> Arg_required then
           (if equals then ([], Inl (mk_error Invalid_argument (letter (rows ! i))))
            else ([Item i False None], Inr ws))
         else if equals then
           ([Item i False (Some (tl (dropWhile (\<lambda>x. x \<noteq> CHR ''='') body)))], Inr ws)
         else (case ws of [] \<Rightarrow> ([], Inl (mk_error Missing_argument (letter (rows ! i))))
               | a # ws' \<Rightarrow> ([Item i False (Some a)], Inr ws')))"

definition is_option_word :: "option_row list \<Rightarrow> string \<Rightarrow> bool" where
  "is_option_word rows w \<longleftrightarrow>
     2 \<le> length w \<and> (w ! 0 = CHR ''-'' \<or> w ! 0 = CHR ''+'' \<and> admits_plus rows)"

lemma read_letters_shorter: "snd (read_letters rows p ls ws) = Inr ws' \<Longrightarrow> length ws' \<le> length ws"
  by (induction rows p ls ws rule: read_letters.induct)
    (auto simp: Let_def split: if_splits list.splits prod.splits)

lemma read_long_shorter: "snd (read_long rows b ws) = Inr ws' \<Longrightarrow> length ws' \<le> length ws"
  by (auto simp: read_long_def Let_def split: if_splits list.splits)

function option_words :: "option_row list \<Rightarrow> string list \<Rightarrow> item list \<times> (error + string list)" where
  "option_words rows [] = ([], Inr [])"
| "option_words rows (w # ws) =
     (if w = ''--'' then ([], Inr ws)
      else if \<not> is_option_word rows w then ([], Inr (w # ws))
      else (let grp = (if w ! 0 = CHR ''-'' \<and> w ! 1 = CHR ''-'' then read_long rows (drop 2 w) ws
                         else read_letters rows (w ! 0 = CHR ''+'') (drop 1 w) ws)
            in case snd grp of
                 Inl e \<Rightarrow> grp
               | Inr ws' \<Rightarrow> (case option_words rows ws' of (items, r) \<Rightarrow> (fst grp @ items, r))))"
  by pat_completeness auto
termination
  by (relation "measure (\<lambda>(rows, ws). length ws)")
    (auto split: if_splits dest!: sym [of "Inr _"] read_letters_shorter read_long_shorter)

text \<open>The items of a command line applied in order, up to the first one refused.\<close>

fun run_items ::
  "option_row list \<Rightarrow> item list \<Rightarrow> scan_result \<Rightarrow> bound_struct \<Rightarrow> scan_result \<times> bound_struct" where
  "run_items rows [] final into = (final, into)"
| "run_items rows (Item i p a # items) final into =
     (case apply_row (rows ! i) p a into of (err, into') \<Rightarrow>
        if is_error err then (\<lparr>sr_rest = None, sr_err = err\<rparr>, into')
        else run_items rows items final into')"

definition grammar_result :: "string list \<Rightarrow> error + string list \<Rightarrow> scan_result" where
  "grammar_result argv r =
     (case r of Inl e \<Rightarrow> \<lparr>sr_rest = None, sr_err = e\<rparr>
      | Inr ws \<Rightarrow> \<lparr>sr_rest = Some (length argv - length ws), sr_err = no_error\<rparr>)"

definition then_words ::
  "option_row list \<Rightarrow> item list \<times> (error + string list) \<Rightarrow> item list \<times> (error + string list)" where
  "then_words rows grp =
     (case snd grp of
        Inl e \<Rightarrow> grp
      | Inr ws \<Rightarrow> (case option_words rows ws of (items, r) \<Rightarrow> (fst grp @ items, r)))"

text \<open>What the command line still means when the parser stands at a cursor.\<close>

definition from_cursor :: "option_row list \<Rightarrow> string list \<Rightarrow> cursor \<Rightarrow> item list \<times> (error + string list)" where
  "from_cursor rows argv c =
     (if cu_letter c = 1 then option_words rows (drop (cu_word c) argv)
      else then_words rows (read_letters rows (argv ! cu_word c ! 0 = CHR ''+'')
             (drop (cu_letter c) (argv ! cu_word c)) (drop (Suc (cu_word c)) argv)))"

definition cursor_ok :: "string list \<Rightarrow> cursor \<Rightarrow> bool" where
  "cursor_ok argv c \<longleftrightarrow> cu_letter c = 1 \<or> 1 < cu_letter c \<and> cu_word c < length argv"

definition cons_item :: "item \<Rightarrow> item list \<times> 'a \<Rightarrow> item list \<times> 'a" where
  "cons_item x r = (x # fst r, snd r)"

lemma then_words_cons: "then_words rows (x # items, r) = cons_item x (then_words rows (items, r))"
  by (simp add: then_words_def cons_item_def split: sum.splits prod.splits)

lemma then_words_simps [simp]:
  "then_words rows (items, Inl e) = (items, Inl e)"
  "then_words rows ([], Inr ws) = option_words rows ws"
  by (simp_all add: then_words_def)

lemma then_words_single: "then_words rows ([x], Inr ws) = cons_item x (option_words rows ws)"
  using then_words_cons [of rows x "[]"] by simp

lemma next_step_within:
  "next_step rows argv c = (s, d) \<Longrightarrow> cu_word c \<le> length argv \<Longrightarrow> cu_word d \<le> length argv"
proof (induction rows argv c arbitrary: s d rule: next_step.induct)
  case (1 rows argv c)
  show ?case
  proof (cases "argv_at argv (cu_word c)")
    case None
    with "1.prems" show ?thesis by (auto simp: next_step.simps [of rows argv c])
  next
    case (Some w)
    note step = "1.prems"(1) [unfolded next_step.simps [of rows argv c] Some option.case]
    show ?thesis
      using step "1.IH" [OF Some, of s d] Some
      by (auto simp: long_option_def Let_def argv_at_Some split: if_splits option.splits)
  qed
qed

text \<open>One step of the parser takes one item off what the command line means.\<close>

definition step_means ::
  "option_row list \<Rightarrow> string list \<Rightarrow> cursor \<Rightarrow> step \<Rightarrow> cursor \<Rightarrow> bool" where
  "step_means rows argv c s d \<longleftrightarrow>
     (case what s of
        Step_failed \<Rightarrow> from_cursor rows argv c = ([], Inl (st_err s))
      | Step_done \<Rightarrow> cu_word d \<le> max (cu_word c) (length argv) \<and>
          from_cursor rows argv c = ([], Inr (drop (cu_word d) argv))
      | Step_matched \<Rightarrow> cursor_ok argv d \<and>
          from_cursor rows argv c =
            cons_item (Item (st_index s) (st_plus s) (st_argument s)) (from_cursor rows argv d))"

lemma drop_nth: "i < length xs \<Longrightarrow> drop i xs = xs ! i # drop (Suc i) xs"
  by (simp add: Cons_nth_drop_Suc)

lemma drop_Suc_Cons: "drop i xs = a # ws \<Longrightarrow> drop (Suc i) xs = ws"
  by (metis drop_Suc tl_drop list.sel(3))

lemma argv_at_drop: "drop i argv = a # ws \<Longrightarrow> argv_at argv i = Some a"
  by (cases "i < length argv") (auto simp: argv_at_def drop_nth)

lemma next_word_cases:
  "(case argv_at argv (Suc i) of None \<Rightarrow> x | Some a \<Rightarrow> f a) =
   (case drop (Suc i) argv of [] \<Rightarrow> x | a # ws \<Rightarrow> f a)"
  by (cases "Suc i < length argv") (simp_all add: argv_at_def drop_nth)

lemma from_cursor_word:
  assumes "cu_letter c = 1" "cu_word c < length argv" "argv ! cu_word c = w" "w \<noteq> ''--''"
    "is_option_word rows w"
  shows "from_cursor rows argv c = then_words rows
    (if w ! 0 = CHR ''-'' \<and> w ! 1 = CHR ''-'' then read_long rows (drop 2 w) (drop (Suc (cu_word c)) argv)
     else read_letters rows (w ! 0 = CHR ''+'') (drop 1 w) (drop (Suc (cu_word c)) argv))"
  using assms by (simp add: from_cursor_def drop_nth [of "cu_word c" argv] then_words_def Let_def)

lemma long_option_means:
  assumes "cu_letter c = 1" "cu_word c < length argv" "long_option rows argv w c = (s, d)"
    "from_cursor rows argv c = then_words rows (read_long rows (drop 2 w) (drop (Suc (cu_word c)) argv))"
  shows "step_means rows argv c s d"
  using assms
  by (auto simp: step_means_def long_option_def read_long_def Let_def next_word_cases cursor_ok_def
      failed_step_def matched_step_def step_init_def then_words_single from_cursor_def drop_Suc_Cons
      split: if_splits list.splits)

lemma letter_means:
  assumes "cu_word c < length argv" "argv ! cu_word c = w" "0 < cu_letter c" "cu_letter c < length w"
    and "from_cursor rows argv c = then_words rows
      (read_letters rows (w ! 0 = CHR ''+'') (drop (cu_letter c) w) (drop (Suc (cu_word c)) argv))"
    and "(let plus' = (w ! 0 = CHR ''+'');
                 l = w ! cu_letter c;
                 c1 = c\<lparr>cu_letter := cu_letter c + 1\<rparr>;
                 i = index_of rows l
             in if i = length rows \<or> (plus' \<and> \<not> plus (rows ! i)) then (failed_step Unknown_option l, c1)
                else if takes (rows ! i) \<noteq> Arg_required then (matched_step i plus' None, c1)
                else if cu_letter c1 < length w then
                  (matched_step i plus' (Some (drop (cu_letter c1) w)),
                   c1\<lparr>cu_word := cu_word c + 1, cu_letter := 1\<rparr>)
                else (case argv_at argv (cu_word c + 1) of
                        Some argument \<Rightarrow>
                          (matched_step i plus' (Some argument),
                           c1\<lparr>cu_word := cu_word c + 2, cu_letter := 1\<rparr>)
                      | None \<Rightarrow> (failed_step Missing_argument l, c1))) = (s, d)"
  shows "step_means rows argv c s d"
proof -
  have ne: "drop (Suc (cu_letter c)) w = [] \<longleftrightarrow> \<not> Suc (cu_letter c) < length w" by auto
  have w: "drop (cu_letter c) w = w ! cu_letter c # drop (Suc (cu_letter c)) w"
    using assms(4) by (rule drop_nth)
  define p where "p \<longleftrightarrow> w ! 0 = CHR ''+''"
  define l where "l = w ! cu_letter c"
  define i where "i = index_of rows l"
  define ws where "ws = drop (Suc (cu_word c)) argv"
  let ?c1 = "c\<lparr>cu_letter := Suc (cu_letter c)\<rparr>"
  note here = assms(5) [unfolded w, folded p_def l_def ws_def]
  note next_eq = assms(6) [unfolded Let_def, folded p_def l_def, folded i_def]
  note unfolds = step_means_def failed_step_def matched_step_def step_init_def cursor_ok_def
  consider "i = length rows \<or> p \<and> \<not> plus (rows ! i)"
    | "\<not> (i = length rows \<or> p \<and> \<not> plus (rows ! i))" "takes (rows ! i) \<noteq> Arg_required"
    | "\<not> (i = length rows \<or> p \<and> \<not> plus (rows ! i))" "takes (rows ! i) = Arg_required"
      "Suc (cu_letter c) < length w"
    | "\<not> (i = length rows \<or> p \<and> \<not> plus (rows ! i))" "takes (rows ! i) = Arg_required"
      "\<not> Suc (cu_letter c) < length w"
    by blast
  then show ?thesis
  proof cases
    case 1
    with next_eq have sd: "s = failed_step Unknown_option l" "d = ?c1" by auto
    from 1 here have "from_cursor rows argv c = ([], Inl (mk_error Unknown_option l))"
      by (simp add: Let_def i_def)
    with sd show ?thesis by (simp add: unfolds)
  next
    case 2
    with next_eq have sd: "s = matched_step i p None" "d = ?c1" by auto
    have "from_cursor rows argv d =
        then_words rows (read_letters rows p (drop (Suc (cu_letter c)) w) ws)"
      using assms(2,3) by (simp add: sd from_cursor_def p_def ws_def)
    moreover have "from_cursor rows argv c = cons_item (Item i p None)
        (then_words rows (read_letters rows p (drop (Suc (cu_letter c)) w) ws))"
      using 2 here then_words_cons [of rows "Item i p None"]
      by (cases p) (simp_all add: Let_def i_def split: prod.splits)
    ultimately show ?thesis using sd assms(1,3) by (simp add: unfolds)
  next
    case 3
    with next_eq have sd: "s = matched_step i p (Some (drop (Suc (cu_letter c)) w))"
      "d = \<lparr>cu_word = Suc (cu_word c), cu_letter = 1\<rparr>" by auto
    from 3 here ne have "from_cursor rows argv c =
        cons_item (Item i p (Some (drop (Suc (cu_letter c)) w))) (option_words rows ws)"
      by (cases p) (simp_all add: Let_def i_def then_words_single)
    with sd show ?thesis by (simp add: unfolds from_cursor_def ws_def)
  next
    case 4
    show ?thesis
    proof (cases ws)
      case Nil
      with 4 next_eq next_word_cases have sd: "s = failed_step Missing_argument l"
        by (auto simp: ws_def argv_at_def)
      from Nil 4 here ne have "from_cursor rows argv c = ([], Inl (mk_error Missing_argument l))"
        by (cases p) (simp_all add: Let_def i_def)
      with sd show ?thesis by (simp add: unfolds)
    next
      case (Cons a ws')
      then have a: "argv_at argv (cu_word c + 1) = Some a"
        using argv_at_drop [of "Suc (cu_word c)" argv a ws'] by (simp add: ws_def)
      with 4 next_eq have sd: "s = matched_step i p (Some a)"
        "d = \<lparr>cu_word = Suc (Suc (cu_word c)), cu_letter = 1\<rparr>" by auto
      from Cons 4 here ne have "from_cursor rows argv c =
          cons_item (Item i p (Some a)) (option_words rows ws')"
        by (cases p) (simp_all add: Let_def i_def then_words_single)
      moreover have "drop (Suc (Suc (cu_word c))) argv = ws'"
        using Cons by (auto simp: ws_def intro: drop_Suc_Cons)
      ultimately show ?thesis using sd by (simp add: unfolds from_cursor_def)
    qed
  qed
qed

lemma next_step_means:
  "next_step rows argv c = (s, d) \<Longrightarrow> cursor_ok argv c \<Longrightarrow> step_means rows argv c s d"
proof (induction rows argv c arbitrary: s d rule: next_step.induct)
  case (1 rows argv c)
  show ?case
  proof (cases "argv_at argv (cu_word c)")
    case None
    with "1.prems" show ?thesis
      by (auto simp: next_step.simps [of rows argv c] step_init_def step_means_def cursor_ok_def
          from_cursor_def argv_at_None)
  next
    case (Some w)
    then have w: "cu_word c < length argv" "argv ! cu_word c = w" by (simp_all add: argv_at_Some)
    note step = "1.prems"(1) [unfolded next_step.simps [of rows argv c] Some option.case]
    have opt: "is_option_word rows w \<longleftrightarrow>
        \<not> (length w < 2 \<or> \<not> (w ! 0 = CHR ''-'' \<or> w ! 0 = CHR ''+'' \<and> admits_plus rows))"
      by (auto simp: is_option_word_def)
    consider "cu_letter c = 1" "w = ''--''"
      | "cu_letter c = 1" "w \<noteq> ''--''" "\<not> is_option_word rows w"
      | "cu_letter c = 1" "w \<noteq> ''--''" "is_option_word rows w" "w ! 0 = CHR ''-'' \<and> w ! 1 = CHR ''-''"
      | "length w \<le> cu_letter c" "cu_letter c \<noteq> 1"
      | "cu_letter c < length w" "cu_letter c = 1 \<longrightarrow> w \<noteq> ''--'' \<and> is_option_word rows w \<and>
          \<not> (w ! 0 = CHR ''-'' \<and> w ! 1 = CHR ''-'')"
      by (cases "cu_letter c = 1") (fastforce simp: is_option_word_def)+
    then show ?thesis
    proof cases
      case 1
      with step w show ?thesis
        by (auto simp: step_init_def step_means_def from_cursor_def drop_nth)
    next
      case 2
      with step w opt show ?thesis
        by (auto simp: step_init_def step_means_def from_cursor_def drop_nth)
    next
      case 3
      with step opt have "long_option rows argv w c = (s, d)" by auto
      then show ?thesis
        by (rule long_option_means [OF 3(1) w(1)])
          (use from_cursor_word [OF 3(1) w 3(2,3)] 3(4) in simp)
    next
      case 4
      let ?d = "c\<lparr>cu_word := cu_word c + 1, cu_letter := 1\<rparr>"
      from 4 step have n: "next_step rows argv ?d = (s, d)" by auto
      have "from_cursor rows argv c = from_cursor rows argv ?d"
        using 4 w by (simp add: from_cursor_def)
      moreover have "step_means rows argv ?d s d"
        using "1.IH" [OF Some _ _ _ _ n] 4 by (auto simp: cursor_ok_def)
      ultimately show ?thesis
        using w(1) by (auto simp: step_means_def split: step_kind.splits)
    next
      case 5
      have pos: "0 < cu_letter c" using "1.prems"(2) by (auto simp: cursor_ok_def)
      have here: "from_cursor rows argv c = then_words rows
          (read_letters rows (w ! 0 = CHR ''+'') (drop (cu_letter c) w) (drop (Suc (cu_word c)) argv))"
        using 5 from_cursor_word [OF _ w] w by (cases "cu_letter c = 1") (auto simp: from_cursor_def)
      show ?thesis
        by (rule letter_means [OF w pos 5(1) here]) (use step 5 opt in \<open>auto split: if_splits\<close>)
    qed
  qed
qed

lemma drop_length_back: "k \<le> length xs \<Longrightarrow> length xs - length (drop k xs) = k"
  by simp

lemma parse_core_loop_means:
  assumes "cursor_ok argv c" "cu_word c \<le> length argv" "from_cursor rows argv c = (items, r)"
  shows "parse_core_loop rows argv c into = run_items rows items (grammar_result argv r) into"
  using assms
proof (induction rows argv c into arbitrary: items rule: parse_core_loop.induct)
  case (1 rows argv c into)
  obtain s d where n: "next_step rows argv c = (s, d)" by fastforce
  note m = next_step_means [OF n "1.prems"(1)]
  have d: "cu_word d \<le> length argv"
    using next_step_within [OF n "1.prems"(2)] .
  show ?case
  proof (cases "what s")
    case Step_done
    with m "1.prems" d show ?thesis
      by (auto simp: parse_core_loop.simps [of rows argv c] n step_means_def grammar_result_def)
  next
    case Step_failed
    with m "1.prems" show ?thesis
      by (auto simp: parse_core_loop.simps [of rows argv c] n step_means_def grammar_result_def)
  next
    case Step_matched
    obtain items' where i: "from_cursor rows argv d = (items', r)"
      "items = Item (st_index s) (st_plus s) (st_argument s) # items'" "cursor_ok argv d"
      using m "1.prems"(3) Step_matched
      by (cases "from_cursor rows argv d") (auto simp: step_means_def cons_item_def)
    obtain err into' where a: "apply_row (rows ! st_index s) (st_plus s) (st_argument s) into = (err, into')"
      by fastforce
    with i "1.IH" [OF n [symmetric] Step_matched a [symmetric] _ i(3) d i(1)] Step_matched show ?thesis
      by (simp add: parse_core_loop.simps [of rows argv c] n)
  qed
qed

lemma scan_loop_means:
  assumes "cursor_ok argv c" "cu_word c \<le> length argv" "from_cursor rows argv c = (items, r)"
  shows "scan_loop rows argv c = grammar_result argv r"
  using assms
proof (induction rows argv c arbitrary: items rule: scan_loop.induct)
  case (1 rows argv c)
  obtain s d where n: "next_step rows argv c = (s, d)" by fastforce
  note m = next_step_means [OF n "1.prems"(1)]
  have d: "cu_word d \<le> length argv"
    using next_step_within [OF n "1.prems"(2)] .
  show ?case
  proof (cases "what s")
    case Step_matched
    obtain items' where i: "from_cursor rows argv d = (items', r)" "cursor_ok argv d"
      using m "1.prems"(3) Step_matched
      by (cases "from_cursor rows argv d") (auto simp: step_means_def cons_item_def)
    with "1.IH" [OF n [symmetric] Step_matched i(2) d i(1)] Step_matched show ?thesis
      by (simp add: scan_loop.simps [of rows argv c] n)
  qed (use m "1.prems" d in
      \<open>auto simp: scan_loop.simps [of rows argv c] n step_means_def grammar_result_def\<close>)
qed

lemma from_cursor_init: "from_cursor rows argv cursor_init = option_words rows (tl argv)"
  by (simp add: from_cursor_def cursor_init_def drop_Suc)

lemma parse_core_grammar:
  assumes "argv \<noteq> []"
  shows "parse_core rows argv into =
    (case option_words rows (tl argv) of (items, r) \<Rightarrow> run_items rows items (grammar_result argv r) into)"
proof -
  obtain items r where g: "option_words rows (tl argv) = (items, r)" by fastforce
  have "cursor_ok argv cursor_init" "cu_word cursor_init \<le> length argv"
    using assms by (simp_all add: cursor_ok_def cursor_init_def Suc_leI)
  then show ?thesis
    using parse_core_loop_means [of argv cursor_init rows items r into]
    by (simp add: parse_core_def from_cursor_init g)
qed

lemma run_items_append:
  "run_items rows (xs @ ys) final into =
     (case run_items rows xs \<lparr>sr_rest = None, sr_err = no_error\<rparr> into of (r, into') \<Rightarrow>
        if is_error (sr_err r) then (r, into') else run_items rows ys final into')"
  by (induction rows xs final into rule: run_items.induct) (auto simp: no_error_def is_error_def split: prod.splits)

lemma run_items_keeps:
  "run_items rows items final into = (r, out) \<Longrightarrow> \<not> is_error (sr_err r) \<Longrightarrow>
   (\<And>i p a. Item i p a \<in> set items \<Longrightarrow> at_field (rows ! i) \<noteq> f) \<Longrightarrow> out f = into f"
proof (induction rows items final into rule: run_items.induct)
  case (2 rows i p a items final into)
  obtain e into' where a: "apply_row (rows ! i) p a into = (e, into')" by fastforce
  with 2(2,3) have e: "\<not> is_error e" by (auto split: if_splits)
  have "into' f = into f"
    using a 2(4) [of i p a] by (auto simp: apply_row_def Let_def split: setter.splits option.splits)
  with 2(1) [OF a [symmetric] e] 2(2-) a e show ?case by auto
qed simp

definition overwrites :: "option_row \<Rightarrow> bool" where
  "overwrites row \<longleftrightarrow> row_set row \<noteq> Increment \<and> row_set row \<noteq> Store_integral"

lemma apply_row_overwrites:
  "overwrites row \<Longrightarrow> \<not> is_error (fst (apply_row row p a s)) \<and>
     snd (apply_row row p a s) (at_field row) = snd (apply_row row p a t) (at_field row)"
  by (cases "row_set row") (auto simp: overwrites_def apply_row_def Let_def is_error_def no_error_def)

lemma index_of_valid:
  "i < length rows \<Longrightarrow> (\<And>j. j < i \<Longrightarrow> letter (rows ! j) \<noteq> letter (rows ! i)) \<Longrightarrow>
     index_of rows (letter (rows ! i)) = i"
proof (induction rows arbitrary: i)
  case (Cons r rows)
  show ?case
  proof (cases i)
    case (Suc k)
    have "index_of rows (letter (rows ! k)) = k"
    proof (rule Cons.IH)
      show "k < length rows" using Cons.prems(1) Suc by simp
      show "letter (rows ! j) \<noteq> letter (rows ! k)" if "j < k" for j
        using Cons.prems(2) [of "Suc j"] Suc that by simp
    qed
    with Cons.prems(2) [of 0] Suc show ?thesis by simp
  qed simp
qed simp

lemma field_read_id:
  assumes "w = 1 \<or> w = 2 \<or> w = 4 \<or> w = 8"
    "sg \<Longrightarrow> - (2 ^ (8 * w - 1)) \<le> v \<and> v < 2 ^ (8 * w - 1)" "\<not> sg \<Longrightarrow> 0 \<le> v \<and> v < 2 ^ (8 * w)"
  shows "field_read (field_width w) sg (uint (word_of_int v :: u64)) = v"
proof -
  have fw: "field_width w = w" using assms(1) by (auto simp: field_width_def)
  have le: "8 * w \<le> 64" "8 * w - 1 < 64" "0 < w" using assms(1) by auto
  have u: "uint (word_of_int v :: u64) = take_bit 64 v" by (simp add: uint_word_of_int_eq)
  show ?thesis
  proof (cases sg)
    case True
    have "signed_take_bit (8 * w - 1) (take_bit 64 v) = signed_take_bit (8 * w - 1) v"
      using le by (simp add: signed_take_bit_take_bit)
    with True assms(2) show ?thesis
      by (simp add: field_read_def fw u signed_take_bit_int_eq_self)
  next
    case False
    have "take_bit (8 * w) (take_bit 64 v) = take_bit (8 * w) v"
      using le by (simp add: take_bit_take_bit min_def)
    with False assms(3) show ?thesis
      by (simp add: field_read_def fw u take_bit_int_eq_self)
  qed
qed

definition fits_field :: "nat \<Rightarrow> bool \<Rightarrow> int \<Rightarrow> bool" where
  "fits_field w sg v \<longleftrightarrow>
     (if sg then - (2 ^ (8 * w - 1)) \<le> v \<and> v < 2 ^ (8 * w - 1) else 0 \<le> v \<and> v < 2 ^ (8 * w))"

lemma convert_cases:
  assumes "w \<in> {1, 2, 4, 8}" "read_operand s (policy_for Option_argument) = (st, v)"
  shows "convert s w sg = (if st = Num_ok \<and> fits_field w sg v then Some (word_of_int v) else None)"
proof -
  obtain r where r: "parse_integer s Option_argument = r" "nr_status r = st" "sint (nr_value r) = v"
    using assms(2) parse_integer_reads [of s Option_argument] by (metis Pair_inject)
  then have v: "- (2 ^ 63) \<le> v" "v < 2 ^ 63" "word_of_int v = nr_value r"
    using sint64_range [of "nr_value r"] by auto
  from assms(1) consider "w = 1" | "w = 2" | "w = 4" | "w = 8" by blast
  then show ?thesis
    by cases (use v in \<open>auto simp: convert_def r Let_def fits_field_def\<close>)
qed

subsection \<open>Properties\<close>

text \<open>C7: the resumable step and the loops over it implement the POSIX grammar: for every table and
  every command line, the parse is the words and letters of the line read without a cursor, their
  rows applied in order up to the first error, and the operands are what the grammar leaves.\<close>
theorem option_parse_is_grammar:
  assumes "argv \<noteq> []"
  shows "parse_core rows argv into =
      (case option_words rows (tl argv) of (items, r) \<Rightarrow> run_items rows items (grammar_result argv r) into) \<and>
    scan rows argv = grammar_result argv (snd (option_words rows (tl argv)))"
proof -
  obtain items r where g: "option_words rows (tl argv) = (items, r)" by fastforce
  have "cursor_ok argv cursor_init" "cu_word cursor_init \<le> length argv"
    using assms by (simp_all add: cursor_ok_def cursor_init_def Suc_leI)
  then show ?thesis
    using parse_core_grammar [OF assms] scan_loop_means [of argv cursor_init rows items r]
    by (simp add: scan_def from_cursor_init g)
qed

definition demo_row :: option_row where
  "demo_row = \<lparr>letter = CHR ''d'', row_set = Store_view, takes = Arg_required, plus = False, width = 16,
     is_signed = False, long_name = Some ''delimiter'', placeholder = None, help_text = None,
     at_field = 0, bound_to = 0, baked = []\<rparr>"

theorem option_parse_is_grammar_witness:
  "sr_rest (fst (parse_core [demo_row] [''read'', ''-d'', '':'', ''v''] (\<lambda>f. Bool_field False))) = Some 3"
proof -
  have "option_words [demo_row] [''-d'', '':'', ''v''] = ([Item 0 False (Some '':'')], Inr [''v''])"
    by code_simp
  with option_parse_is_grammar [of "[''read'', ''-d'', '':'', ''v'']" "[demo_row]" "\<lambda>f. Bool_field False"]
  show ?thesis
    by (simp add: grammar_result_def apply_row_def demo_row_def is_error_def no_error_def)
qed

text \<open>Last one wins: whatever the options before it wrote, a field ends with what the last row
  that binds it wrote, for every setter that writes a value (mode groups, toggles, stored views).\<close>
theorem last_option_wins:
  assumes "argv \<noteq> []" "option_words rows (tl argv) = (xs @ Item i p a # ys, rest)"
    and "parse_core rows argv into = (r, out)" "\<not> is_error (sr_err r)" "overwrites (rows ! i)"
    and "\<And>j q b. Item j q b \<in> set ys \<Longrightarrow> at_field (rows ! j) \<noteq> at_field (rows ! i)"
  shows "out (at_field (rows ! i)) = snd (apply_row (rows ! i) p a into) (at_field (rows ! i))"
proof -
  have run: "run_items rows (xs @ Item i p a # ys) (grammar_result argv rest) into = (r, out)"
    using parse_core_grammar [OF assms(1), of rows into] assms(2,3) by simp
  then obtain s1 e s2 where s: "run_items rows (Item i p a # ys) (grammar_result argv rest) s1 = (r, out)"
    "apply_row (rows ! i) p a s1 = (e, s2)"
    using assms(4) by (auto simp: run_items_append split: prod.splits if_splits)
  have e: "\<not> is_error e" using apply_row_overwrites [OF assms(5), of p a s1 s1] s(2) by simp
  with s have "run_items rows ys (grammar_result argv rest) s2 = (r, out)" by simp
  from run_items_keeps [OF this assms(4), of "at_field (rows ! i)"] assms(6)
  have "out (at_field (rows ! i)) = s2 (at_field (rows ! i))" by blast
  with apply_row_overwrites [OF assms(5), of p a s1 into] s(2) show ?thesis by simp
qed

theorem last_option_wins_witness:
  "snd (parse_core [demo_row] [''read'', ''-dx'', ''-dy''] (\<lambda>f. Bool_field False)) 0 = View_field (Some ''y'')"
proof -
  let ?argv = "[''read'', ''-dx'', ''-dy'']"
  have w: "option_words [demo_row] (tl ?argv) =
      ([Item 0 False (Some ''x'')] @ Item 0 False (Some ''y'') # [], Inr [])" by code_simp
  obtain r out where p: "parse_core [demo_row] ?argv (\<lambda>f. Bool_field False) = (r, out)" by fastforce
  have "sr_err (fst (parse_core [demo_row] ?argv (\<lambda>f. Bool_field False))) = no_error" by code_simp
  with p have "\<not> is_error (sr_err r)" by (simp add: is_error_def no_error_def)
  from last_option_wins [OF _ w p this] p show ?thesis
    by (simp add: overwrites_def demo_row_def apply_row_def)
qed

text \<open>C8: an integral option-argument is stored exactly when it is a number that fits the bound
  field, and the field then holds that number, whatever its width and signedness.\<close>
theorem integral_argument_fits:
  assumes "w \<in> {1, 2, 4, 8}" "read_operand s (policy_for Option_argument) = (st, v)"
  shows "(convert s w sg \<noteq> None \<longleftrightarrow> st = Num_ok \<and> fits_field w sg v) \<and>
    (\<forall>bits. convert s w sg = Some bits \<longrightarrow> store_number bits w sg = Int_field v)"
proof -
  have "store_number (word_of_int v) w sg = Int_field v" if "fits_field w sg v"
  proof -
    have "field_read (field_width w) sg (uint (word_of_int v :: u64)) = v"
      by (rule field_read_id) (use assms(1) that in \<open>simp_all add: fits_field_def\<close>)
    then show ?thesis by (simp only: store_number_def)
  qed
  then show ?thesis using convert_cases [OF assms] by auto
qed

theorem integral_argument_fits_witness:
  "convert ''256'' 1 False = None \<and> convert ''-128'' 1 True \<noteq> None"
proof -
  have r: "read_operand (to_decimal i) (policy_for Option_argument) = (Num_ok, i)" if "i = 256 \<or> i = - 128" for i
    using that by (auto intro!: read_operand_decimal simp: numeric_bounds)
  have d: "to_decimal 256 = ''256''" "to_decimal (- 128) = ''-128''" by code_simp+
  show ?thesis
    using integral_argument_fits [of 1 "''256''" Num_ok 256 False]
      integral_argument_fits [of 1 "''-128''" Num_ok "- 128" True] r [of 256] r [of "- 128"] d
    by (simp add: fits_field_def)
qed

text \<open>In a table the compiler accepts, no row is unreachable: every row is the one its letter
  finds.\<close>
theorem valid_table_rows_reachable:
  assumes "validate struct rows" "i < length rows"
  shows "index_of rows (letter (rows ! i)) = i"
proof (rule index_of_valid [OF assms(2)])
  fix j assume "j < i"
  then have "j \<in> set [0..<length rows]" "i \<in> set [Suc j..<length rows]" using assms(2) by auto
  with assms(1) show "letter (rows ! j) \<noteq> letter (rows ! i)"
    unfolding validate_def list_all_iff by metis
qed

theorem valid_table_rows_reachable_witness:
  "index_of [demo_row, demo_row\<lparr>letter := CHR ''e'', long_name := None\<rparr>] (CHR ''e'') = 1"
  using valid_table_rows_reachable [of 0 "[demo_row, demo_row\<lparr>letter := CHR ''e'', long_name := None\<rparr>]" 1]
  by (simp add: validate_def demo_row_def alphanumeric_def same_name_def upt_rec [of _ 2] numeral_2_eq_2 ubyte_def)

end
