(* ===== verification/SourceMap.thy ===== *)
theory SourceMap
  imports Base
begin

text \<open>
  \<^verbatim>\<open>src/syntax/source_map.h\<close>: byte offset to line and column, with the memo of the last answer that
  the code keeps behind its const queries.  A query here returns the map with its new memo.
  Offsets and lines are \<open>nat\<close> (the code's \<open>uint32_t\<close>, for sources under 4 GB).  The lemmas show
  that the memo is invisible: whatever was asked before, an answer is the one counted from byte 0.
\<close>

record source_position =
  sp_line :: nat
  sp_column :: nat

record source_map =
  sm_source :: string
  sm_line :: nat
  sm_line_start :: nat

definition source_map_of :: "string \<Rightarrow> source_map" where
  "source_map_of source = \<lparr>sm_source = source, sm_line = 1, sm_line_start = 0\<rparr>"

fun line_begin :: "string \<Rightarrow> nat \<Rightarrow> nat" where
  "line_begin source 0 = 0"
| "line_begin source (Suc start) =
     (if source ! start = CHR 0x0A then Suc start else line_begin source start)"

lemma line_begin_le: "line_begin source n \<le> n"
  by (induction n) auto

function rewind :: "string \<Rightarrow> nat \<Rightarrow> nat \<times> nat \<Rightarrow> nat \<times> nat" where
  "rewind source offset (line, start) =
     (if offset < start then rewind source offset (line - 1, line_begin source (start - 1))
      else (line, start))"
  by pat_completeness auto
termination
  by (relation "measure (\<lambda>(source, offset, line, start). start)")
    (auto intro: le_less_trans [OF line_begin_le])

declare rewind.simps [simp del]

fun advance :: "string \<Rightarrow> nat list \<Rightarrow> nat \<times> nat \<Rightarrow> nat \<times> nat" where
  "advance source [] (line, start) = (line, start)"
| "advance source (i # is) (line, start) =
     (if source ! i = CHR 0x0A then advance source is (line + 1, i + 1)
      else advance source is (line, start))"

text \<open>\<open>(c & 0xC0) != 0x80\<close>: the byte begins a character.\<close>

definition begins_character :: "char \<Rightarrow> bool" where
  "begins_character c \<longleftrightarrow> ubyte c div 64 \<noteq> 2"

definition column_at :: "string \<Rightarrow> nat \<Rightarrow> nat \<Rightarrow> nat" where
  "column_at source line_start offset =
     fold (\<lambda>i column. if begins_character (source ! i) then Suc column else column)
       [line_start..<offset] 1"

definition at :: "source_map \<Rightarrow> nat \<Rightarrow> source_position \<times> source_map" where
  "at m offset0 =
     (let offset = min offset0 (length (sm_source m));
          (line0, start0) = rewind (sm_source m) offset (sm_line m, sm_line_start m);
          (line, start) = advance (sm_source m) [start0..<offset] (line0, start0)
      in (\<lparr>sp_line = line, sp_column = column_at (sm_source m) start offset\<rparr>,
          m\<lparr>sm_line := line, sm_line_start := start\<rparr>))"

definition line_at :: "source_map \<Rightarrow> nat \<Rightarrow> nat" where
  "line_at m offset = sp_line (fst (at m offset))"

subsection \<open>The answer counted from byte 0\<close>

definition newlines :: "string \<Rightarrow> nat" where
  "newlines s = length (filter (\<lambda>c. c = CHR 0x0A) s)"

definition last_line :: "string \<Rightarrow> string" where
  "last_line s = rev (takeWhile (\<lambda>c. c \<noteq> CHR 0x0A) (rev s))"

definition position_of :: "string \<Rightarrow> nat \<Rightarrow> source_position" where
  "position_of source offset =
     \<lparr>sp_line = 1 + newlines (take offset source),
      sp_column = 1 + length (filter begins_character (last_line (take offset source)))\<rparr>"

text \<open>A memo names a line and where it begins.\<close>

definition memo_ok :: "string \<Rightarrow> nat \<times> nat \<Rightarrow> bool" where
  "memo_ok source ls \<longleftrightarrow>
     (case ls of (line, start) \<Rightarrow>
        start \<le> length source \<and> line = 1 + newlines (take start source) \<and>
        (start = 0 \<or> source ! (start - 1) = CHR 0x0A))"

lemma newlines_simps [simp]:
  "newlines [] = 0" "newlines (s @ t) = newlines s + newlines t"
  "newlines [c] = (if c = CHR 0x0A then 1 else 0)"
  by (simp_all add: newlines_def)

lemma line_begin_newlines:
  "n \<le> length source \<Longrightarrow>
     newlines (take (line_begin source n) source) = newlines (take n source) \<and>
     (line_begin source n = 0 \<or> source ! (line_begin source n - 1) = CHR 0x0A)"
  by (induction n) (auto simp: take_Suc_conv_app_nth)

lemma rewind_ok:
  "memo_ok source ls \<Longrightarrow> offset \<le> length source \<Longrightarrow>
     memo_ok source (rewind source offset ls) \<and> snd (rewind source offset ls) \<le> offset"
proof (induction source offset ls rule: rewind.induct)
  case (1 source offset line start)
  show ?case
  proof (cases "offset < start")
    case True
    then obtain n where n: "start = Suc n" by (cases start) auto
    with "1.prems"(1) have "memo_ok source (line - 1, line_begin source n)"
      using line_begin_newlines [of n source] line_begin_le [of source n]
      by (auto simp: memo_ok_def take_Suc_conv_app_nth)
    with 1 True n show ?thesis by (simp add: rewind.simps [of source offset line])
  next
    case False
    with "1.prems" show ?thesis by (simp add: rewind.simps)
  qed
qed

lemma last_line_snoc [simp]:
  "last_line (s @ [c]) = (if c = CHR 0x0A then [] else last_line s @ [c])"
  by (simp add: last_line_def)

lemma last_line_Nil [simp]: "last_line [] = []"
  by (simp add: last_line_def)

text \<open>Advancing over the bytes from the memo's line to the offset ends on the offset's line.\<close>

lemma advance_snoc:
  "advance source (is @ [i]) ls =
     (case advance source is ls of (line, start) \<Rightarrow>
        if source ! i = CHR 0x0A then (line + 1, i + 1) else (line, start))"
  by (induction source "is" ls rule: advance.induct) auto

lemma advance_ok:
  assumes "memo_ok source (line, start)" "start \<le> offset" "offset \<le> length source"
  shows "memo_ok source (advance source [start..<offset] (line, start)) \<and>
    snd (advance source [start..<offset] (line, start)) \<le> offset \<and>
    last_line (take offset source) =
      take (offset - snd (advance source [start..<offset] (line, start)))
        (drop (snd (advance source [start..<offset] (line, start))) source) \<and>
    fst (advance source [start..<offset] (line, start)) = 1 + newlines (take offset source)"
  using assms(2,3)
proof (induction offset)
  case 0
  with assms(1) show ?case by (simp add: memo_ok_def)
next
  case (Suc n)
  show ?case
  proof (cases "start = Suc n")
    case True
    with assms(1) Suc.prems show ?thesis
      by (auto simp: memo_ok_def take_Suc_conv_app_nth)
  next
    case False
    with Suc.prems have n: "start \<le> n" "n < length source" by auto
    obtain l s where ls: "advance source [start..<n] (line, start) = (l, s)" by fastforce
    have IH: "memo_ok source (l, s)" "s \<le> n"
      "last_line (take n source) = take (n - s) (drop s source)"
      "l = 1 + newlines (take n source)"
      using Suc.IH n unfolding ls by auto
    have upt: "[start..<Suc n] = [start..<n] @ [n]" using n by simp
    have "take (Suc n - s) (drop s source) = take (n - s) (drop s source) @ [source ! n]"
      using IH(2) n(2) by (simp add: Suc_diff_le take_Suc_conv_app_nth)
    with IH n show ?thesis
      unfolding upt advance_snoc ls by (auto simp: memo_ok_def take_Suc_conv_app_nth)
  qed
qed

lemma column_at_filter:
  assumes "offset \<le> length source"
  shows "column_at source start offset =
    1 + length (filter begins_character (take (offset - start) (drop start source)))"
proof -
  have count: "fold (\<lambda>i column. if P (source ! i) then Suc column else column) is k =
      k + length (filter P (map ((!) source) is))" for P "is" k
    by (induction "is" arbitrary: k) auto
  have "map ((!) source) [start..<offset] = take (offset - start) (drop start source)"
    using assms by (intro nth_equalityI) auto
  then show ?thesis by (simp add: column_at_def count)
qed

lemma at_position:
  assumes "memo_ok (sm_source m) (sm_line m, sm_line_start m)"
  shows "fst (at m offset) = position_of (sm_source m) (min offset (length (sm_source m)))"
    and "sm_source (snd (at m offset)) = sm_source m"
    and "memo_ok (sm_source m) (sm_line (snd (at m offset)), sm_line_start (snd (at m offset)))"
proof -
  let ?o = "min offset (length (sm_source m))"
  obtain l0 s0 where r: "rewind (sm_source m) ?o (sm_line m, sm_line_start m) = (l0, s0)" by fastforce
  with rewind_ok [OF assms, of ?o] have m0: "memo_ok (sm_source m) (l0, s0)" "s0 \<le> ?o" by simp_all
  obtain l s where a: "advance (sm_source m) [s0..<?o] (l0, s0) = (l, s)" by fastforce
  have "memo_ok (sm_source m) (l, s)"
      "last_line (take ?o (sm_source m)) = take (?o - s) (drop s (sm_source m))"
      "l = 1 + newlines (take ?o (sm_source m))"
    using advance_ok [OF m0] unfolding a by auto
  with a show "fst (at m offset) = position_of (sm_source m) ?o"
    and "sm_source (snd (at m offset)) = sm_source m"
    and "memo_ok (sm_source m) (sm_line (snd (at m offset)), sm_line_start (snd (at m offset)))"
    by (simp_all add: at_def Let_def r position_of_def column_at_filter)
qed

text \<open>A run of queries, each starting from the memo the one before it left.\<close>

fun queries :: "source_map \<Rightarrow> nat list \<Rightarrow> source_position list" where
  "queries m [] = []"
| "queries m (offset # offsets) = (case at m offset of (p, m') \<Rightarrow> p # queries m' offsets)"

lemma queries_positions:
  "memo_ok (sm_source m) (sm_line m, sm_line_start m) \<Longrightarrow>
     queries m offsets = map (\<lambda>k. position_of (sm_source m) (min k (length (sm_source m)))) offsets"
proof (induction offsets arbitrary: m)
  case (Cons k ks)
  obtain p m' where a: "at m k = (p, m')" by fastforce
  with at_position [OF Cons.prems, of k] Cons.IH [of m'] show ?case by simp
qed simp

text \<open>The memo of the source map is invisible: whatever offsets were asked before and in
  whatever order, each answer is the line and the column (in characters) counted from the beginning
  of the source, an offset past the end being read as the end.\<close>
theorem source_map_memo_invisible:
  "queries (source_map_of source) offsets =
     map (\<lambda>k. position_of source (min k (length source))) offsets"
  using queries_positions [of "source_map_of source" offsets]
  by (simp add: source_map_of_def memo_ok_def)

end
