(* ===== verification/ShellVars.thy ===== *)
theory ShellVars
  imports Arithmetic SourceMap "HOL-Library.AList" "HOL-Library.Char_ord" "HOL-Library.List_Lexorder"
begin

text \<open>
  \<^verbatim>\<open>src/runtime/shell_state.h\<close> and \<^verbatim>\<open>shell_state.cpp\<close>: variables with their export and readonly
  marks, aliases, functions, positional parameters, options and the \<open>OPTIND\<close> hook.  The
  unordered maps are association lists, whose order stands for the unspecified iteration order;
  a query that hands back a view or a flag returns an \<open>option\<close>.  What the shell asks the system
  (the environment, \<open>getpwnam\<close>, \<open>stat\<close>, \<open>getcwd\<close>, process ids) is an argument.  The
  signal table, the terminal descriptor and the lent consoles are not part of the record.
\<close>

subsection \<open>State\<close>

record variable =
  v_value :: string
  v_exported :: bool
  v_readonly :: bool
  v_assigned :: bool

definition mk_variable :: "string \<Rightarrow> bool \<Rightarrow> variable" where
  "mk_variable val ex = \<lparr>v_value = val, v_exported = ex, v_readonly = False, v_assigned = True\<rparr>"

record options =
  all_export :: bool
  notify :: bool
  no_clobber :: bool
  exit_on_error :: bool
  no_glob :: bool
  hash_all :: bool
  monitor :: bool
  no_exec :: bool
  error_on_unset :: bool
  verbose :: bool
  trace :: bool
  ignore_eof :: bool
  no_log :: bool
  pipefail :: bool
  vi :: bool
  leshnici :: bool

definition options_init :: options where
  "options_init = \<lparr>all_export = False, notify = False, no_clobber = False, exit_on_error = False,
     no_glob = False, hash_all = False, monitor = False, no_exec = False, error_on_unset = False,
     verbose = False, trace = False, ignore_eof = False, no_log = False, pipefail = False,
     vi = False, leshnici = False\<rparr>"

text \<open>A function is the tree its definition was parsed from and the node of its body.\<close>

record function_definition =
  fd_tree :: nat
  fd_body :: nat

text \<open>
  The running command is the source text of its tree and the offset of its invocation site in
  that text (\<open>tree::invocation_of\<close> is the parser's); \<open>None\<close> is the null tree.
\<close>

record shell_state =
  sh_vars :: "(string \<times> variable) list"
  sh_user_homes :: "(string \<times> string) list"
  sh_aliases :: "(string \<times> string) list"
  sh_functions :: "(string \<times> function_definition) list"
  sh_positional :: "string list"
  sh_script_name :: string
  sh_origin :: "(string \<times> nat) option"
  sh_origin_file :: string
  sh_last_status :: int
  sh_trap_entry_status :: "int option"
  sh_getopts_offset :: nat
  sh_options :: options
  sh_interactive :: bool

subsection \<open>Variables\<close>

definition where_line :: "shell_state \<Rightarrow> nat" where
  "where_line st =
     (case sh_origin st of
        None \<Rightarrow> 0
      | Some (source, offset) \<Rightarrow> line_at (source_map_of source) offset)"

definition lookup :: "shell_state \<Rightarrow> string \<Rightarrow> string option" where
  "lookup st name =
     (case map_of (sh_vars st) name of
        Some v \<Rightarrow>
          if v_assigned v then Some (v_value v)
          else if name = ''LINENO'' \<and> where_line st \<noteq> 0 then Some (nat_decimal (where_line st))
          else None
      | None \<Rightarrow>
          if name = ''LINENO'' \<and> where_line st \<noteq> 0 then Some (nat_decimal (where_line st))
          else None)"

definition defined :: "shell_state \<Rightarrow> string \<Rightarrow> bool" where
  "defined st name \<longleftrightarrow> lookup st name \<noteq> None"

definition home_directory :: "shell_state \<Rightarrow> string" where
  "home_directory st = (case lookup st ''HOME'' of Some home \<Rightarrow> home | None \<Rightarrow> ''/'')"

text \<open>\<open>getpwnam\<close> is an argument: the home directory of a user, when there is one.\<close>

definition home_directory_of ::
  "(string \<Rightarrow> string option) \<Rightarrow> shell_state \<Rightarrow> string \<Rightarrow> string option \<times> shell_state" where
  "home_directory_of getpwnam st user =
     (if user = [] then (None, st)
      else (case map_of (sh_user_homes st) user of
              Some home \<Rightarrow> (if home = [] then None else Some home, st)
            | None \<Rightarrow>
                (let home = (case getpwnam user of Some d \<Rightarrow> d | None \<Rightarrow> []) in
                 (if home = [] then None else Some home,
                  st\<lparr>sh_user_homes := sh_user_homes st @ [(user, home)]\<rparr>))))"

definition ifs_default :: string where
  "ifs_default = [CHR '' '', CHR 0x09, CHR 0x0A]"

definition ifs :: "shell_state \<Rightarrow> string" where
  "ifs st = (case lookup st ''IFS'' of Some v \<Rightarrow> v | None \<Rightarrow> ifs_default)"

definition set_var :: "shell_state \<Rightarrow> string \<Rightarrow> string \<Rightarrow> bool \<times> shell_state" where
  "set_var st name val =
     (let exported = all_export (sh_options st);
          restarted = (if name = ''OPTIND'' then st\<lparr>sh_getopts_offset := 0\<rparr> else st)
      in case map_of (sh_vars st) name of
           Some v \<Rightarrow>
             if v_readonly v then (False, st)
             else (True, restarted\<lparr>sh_vars := AList.update name
                    (v\<lparr>v_value := val, v_exported := v_exported v \<or> exported, v_assigned := True\<rparr>)
                    (sh_vars st)\<rparr>)
         | None \<Rightarrow>
             (True, restarted\<lparr>sh_vars := sh_vars st @
                [(name, \<lparr>v_value = val, v_exported = exported, v_readonly = False, v_assigned = True\<rparr>)]\<rparr>))"

definition get_int :: "shell_state \<Rightarrow> string \<Rightarrow> i64" where
  "get_int st name =
     (case lookup st name of None \<Rightarrow> 0 | Some t \<Rightarrow> nr_value (parse_integer t Variable_as_number))"

definition set_int :: "shell_state \<Rightarrow> string \<Rightarrow> i64 \<Rightarrow> bool \<times> shell_state" where
  "set_int st name val = set_var st name (to_decimal (sint val))"

definition assign_parameter :: "shell_state \<Rightarrow> string \<Rightarrow> string \<Rightarrow> bool \<times> shell_state" where
  "assign_parameter st name val = set_var st name val"

definition set_exported :: "shell_state \<Rightarrow> string \<Rightarrow> string \<Rightarrow> bool \<times> shell_state" where
  "set_exported st name val =
     (case set_var st name val of
        (False, st') \<Rightarrow> (False, st')
      | (True, st') \<Rightarrow>
          (True, st'\<lparr>sh_vars := AList.map_entry name (\<lambda>v. v\<lparr>v_exported := True\<rparr>) (sh_vars st')\<rparr>))"

definition mark_exported :: "shell_state \<Rightarrow> string \<Rightarrow> shell_state" where
  "mark_exported st name =
     (case map_of (sh_vars st) name of
        Some v \<Rightarrow> st\<lparr>sh_vars := AList.update name (v\<lparr>v_exported := True\<rparr>) (sh_vars st)\<rparr>
      | None \<Rightarrow> st\<lparr>sh_vars := sh_vars st @
          [(name, \<lparr>v_value = [], v_exported = True, v_readonly = False, v_assigned = False\<rparr>)]\<rparr>)"

definition mark_readonly :: "shell_state \<Rightarrow> string \<Rightarrow> shell_state" where
  "mark_readonly st name =
     (case map_of (sh_vars st) name of
        Some v \<Rightarrow> st\<lparr>sh_vars := AList.update name (v\<lparr>v_readonly := True\<rparr>) (sh_vars st)\<rparr>
      | None \<Rightarrow> st\<lparr>sh_vars := sh_vars st @
          [(name, \<lparr>v_value = [], v_exported = False, v_readonly = True, v_assigned = False\<rparr>)]\<rparr>)"

definition is_readonly :: "shell_state \<Rightarrow> string \<Rightarrow> bool" where
  "is_readonly st name =
     (case map_of (sh_vars st) name of Some v \<Rightarrow> v_readonly v | None \<Rightarrow> False)"

definition is_exported :: "shell_state \<Rightarrow> string \<Rightarrow> bool" where
  "is_exported st name =
     (case map_of (sh_vars st) name of Some v \<Rightarrow> v_exported v | None \<Rightarrow> False)"

definition unset :: "shell_state \<Rightarrow> string \<Rightarrow> bool \<times> shell_state" where
  "unset st name =
     (let restarted = (if name = ''OPTIND'' then st\<lparr>sh_getopts_offset := 0\<rparr> else st)
      in case map_of (sh_vars st) name of
           Some v \<Rightarrow>
             if v_readonly v then (False, st)
             else (True, restarted\<lparr>sh_vars := AList.delete name (sh_vars st)\<rparr>)
         | None \<Rightarrow> (True, restarted))"

definition set_optind :: "shell_state \<Rightarrow> nat \<Rightarrow> nat \<Rightarrow> bool \<times> shell_state" where
  "set_optind st index offset =
     (case set_var st ''OPTIND'' (nat_decimal index) of
        (False, st') \<Rightarrow> (False, st')
      | (True, st') \<Rightarrow> (True, st'\<lparr>sh_getopts_offset := offset\<rparr>))"

record variable_row =
  vr_name :: string
  vr_value :: string
  vr_assigned :: bool
  vr_exported :: bool
  vr_readonly :: bool

text \<open>The names are distinct, so the sorted list does not depend on the sorting algorithm.\<close>

definition variables :: "shell_state \<Rightarrow> variable_row list" where
  "variables st = sort_key vr_name
     (map (\<lambda>(name, v). \<lparr>vr_name = name, vr_value = v_value v, vr_assigned = v_assigned v,
             vr_exported = v_exported v, vr_readonly = v_readonly v\<rparr>) (sh_vars st))"

definition environment_block :: "shell_state \<Rightarrow> string list" where
  "environment_block st =
     map (\<lambda>(name, v). name @ ''='' @ v_value v)
       (filter (\<lambda>(name, v). \<not> (\<not> v_exported v \<or> \<not> v_assigned v)) (sh_vars st))"

subsection \<open>The working directory\<close>

text \<open>
  \<open>find('/')\<close> splits the path; a component that is dot or dot-dot disqualifies it.  The test that
  the path names the current directory (\<open>stat\<close> of both, device and inode) is an argument.
\<close>

fun has_dot_component :: "string \<Rightarrow> string \<Rightarrow> bool" where
  "has_dot_component part [] = (part = ''.'' \<or> part = ''..'')"
| "has_dot_component part (c # path) =
     (if c = CHR ''/'' then (if part = ''.'' \<or> part = ''..'' then True else has_dot_component [] path)
      else has_dot_component (part @ [c]) path)"

definition names_current_directory :: "(string \<Rightarrow> bool) \<Rightarrow> string \<Rightarrow> bool" where
  "names_current_directory same_directory path =
     (if path = [] \<or> hd path \<noteq> CHR ''/'' then False
      else if has_dot_component [] path then False
      else same_directory path)"

definition logical_working_directory :: "(string \<Rightarrow> bool) \<Rightarrow> string \<Rightarrow> shell_state \<Rightarrow> string" where
  "logical_working_directory same_directory physical st =
     (case lookup st ''PWD'' of
        Some pwd \<Rightarrow> if names_current_directory same_directory pwd then pwd else physical
      | None \<Rightarrow> physical)"

subsection \<open>The constructor\<close>

definition emplace :: "'k \<Rightarrow> 'v \<Rightarrow> ('k \<times> 'v) list \<Rightarrow> ('k \<times> 'v) list" where
  "emplace k v al = (if map_of al k = None then al @ [(k, v)] else al)"

definition import_entry :: "string \<Rightarrow> (string \<times> variable) list \<Rightarrow> (string \<times> variable) list" where
  "import_entry entry vars =
     (if CHR ''='' \<notin> set entry then vars
      else emplace (takeWhile (\<lambda>c. c \<noteq> CHR ''='') entry)
             (mk_variable (tl (dropWhile (\<lambda>c. c \<noteq> CHR ''='') entry)) True) vars)"

definition shell_state_init ::
  "string list \<Rightarrow> nat \<Rightarrow> (string \<Rightarrow> bool) \<Rightarrow> string \<Rightarrow> shell_state" where
  "shell_state_init environ ppid same_directory physical =
     (let inherited = fold import_entry environ [];
          vars = AList.update ''PS4'' (mk_variable ''+ '' False)
            (AList.update ''PS2'' (mk_variable ''> '' False)
            (AList.update ''PS1'' (mk_variable ''$ '' False)
            (AList.update ''IFS'' (mk_variable ifs_default False)
            (AList.update ''OPTIND'' (mk_variable ''1'' False)
            (AList.update ''PPID'' (mk_variable (nat_decimal ppid) False) inherited)))));
          st = \<lparr>sh_vars = vars, sh_user_homes = [], sh_aliases = [], sh_functions = [],
                sh_positional = [], sh_script_name = ''lesh'', sh_origin = None, sh_origin_file = [],
                sh_last_status = 0, sh_trap_entry_status = None, sh_getopts_offset = 0,
                sh_options = options_init, sh_interactive = False\<rparr>
      in if lookup st ''PWD'' = None \<or> \<not> names_current_directory same_directory (the (lookup st ''PWD''))
         then (if physical \<noteq> []
               then st\<lparr>sh_vars := AList.update ''PWD'' (mk_variable physical True) (sh_vars st)\<rparr> else st)
         else st)"

subsection \<open>Aliases, functions and parameters\<close>

definition set_alias :: "shell_state \<Rightarrow> string \<Rightarrow> string \<Rightarrow> shell_state" where
  "set_alias st name val =
     (case map_of (sh_aliases st) name of
        Some _ \<Rightarrow> st\<lparr>sh_aliases := AList.update name val (sh_aliases st)\<rparr>
      | None \<Rightarrow> st\<lparr>sh_aliases := emplace name val (sh_aliases st)\<rparr>)"

definition unset_alias :: "shell_state \<Rightarrow> string \<Rightarrow> bool \<times> shell_state" where
  "unset_alias st name =
     (case map_of (sh_aliases st) name of
        None \<Rightarrow> (False, st)
      | Some _ \<Rightarrow> (True, st\<lparr>sh_aliases := AList.delete name (sh_aliases st)\<rparr>))"

definition clear_aliases :: "shell_state \<Rightarrow> shell_state" where
  "clear_aliases st = st\<lparr>sh_aliases := []\<rparr>"

definition lookup_alias :: "shell_state \<Rightarrow> string \<Rightarrow> string option" where
  "lookup_alias st name = map_of (sh_aliases st) name"

definition aliases :: "shell_state \<Rightarrow> (string \<times> string) list" where
  "aliases st = sort_key fst (sh_aliases st)"

definition define_function :: "shell_state \<Rightarrow> string \<Rightarrow> nat \<Rightarrow> nat \<Rightarrow> shell_state" where
  "define_function st name t body =
     (let fd = \<lparr>fd_tree = t, fd_body = body\<rparr> in
      case map_of (sh_functions st) name of
        Some _ \<Rightarrow> st\<lparr>sh_functions := AList.update name fd (sh_functions st)\<rparr>
      | None \<Rightarrow> st\<lparr>sh_functions := emplace name fd (sh_functions st)\<rparr>)"

definition lookup_function :: "shell_state \<Rightarrow> string \<Rightarrow> function_definition option" where
  "lookup_function st name = map_of (sh_functions st) name"

definition unset_function :: "shell_state \<Rightarrow> string \<Rightarrow> shell_state" where
  "unset_function st name =
     (case map_of (sh_functions st) name of
        Some _ \<Rightarrow> st\<lparr>sh_functions := AList.delete name (sh_functions st)\<rparr>
      | None \<Rightarrow> st)"

definition function_names :: "shell_state \<Rightarrow> string list" where
  "function_names st = sort (map fst (sh_functions st))"

definition positional_at :: "shell_state \<Rightarrow> nat \<Rightarrow> string option" where
  "positional_at st index =
     (if index = 0 \<or> length (sh_positional st) < index then None
      else Some (sh_positional st ! (index - 1)))"

definition shift_positional :: "shell_state \<Rightarrow> nat \<Rightarrow> bool \<times> shell_state" where
  "shift_positional st n =
     (if length (sh_positional st) < n then (False, st)
      else (True, st\<lparr>sh_positional := drop n (sh_positional st)\<rparr>))"

subsection \<open>Options\<close>

text \<open>A row of the option table; the pointer to the member is its read and its write.\<close>

record option_descriptor =
  od_letter :: char
  od_name :: string
  od_get :: "options \<Rightarrow> bool"
  od_set :: "bool \<Rightarrow> options \<Rightarrow> options"

abbreviation option_desc ::
  "char \<Rightarrow> string \<Rightarrow> (options \<Rightarrow> bool) \<Rightarrow> ((bool \<Rightarrow> bool) \<Rightarrow> options \<Rightarrow> options) \<Rightarrow> option_descriptor" where
  "option_desc c n g u \<equiv> \<lparr>od_letter = c, od_name = n, od_get = g, od_set = (\<lambda>b. u (\<lambda>_. b))\<rparr>"

definition option_table :: "option_descriptor list" where
  "option_table =
    [option_desc (CHR ''a'') ''allexport'' all_export all_export_update,
     option_desc (CHR ''b'') ''notify'' notify notify_update,
     option_desc (CHR ''C'') ''noclobber'' no_clobber no_clobber_update,
     option_desc (CHR ''e'') ''errexit'' exit_on_error exit_on_error_update,
     option_desc (CHR ''f'') ''noglob'' no_glob no_glob_update,
     option_desc (CHR ''h'') [] hash_all hash_all_update,
     option_desc (CHR ''m'') ''monitor'' monitor monitor_update,
     option_desc (CHR ''n'') ''noexec'' no_exec no_exec_update,
     option_desc (CHR ''u'') ''nounset'' error_on_unset error_on_unset_update,
     option_desc (CHR ''v'') ''verbose'' verbose verbose_update,
     option_desc (CHR ''x'') ''xtrace'' trace trace_update,
     option_desc (CHR 0x00) ''ignoreeof'' ignore_eof ignore_eof_update,
     option_desc (CHR 0x00) ''leshnici'' leshnici leshnici_update,
     option_desc (CHR 0x00) ''nolog'' no_log no_log_update,
     option_desc (CHR 0x00) ''pipefail'' pipefail pipefail_update,
     option_desc (CHR 0x00) ''vi'' vi vi_update]"

fun apply_letter_in :: "option_descriptor list \<Rightarrow> options \<Rightarrow> char \<Rightarrow> bool \<Rightarrow> bool \<times> options" where
  "apply_letter_in [] o' c enable = (False, o')"
| "apply_letter_in (row # rows) o' c enable =
     (if od_letter row \<noteq> CHR 0x00 \<and> od_letter row = c then (True, od_set row enable o')
      else apply_letter_in rows o' c enable)"

definition apply_option_letter :: "options \<Rightarrow> char \<Rightarrow> bool \<Rightarrow> bool \<times> options" where
  "apply_option_letter o' c enable = apply_letter_in option_table o' c enable"

fun apply_name_in :: "option_descriptor list \<Rightarrow> options \<Rightarrow> string \<Rightarrow> bool \<Rightarrow> bool \<times> options" where
  "apply_name_in [] o' name enable = (False, o')"
| "apply_name_in (row # rows) o' name enable =
     (if od_name row \<noteq> [] \<and> od_name row = name then (True, od_set row enable o')
      else apply_name_in rows o' name enable)"

definition apply_option_name :: "options \<Rightarrow> string \<Rightarrow> bool \<Rightarrow> bool \<times> options" where
  "apply_option_name o' name enable = apply_name_in option_table o' name enable"

definition option_flags :: "shell_state \<Rightarrow> string" where
  "option_flags st =
     map od_letter (filter (\<lambda>row. od_letter row \<noteq> CHR 0x00 \<and> od_get row (sh_options st)) option_table) @
     (if sh_interactive st then ''i'' else [])"

subsection \<open>The arithmetic port\<close>

definition shell_port :: "shell_state arithmetic_variables" where
  "shell_port = \<lparr>av_get = get_int, av_set = set_int, av_defined = defined\<rparr>"

subsection \<open>What the variable operations do to the table\<close>

lemma map_of_snoc: "map_of xs k = None \<Longrightarrow> map_of (xs @ [(k, v)]) = (map_of xs)(k \<mapsto> v)"
  by (rule ext) (auto simp: map_add_def split: option.splits)

lemma set_var_refused: "set_var st n v = (False, st') \<Longrightarrow> st' = st \<and> is_readonly st n"
  by (auto simp: set_var_def Let_def is_readonly_def split: option.splits if_splits)

lemma set_var_ok_iff: "fst (set_var st n v) \<longleftrightarrow> \<not> is_readonly st n"
  by (auto simp: set_var_def Let_def is_readonly_def split: option.splits)

lemma set_var_frame [simp]:
  "sh_origin (snd (set_var st n v)) = sh_origin st"
  "sh_options (snd (set_var st n v)) = sh_options st"
  by (auto simp: set_var_def Let_def split: option.splits)

lemma set_var_table:
  assumes "set_var st n v = (True, st')"
  shows "\<exists>x. map_of (sh_vars st') = (map_of (sh_vars st))(n \<mapsto> x) \<and> v_value x = v \<and> v_assigned x \<and>
    \<not> v_readonly x \<and> v_exported x = (is_exported st n \<or> all_export (sh_options st))"
  using assms
  by (auto simp: set_var_def Let_def is_exported_def AList.update_conv' map_of_snoc simp del: map_of_append
      split: option.splits if_splits)

lemma where_line_origin: "sh_origin s = sh_origin t \<Longrightarrow> where_line s = where_line t"
  by (simp add: where_line_def)

lemma lookup_cong:
  "map_of (sh_vars s) n = map_of (sh_vars t) n \<Longrightarrow> sh_origin s = sh_origin t \<Longrightarrow> lookup s n = lookup t n"
  using where_line_origin [of s t] by (cases "map_of (sh_vars t) n") (auto simp: lookup_def)

lemma lookup_set_var:
  assumes "set_var st n v = (True, st')"
  shows "lookup st' m = (if m = n then Some v else lookup st m)"
proof -
  obtain x where x: "map_of (sh_vars st') = (map_of (sh_vars st))(n \<mapsto> x)" "v_value x = v" "v_assigned x"
    using set_var_table [OF assms] by blast
  have "sh_origin st' = sh_origin st" using set_var_frame(1) [of st n v] assms by simp
  with x show ?thesis
    using lookup_cong [of st' m st] by (auto simp: lookup_def)
qed

lemma get_int_lookup: "lookup s n = lookup t n \<Longrightarrow> get_int s n = get_int t n"
  by (simp add: get_int_def)

lemma get_set_int: "set_int st n x = (True, st') \<Longrightarrow> get_int st' n = x"
  using lookup_set_var [of st n "to_decimal (sint x)" st' n] sint64_range [of x]
    parse_integer_decimal [of Variable_as_number "sint x"]
  by (simp add: set_int_def get_int_def numeric_bounds)

lemma is_readonly_set_var: "is_readonly (snd (set_var st n v)) m = is_readonly st m"
proof -
  obtain ok st' where s: "set_var st n v = (ok, st')" by fastforce
  show ?thesis
  proof (cases ok)
    case True
    with set_var_table [of st n v st'] s obtain x
      where "map_of (sh_vars st') = (map_of (sh_vars st))(n \<mapsto> x)" "\<not> v_readonly x" by auto
    with True s set_var_ok_iff [of st n v] show ?thesis by (auto simp: is_readonly_def)
  next
    case False
    with s set_var_refused [of st n v st'] show ?thesis by simp
  qed
qed

subsection \<open>Interpretations\<close>

interpretation shell_arithmetic: variables_port shell_port lookup
proof (unfold_locales, goal_cases)
  case (1 s n x t)
  then show ?case using get_set_int [of s n x t] by (simp add: shell_port_def)
next
  case (2 s n x t m)
  then show ?case using lookup_set_var [of s n _ t m] by (simp add: shell_port_def set_int_def)
next
  case (3 s n x t)
  then show ?case using lookup_set_var [of s n _ t n] by (simp add: shell_port_def set_int_def)
next
  case (4 s n x t)
  then show ?case using set_var_refused [of s n _ t] by (simp add: shell_port_def set_int_def)
next
  case (5 s n t)
  then show ?case using get_int_lookup [of s n t] by (simp add: shell_port_def)
next
  case (6 s n)
  then show ?case by (simp add: shell_port_def defined_def)
next
  case (7 s n x m y z)
  then show ?case
    by (simp add: shell_port_def set_int_def set_var_ok_iff is_readonly_set_var)
qed

definition no_readonly :: "shell_state \<Rightarrow> bool" where
  "no_readonly st \<longleftrightarrow> (\<forall>n. \<not> is_readonly st n)"

lemma set_var_accepts: "no_readonly st \<Longrightarrow> set_var st n v = (True, snd (set_var st n v))"
  using set_var_ok_iff [of st n v] by (cases "set_var st n v") (simp add: no_readonly_def)

interpretation variable_store: keyed_store
  "\<lambda>n v st. snd (set_var st n v)" lookup no_readonly
proof (unfold_locales, goal_cases)
  case (1 s k v)
  then show ?case using lookup_set_var [OF set_var_accepts, of s k v k] by simp
next
  case (2 s k j v)
  then show ?case using lookup_set_var [OF set_var_accepts, of s k v j] by simp
next
  case (3 s k v)
  then show ?case by (simp add: no_readonly_def is_readonly_set_var)
qed

lemma map_of_set_alias: "map_of (sh_aliases (set_alias st n v)) = (map_of (sh_aliases st))(n \<mapsto> v)"
  by (cases "map_of (sh_aliases st) n")
    (simp_all add: set_alias_def emplace_def AList.update_conv' map_of_snoc del: map_of_append)

lemma map_of_define_function:
  "map_of (sh_functions (define_function st n t b)) =
     (map_of (sh_functions st))(n \<mapsto> \<lparr>fd_tree = t, fd_body = b\<rparr>)"
  by (cases "map_of (sh_functions st) n")
    (simp_all add: define_function_def Let_def emplace_def AList.update_conv' map_of_snoc del: map_of_append)

interpretation alias_store: keyed_store
  "\<lambda>n v st. set_alias st n v" lookup_alias "\<lambda>st. True"
  by unfold_locales (simp_all add: lookup_alias_def map_of_set_alias)

interpretation function_store: keyed_store
  "\<lambda>n fd st. define_function st n (fd_tree fd) (fd_body fd)" lookup_function "\<lambda>st. True"
  by unfold_locales (simp_all add: lookup_function_def map_of_define_function)

subsection \<open>Runs of operations\<close>

text \<open>Every operation that changes the variable table, and arithmetic expansion over it.\<close>

datatype var_op =
    Op_set string string | Op_set_int string i64 | Op_assign_parameter string string
  | Op_set_exported string string | Op_mark_exported string | Op_mark_readonly string
  | Op_unset string | Op_set_optind nat nat | Op_arithmetic string

fun run_op :: "var_op \<Rightarrow> shell_state \<Rightarrow> shell_state" where
  "run_op (Op_set n v) st = snd (set_var st n v)"
| "run_op (Op_set_int n x) st = snd (set_int st n x)"
| "run_op (Op_assign_parameter n v) st = snd (assign_parameter st n v)"
| "run_op (Op_set_exported n v) st = snd (set_exported st n v)"
| "run_op (Op_mark_exported n) st = mark_exported st n"
| "run_op (Op_mark_readonly n) st = mark_readonly st n"
| "run_op (Op_unset n) st = snd (unset st n)"
| "run_op (Op_set_optind i k) st = snd (set_optind st i k)"
| "run_op (Op_arithmetic e) st =
     (case evaluate e shell_port st of Some (r, st') \<Rightarrow> st' | None \<Rightarrow> st)"

text \<open>Marking a name touches its marks only.\<close>

definition entry_of :: "shell_state \<Rightarrow> string \<Rightarrow> variable" where
  "entry_of st n =
     (case map_of (sh_vars st) n of
        Some v \<Rightarrow> v
      | None \<Rightarrow> \<lparr>v_value = [], v_exported = False, v_readonly = False, v_assigned = False\<rparr>)"

lemma map_of_mark_exported:
  "map_of (sh_vars (mark_exported st n)) = (map_of (sh_vars st))(n \<mapsto> (entry_of st n)\<lparr>v_exported := True\<rparr>)"
  by (cases "map_of (sh_vars st) n")
    (simp_all add: mark_exported_def entry_of_def AList.update_conv' map_of_snoc del: map_of_append)

lemma map_of_mark_readonly:
  "map_of (sh_vars (mark_readonly st n)) = (map_of (sh_vars st))(n \<mapsto> (entry_of st n)\<lparr>v_readonly := True\<rparr>)"
  by (cases "map_of (sh_vars st) n")
    (simp_all add: mark_readonly_def entry_of_def AList.update_conv' map_of_snoc del: map_of_append)

lemma origin_marks [simp]:
  "sh_origin (mark_exported st n) = sh_origin st" "sh_origin (mark_readonly st n) = sh_origin st"
  by (simp_all add: mark_exported_def mark_readonly_def split: option.splits)

lemma lookup_update:
  assumes "map_of (sh_vars t) = (map_of (sh_vars s))(n \<mapsto> x)" "sh_origin t = sh_origin s"
    "v_value x = v_value (entry_of s n)" "v_assigned x = v_assigned (entry_of s n)"
  shows "lookup t m = lookup s m"
  using assms where_line_origin [of t s]
  by (cases "m = n"; cases "map_of (sh_vars s) n"; cases "map_of (sh_vars s) m")
    (auto simp: lookup_def entry_of_def)

lemma lookup_mark_exported: "lookup (mark_exported st n) m = lookup st m"
  by (rule lookup_update [OF map_of_mark_exported]) simp_all

lemma lookup_mark_readonly: "lookup (mark_readonly st n) m = lookup st m"
  by (rule lookup_update [OF map_of_mark_readonly]) simp_all

lemma readonly_mark_exported: "is_readonly (mark_exported st n) m = is_readonly st m"
  by (cases "map_of (sh_vars st) n") (simp_all add: is_readonly_def map_of_mark_exported entry_of_def)

lemma readonly_mark_readonly: "is_readonly (mark_readonly st n) m \<longleftrightarrow> m = n \<or> is_readonly st m"
  by (simp add: is_readonly_def map_of_mark_readonly)

text \<open>A readonly name stays readonly and keeps its value under every operation.\<close>

definition pinned :: "shell_state \<Rightarrow> string \<Rightarrow> string option \<Rightarrow> bool" where
  "pinned st n val \<longleftrightarrow> is_readonly st n \<and> lookup st n = val"

lemma pinned_set_var: "pinned st n val \<Longrightarrow> pinned (snd (set_var st m v)) n val"
proof -
  assume p: "pinned st n val"
  obtain ok st' where s: "set_var st m v = (ok, st')" by fastforce
  show ?thesis
  proof (cases ok)
    case True
    with s p set_var_ok_iff [of st m v] have "n \<noteq> m" by (auto simp: pinned_def)
    with True s p lookup_set_var [of st m v st' n] is_readonly_set_var [of st m v n] show ?thesis
      by (simp add: pinned_def)
  next
    case False
    with s p set_var_refused [of st m v st'] show ?thesis by simp
  qed
qed

lemma sealed_iff: "shell_arithmetic.sealed st n \<longleftrightarrow> is_readonly st n"
  unfolding shell_arithmetic.sealed_def by (simp add: shell_port_def set_int_def set_var_ok_iff)

lemma pinned_arithmetic:
  assumes "pinned st n val" "evaluate e shell_port st = Some (r, st')"
  shows "pinned st' n val"
proof -
  have "length (ev_text (evaluator_init e st)) < length e + 1" by (simp add: evaluator_init_def)
  from parse_at_total [OF this, of shell_port Comma] assms(2) have "writes shell_port st st'"
    by (auto simp: evaluate_def step_ok_def evaluator_init_def)
  with shell_arithmetic.sealed_writes [of st st' n] assms(1) show ?thesis
    by (simp add: sealed_iff pinned_def)
qed

lemma pinned_export_entry:
  assumes "pinned st n val"
  shows "pinned (st\<lparr>sh_vars := AList.map_entry m (\<lambda>v. v\<lparr>v_exported := True\<rparr>) (sh_vars st)\<rparr>) n val"
proof -
  let ?t = "st\<lparr>sh_vars := AList.map_entry m (\<lambda>v. v\<lparr>v_exported := True\<rparr>) (sh_vars st)\<rparr>"
  have "where_line ?t = where_line st" by (simp add: where_line_def)
  moreover have "map_of (sh_vars ?t) n = (case map_of (sh_vars st) n of None \<Rightarrow> None
      | Some v \<Rightarrow> Some (if n = m then v\<lparr>v_exported := True\<rparr> else v))"
    by (simp add: AList.map_of_map_entry split: option.splits)
  ultimately have "lookup ?t n = lookup st n \<and> is_readonly ?t n = is_readonly st n"
    by (cases "map_of (sh_vars st) n") (auto simp: lookup_def is_readonly_def)
  with assms show ?thesis by (simp add: pinned_def)
qed

lemma pinned_unset: "pinned st n val \<Longrightarrow> pinned (snd (unset st m)) n val"
proof -
  assume p: "pinned st n val"
  then have ro: "is_readonly st n" by (simp add: pinned_def)
  have o: "sh_origin (snd (unset st m)) = sh_origin st"
    by (auto simp: unset_def Let_def split: option.splits)
  have "map_of (sh_vars (snd (unset st m))) n = map_of (sh_vars st) n"
    using ro by (cases "m = n"; cases "map_of (sh_vars st) m")
      (auto simp: unset_def Let_def is_readonly_def AList.delete_conv')
  with p ro lookup_cong [of "snd (unset st m)" n st] o show ?thesis
    by (simp add: pinned_def is_readonly_def)
qed

lemma pinned_optind: "pinned st n val \<Longrightarrow> pinned (snd (set_optind st i k)) n val"
proof -
  assume p: "pinned st n val"
  have g: "pinned (s\<lparr>sh_getopts_offset := j\<rparr>) n val = pinned s n val" for s j
    using lookup_cong [of "s\<lparr>sh_getopts_offset := j\<rparr>" n s] by (simp add: pinned_def is_readonly_def)
  obtain ok st' where "set_var st ''OPTIND'' (nat_decimal i) = (ok, st')" by fastforce
  with pinned_set_var [OF p, of "''OPTIND''" "nat_decimal i"] g [of k st'] show ?thesis
    by (cases ok) (simp_all add: set_optind_def)
qed

lemma pinned_set_exported: "pinned st n val \<Longrightarrow> pinned (snd (set_exported st m v)) n val"
proof -
  assume p: "pinned st n val"
  obtain ok st' where "set_var st m v = (ok, st')" by fastforce
  with pinned_set_var [OF p, of m v] pinned_export_entry [of st' n val m] show ?thesis
    by (cases ok) (simp_all add: set_exported_def)
qed

lemma pinned_run_op: "pinned st n val \<Longrightarrow> pinned (run_op op st) n val"
proof (cases op)
  case (Op_arithmetic e)
  assume "pinned st n val"
  with Op_arithmetic show ?thesis
    by (cases "evaluate e shell_port st") (auto dest: pinned_arithmetic)
next
  case (Op_mark_exported m)
  assume "pinned st n val"
  with Op_mark_exported show ?thesis
    by (simp add: pinned_def lookup_mark_exported readonly_mark_exported)
next
  case (Op_mark_readonly m)
  assume "pinned st n val"
  with Op_mark_readonly show ?thesis
    by (simp add: pinned_def lookup_mark_readonly readonly_mark_readonly)
qed (simp_all add: pinned_set_var set_int_def assign_parameter_def pinned_unset pinned_optind
    pinned_set_exported)

lemma pinned_run_ops: "pinned st n val \<Longrightarrow> pinned (fold run_op ops st) n val"
  by (induction ops arbitrary: st) (simp_all add: pinned_run_op)

subsection \<open>The environment handed to a child\<close>

definition table_ok :: "shell_state \<Rightarrow> bool" where
  "table_ok st \<longleftrightarrow> distinct (map fst (sh_vars st)) \<and> (\<forall>n \<in> set (map fst (sh_vars st)). CHR ''='' \<notin> set n)"

lemma name_before_equals:
  "CHR ''='' \<notin> set n \<Longrightarrow> CHR ''='' \<notin> set m \<Longrightarrow> n @ ''='' @ v = m @ ''='' @ w \<longleftrightarrow> n = m \<and> v = w"
proof -
  assume n: "CHR ''='' \<notin> set n" "CHR ''='' \<notin> set m"
  have "takeWhile (\<lambda>c. c \<noteq> CHR ''='') (k @ ''='' @ u) = k" if "CHR ''='' \<notin> set k" for k u
    using that by (induction k) auto
  then show ?thesis using n by (metis same_append_eq)
qed

lemma environment_entries:
  assumes "table_ok st" "CHR ''='' \<notin> set n"
  shows "n @ ''='' @ v \<in> set (environment_block st) \<longleftrightarrow>
    (\<exists>x. map_of (sh_vars st) n = Some x \<and> v_exported x \<and> v_assigned x \<and> v_value x = v)"
proof
  assume "n @ ''='' @ v \<in> set (environment_block st)"
  then obtain m x where m: "(m, x) \<in> set (sh_vars st)" "v_exported x" "v_assigned x"
    "n @ ''='' @ v = m @ ''='' @ v_value x"
    by (auto simp: environment_block_def)
  then have "CHR ''='' \<notin> set m" using assms(1) by (auto simp: table_ok_def)
  with m assms show "\<exists>x. map_of (sh_vars st) n = Some x \<and> v_exported x \<and> v_assigned x \<and> v_value x = v"
    using name_before_equals [of n m v "v_value x"] by (auto simp: table_ok_def)
next
  assume "\<exists>x. map_of (sh_vars st) n = Some x \<and> v_exported x \<and> v_assigned x \<and> v_value x = v"
  then obtain x where "(n, x) \<in> set (sh_vars st)" "v_exported x" "v_assigned x" "v_value x = v"
    by (auto dest: map_of_SomeD)
  then show "n @ ''='' @ v \<in> set (environment_block st)"
    by (auto simp: environment_block_def intro!: image_eqI [of _ _ "(n, x)"])
qed

subsection \<open>The option table\<close>

lemma option_table_cases:
  assumes "row \<in> set option_table"
  shows "od_get row (od_set row b o') = b"
  using assms unfolding option_table_def by (simp, elim disjE) simp_all

lemma option_letters_distinct:
  "distinct (filter (\<lambda>c. c \<noteq> CHR 0x00) (map od_letter option_table))"
  by (simp add: option_table_def)

lemma option_names_distinct: "distinct (filter (\<lambda>n. n \<noteq> []) (map od_name option_table))"
  by (simp add: option_table_def)

lemma apply_letter_in_row:
  "distinct (filter (\<lambda>c. c \<noteq> CHR 0x00) (map od_letter rows)) \<Longrightarrow> row \<in> set rows \<Longrightarrow>
     od_letter row \<noteq> CHR 0x00 \<Longrightarrow> apply_letter_in rows o' (od_letter row) b = (True, od_set row b o')"
  by (induction rows) (auto split: if_splits)

lemma apply_name_in_row:
  "distinct (filter (\<lambda>n. n \<noteq> []) (map od_name rows)) \<Longrightarrow> row \<in> set rows \<Longrightarrow>
     od_name row \<noteq> [] \<Longrightarrow> apply_name_in rows o' (od_name row) b = (True, od_set row b o')"
  by (induction rows) (auto split: if_splits)

lemma apply_letter_in_none:
  "c \<notin> set (map od_letter rows) \<or> c = CHR 0x00 \<Longrightarrow> apply_letter_in rows o' c b = (False, o')"
  by (induction rows) auto

lemma apply_name_in_none:
  "n \<notin> set (map od_name rows) \<or> n = [] \<Longrightarrow> apply_name_in rows o' n b = (False, o')"
  by (induction rows) auto

lemma option_table_frame_all:
  "list_all (\<lambda>row. list_all (\<lambda>row'. od_name row = od_name row' \<or>
     od_get row' (od_set row b o') = od_get row' o') option_table) option_table"
  by (simp add: option_table_def)

lemma option_table_frame:
  assumes "row \<in> set option_table" "row' \<in> set option_table" "od_name row \<noteq> od_name row'"
  shows "od_get row' (od_set row b o') = od_get row' o'"
  using option_table_frame_all [of b o'] assms by (auto simp: list_all_iff)

lemma distinct_filter_inj:
  "distinct (filter P (map f xs)) \<Longrightarrow> x \<in> set xs \<Longrightarrow> y \<in> set xs \<Longrightarrow> f x = f y \<Longrightarrow> P (f x) \<Longrightarrow> x = y"
  by (induction xs) (auto split: if_splits, (metis imageI)+)

lemma option_letter_not_i: "row \<in> set option_table \<Longrightarrow> od_letter row \<noteq> CHR ''i''"
proof -
  have "list_all (\<lambda>row. od_letter row \<noteq> CHR ''i'') option_table" by (simp add: option_table_def)
  then show "row \<in> set option_table \<Longrightarrow> od_letter row \<noteq> CHR ''i''" by (auto simp: list_all_iff)
qed

lemma option_flags_letters:
  assumes "row \<in> set option_table" "od_letter row \<noteq> CHR 0x00"
  shows "od_letter row \<in> set (option_flags st) \<longleftrightarrow> od_get row (sh_options st)"
  using assms option_letter_not_i [OF assms(1)]
    distinct_filter_inj [OF option_letters_distinct assms(1)]
  by (auto simp: option_flags_def)

subsection \<open>Properties\<close>

text \<open>C9: a readonly name is final: whatever sequence of assignments, exports, marks, unsets, getopts
  writes and arithmetic expansions follows, it stays readonly and reads as it did.\<close>
theorem readonly_is_final:
  assumes "is_readonly st n"
  shows "is_readonly (fold run_op ops st) n \<and> lookup (fold run_op ops st) n = lookup st n"
  using pinned_run_ops [of st n "lookup st n" ops] assms by (simp add: pinned_def)

theorem readonly_is_final_witness:
  "lookup (fold run_op [Op_set ''x'' ''2'', Op_arithmetic ''x=3'', Op_unset ''x'']
     (run_op (Op_mark_readonly ''x'') (run_op (Op_set ''x'' ''1'') (shell_state_init [] 1 (\<lambda>_. True) [])))) ''x''
   = Some ''1''"
proof -
  let ?st = "run_op (Op_mark_readonly ''x'') (run_op (Op_set ''x'' ''1'') (shell_state_init [] 1 (\<lambda>_. True) []))"
  have "is_readonly ?st ''x''" by (simp add: readonly_mark_readonly)
  moreover have "lookup ?st ''x'' = Some ''1''"
  proof -
    have "map_of (sh_vars (shell_state_init [] 1 (\<lambda>_. True) [])) ''x'' = None"
      by (simp add: shell_state_init_def Let_def AList.update_conv' lookup_def)
    then have "set_var (shell_state_init [] 1 (\<lambda>_. True) []) ''x'' ''1'' =
        (True, snd (set_var (shell_state_init [] 1 (\<lambda>_. True) []) ''x'' ''1''))"
      by (simp add: set_var_def Let_def)
    from lookup_set_var [OF this, of "''x''"] show ?thesis by (simp add: lookup_mark_readonly)
  qed
  ultimately show ?thesis
    using readonly_is_final [of ?st "''x''" "[Op_set ''x'' ''2'', Op_arithmetic ''x=3'', Op_unset ''x'']"]
    by simp
qed

text \<open>The variable table is a table: after any run of assignments every name reads as the last
  value assigned to it, and as before when none was.\<close>
theorem assignments_are_a_map:
  assumes "no_readonly st"
  shows "lookup (fold (\<lambda>(n, v) st. snd (set_var st n v)) nvs st) = lookup st ++ map_of (rev nvs)"
  using variable_store.get_puts [OF assms, of nvs] by simp

theorem assignments_are_a_map_witness:
  "lookup (fold (\<lambda>(n, v) st. snd (set_var st n v)) [(''a'', ''1''), (''b'', ''2''), (''a'', ''3'')]
     (shell_state_init [] 1 (\<lambda>_. True) [])) ''a'' = Some ''3''"
proof -
  have "no_readonly (shell_state_init [] 1 (\<lambda>_. True) [])"
    by (auto simp: no_readonly_def is_readonly_def shell_state_init_def Let_def AList.update_conv'
        mk_variable_def lookup_def split: option.splits if_splits)
  from assignments_are_a_map [OF this, of "[(''a'', ''1''), (''b'', ''2''), (''a'', ''3'')]"]
  show ?thesis by simp
qed

text \<open>What arithmetic assigns, arithmetic reads: after a live assignment the shell accepts, the
  evaluator reads the same 64-bit value back through the decimal text the variable holds, and does
  not report the name as unset.\<close>
theorem arithmetic_reads_assignment:
  assumes "ev_live s" "\<not> is_readonly (ev_vars s) n"
  shows "fst (read_variable shell_port n (assign_variable shell_port n x s)) = x \<and>
    ev_unset_name (snd (read_variable shell_port n (assign_variable shell_port n x s))) = ev_unset_name s \<and>
    lookup (ev_vars (assign_variable shell_port n x s)) n = Some (to_decimal (sint x))"
proof -
  obtain v where v: "av_set shell_port (ev_vars s) n x = (True, v)"
    using set_var_ok_iff [of "ev_vars s" n "to_decimal (sint x)"] assms(2)
    by (cases "set_var (ev_vars s) n (to_decimal (sint x))") (simp add: shell_port_def set_int_def)
  moreover have "lookup v n = Some (to_decimal (sint x))"
    using v lookup_set_var [of "ev_vars s" n "to_decimal (sint x)" v n] by (simp add: shell_port_def set_int_def)
  ultimately show ?thesis
    using shell_arithmetic.assigned_is_read [OF assms(1) v] assms(1) by (simp add: assign_variable_def)
qed

theorem arithmetic_reads_assignment_witness:
  "fst (read_variable shell_port ''x'' (assign_variable shell_port ''x'' int64_min
     (evaluator_init [] (shell_state_init [] 1 (\<lambda>_. True) [])))) = int64_min"
proof -
  let ?s = "evaluator_init [] (shell_state_init [] 1 (\<lambda>_. True) [])"
  have "ev_live ?s" "\<not> is_readonly (ev_vars ?s) ''x''"
    by (simp_all add: evaluator_init_def is_readonly_def shell_state_init_def Let_def AList.update_conv'
        lookup_def)
  from arithmetic_reads_assignment [OF this, of int64_min] show ?thesis by simp
qed

text \<open>The environment of a child holds \<open>name=value\<close> for exactly the names that are both exported
  and assigned: a name only marked for export is not handed down, not even as an empty string.\<close>
theorem environment_is_exported_assigned:
  assumes "table_ok st" "CHR ''='' \<notin> set n"
  shows "n @ ''='' @ v \<in> set (environment_block st) \<longleftrightarrow>
    (\<exists>x. map_of (sh_vars st) n = Some x \<and> v_exported x \<and> v_assigned x \<and> v_value x = v)"
  by (rule environment_entries [OF assms])

theorem environment_is_exported_assigned_witness:
  "''HOME=/h'' \<in> set (environment_block (shell_state_init [''HOME=/h''] 1 (\<lambda>_. True) []))"
proof -
  let ?st = "shell_state_init [''HOME=/h''] 1 (\<lambda>_. True) []"
  have vars: "sh_vars ?st = [(''HOME'', mk_variable ''/h'' True), (''PPID'', mk_variable (nat_decimal 1) False),
      (''OPTIND'', mk_variable ''1'' False), (''IFS'', mk_variable ifs_default False),
      (''PS1'', mk_variable ''$ '' False), (''PS2'', mk_variable ''> '' False),
      (''PS4'', mk_variable ''+ '' False)]"
    by (simp add: shell_state_init_def Let_def import_entry_def emplace_def lookup_def)
  then have "table_ok ?st" by (simp add: table_ok_def)
  moreover have "CHR ''='' \<notin> set ''HOME''" by simp
  ultimately have "''HOME'' @ ''='' @ ''/h'' \<in> set (environment_block ?st) \<longleftrightarrow>
      (\<exists>x. map_of (sh_vars ?st) ''HOME'' = Some x \<and> v_exported x \<and> v_assigned x \<and> v_value x = ''/h'')"
    by (rule environment_is_exported_assigned)
  then show ?thesis using vars by (simp add: mk_variable_def)
qed

text \<open>The one option table serves \<open>set\<close>, the command line and \<open>$-\<close> alike: an option's letter and
  its name write the same field and no other, and \<open>$-\<close> lists the letter exactly while it is on.\<close>
theorem option_table_is_consistent:
  assumes "row \<in> set option_table" "od_letter row \<noteq> CHR 0x00"
  shows "\<exists>o'. apply_option_letter o0 (od_letter row) b = (True, o') \<and>
    (od_name row = [] \<or> apply_option_name o0 (od_name row) b = (True, o')) \<and>
    (od_letter row \<in> set (option_flags (st\<lparr>sh_options := o'\<rparr>)) \<longleftrightarrow> b) \<and>
    (\<forall>row' \<in> set option_table. od_name row' \<noteq> od_name row \<longrightarrow> od_get row' o' = od_get row' o0)"
  using apply_letter_in_row [OF option_letters_distinct assms, of o0 b]
    apply_name_in_row [OF option_names_distinct assms(1), of o0 b]
    option_flags_letters [OF assms, of "st\<lparr>sh_options := od_set row b o0\<rparr>"]
    option_table_cases [OF assms(1), of b o0] option_table_frame [OF assms(1), of _ b o0]
  by (auto simp: apply_option_letter_def apply_option_name_def)

theorem option_table_is_consistent_witness:
  "\<exists>o'. apply_option_letter options_init (CHR ''x'') True = (True, o') \<and>
     apply_option_name options_init ''xtrace'' True = (True, o')"
proof -
  have "option_desc (CHR ''x'') ''xtrace'' trace trace_update \<in> set option_table"
    by (simp add: option_table_def)
  from option_table_is_consistent [OF this, of options_init True] show ?thesis by auto
qed

end
