(* ===== verification/Invocation.thy ===== *)
theory Invocation
  imports Args ShellVars
begin

text \<open>
  \<^verbatim>\<open>src/runtime/option_word.h\<close> and \<^verbatim>\<open>invocation.cpp\<close>: the option parser stepped one word at a time,
  and the shell's own command line.  A cursor into \<open>argv\<close> is the list of words from it on, whose
  head is the word before the next unread one.  \<open>step_words\<close> iterates \<open>next_option_word\<close>; the
  lemmas show that looking at one word, or two when the first asks for an argument, reads the
  command line exactly as the whole parse does.
\<close>

subsection \<open>One option word\<close>

record option_word =
  ow_err :: error
  ow_consumed :: nat
  ow_done :: bool
  ow_separator :: bool

definition next_option_word ::
  "option_row list \<Rightarrow> string list \<Rightarrow> bound_struct \<Rightarrow> option_word \<times> bound_struct" where
  "next_option_word spec cur into =
     (case argv_at cur 1 of
        None \<Rightarrow> (\<lparr>ow_err = no_error, ow_consumed = 0, ow_done = True, ow_separator = False\<rparr>, into)
      | Some word \<Rightarrow>
          if word = ''--'' then
            (\<lparr>ow_err = no_error, ow_consumed = 1, ow_done = True, ow_separator = True\<rparr>, into)
          else
            (case parse_core spec [cur ! 0, word] into of (first, into1) \<Rightarrow>
               if \<not> is_error (sr_err first) then
                 (let operand = (sr_rest first = Some 1) in
                  (\<lparr>ow_err = no_error, ow_consumed = (if operand then 0 else 1), ow_done = operand,
                    ow_separator = False\<rparr>, into1))
               else if err_kind (sr_err first) \<noteq> Missing_argument \<or> argv_at cur 2 = None then
                 (\<lparr>ow_err = sr_err first, ow_consumed = 0, ow_done = False, ow_separator = False\<rparr>, into1)
               else
                 (case parse_core spec [cur ! 0, word, cur ! 2] into1 of (second, into2) \<Rightarrow>
                    if is_error (sr_err second) then
                      (\<lparr>ow_err = sr_err second, ow_consumed = 0, ow_done = False, ow_separator = False\<rparr>, into2)
                    else
                      (\<lparr>ow_err = no_error, ow_consumed = 2, ow_done = False, ow_separator = False\<rparr>, into2))))"

lemma next_option_word_progress:
  "next_option_word spec cur into = (w, into') \<Longrightarrow> \<not> is_error (ow_err w) \<Longrightarrow> \<not> ow_done w \<Longrightarrow>
     0 < ow_consumed w \<and> 2 \<le> length cur"
  by (auto simp: next_option_word_def Let_def argv_at_def split: if_splits prod.splits)

text \<open>A caller that steps to the end of the options: the error, or the words from the last cursor on.\<close>

function step_words ::
  "option_row list \<Rightarrow> string list \<Rightarrow> bound_struct \<Rightarrow> (error + string list) \<times> bound_struct" where
  "step_words spec cur into =
     (case next_option_word spec cur into of (w, into') \<Rightarrow>
        if is_error (ow_err w) then (Inl (ow_err w), into')
        else if ow_done w then (Inr (drop (ow_consumed w) cur), into')
        else step_words spec (drop (ow_consumed w) cur) into')"
  by pat_completeness auto
termination
  by (relation "measure (\<lambda>(spec, cur, into). length cur)")
    (auto dest: next_option_word_progress [OF sym])

declare step_words.simps [simp del]

subsection \<open>The shell's command line\<close>

text \<open>
  The members of \<open>invocation_scan\<close>, numbered: the options in the order of their struct, then the
  name \<open>-o\<close> stored, and the three switches of an invocation.
\<close>

abbreviation "f_name \<equiv> (16 :: nat)"
abbreviation "f_command_string \<equiv> (17 :: nat)"
abbreviation "f_interactive \<equiv> (18 :: nat)"
abbreviation "f_read_stdin \<equiv> (19 :: nat)"

definition the_bool :: "content \<Rightarrow> bool" where
  "the_bool c = (case c of Bool_field b \<Rightarrow> b | _ \<Rightarrow> False)"

definition scan_options :: "bound_struct \<Rightarrow> options" where
  "scan_options s = \<lparr>all_export = the_bool (s 0), notify = the_bool (s 1), no_clobber = the_bool (s 2),
     exit_on_error = the_bool (s 3), no_glob = the_bool (s 4), hash_all = the_bool (s 5),
     monitor = the_bool (s 6), no_exec = the_bool (s 7), error_on_unset = the_bool (s 8),
     verbose = the_bool (s 9), trace = the_bool (s 10), ignore_eof = the_bool (s 11),
     no_log = the_bool (s 12), pipefail = the_bool (s 13), vi = the_bool (s 14),
     leshnici = the_bool (s 15)\<rparr>"

definition store_options :: "options \<Rightarrow> bound_struct \<Rightarrow> bound_struct" where
  "store_options o' s = s(0 := Bool_field (all_export o'), 1 := Bool_field (notify o'),
     2 := Bool_field (no_clobber o'), 3 := Bool_field (exit_on_error o'), 4 := Bool_field (no_glob o'),
     5 := Bool_field (hash_all o'), 6 := Bool_field (monitor o'), 7 := Bool_field (no_exec o'),
     8 := Bool_field (error_on_unset o'), 9 := Bool_field (verbose o'), 10 := Bool_field (trace o'),
     11 := Bool_field (ignore_eof o'), 12 := Bool_field (no_log o'), 13 := Bool_field (pipefail o'),
     14 := Bool_field (vi o'), 15 := Bool_field (leshnici o'))"

abbreviation inv_row :: "char \<Rightarrow> setter \<Rightarrow> arg \<Rightarrow> bool \<Rightarrow> nat \<Rightarrow> string option \<Rightarrow> string \<Rightarrow> option_row" where
  "inv_row c st tk pl f ph h \<equiv> \<lparr>letter = c, row_set = st, takes = tk, plus = pl, width = 1,
     is_signed = False, long_name = None, placeholder = ph, help_text = Some h, at_field = f,
     bound_to = 0, baked = []\<rparr>"

abbreviation toggle_row :: "char \<Rightarrow> nat \<Rightarrow> string \<Rightarrow> option_row" where
  "toggle_row c f h \<equiv> inv_row c Toggle Arg_none True f None h"

definition kInvocation :: "option_row list" where
  "kInvocation =
    [toggle_row (CHR ''a'') 0 ''export every name that is assigned'',
     toggle_row (CHR ''b'') 1 ''report terminated background jobs at once (recorded, inert)'',
     toggle_row (CHR ''C'') 2 ''refuse to truncate an existing file with >'',
     toggle_row (CHR ''e'') 3 ''exit when a command fails'',
     toggle_row (CHR ''f'') 4 ''disable pathname expansion'',
     toggle_row (CHR ''h'') 5 ''hash commands as functions are defined (recorded, inert)'',
     toggle_row (CHR ''m'') 6 ''job control (recorded, inert)'',
     toggle_row (CHR ''n'') 7 ''read commands without executing them'',
     toggle_row (CHR ''u'') 8 ''treat an unset parameter as an error'',
     toggle_row (CHR ''v'') 9 ''echo input lines as they are read'',
     toggle_row (CHR ''x'') 10 ''trace commands as they are executed'',
     inv_row (CHR ''c'') Set_bool Arg_none False f_command_string None
       ''read the commands from the first operand'',
     toggle_row (CHR ''i'') f_interactive ''run interactively'',
     toggle_row (CHR ''s'') f_read_stdin ''read the commands from standard input'',
     inv_row (CHR ''o'') Store_view Arg_required True f_name (Some ''NAME'')
       ''set the option NAME names'']"

record invocation =
  inv_command_string :: "string option"
  inv_script_path :: "string option"
  inv_command_name :: "string option"
  inv_first_argument :: nat
  inv_read_stdin :: bool
  inv_interactive :: "bool option"
  inv_leshnici :: "bool option"
  inv_options :: options
  inv_error :: "string option"
  inv_error_operand :: "string option"

definition invocation_init :: invocation where
  "invocation_init = \<lparr>inv_command_string = None, inv_script_path = None, inv_command_name = None,
     inv_first_argument = 0, inv_read_stdin = False, inv_interactive = None, inv_leshnici = None,
     inv_options = options_init, inv_error = None, inv_error_operand = None\<rparr>"

definition scan_init :: "bool \<Rightarrow> bound_struct" where
  "scan_init interactive = (\<lambda>f. if f = f_name then View_field None
     else if f = f_interactive then Bool_field interactive else Bool_field False)"

text \<open>
  The loop of \<open>parse_invocation\<close>: \<open>Inl\<close> is the return with an error, \<open>Inr\<close> the break with the
  cursor, the two structs and what \<open>-o leshnici\<close> said.
\<close>

function invocation_loop ::
  "string list \<Rightarrow> bound_struct \<Rightarrow> bound_struct \<Rightarrow> invocation \<Rightarrow>
     invocation + (string list \<times> bound_struct \<times> bound_struct \<times> invocation)" where
  "invocation_loop cur sc probe iv =
     (case next_option_word kInvocation cur sc of (step, scan1) \<Rightarrow>
      case next_option_word kInvocation cur probe of (_, probe1) \<Rightarrow>
        if is_error (ow_err step) then
          (if err_kind (ow_err step) = Missing_argument
           then Inl (iv\<lparr>inv_error := Some ''-o requires an option name''\<rparr>)
           else Inl (iv\<lparr>inv_error := Some ''invalid option'', inv_error_operand := Some (cur ! 1)\<rparr>))
        else
          (case (case scan1 f_name of
              View_field (Some name) \<Rightarrow>
                (let enable = (cur ! 1 ! 0 = CHR ''-'');
                     inv1 = (if name = ''leshnici'' then iv\<lparr>inv_leshnici := Some enable\<rparr> else iv)
                 in case apply_option_name (scan_options scan1) name enable of
                      (False, _) \<Rightarrow>
                        Inl (inv1\<lparr>inv_error := Some ''invalid option name'', inv_error_operand := Some name\<rparr>)
                    | (True, o') \<Rightarrow>
                        Inr ((store_options o' scan1)(f_name := View_field None),
                             (store_options o' probe1)(f_name := View_field None), inv1))
            | _ \<Rightarrow> Inr (scan1, probe1, iv)) of
             Inl failed \<Rightarrow> Inl failed
           | Inr (scan2, probe2, inv2) \<Rightarrow>
               (let cur1 = drop (ow_consumed step) cur in
                if ow_done step then
                  Inr (if \<not> ow_separator step \<and>
                          (argv_at cur1 1 = Some ''-'' \<or> argv_at cur1 1 = Some ''+'')
                       then drop 1 cur1 else cur1, scan2, probe2, inv2)
                else invocation_loop cur1 scan2 probe2 inv2)))"
  by pat_completeness auto
termination
proof (relation "measure (\<lambda>(cur, sc, probe, iv). length cur)", goal_cases)
  case 1
  show ?case by simp
next
  case (2 cur sc probe iv step scan1 w probe1 y scan2 z probe2 inv2 cur1)
  then show ?case by (auto dest!: next_option_word_progress [OF sym])
qed

declare invocation_loop.simps [simp del]

definition parse_invocation :: "string list \<Rightarrow> invocation" where
  "parse_invocation argv =
     (case invocation_loop argv (scan_init False) (scan_init True) invocation_init of
        Inl failed \<Rightarrow> failed
      | Inr (cur, sc, probe, inv0) \<Rightarrow>
          (let iv = inv0\<lparr>inv_options := scan_options sc,
                 inv_read_stdin := the_bool (sc f_read_stdin),
                 inv_interactive := (if the_bool (sc f_interactive) = the_bool (probe f_interactive)
                                     then Some (the_bool (sc f_interactive)) else None)\<rparr>;
               i = length argv - length cur + 1
           in if the_bool (sc f_command_string) then
                (if length argv \<le> i then iv\<lparr>inv_error := Some ''-c requires a command string''\<rparr>
                 else
                   (let inv1 = iv\<lparr>inv_command_string := Some (argv ! i)\<rparr>;
                        (inv2, i2) = (if i + 1 < length argv
                          then (inv1\<lparr>inv_command_name := Some (argv ! (i + 1))\<rparr>, i + 2) else (inv1, i + 1));
                        inv3 = (if inv_command_name inv2 = None \<and> 0 < length argv
                                then inv2\<lparr>inv_command_name := Some (argv ! 0)\<rparr> else inv2)
                    in inv3\<lparr>inv_first_argument := i2\<rparr>))
              else
                (let (inv1, i1) = (if \<not> inv_read_stdin iv \<and> i < length argv
                       then (iv\<lparr>inv_script_path := Some (argv ! i), inv_command_name := Some (argv ! i)\<rparr>, i + 1)
                       else (iv, i));
                     inv2 = (if inv_command_name inv1 = None \<and> 0 < length argv
                             then inv1\<lparr>inv_command_name := Some (argv ! 0)\<rparr> else inv1)
                 in inv2\<lparr>inv_first_argument := i1\<rparr>)))"


subsection \<open>Stepping a word at a time reads what the whole parse reads\<close>

definition group_of :: "option_row list \<Rightarrow> string \<Rightarrow> string list \<Rightarrow> item list \<times> (error + string list)" where
  "group_of rows w ws =
     (if w ! 0 = CHR ''-'' \<and> w ! 1 = CHR ''-'' then read_long rows (drop 2 w) ws
      else read_letters rows (w ! 0 = CHR ''+'') (drop 1 w) ws)"

lemma option_words_group:
  "w \<noteq> ''--'' \<Longrightarrow> is_option_word rows w \<Longrightarrow>
     option_words rows (w # ws) = then_words rows (group_of rows w ws)"
  by (simp add: then_words_def group_of_def Let_def)

text \<open>A group read with no word after it, and the same group with words after it.\<close>

definition widens ::
  "item list \<times> (error + string list) \<Rightarrow> (string list \<Rightarrow> item list \<times> (error + string list)) \<Rightarrow> bool" where
  "widens g f \<longleftrightarrow>
     (case g of
        (items, Inr ws') \<Rightarrow> ws' = [] \<and> (\<forall>ws. f ws = (items, Inr ws))
      | (items, Inl e) \<Rightarrow> is_error e \<and>
          (if err_kind e = Missing_argument
           then f [] = (items, Inl e) \<and> (\<forall>a. \<exists>x. \<forall>ws. f (a # ws) = (items @ [x], Inr ws))
           else (\<forall>ws. f ws = (items, Inl e))))"

lemma widens_cons:
  "widens g f \<Longrightarrow> widens (x # fst g, snd g) (\<lambda>ws. (x # fst (f ws), snd (f ws)))"
  by (cases g; cases "snd g") (auto simp: widens_def split: if_splits, (metis fst_conv snd_conv)+)

lemma read_letters_widens: "widens (read_letters rows p ls []) (read_letters rows p ls)"
proof (induction ls)
  case Nil
  then show ?case by (simp add: widens_def)
next
  case (Cons l ls)
  let ?i = "index_of rows l"
  show ?case
  proof (cases "\<not> (?i = length rows \<or> p \<and> \<not> plus (rows ! ?i)) \<and> takes (rows ! ?i) \<noteq> Arg_required")
    case True
    have "read_letters rows p (l # ls) ws =
        (Item ?i p None # fst (read_letters rows p ls ws), snd (read_letters rows p ls ws))" for ws
      using True by (simp add: Let_def split: prod.splits)
    with widens_cons [OF Cons.IH, of "Item ?i p None"] show ?thesis by simp
  next
    case False
    then show ?thesis by (auto simp: widens_def Let_def mk_error_def is_error_def)
  qed
qed

lemma read_long_widens: "widens (read_long rows b []) (read_long rows b)"
  by (auto simp: read_long_def widens_def Let_def mk_error_def is_error_def)

lemma group_widens: "widens (group_of rows w []) (group_of rows w)"
  unfolding group_of_def using read_letters_widens read_long_widens by (auto split: if_splits)

lemma index_of_le: "index_of rows c \<le> length rows" "index_of_name rows n \<le> length rows"
  by (induction rows) auto

lemma read_letters_range:
  "Item i q a \<in> set (fst (read_letters rows p ls ws)) \<Longrightarrow> i < length rows"
  using index_of_le(1) [of rows]
  by (induction rows p ls ws rule: read_letters.induct)
    (auto simp: Let_def le_neq_implies_less split: if_splits prod.splits list.splits)

lemma group_range: "Item i q a \<in> set (fst (group_of rows w ws)) \<Longrightarrow> i < length rows"
  using read_letters_range [of i q a rows "w ! 0 = CHR ''+''" "drop 1 w" ws] index_of_le(2) [of rows]
  by (auto simp: group_of_def read_long_def Let_def le_neq_implies_less split: if_splits list.splits)

text \<open>
  Without a counting row, a run of items overlays the struct with values that do not depend on it,
  so running the items again changes nothing.
\<close>

definition overlay :: "(nat \<Rightarrow> content option) \<Rightarrow> bound_struct \<Rightarrow> bound_struct" where
  "overlay m s = (\<lambda>f. case m f of None \<Rightarrow> s f | Some v \<Rightarrow> v)"

lemma overlay_overlay: "overlay m (overlay n s) = overlay (n ++ m) s"
  by (rule ext) (simp add: overlay_def map_add_def split: option.splits)

lemma overlay_twice: "overlay m (overlay m s) = overlay m s"
  by (rule ext) (simp add: overlay_def split: option.splits)

lemma apply_row_overlay:
  "row_set row \<noteq> Increment \<Longrightarrow> \<exists>e m. \<forall>s. apply_row row p a s = (e, overlay m s)"
proof -
  assume r: "row_set row \<noteq> Increment"
  have one: "overlay [k \<mapsto> v] s = s(k := v)" for k v s by (rule ext) (simp add: overlay_def)
  have none: "overlay (\<lambda>_. None) s = s" for s by (simp add: overlay_def)
  show ?thesis
  proof (cases "row_set row = Store_integral \<and> convert (the a) (width row) (is_signed row) = None")
    case True
    then show ?thesis
      by (intro exI [of _ "mk_error Invalid_argument (letter row)"] exI [of _ "\<lambda>_. None"])
        (simp add: apply_row_def Let_def none)
  next
    case False
    with r have "\<exists>v. \<forall>s. apply_row row p a s = (no_error, s(at_field row := v))"
      by (cases "row_set row") (auto simp: apply_row_def Let_def)
    then show ?thesis by (metis one)
  qed
qed

lemma run_items_overlay:
  assumes "\<And>i q b. Item i q b \<in> set items \<Longrightarrow> row_set (rows ! i) \<noteq> Increment"
  shows "\<exists>r m. \<forall>s. run_items rows items final s = (r, overlay m s)"
  using assms
proof (induction items)
  case Nil
  have "overlay (\<lambda>_. None) s = s" for s by (simp add: overlay_def)
  then show ?case by (metis run_items.simps(1))
next
  case (Cons x items)
  obtain i q b where x: "x = Item i q b" by (cases x)
  obtain e m where e: "\<And>s. apply_row (rows ! i) q b s = (e, overlay m s)"
    using apply_row_overlay [of "rows ! i" q b] Cons.prems x by fastforce
  obtain r n where r: "\<And>s. run_items rows items final s = (r, overlay n s)"
    using Cons.IH Cons.prems by fastforce
  show ?case
    by (cases "is_error e") (auto simp: x e r overlay_overlay)
qed

definition plain_final :: scan_result where
  "plain_final = \<lparr>sr_rest = None, sr_err = no_error\<rparr>"

lemma plain_final_ok [simp]: "\<not> is_error (sr_err plain_final)"
  by (simp add: plain_final_def is_error_def no_error_def)

lemma run_items_then:
  assumes "run_items rows xs plain_final s = (r, s1)"
  shows "\<not> is_error (sr_err r) \<Longrightarrow> run_items rows (xs @ ys) fin s = run_items rows ys fin s1"
    and "is_error (sr_err r) \<Longrightarrow> run_items rows (xs @ ys) fin s = (r, s1)"
  using assms run_items_append [of rows xs ys fin s] by (simp_all add: plain_final_def)

lemma run_items_final:
  assumes "run_items rows xs plain_final s = (r, s1)"
  shows "run_items rows xs fin s = (if is_error (sr_err r) then (r, s1) else (fin, s1))"
  using run_items_then [OF assms, of "[]" fin] by simp

lemma run_items_plain:
  "run_items rows items plain_final s = (r, s') \<Longrightarrow>
     r = plain_final \<or> is_error (sr_err r) \<and> sr_rest r = None \<and> err_kind (sr_err r) = Invalid_argument"
proof (induction items arbitrary: s)
  case (Cons x items)
  obtain i q b where x: "x = Item i q b" by (cases x)
  have "err_kind (fst (apply_row (rows ! i) q b s)) = Invalid_argument \<or>
      \<not> is_error (fst (apply_row (rows ! i) q b s))"
    by (cases "row_set (rows ! i)")
      (auto simp: apply_row_def Let_def mk_error_def is_error_def no_error_def split: option.splits)
  with Cons show ?case by (fastforce simp: x split: prod.splits if_splits)
qed simp

definition step_outcome ::
  "option_row list \<Rightarrow> item list \<times> (error + string list) \<Rightarrow> bound_struct \<Rightarrow>
     (error + string list) \<times> bound_struct" where
  "step_outcome rows g into =
     (case run_items rows (fst g) plain_final into of (r, s) \<Rightarrow>
        if is_error (sr_err r) then (Inl (sr_err r), s) else (snd g, s))"

lemma step_outcome_then:
  assumes "run_items rows items plain_final into = (r, s)" "\<not> is_error (sr_err r)"
  shows "step_outcome rows (then_words rows (items, Inr ws)) into = step_outcome rows (option_words rows ws) s"
  using run_items_then(1) [OF assms(1,2), of "fst (option_words rows ws)" plain_final]
  by (simp add: step_outcome_def then_words_def case_prod_beta)

lemma step_outcome_error:
  assumes "run_items rows items plain_final into = (r, s)" "is_error (sr_err r)"
  shows "step_outcome rows (then_words rows (items, x)) into = (Inl (sr_err r), s)"
proof (cases x)
  case (Inl e)
  with assms show ?thesis by (simp add: step_outcome_def)
next
  case (Inr ws)
  then show ?thesis
    using assms(2) run_items_then(2) [OF assms(1,2), of "fst (option_words rows ws)" plain_final]
    by (simp add: step_outcome_def then_words_def case_prod_beta)
qed

lemma parse_core_word:
  assumes "w \<noteq> ''--''" "is_option_word rows w" "group_of rows w ws = (items, Inr [])"
    "run_items rows items plain_final into = (r, s)"
  shows "parse_core rows (c # w # ws) into =
    (if is_error (sr_err r) then (r, s) else (\<lparr>sr_rest = Some (2 + length ws), sr_err = no_error\<rparr>, s))"
  using run_items_final [OF assms(4)] parse_core_grammar [of "c # w # ws" rows into]
  by (simp add: option_words_group [OF assms(1,2)] assms(3) grammar_result_def then_words_def
      del: option_words.simps(2))

lemma parse_core_word_error:
  assumes "w \<noteq> ''--''" "is_option_word rows w" "group_of rows w ws = (items, Inl e)"
    "run_items rows items plain_final into = (r, s)"
  shows "parse_core rows (c # w # ws) into =
    (if is_error (sr_err r) then (r, s) else (\<lparr>sr_rest = None, sr_err = e\<rparr>, s))"
  using run_items_final [OF assms(4)] parse_core_grammar [of "c # w # ws" rows into]
  by (simp add: option_words_group [OF assms(1,2)] assms(3) grammar_result_def then_words_def
      del: option_words.simps(2))

text \<open>One call of \<open>next_option_word\<close> on an option word, by what the grammar reads there.\<close>

lemma next_option_word_group:
  assumes rows: "\<And>row. row \<in> set rows \<Longrightarrow> row_set row \<noteq> Increment"
    and w: "w \<noteq> ''--''" "is_option_word rows w"
    and step: "next_option_word rows (c # w # ws) into = (ow, s)"
  shows "if is_error (ow_err ow)
    then step_outcome rows (then_words rows (group_of rows w ws)) into = (Inl (ow_err ow), s)
    else \<not> ow_done ow \<and> step_outcome rows (then_words rows (group_of rows w ws)) into =
      step_outcome rows (option_words rows (tl (drop (ow_consumed ow) (c # w # ws)))) s"
proof -
  obtain items x where g: "group_of rows w [] = (items, x)" by fastforce
  obtain r s1 where r: "run_items rows items plain_final into = (r, s1)" by fastforce
  have noinc: "row_set (rows ! i) \<noteq> Increment" if "Item i q b \<in> set items" for i q b
    using group_range [of i q b rows w "[]"] that g rows by simp
  note next_simps = next_option_word_def argv_at_def w(1) Let_def
  have plain: "r = plain_final \<or> is_error (sr_err r) \<and> err_kind (sr_err r) = Invalid_argument"
    using run_items_plain [OF r] by blast
  show ?thesis
  proof (cases "is_error (sr_err r)")
    case True
    with plain have inv: "err_kind (sr_err r) \<noteq> Missing_argument" by auto
    have "parse_core rows [c, w] into = (r, s1)"
    proof (cases x)
      case (Inl e)
      with parse_core_word_error [OF w, of "[]" items e into r s1 c] g r True show ?thesis by simp
    next
      case (Inr ws')
      with group_widens [of rows w] g have "ws' = []" by (auto simp: widens_def)
      with Inr parse_core_word [OF w, of "[]" items into r s1 c] g r True show ?thesis by simp
    qed
    with step True inv have "ow_err ow = sr_err r" "s = s1" by (auto simp: next_simps)
    moreover have "\<exists>y. fst (group_of rows w ws) = items @ y"
      using group_widens [of rows w] g by (cases ws; cases x) (auto simp: widens_def split: if_splits, metis fst_conv)
    then obtain y where y: "fst (group_of rows w ws) = items @ y" by blast
    have "run_items rows (items @ y) plain_final into = (r, s1)"
      by (rule run_items_then(2) [OF r True])
    then have "step_outcome rows (then_words rows (group_of rows w ws)) into = (Inl (sr_err r), s1)"
      using step_outcome_error [of rows "items @ y" into r s1 "snd (group_of rows w ws)"] True y
      by (metis prod.collapse)
    ultimately show ?thesis using True by simp
  next
    case ok: False
    with plain have rp: "r = plain_final" by auto
    show ?thesis
    proof (cases x)
      case (Inr ws')
      with group_widens [of rows w] g have x: "ws' = []" "group_of rows w ws = (items, Inr ws)"
        by (auto simp: widens_def)
      have "parse_core rows [c, w] into = (\<lparr>sr_rest = Some 2, sr_err = no_error\<rparr>, s1)"
        using parse_core_word [OF w, of "[]" items into r s1 c] g r ok Inr x(1) by simp
      with step have "ow_err ow = no_error" "\<not> ow_done ow" "ow_consumed ow = 1" "s = s1"
        by (auto simp: next_simps is_error_def no_error_def)
      with step_outcome_then [OF r ok, of ws] x(2) show ?thesis by (simp add: is_error_def no_error_def)
    next
      case (Inl e)
      have one: "parse_core rows [c, w] into = (\<lparr>sr_rest = None, sr_err = e\<rparr>, s1)"
        using parse_core_word_error [OF w, of "[]" items e into r s1 c] g r ok Inl by simp
      have out: "step_outcome rows (then_words rows (items, Inl e)) into = (Inl e, s1)"
        by (simp add: step_outcome_def r rp)
      have e: "is_error e" using group_widens [of rows w] g Inl by (auto simp: widens_def)
      show ?thesis
      proof (cases "err_kind e = Missing_argument \<and> ws \<noteq> []")
        case False
        then have "group_of rows w ws = (items, Inl e)"
          using group_widens [of rows w] g Inl by (cases ws) (auto simp: widens_def split: if_splits)
        moreover have "ow_err ow = e" "s = s1"
          using step one False e by (auto simp: next_simps split: if_splits)
        ultimately show ?thesis using out e by simp
      next
        case True
        then obtain a ws2 where ws: "ws = a # ws2" by (cases ws) auto
        obtain y where y: "\<And>zs. group_of rows w (a # zs) = (items @ [y], Inr zs)"
          using group_widens [of rows w] g Inl True by (auto simp: widens_def)
        obtain r2 s2 where r2: "run_items rows (items @ [y]) plain_final into = (r2, s2)" by fastforce
        obtain q m where m: "\<And>t. run_items rows items plain_final t = (q, overlay m t)"
          using run_items_overlay [of items rows plain_final] noinc by blast
        with r rp have "run_items rows items plain_final s1 = (plain_final, s1)"
          by (metis Pair_inject overlay_twice)
        then have "run_items rows (items @ [y]) plain_final s1 = (r2, s2)"
          using run_items_then(1) [OF r ok, of "[y]" plain_final] r2
            run_items_then(1) [of rows items s1 plain_final s1 "[y]" plain_final] by simp
        from parse_core_word [OF w y this, of c]
        have two: "parse_core rows [c, w, a] s1 = (if is_error (sr_err r2) then (r2, s2)
            else (\<lparr>sr_rest = Some 3, sr_err = no_error\<rparr>, s2))" by simp
        show ?thesis
        proof (cases "is_error (sr_err r2)")
          case err: True
          then have "ow_err ow = sr_err r2" "s = s2"
            using step one two True e ws by (auto simp: next_simps)
          with err step_outcome_error [OF r2 err] y ws show ?thesis by simp
        next
          case False
          then have "ow_err ow = no_error" "\<not> ow_done ow" "ow_consumed ow = 2" "s = s2"
            using step one two True e ws by (auto simp: next_simps is_error_def no_error_def)
          with step_outcome_then [OF r2 False, of ws2] y ws show ?thesis
            by (simp add: is_error_def no_error_def)
        qed
      qed
    qed
  qed
qed

lemma step_words_outcome:
  "(\<And>row. row \<in> set rows \<Longrightarrow> row_set row \<noteq> Increment) \<Longrightarrow> cur \<noteq> [] \<Longrightarrow> step_words rows cur into = (x, s) \<Longrightarrow>
    step_outcome rows (option_words rows (tl cur)) into = (map_sum id tl x, s)"
proof (induction rows cur into arbitrary: x s rule: step_words.induct)
  case (1 rows cur into)
  from "1.prems"(2) obtain c us where cur: "cur = c # us" by (cases cur) auto
  obtain ow t where ow: "next_option_word rows cur into = (ow, t)" by fastforce
  note sw = "1.prems"(3) [unfolded step_words.simps [of rows cur into] ow prod.case]
  consider "us = []" | ws where "us = ''--'' # ws"
    | w ws where "us = w # ws" "w \<noteq> ''--''" "\<not> is_option_word rows w"
    | w ws where "us = w # ws" "w \<noteq> ''--''" "is_option_word rows w"
    by (cases us) auto
  then show ?case
  proof cases
    case 1
    with ow sw show ?thesis
      by (auto simp: cur next_option_word_def argv_at_def is_error_def no_error_def step_outcome_def
          plain_final_def)
  next
    case 2
    with ow sw show ?thesis
      by (auto simp: cur next_option_word_def argv_at_def is_error_def no_error_def step_outcome_def
          plain_final_def)
  next
    case 3
    have "parse_core rows [c, w] into = (\<lparr>sr_rest = Some 1, sr_err = no_error\<rparr>, into)"
      using parse_core_grammar [of "[c, w]" rows into] 3 by (simp add: grammar_result_def)
    with 3 ow sw show ?thesis
      by (auto simp: cur next_option_word_def argv_at_def is_error_def no_error_def step_outcome_def
          plain_final_def Let_def)
  next
    case 4
    note g = next_option_word_group [OF "1.prems"(1) 4(2,3) ow [unfolded cur 4(1)]]
    show ?thesis
    proof (cases "is_error (ow_err ow)")
      case True
      with sw have "x = Inl (ow_err ow)" "s = t" by auto
      with True g 4 show ?thesis by (simp add: cur option_words_group del: option_words.simps(2))
    next
      case False
      with g have d: "\<not> ow_done ow" by simp
      with False sw have rec: "step_words rows (drop (ow_consumed ow) cur) t = (x, s)" by simp
      show ?thesis
      proof (cases "drop (ow_consumed ow) cur = []")
        case True
        then have "s = t" "x = Inr []"
          using rec by (auto simp: step_words.simps next_option_word_def argv_at_def is_error_def no_error_def)
        with g False True 4 show ?thesis
          by (simp add: cur option_words_group step_outcome_def [of _ "([], _)"] del: option_words.simps(2))
      next
        case ne: False
        with "1.IH" [OF ow [symmetric] False d "1.prems"(1) ne rec] g False 4 show ?thesis
          by (simp add: cur option_words_group del: option_words.simps(2))
      qed
    qed
  qed
qed

lemma read_letters_suffix:
  "snd (read_letters rows p ls ws) = Inr r \<Longrightarrow> \<exists>q. ws = q @ r"
  by (induction rows p ls ws rule: read_letters.induct)
    (auto simp: Let_def split: if_splits list.splits prod.splits)

lemma group_suffix: "snd (group_of rows w ws) = Inr r \<Longrightarrow> \<exists>q. ws = q @ r"
  by (auto simp: group_of_def read_long_def Let_def dest: read_letters_suffix split: if_splits list.splits)

lemma option_words_suffix: "snd (option_words rows ws) = Inr r \<Longrightarrow> \<exists>q. ws = q @ r"
proof (induction rows ws rule: option_words.induct)
  case (2 rows w ws)
  show ?case
  proof (cases "w = ''--'' \<or> \<not> is_option_word rows w")
    case True
    with "2.prems" show ?thesis by (auto intro: exI [of _ "[w]"] exI [of _ "[]"] split: if_splits)
  next
    case False
    then have o: "option_words rows (w # ws) = then_words rows (group_of rows w ws)"
      by (simp add: option_words_group del: option_words.simps)
    obtain us where us: "snd (group_of rows w ws) = Inr us"
      using "2.prems" unfolding o by (cases "snd (group_of rows w ws)") (auto simp: then_words_def)
    with "2.prems" have r: "snd (option_words rows us) = Inr r"
      unfolding o by (simp add: then_words_def case_prod_beta)
    obtain q where "us = q @ r"
      using "2.IH" [of "group_of rows w ws" us] False us r by (auto simp: group_of_def)
    moreover obtain q' where "ws = q' @ us" using group_suffix [OF us] by blast
    ultimately show ?thesis by (auto intro: exI [of _ "w # q' @ q"])
  qed
qed simp

subsection \<open>The operands of an invocation\<close>

lemma next_option_word_stays:
  "next_option_word spec cur into = (w, into') \<Longrightarrow> cur \<noteq> [] \<Longrightarrow> ow_consumed w < length cur"
  by (auto simp: next_option_word_def Let_def argv_at_def split: if_splits prod.splits)

lemma invocation_loop_cursor:
  "invocation_loop cur sc probe iv = Inr (cur', sc', probe', iv') \<Longrightarrow> cur \<noteq> [] \<Longrightarrow>
     cur' \<noteq> [] \<and> length cur' \<le> length cur \<and> inv_error iv' = inv_error iv \<and>
     inv_command_name iv' = inv_command_name iv"
proof (induction cur sc probe iv rule: invocation_loop.induct)
  case (1 cur sc probe iv)
  obtain w sc1 where w: "next_option_word kInvocation cur sc = (w, sc1)" by fastforce
  obtain w' probe1 where w': "next_option_word kInvocation cur probe = (w', probe1)" by fastforce
  note loop = "1.prems"(1) [unfolded invocation_loop.simps [of cur sc probe iv] w w' prod.case]
  have e: "\<not> is_error (ow_err w)" using loop by (auto split: if_splits)
  have short: "ow_consumed w < length cur" using next_option_word_stays [OF w "1.prems"(2)] .
  let ?n = "case sc1 f_name of
              View_field (Some name) \<Rightarrow>
                (let enable = (cur ! 1 ! 0 = CHR ''-'');
                     inv1 = (if name = ''leshnici'' then iv\<lparr>inv_leshnici := Some enable\<rparr> else iv)
                 in case apply_option_name (scan_options sc1) name enable of
                      (False, _) \<Rightarrow>
                        Inl (inv1\<lparr>inv_error := Some ''invalid option name'', inv_error_operand := Some name\<rparr>)
                    | (True, o') \<Rightarrow>
                        Inr ((store_options o' sc1)(f_name := View_field None),
                             (store_options o' probe1)(f_name := View_field None), inv1))
            | _ \<Rightarrow> Inr (sc1, probe1, iv)"
  obtain sc2 probe2 inv2 where n: "?n = Inr (sc2, probe2, inv2)"
    using loop e by (cases ?n) auto
  have keeps: "inv_error inv2 = inv_error iv" "inv_command_name inv2 = inv_command_name iv"
    using n by (auto simp: Let_def split: content.splits option.splits prod.splits bool.splits if_splits)
  show ?case
  proof (cases "ow_done w")
    case True
    with loop e n keeps short show ?thesis
      by (auto simp: Let_def argv_at_def split: if_splits)
  next
    case False
    with loop e n have rec: "invocation_loop (drop (ow_consumed w) cur) sc2 probe2 inv2 =
        Inr (cur', sc', probe', iv')" by (simp add: Let_def)
    have "drop (ow_consumed w) cur \<noteq> []" using short by simp
    with "1.IH" [OF w [symmetric] w' [symmetric] e n refl refl refl False rec] keeps
    show ?thesis by auto
  qed
qed

lemma invocation_loop_error:
  "invocation_loop cur sc probe iv = Inl failed \<Longrightarrow> inv_error failed \<noteq> None"
proof (induction cur sc probe iv rule: invocation_loop.induct)
  case (1 cur sc probe iv)
  obtain w sc1 where w: "next_option_word kInvocation cur sc = (w, sc1)" by fastforce
  obtain w' probe1 where w': "next_option_word kInvocation cur probe = (w', probe1)" by fastforce
  note loop = "1.prems"(1) [unfolded invocation_loop.simps [of cur sc probe iv] w w' prod.case]
  let ?n = "case sc1 f_name of
              View_field (Some name) \<Rightarrow>
                (let enable = (cur ! 1 ! 0 = CHR ''-'');
                     inv1 = (if name = ''leshnici'' then iv\<lparr>inv_leshnici := Some enable\<rparr> else iv)
                 in case apply_option_name (scan_options sc1) name enable of
                      (False, _) \<Rightarrow>
                        Inl (inv1\<lparr>inv_error := Some ''invalid option name'', inv_error_operand := Some name\<rparr>)
                    | (True, o') \<Rightarrow>
                        Inr ((store_options o' sc1)(f_name := View_field None),
                             (store_options o' probe1)(f_name := View_field None), inv1))
            | _ \<Rightarrow> Inr (sc1, probe1, iv)"
  show ?case
  proof (cases "is_error (ow_err w)")
    case True
    with loop show ?thesis by (auto split: if_splits)
  next
    case e: False
    show ?thesis
    proof (cases ?n)
      case (Inl f)
      with loop e have "failed = f" by simp
      moreover have "inv_error f \<noteq> None"
        using Inl by (auto simp: Let_def split: content.splits option.splits prod.splits bool.splits if_splits)
      ultimately show ?thesis by simp
    next
      case (Inr x)
      obtain sc2 probe2 inv2 where x: "x = (sc2, probe2, inv2)" by (cases x)
      show ?thesis
      proof (cases "ow_done w")
        case True
        with loop e Inr x show ?thesis by (simp add: Let_def split: if_splits)
      next
        case False
        with loop e Inr x have "invocation_loop (drop (ow_consumed w) cur) sc2 probe2 inv2 = Inl failed"
          by (simp add: Let_def)
        then show ?thesis
          using "1.IH" [OF w [symmetric] w' [symmetric] e Inr [unfolded x] refl refl refl False] by simp
      qed
    qed
  qed
qed

subsection \<open>Properties\<close>

text \<open>Stepping the parser one option word at a time, widened to two words only when it asks for an
  argument, reads a command line exactly as the whole parse does: same struct, same error or same
  operands, for every table without a counting row.\<close>
theorem stepping_is_whole_parse:
  assumes "argv \<noteq> []" "\<And>row. row \<in> set rows \<Longrightarrow> row_set row \<noteq> Increment"
    and "step_words rows argv into = (x, s)" "parse_core rows argv into = (r, t)"
  shows "s = t \<and> map_sum id tl x =
    (case sr_rest r of None \<Rightarrow> Inl (sr_err r) | Some k \<Rightarrow> Inr (drop k argv))"
proof -
  obtain items y where g: "option_words rows (tl argv) = (items, y)" by fastforce
  obtain q u where q: "run_items rows items plain_final into = (q, u)" by fastforce
  have "step_outcome rows (items, y) into = (map_sum id tl x, s)"
    using step_words_outcome [OF assms(2,1,3)] g by simp
  then have x: "(map_sum id tl x, s) = (if is_error (sr_err q) then (Inl (sr_err q), u) else (y, u))"
    by (simp add: step_outcome_def q split: if_splits)
  have r: "(r, t) = (if is_error (sr_err q) then (q, u) else (grammar_result argv y, u))"
    using parse_core_grammar [OF assms(1), of rows into] run_items_final [OF q] assms(4)
    by (simp add: g)
  show ?thesis
  proof (cases "is_error (sr_err q)")
    case True
    with run_items_plain [OF q] x r show ?thesis by auto
  next
    case False
    have "drop (length argv - length ws) argv = ws" if y: "y = Inr ws" for ws
    proof -
      obtain p where "tl argv = p @ ws" using option_words_suffix [of rows "tl argv" ws] g y by auto
      with assms(1) have "argv = (hd argv # p) @ ws" by (cases argv) auto
      then show ?thesis by (metis add_diff_cancel_right' append_eq_conv_conj length_append)
    qed
    with False x r show ?thesis by (cases y) (auto simp: grammar_result_def)
  qed
qed

theorem stepping_is_whole_parse_witness:
  "fst (step_words kInvocation [''sh'', ''-eo'', ''errexit'', ''-c'', ''x''] (scan_init False)) =
     Inr [''-c'', ''x'']"
proof -
  let ?argv = "[''sh'', ''-eo'', ''errexit'', ''-c'', ''x'']"
  obtain x s where x: "step_words kInvocation ?argv (scan_init False) = (x, s)" by fastforce
  obtain r t where r: "parse_core kInvocation ?argv (scan_init False) = (r, t)" by fastforce
  have "sr_rest (fst (parse_core kInvocation ?argv (scan_init False))) = Some 4" by code_simp
  moreover have "\<And>row. row \<in> set kInvocation \<Longrightarrow> row_set row \<noteq> Increment"
    by (auto simp: kInvocation_def)
  ultimately have "map_sum id tl x = Inr [''x'']"
    using stepping_is_whole_parse [of ?argv kInvocation "scan_init False" x s r t] x r by simp
  moreover have "(case fst (step_words kInvocation ?argv (scan_init False)) of Inr cur \<Rightarrow> cur \<noteq> [] \<and> hd cur = ''-c'' | _ \<Rightarrow> False)"
    by code_simp
  ultimately show ?thesis using x by (cases x) (auto simp: neq_Nil_conv)
qed

text \<open>The operands of an accepted command line are in range: \<open>$1\<close> begins inside \<open>argv\<close> or just
  past it, and \<open>$0\<close> always has a name.\<close>
theorem invocation_operands_in_range:
  assumes "argv \<noteq> []" "inv_error (parse_invocation argv) = None"
  shows "inv_first_argument (parse_invocation argv) \<le> length argv \<and>
    inv_command_name (parse_invocation argv) \<in> Some ` set argv"
proof -
  let ?l = "invocation_loop argv (scan_init False) (scan_init True) invocation_init"
  show ?thesis
  proof (cases ?l)
    case (Inl failed)
    with invocation_loop_error [OF Inl] assms(2) show ?thesis by (simp add: parse_invocation_def)
  next
    case (Inr x)
    obtain cur sc probe iv where x: "x = (cur, sc, probe, iv)" by (cases x)
    with invocation_loop_cursor [of argv _ _ invocation_init cur sc probe iv] Inr assms(1)
    have "cur \<noteq> []" "length cur \<le> length argv" "inv_error iv = None" "inv_command_name iv = None"
      by (auto simp: invocation_init_def)
    moreover from this obtain k where "length cur = Suc k" by (cases cur) auto
    ultimately show ?thesis
      using assms by (auto simp: parse_invocation_def Inr x Let_def split: if_splits)
  qed
qed

theorem invocation_operands_in_range_witness:
  "inv_first_argument (parse_invocation [''sh'', ''-c'', ''x'', ''name'', ''one'']) \<le> 5"
proof -
  have "inv_error (parse_invocation [''sh'', ''-c'', ''x'', ''name'', ''one'']) = None" by code_simp
  with invocation_operands_in_range [of "[''sh'', ''-c'', ''x'', ''name'', ''one'']"] show ?thesis by simp
qed

text \<open>\<open>sh -c command [name [argument...]]\<close>: the command string is the first operand, the next
  word is \<open>$0\<close> (and not \<open>$1\<close>), the arguments follow it, and interactiveness is left undecided.\<close>
theorem command_string_form:
  assumes "\<not> is_option_word kInvocation cmd" "cmd \<noteq> ''-''" "cmd \<noteq> ''+''"
  shows "parse_invocation (sh # ''-c'' # cmd # rest) =
    invocation_init\<lparr>inv_command_string := Some cmd,
      inv_command_name := Some (case rest of [] \<Rightarrow> sh | name # _ \<Rightarrow> name),
      inv_first_argument := (case rest of [] \<Rightarrow> 3 | _ # _ \<Rightarrow> 4)\<rparr>"
proof -
  have g: "option_words kInvocation [''-c''] = ([Item 11 False None], Inr [])" by code_simp
  have row: "kInvocation ! 11 = inv_row (CHR ''c'') Set_bool Arg_none False f_command_string None
      ''read the commands from the first operand''" by (simp add: kInvocation_def)
  have c: "next_option_word kInvocation (sh # ''-c'' # cmd # rest) s =
      (\<lparr>ow_err = no_error, ow_consumed = 1, ow_done = False, ow_separator = False\<rparr>,
       s(f_command_string := Bool_field True))" for s
    using parse_core_grammar [of "[sh, ''-c'']" kInvocation s] g row
    by (simp add: next_option_word_def argv_at_def grammar_result_def apply_row_def is_error_def
        no_error_def)
  have "cmd \<noteq> ''--''" using assms(1) by (auto simp: is_option_word_def)
  then have o: "next_option_word kInvocation (''-c'' # cmd # rest) s =
      (\<lparr>ow_err = no_error, ow_consumed = 0, ow_done = True, ow_separator = False\<rparr>, s)" for s
    using parse_core_grammar [of "[''-c'', cmd]" kInvocation s] assms(1)
    by (simp add: next_option_word_def argv_at_def grammar_result_def is_error_def no_error_def)
  have "invocation_loop (sh # ''-c'' # cmd # rest) (scan_init False) (scan_init True) invocation_init =
      Inr (''-c'' # cmd # rest, (scan_init False)(f_command_string := Bool_field True),
           (scan_init True)(f_command_string := Bool_field True), invocation_init)"
    using assms(2,3)
    by (simp add: invocation_loop.simps [of "sh # _"] invocation_loop.simps [of "''-c'' # _"] c o
        is_error_def no_error_def scan_init_def argv_at_def)
  then show ?thesis
    by (auto simp: parse_invocation_def scan_init_def the_bool_def scan_options_def options_init_def
        invocation_init_def Let_def split: list.splits)
qed

theorem command_string_form_witness:
  "inv_command_name (parse_invocation [''lesh'', ''-c'', ''echo $0'', ''name'', ''one'']) = Some ''name''"
proof -
  have "\<not> is_option_word kInvocation ''echo $0''" by code_simp
  from command_string_form [OF this] show ?thesis by simp
qed

end
