(* ===== verification/TextBuffer.thy ===== *)
theory TextBuffer
  imports Base
begin

text \<open>
  \<^verbatim>\<open>src/leshper/text.h\<close>: the text being edited and the positions in it.  A position is its byte
  offset, and the buffer its bytes.  The lemmas show the laws the undo history rests on (a
  replacement put back) and that stepping by scalar values moves between character boundaries.
\<close>

type_synonym position = nat
type_synonym text_buffer = string

definition is_continuation :: "char \<Rightarrow> bool" where
  "is_continuation c \<longleftrightarrow> ubyte c div 64 = 2"

definition clamp :: "text_buffer \<Rightarrow> nat \<Rightarrow> nat" where
  "clamp b offset = (if offset < length b then offset else length b)"

definition begin_position :: position where "begin_position = 0"

definition end_position :: "text_buffer \<Rightarrow> position" where "end_position b = length b"

definition slice :: "text_buffer \<Rightarrow> position \<Rightarrow> position \<Rightarrow> string" where
  "slice b lo hi =
     (let first = clamp b lo; last' = clamp b hi in
      if last' \<le> first then [] else substr b first (last' - first))"

fun skip_continuation :: "text_buffer \<Rightarrow> nat \<Rightarrow> nat" where
  "skip_continuation [] at = at"
| "skip_continuation (c # b) at = (if is_continuation c then skip_continuation b (Suc at) else at)"

definition next_position :: "text_buffer \<Rightarrow> position \<Rightarrow> position" where
  "next_position b lo =
     (let at = clamp b lo in
      if length b \<le> at then end_position b else skip_continuation (drop (Suc at) b) (Suc at))"

fun back_to_start :: "text_buffer \<Rightarrow> nat \<Rightarrow> nat" where
  "back_to_start b 0 = 0"
| "back_to_start b (Suc n) = (if is_continuation (b ! Suc n) then back_to_start b n else Suc n)"

definition previous_position :: "text_buffer \<Rightarrow> position \<Rightarrow> position" where
  "previous_position b lo =
     (let at = clamp b lo in if at = 0 then begin_position else back_to_start b (at - 1))"

text \<open>The new buffer, and where the replacement ends.\<close>

definition replace :: "text_buffer \<Rightarrow> position \<Rightarrow> position \<Rightarrow> string \<Rightarrow> text_buffer \<times> position" where
  "replace b lo hi ins =
     (let first = clamp b lo; last' = (if clamp b hi < first then first else clamp b hi) in
      (take first b @ ins @ drop last' b, first + length ins))"

definition is_boundary :: "text_buffer \<Rightarrow> position \<Rightarrow> bool" where
  "is_boundary b at =
     (if length b < at then False else if at = length b then True else \<not> is_continuation (b ! at))"

definition clamped :: "text_buffer \<Rightarrow> position \<Rightarrow> position" where
  "clamped b at = clamp b at"

subsection \<open>Stepping\<close>

lemma clamp_le [simp]: "clamp b n \<le> length b"
  by (simp add: clamp_def)

lemma clamp_id [simp]: "n \<le> length b \<Longrightarrow> clamp b n = n"
  by (simp add: clamp_def)

lemma skip_continuation_length:
  "skip_continuation b at = at + length (takeWhile is_continuation b)"
  by (induction b at rule: skip_continuation.induct) auto

text \<open>Between \<open>i\<close> and \<open>j\<close> there are only continuation bytes.\<close>

definition inside_character :: "text_buffer \<Rightarrow> nat \<Rightarrow> nat \<Rightarrow> bool" where
  "inside_character b i j \<longleftrightarrow> (\<forall>k. i < k \<longrightarrow> k < j \<longrightarrow> is_continuation (b ! k))"

lemma next_position_spec:
  assumes "at < length b"
  shows "at < next_position b at" "is_boundary b (next_position b at)" "inside_character b at (next_position b at)"
proof -
  let ?t = "takeWhile is_continuation (drop (Suc at) b)"
  have n: "next_position b at = Suc at + length ?t"
    using assms by (simp add: next_position_def skip_continuation_length)
  have len: "length ?t \<le> length b - Suc at"
    using length_takeWhile_le [of is_continuation "drop (Suc at) b"] by simp
  show "at < next_position b at" by (simp add: n)
  have stop: "\<not> is_continuation (b ! (Suc at + length ?t))" if "Suc at + length ?t < length b"
    using nth_length_takeWhile [of is_continuation "drop (Suc at) b"] that by simp
  show "is_boundary b (next_position b at)"
    using stop len assms by (auto simp: n is_boundary_def)
  show "inside_character b at (next_position b at)"
    unfolding inside_character_def
  proof (intro allI impI)
    fix k assume k: "at < k" "k < next_position b at"
    then have i: "k - Suc at < length ?t" by (simp add: n)
    then have "?t ! (k - Suc at) = b ! k"
      using k len assms by (simp add: takeWhile_nth)
    moreover have "is_continuation (?t ! (k - Suc at))"
      using nth_mem [OF i] set_takeWhileD by fastforce
    ultimately show "is_continuation (b ! k)" by simp
  qed
qed

lemma back_to_start_spec:
  "back_to_start b n \<le> n"
  "back_to_start b n = 0 \<or> \<not> is_continuation (b ! back_to_start b n)"
  "back_to_start b n < k \<Longrightarrow> k \<le> n \<Longrightarrow> is_continuation (b ! k)"
  by (induction n) (auto simp: le_Suc_eq split: if_splits)

lemma previous_position_spec:
  assumes "0 < at" "at \<le> length b"
  shows "previous_position b at < at" "inside_character b (previous_position b at) at"
    "previous_position b at = 0 \<or> is_boundary b (previous_position b at)"
  using assms back_to_start_spec [of b "at - 1"]
  by (auto simp: previous_position_def inside_character_def is_boundary_def Let_def
      intro: le_less_trans [OF back_to_start_spec(1)])

text \<open>A boundary is determined by what lies between it and another.\<close>

lemma inside_character_unique:
  assumes "inside_character b i j" "i < k" "k < j" "is_boundary b k" "j \<le> length b"
  shows False
  using assms by (auto simp: inside_character_def is_boundary_def split: if_splits)

lemma next_position_le: "next_position b at \<le> length b"
proof -
  have "length (takeWhile is_continuation (drop (Suc at) b)) \<le> length b - Suc at"
    using length_takeWhile_le [of is_continuation "drop (Suc at) b"] by simp
  then show ?thesis
    by (cases "at < length b") (simp_all add: next_position_def clamp_def end_position_def skip_continuation_length)
qed

subsection \<open>Replacing, and putting back\<close>

lemma replace_inside:
  "i \<le> j \<Longrightarrow> j \<le> length b \<Longrightarrow> replace b i j w = (take i b @ w @ drop j b, i + length w)"
  by (simp add: replace_def Let_def)

lemma slice_inside: "i \<le> j \<Longrightarrow> j \<le> length b \<Longrightarrow> slice b i j = take (j - i) (drop i b)"
  by (auto simp: slice_def Let_def substr_def)

lemma replace_back:
  assumes "i \<le> j" "j \<le> length b"
  shows "fst (replace (fst (replace b i j w)) i (i + length w) (slice b i j)) = b"
proof -
  have "drop i b = take (j - i) (drop i b) @ drop j b"
    using append_take_drop_id [of "j - i" "drop i b"] assms by simp
  then have "take i b @ take (j - i) (drop i b) @ drop j b = b"
    by (metis append_take_drop_id)
  with assms show ?thesis by (simp add: replace_inside slice_inside)
qed

subsection \<open>Properties\<close>

text \<open>Stepping moves the cursor between character boundaries and loses none: a step forward and
  back, or back and forward, from a boundary returns to it, and a step forward always lands on one.\<close>
theorem position_steps_inverse:
  assumes "is_boundary b at"
  shows "(at < length b \<longrightarrow> is_boundary b (next_position b at) \<and> previous_position b (next_position b at) = at) \<and>
    (0 < at \<longrightarrow> next_position b (previous_position b at) = at)"
proof (intro conjI impI)
  assume a: "at < length b"
  let ?n = "next_position b at"
  note n = next_position_spec [OF a] next_position_le [of b at]
  then show "is_boundary b ?n" by simp
  note p = previous_position_spec [of ?n b]
  show "previous_position b ?n = at"
  proof (rule ccontr)
    assume ne: "previous_position b ?n \<noteq> at"
    then consider "previous_position b ?n < at" | "at < previous_position b ?n" by linarith
    then show False
    proof cases
      case 1
      with p n assms show False by (auto dest: inside_character_unique [of b _ ?n at])
    next
      case 2
      with p n have "is_boundary b (previous_position b ?n)" by auto
      with 2 p n show False by (auto dest: inside_character_unique [of b at ?n])
    qed
  qed
next
  assume z: "0 < at"
  have le: "at \<le> length b" using assms by (auto simp: is_boundary_def split: if_splits)
  let ?p = "previous_position b at"
  note p = previous_position_spec [OF z le]
  then have l: "?p < length b" using le by simp
  note n = next_position_spec [OF l] next_position_le [of b ?p]
  show "next_position b ?p = at"
  proof (rule ccontr)
    assume "next_position b ?p \<noteq> at"
    then consider "next_position b ?p < at" | "at < next_position b ?p" by linarith
    then show False
    proof cases
      case 1
      with p n le show False by (auto dest: inside_character_unique [of b ?p at])
    next
      case 2
      with p n assms show False by (auto dest: inside_character_unique [of b ?p "next_position b ?p" at])
    qed
  qed
qed

theorem position_steps_inverse_witness:
  "next_position [CHR ''a'', CHR 0xC3, CHR 0xA9, CHR ''b''] 1 = 3 \<and>
   previous_position [CHR ''a'', CHR 0xC3, CHR 0xA9, CHR ''b''] 3 = 1"
proof -
  let ?b = "[CHR ''a'', CHR 0xC3, CHR 0xA9, CHR ''b'']"
  have b: "is_boundary ?b 1" "next_position ?b 1 = 3" by code_simp+
  with position_steps_inverse [of ?b 1] show ?thesis by simp
qed

end
