(* ===== verification/Undo.thy ===== *)
theory Undo
  imports TextBuffer
begin

text \<open>
  \<^verbatim>\<open>src/leshper/undo.h\<close> (the linear undo history), \<open>apply_edit\<close> and its marker rules from
  \<^verbatim>\<open>editor.cpp\<close>, and the selection of \<^verbatim>\<open>state.h\<close>.  The vectors are lists in the same order (the
  back of a vector is the last element).  \<open>editor_state\<close> is the part of the editor's state an
  edit or an undo touches.  \<open>well_kept\<close> is the invariant that the history describes how the buffer
  came to be, and the lemmas show that every operation keeps it.
\<close>

record edit_record =
  er_at :: position
  er_removed :: string
  er_inserted :: string
  er_cursor_before :: position
  er_cursor_after :: position
  er_anchor_before :: position
  er_anchor_after :: position
  er_active_before :: bool
  er_active_after :: bool

definition is_plain_insertion :: "edit_record \<Rightarrow> bool" where
  "is_plain_insertion e \<longleftrightarrow> er_removed e = [] \<and> er_inserted e \<noteq> []"

definition end_after_insertion :: "edit_record \<Rightarrow> position" where
  "end_after_insertion e = er_at e + length (er_inserted e)"

type_synonym undo_step = "edit_record list"

record undo_history =
  uh_steps :: "undo_step list"
  uh_redoable :: "undo_step list"
  uh_open :: undo_step
  uh_group_depth :: nat
  uh_coalescing :: bool

definition undo_history_init :: undo_history where
  "undo_history_init = \<lparr>uh_steps = [], uh_redoable = [], uh_open = [], uh_group_depth = 0, uh_coalescing = False\<rparr>"

definition merge_record :: "edit_record \<Rightarrow> edit_record \<Rightarrow> edit_record" where
  "merge_record previous e =
     previous\<lparr>er_inserted := er_inserted previous @ er_inserted e,
       er_cursor_after := er_cursor_after e,
       er_anchor_after := er_anchor_after e,
       er_active_after := er_active_after e\<rparr>"

definition coalesce_into_last :: "edit_record \<Rightarrow> undo_history \<Rightarrow> bool \<times> undo_history" where
  "coalesce_into_last e h =
     (if \<not> uh_coalescing h \<or> \<not> is_plain_insertion e \<or> uh_steps h = [] then
        (False, h\<lparr>uh_coalescing := is_plain_insertion e\<rparr>)
      else if last (uh_steps h) = [] then (False, h\<lparr>uh_coalescing := True\<rparr>)
      else (let previous = last (last (uh_steps h)) in
        if \<not> is_plain_insertion previous \<or> end_after_insertion previous \<noteq> er_at e then
          (False, h\<lparr>uh_coalescing := True\<rparr>)
        else
          (True, h\<lparr>uh_steps := butlast (uh_steps h) @
             [butlast (last (uh_steps h)) @ [merge_record previous e]]\<rparr>)))"

definition record_edit :: "edit_record \<Rightarrow> undo_history \<Rightarrow> undo_history" where
  "record_edit e h0 =
     (let h = h0\<lparr>uh_redoable := []\<rparr> in
      if 0 < uh_group_depth h then h\<lparr>uh_open := uh_open h @ [e]\<rparr>
      else (case coalesce_into_last e h of
              (True, h') \<Rightarrow> h'
            | (False, h') \<Rightarrow> h'\<lparr>uh_steps := uh_steps h' @ [[e]]\<rparr>))"

definition begin_group :: "undo_history \<Rightarrow> undo_history" where
  "begin_group h =
     (let h' = (if uh_group_depth h = 0 then h\<lparr>uh_open := []\<rparr> else h)
      in h'\<lparr>uh_group_depth := uh_group_depth h' + 1\<rparr>)"

definition end_group :: "undo_history \<Rightarrow> undo_history" where
  "end_group h =
     (if uh_group_depth h = 0 then h
      else (let h1 = h\<lparr>uh_group_depth := uh_group_depth h - 1\<rparr> in
            if 0 < uh_group_depth h1 then h1
            else (let h2 = (if uh_open h1 \<noteq> [] then h1\<lparr>uh_steps := uh_steps h1 @ [uh_open h1]\<rparr> else h1)
                  in h2\<lparr>uh_open := []\<rparr>)))"

definition break_coalescing :: "undo_history \<Rightarrow> undo_history" where
  "break_coalescing h = h\<lparr>uh_coalescing := False\<rparr>"

definition can_undo :: "undo_history \<Rightarrow> bool" where "can_undo h \<longleftrightarrow> uh_steps h \<noteq> []"
definition can_redo :: "undo_history \<Rightarrow> bool" where "can_redo h \<longleftrightarrow> uh_redoable h \<noteq> []"
definition step_count :: "undo_history \<Rightarrow> nat" where "step_count h = length (uh_steps h)"

subsection \<open>The editor's state\<close>

record editor_state =
  es_buffer :: text_buffer
  es_cursor :: position
  es_anchor :: position
  es_active :: bool
  es_undo :: undo_history
  es_gen :: nat

definition undo_record :: "edit_record \<Rightarrow> editor_state \<Rightarrow> editor_state" where
  "undo_record e s =
     s\<lparr>es_buffer := fst (replace (es_buffer s) (er_at e) (end_after_insertion e) (er_removed e)),
       es_cursor := er_cursor_before e, es_anchor := er_anchor_before e,
       es_active := er_active_before e\<rparr>"

definition redo_record :: "edit_record \<Rightarrow> editor_state \<Rightarrow> editor_state" where
  "redo_record e s =
     s\<lparr>es_buffer := fst (replace (es_buffer s) (er_at e) (er_at e + length (er_removed e)) (er_inserted e)),
       es_cursor := er_cursor_after e, es_anchor := er_anchor_after e,
       es_active := er_active_after e\<rparr>"

text \<open>\<open>undo_history::undo\<close> and \<open>redo\<close>, which the state calls through \<open>undo_one\<close> and \<open>redo_one\<close>.\<close>

definition undo_one :: "editor_state \<Rightarrow> bool \<times> editor_state" where
  "undo_one s =
     (let h = es_undo s in
      if uh_steps h = [] then (False, s)
      else (let step = last (uh_steps h); s1 = fold undo_record (rev step) s in
        (True, s1\<lparr>es_undo := h\<lparr>uh_steps := butlast (uh_steps h), uh_redoable := uh_redoable h @ [step],
           uh_coalescing := False\<rparr>\<rparr>)))"

definition redo_one :: "editor_state \<Rightarrow> bool \<times> editor_state" where
  "redo_one s =
     (let h = es_undo s in
      if uh_redoable h = [] then (False, s)
      else (let step = last (uh_redoable h); s1 = fold redo_record step s in
        (True, s1\<lparr>es_undo := h\<lparr>uh_redoable := butlast (uh_redoable h), uh_steps := uh_steps h @ [step],
           uh_coalescing := False\<rparr>\<rparr>)))"

definition selection_range :: "editor_state \<Rightarrow> (position \<times> position) option" where
  "selection_range s =
     (if \<not> es_active s then None
      else if es_anchor s \<le> es_cursor s then Some (es_anchor s, es_cursor s)
      else Some (es_cursor s, es_anchor s))"

definition set_anchor :: "position \<Rightarrow> editor_state \<Rightarrow> editor_state" where
  "set_anchor at s = s\<lparr>es_anchor := at, es_active := True\<rparr>"

definition drop_selection :: "editor_state \<Rightarrow> editor_state" where
  "drop_selection s = s\<lparr>es_active := False\<rparr>"

definition swap_anchor_and_cursor :: "editor_state \<Rightarrow> editor_state" where
  "swap_anchor_and_cursor s = s\<lparr>es_anchor := es_cursor s, es_cursor := es_anchor s\<rparr>"

definition set_selection :: "position \<Rightarrow> bool \<Rightarrow> editor_state \<Rightarrow> editor_state" where
  "set_selection at active s = s\<lparr>es_anchor := at, es_active := active\<rparr>"

definition move_anchor :: "position \<Rightarrow> editor_state \<Rightarrow> editor_state" where
  "move_anchor at s = s\<lparr>es_anchor := at\<rparr>"

definition adjust_anchor_for_edit :: "position \<Rightarrow> position \<Rightarrow> nat \<Rightarrow> editor_state \<Rightarrow> editor_state" where
  "adjust_anchor_for_edit first last' inserted s =
     (let anchor = es_anchor s in
      if anchor \<le> first then s
      else if last' \<le> anchor then move_anchor (anchor - (last' - first) + inserted) s
      else move_anchor first s)"

text \<open>The record \<open>apply_edit\<close> builds, with the state before it is recorded.\<close>

definition edit_made ::
  "position \<Rightarrow> position \<Rightarrow> string \<Rightarrow> position option \<Rightarrow> editor_state \<Rightarrow> edit_record \<times> editor_state" where
  "edit_made lo hi ins cursor_after s =
     (let first = clamped (es_buffer s) lo;
          last' = (if clamped (es_buffer s) hi < first then first else clamped (es_buffer s) hi);
          removed = slice (es_buffer s) lo hi;
          (buffer, landed) = replace (es_buffer s) lo hi ins;
          cursor = (case cursor_after of Some c \<Rightarrow> c | None \<Rightarrow> landed);
          s1 = adjust_anchor_for_edit first last' (length ins) (s\<lparr>es_buffer := buffer, es_cursor := cursor\<rparr>)
      in (\<lparr>er_at = lo, er_removed = removed, er_inserted = ins, er_cursor_before = es_cursor s,
           er_cursor_after = cursor, er_anchor_before = es_anchor s, er_anchor_after = es_anchor s1,
           er_active_before = es_active s, er_active_after = es_active s1\<rparr>, s1))"

definition apply_edit :: "position \<Rightarrow> position \<Rightarrow> string \<Rightarrow> position option \<Rightarrow> editor_state \<Rightarrow> editor_state" where
  "apply_edit lo hi ins cursor_after s =
     (case edit_made lo hi ins cursor_after s of (e, s1) \<Rightarrow>
        s1\<lparr>es_undo := record_edit e (es_undo s1), es_gen := es_gen s1 + 1\<rparr>)"

subsection \<open>What a record does to a buffer\<close>

definition fits :: "edit_record \<Rightarrow> text_buffer \<Rightarrow> bool" where
  "fits e b \<longleftrightarrow>
     er_at e + length (er_removed e) \<le> length b \<and>
     take (length (er_removed e)) (drop (er_at e) b) = er_removed e"

definition done_to :: "edit_record \<Rightarrow> text_buffer \<Rightarrow> text_buffer" where
  "done_to e b = take (er_at e) b @ er_inserted e @ drop (er_at e + length (er_removed e)) b"

fun replay :: "edit_record list \<Rightarrow> text_buffer \<Rightarrow> text_buffer option" where
  "replay [] b = Some b"
| "replay (e # es) b = (if fits e b then replay es (done_to e b) else None)"

lemma replay_append:
  "replay (xs @ ys) b = (case replay xs b of None \<Rightarrow> None | Some b' \<Rightarrow> replay ys b')"
  by (induction xs arbitrary: b) auto

lemma fits_split:
  assumes "fits e b"
  obtains p q where "b = p @ er_removed e @ q" "length p = er_at e"
proof
  show "b = take (er_at e) b @ er_removed e @ drop (er_at e + length (er_removed e)) b"
    using assms unfolding fits_def by (metis append_take_drop_id drop_drop add.commute)
  show "length (take (er_at e) b) = er_at e" using assms by (simp add: fits_def)
qed

lemma undo_record_buffer:
  assumes "fits e b" "es_buffer s = done_to e b"
  shows "es_buffer (undo_record e s) = b"
proof -
  obtain p q where b: "b = p @ er_removed e @ q" "length p = er_at e" using fits_split [OF assms(1)] .
  then have "es_buffer s = p @ er_inserted e @ q" using assms(2) by (simp add: done_to_def)
  with b show ?thesis
    by (simp add: undo_record_def end_after_insertion_def replace_inside)
qed

lemma redo_record_buffer: "fits e (es_buffer s) \<Longrightarrow> es_buffer (redo_record e s) = done_to e (es_buffer s)"
  by (simp add: redo_record_def replace_inside done_to_def fits_def)

lemma fold_undo_buffer:
  "replay es b = Some (es_buffer s) \<Longrightarrow> es_buffer (fold undo_record (rev es) s) = b"
proof (induction es arbitrary: b)
  case (Cons e es)
  then have f: "fits e b" "replay es (done_to e b) = Some (es_buffer s)" by (auto split: if_splits)
  with Cons.IH have "es_buffer (fold undo_record (rev es) s) = done_to e b" by blast
  with f(1) show ?case by (simp add: undo_record_buffer)
qed simp

lemma fold_redo_buffer:
  "replay es (es_buffer s) = Some b \<Longrightarrow> es_buffer (fold redo_record es s) = b"
  by (induction es arbitrary: s) (auto simp: redo_record_buffer split: if_splits)

lemma undo_record_frame [simp]:
  "es_undo (undo_record e s) = es_undo s" "es_gen (undo_record e s) = es_gen s"
  "es_undo (redo_record e s) = es_undo s" "es_gen (redo_record e s) = es_gen s"
  by (simp_all add: undo_record_def redo_record_def)

lemma fold_record_frame [simp]:
  "es_undo (fold undo_record es s) = es_undo s" "es_undo (fold redo_record es s) = es_undo s"
  by (induction es arbitrary: s) simp_all

lemma merge_record_replay:
  assumes "is_plain_insertion p" "end_after_insertion p = er_at e" "is_plain_insertion e"
  shows "replay [merge_record p e] b = replay [p, e] b"
  using assms
  by (auto simp: is_plain_insertion_def end_after_insertion_def merge_record_def fits_def done_to_def)

subsection \<open>The invariant\<close>

text \<open>
  The recorded edits lead from \<open>b0\<close> to the buffer, and the redoable ones on from it; no step is
  empty, and outside a group nothing is pending.
\<close>

definition well_kept :: "text_buffer \<Rightarrow> editor_state \<Rightarrow> bool" where
  "well_kept b0 s \<longleftrightarrow>
     replay (concat (uh_steps (es_undo s)) @ uh_open (es_undo s)) b0 = Some (es_buffer s) \<and>
     [] \<notin> set (uh_steps (es_undo s)) \<and>
     (uh_group_depth (es_undo s) = 0 \<longrightarrow> uh_open (es_undo s) = []) \<and>
     replay (concat (rev (uh_redoable (es_undo s)))) (es_buffer s) \<noteq> None"

lemma well_keptD:
  assumes "well_kept b0 s"
  shows "replay (concat (uh_steps (es_undo s)) @ uh_open (es_undo s)) b0 = Some (es_buffer s)"
    "[] \<notin> set (uh_steps (es_undo s))" "uh_group_depth (es_undo s) = 0 \<Longrightarrow> uh_open (es_undo s) = []"
    "replay (concat (rev (uh_redoable (es_undo s)))) (es_buffer s) \<noteq> None"
  using assms by (auto simp: well_kept_def)

lemma last_step:
  "xs \<noteq> [] \<Longrightarrow> concat xs = concat (butlast xs) @ last xs"
  by (metis append_butlast_last_id concat.simps(1) concat.simps(2) concat_append append_Nil2)

text \<open>Recording an edit that was applied extends the replay by it, merged or not.\<close>

lemma coalesce_replay:
  assumes "coalesce_into_last e h = (c, h')" "[] \<notin> set (uh_steps h)"
  shows "if c then replay (concat (uh_steps h')) b = replay (concat (uh_steps h) @ [e]) b \<and>
      [] \<notin> set (uh_steps h') else uh_steps h' = uh_steps h"
    "uh_group_depth h' = uh_group_depth h" "uh_open h' = uh_open h" "uh_redoable h' = uh_redoable h"
proof -
  let ?last = "last (uh_steps h)"
  let ?p = "last ?last"
  show "uh_group_depth h' = uh_group_depth h" "uh_open h' = uh_open h" "uh_redoable h' = uh_redoable h"
    using assms(1) by (auto simp: coalesce_into_last_def Let_def split: if_splits)
  show "if c then replay (concat (uh_steps h')) b = replay (concat (uh_steps h) @ [e]) b \<and>
      [] \<notin> set (uh_steps h') else uh_steps h' = uh_steps h"
  proof (cases c)
    case True
    with assms(1) have m: "uh_steps h \<noteq> []" "?last \<noteq> []" "is_plain_insertion ?p" "is_plain_insertion e"
      "end_after_insertion ?p = er_at e"
      "uh_steps h' = butlast (uh_steps h) @ [butlast ?last @ [merge_record ?p e]]"
      by (auto simp: coalesce_into_last_def Let_def split: if_splits)
    have "concat (uh_steps h) = concat (butlast (uh_steps h)) @ butlast ?last @ [?p]"
      using last_step [OF m(1)] m(2) by simp
    then have "replay (concat (uh_steps h')) b = replay (concat (uh_steps h) @ [e]) b"
      using merge_record_replay [OF m(3,5,4)] by (simp add: m(6) replay_append split: option.splits)
    moreover have "[] \<notin> set (uh_steps h')"
      using m(6) assms(2) by (auto dest: in_set_butlastD)
    ultimately show ?thesis using True by simp
  next
    case False
    with assms(1) show ?thesis by (auto simp: coalesce_into_last_def Let_def split: if_splits)
  qed
qed

lemma record_edit_replay:
  assumes "[] \<notin> set (uh_steps h)" "uh_group_depth h = 0 \<Longrightarrow> uh_open h = []"
  shows "replay (concat (uh_steps (record_edit e h)) @ uh_open (record_edit e h)) b =
      replay ((concat (uh_steps h) @ uh_open h) @ [e]) b"
    "[] \<notin> set (uh_steps (record_edit e h))" "uh_redoable (record_edit e h) = []"
    "uh_group_depth (record_edit e h) = uh_group_depth h"
    "uh_group_depth h = 0 \<Longrightarrow> uh_open (record_edit e h) = []"
proof -
  let ?h = "h\<lparr>uh_redoable := []\<rparr>"
  obtain c h' where c: "coalesce_into_last e ?h = (c, h')" by fastforce
  have ne: "[] \<notin> set (uh_steps ?h)" using assms(1) by simp
  note m = coalesce_replay [OF c ne]
  show "replay (concat (uh_steps (record_edit e h)) @ uh_open (record_edit e h)) b =
      replay ((concat (uh_steps h) @ uh_open h) @ [e]) b"
    "[] \<notin> set (uh_steps (record_edit e h))" "uh_redoable (record_edit e h) = []"
    "uh_group_depth (record_edit e h) = uh_group_depth h"
    "uh_group_depth h = 0 \<Longrightarrow> uh_open (record_edit e h) = []"
    using m assms c by (cases c; cases "0 < uh_group_depth h"; simp add: record_edit_def Let_def)+
qed

lemma adjust_anchor_frame [simp]:
  "es_buffer (adjust_anchor_for_edit i j n s) = es_buffer s"
  "es_undo (adjust_anchor_for_edit i j n s) = es_undo s"
  "es_cursor (adjust_anchor_for_edit i j n s) = es_cursor s"
  by (simp_all add: adjust_anchor_for_edit_def Let_def move_anchor_def)

lemma apply_edit_record:
  assumes "lo \<le> length (es_buffer s)"
  shows "\<exists>e. es_undo (apply_edit lo hi ins c s) = record_edit e (es_undo s) \<and> fits e (es_buffer s) \<and>
    es_buffer (apply_edit lo hi ins c s) = done_to e (es_buffer s) \<and> er_at e = lo \<and> er_inserted e = ins \<and>
    er_removed e = slice (es_buffer s) lo hi \<and> er_cursor_before e = es_cursor s"
proof -
  let ?b = "es_buffer s"
  let ?j = "if clamp ?b hi < lo then lo else clamp ?b hi"
  have j: "lo \<le> ?j" "?j \<le> length ?b" using assms by auto
  have r: "slice ?b lo hi = take (?j - lo) (drop lo ?b)"
    using assms by (auto simp: slice_def Let_def substr_def)
  have rep: "replace ?b lo hi ins = (take lo ?b @ ins @ drop ?j ?b, lo + length ins)"
    using assms by (simp add: replace_def Let_def)
  obtain e s1 where e: "edit_made lo hi ins c s = (e, s1)" by fastforce
  then have "er_at e = lo" "er_inserted e = ins" "er_removed e = slice (es_buffer s) lo hi"
    "er_cursor_before e = es_cursor s" "es_undo s1 = es_undo s" "es_buffer s1 = fst (replace ?b lo hi ins)"
    by (auto simp: edit_made_def Let_def case_prod_beta)
  with e j r rep show ?thesis
    by (intro exI [of _ e]) (auto simp: apply_edit_def fits_def done_to_def min_absorb2)
qed

lemma well_kept_apply_edit:
  assumes "well_kept b0 s" "lo \<le> length (es_buffer s)"
  shows "well_kept b0 (apply_edit lo hi ins c s)"
proof -
  obtain e where e: "es_undo (apply_edit lo hi ins c s) = record_edit e (es_undo s)" "fits e (es_buffer s)"
    "es_buffer (apply_edit lo hi ins c s) = done_to e (es_buffer s)"
    using apply_edit_record [OF assms(2)] by blast
  note k = well_keptD [OF assms(1)]
  note r = record_edit_replay [OF k(2,3), of e]
  have "replay ((concat (uh_steps (es_undo s)) @ uh_open (es_undo s)) @ [e]) b0 = Some (done_to e (es_buffer s))"
    using k(1) e(2) unfolding replay_append [of "_ @ _"] by simp
  then show ?thesis
    unfolding well_kept_def e(1) using r(2-5) e(3) by (simp add: r(1))
qed

lemma replay_last_step:
  assumes "replay (concat steps) b0 = Some b" "steps \<noteq> []"
  obtains b1 where "replay (concat (butlast steps)) b0 = Some b1" "replay (last steps) b1 = Some b"
  using assms last_step [OF assms(2)] by (auto simp: replay_append split: option.splits)

lemma undo_one_step:
  assumes "well_kept b0 s" "uh_open (es_undo s) = []" "can_undo (es_undo s)"
  obtains t b1 where "undo_one s = (True, t)" "es_buffer t = b1"
    "replay (concat (butlast (uh_steps (es_undo s)))) b0 = Some b1"
    "replay (last (uh_steps (es_undo s))) b1 = Some (es_buffer s)"
    "uh_steps (es_undo t) = butlast (uh_steps (es_undo s))"
    "uh_redoable (es_undo t) = uh_redoable (es_undo s) @ [last (uh_steps (es_undo s))]"
    "uh_open (es_undo t) = []" "uh_group_depth (es_undo t) = uh_group_depth (es_undo s)"
proof -
  note k = well_keptD [OF assms(1)]
  have ne: "uh_steps (es_undo s) \<noteq> []" using assms(3) by (simp add: can_undo_def)
  obtain b1 where b1: "replay (concat (butlast (uh_steps (es_undo s)))) b0 = Some b1"
    "replay (last (uh_steps (es_undo s))) b1 = Some (es_buffer s)"
    using replay_last_step [OF _ ne] k(1) assms(2) by auto
  with fold_undo_buffer [OF b1(2)] ne assms(2) that show thesis
    by (simp add: undo_one_def Let_def)
qed

lemma redo_one_step:
  assumes "well_kept b0 s" "can_redo (es_undo s)"
  obtains t where "redo_one s = (True, t)"
    "replay (last (uh_redoable (es_undo s))) (es_buffer s) = Some (es_buffer t)"
    "replay (concat (rev (butlast (uh_redoable (es_undo s))))) (es_buffer t) \<noteq> None"
    "uh_steps (es_undo t) = uh_steps (es_undo s) @ [last (uh_redoable (es_undo s))]"
    "uh_redoable (es_undo t) = butlast (uh_redoable (es_undo s))"
    "uh_open (es_undo t) = uh_open (es_undo s)" "uh_group_depth (es_undo t) = uh_group_depth (es_undo s)"
proof -
  note k = well_keptD [OF assms(1)]
  let ?r = "uh_redoable (es_undo s)"
  have ne: "?r \<noteq> []" using assms(2) by (simp add: can_redo_def)
  then have "concat (rev ?r) = last ?r @ concat (rev (butlast ?r))"
    by (metis append_butlast_last_id concat.simps(2) rev.simps(2) rev_append rev_rev_ident rev_swap append_Cons append_Nil)
  then obtain b1 where b1: "replay (last ?r) (es_buffer s) = Some b1"
    "replay (concat (rev (butlast ?r))) b1 \<noteq> None"
    using k(4) by (auto simp: replay_append split: option.splits)
  with fold_redo_buffer [OF b1(1)] ne that show thesis
    by (simp add: redo_one_def Let_def)
qed

subsection \<open>Sessions: any sequence of operations\<close>

datatype editing =
    Edit position position string "position option"
  | Undo_key
  | Redo_key
  | Open_group
  | Close_group
  | Break_run

definition with_history :: "(undo_history \<Rightarrow> undo_history) \<Rightarrow> editor_state \<Rightarrow> editor_state" where
  "with_history f s = s\<lparr>es_undo := f (es_undo s)\<rparr>"

fun edit_step :: "editing \<Rightarrow> editor_state \<Rightarrow> editor_state" where
  "edit_step (Edit lo hi ins c) s = apply_edit lo hi ins c s"
| "edit_step Undo_key s = snd (undo_one s)"
| "edit_step Redo_key s = snd (redo_one s)"
| "edit_step Open_group s = with_history begin_group s"
| "edit_step Close_group s = with_history end_group s"
| "edit_step Break_run s = with_history break_coalescing s"

text \<open>An edit starts inside the buffer; undo and redo are not called in the middle of a group.\<close>

fun admissible :: "editing \<Rightarrow> editor_state \<Rightarrow> bool" where
  "admissible (Edit lo hi ins c) s = (lo \<le> length (es_buffer s))"
| "admissible Undo_key s = (uh_group_depth (es_undo s) = 0)"
| "admissible Redo_key s = (uh_group_depth (es_undo s) = 0)"
| "admissible _ s = True"

inductive session :: "text_buffer \<Rightarrow> editor_state \<Rightarrow> bool" for b0 where
  opened: "es_buffer s = b0 \<Longrightarrow> es_undo s = undo_history_init \<Longrightarrow> session b0 s"
| edited: "session b0 s \<Longrightarrow> admissible op s \<Longrightarrow> session b0 (edit_step op s)"

lemma with_history_simps [simp]:
  "es_buffer (with_history f s) = es_buffer s" "es_undo (with_history f s) = f (es_undo s)"
  "es_cursor (with_history f s) = es_cursor s"
  by (simp_all add: with_history_def)

lemma well_kept_groups:
  assumes "well_kept b0 s"
  shows "well_kept b0 (with_history begin_group s)" "well_kept b0 (with_history end_group s)"
    "well_kept b0 (with_history break_coalescing s)"
  using assms by (auto simp: well_kept_def begin_group_def end_group_def break_coalescing_def Let_def)

lemma replay_last_redo:
  assumes "replay (last xs) b1 = Some b" "replay (concat (rev ys)) b \<noteq> None"
  shows "replay (concat (rev (ys @ [last xs]))) b1 \<noteq> None"
  using assms by (simp add: replay_append)

lemma well_kept_undo_one:
  assumes "well_kept b0 s" "uh_group_depth (es_undo s) = 0"
  shows "well_kept b0 (snd (undo_one s))"
proof (cases "can_undo (es_undo s)")
  case True
  note k = well_keptD [OF assms(1)]
  show ?thesis
  proof (rule undo_one_step [OF assms(1) k(3) [OF assms(2)] True])
    fix t b1
    assume t: "undo_one s = (True, t)" "es_buffer t = b1"
      "replay (concat (butlast (uh_steps (es_undo s)))) b0 = Some b1"
      "replay (last (uh_steps (es_undo s))) b1 = Some (es_buffer s)"
      "uh_steps (es_undo t) = butlast (uh_steps (es_undo s))"
      "uh_redoable (es_undo t) = uh_redoable (es_undo s) @ [last (uh_steps (es_undo s))]"
      "uh_open (es_undo t) = []" "uh_group_depth (es_undo t) = uh_group_depth (es_undo s)"
    with k(2) replay_last_redo [OF t(4) k(4)] show ?thesis
      unfolding well_kept_def by (auto dest: in_set_butlastD)
  qed
qed (simp add: undo_one_def can_undo_def assms)

text \<open>A step waiting to be redone is one that was undone, so it is not empty either.\<close>

definition redo_sound :: "editor_state \<Rightarrow> bool" where
  "redo_sound s \<longleftrightarrow> [] \<notin> set (uh_redoable (es_undo s))"

lemma well_kept_redo_one:
  assumes "well_kept b0 s" "redo_sound s" "uh_group_depth (es_undo s) = 0"
  shows "well_kept b0 (snd (redo_one s))"
proof (cases "can_redo (es_undo s)")
  case True
  note k = well_keptD [OF assms(1)]
  have ne: "last (uh_redoable (es_undo s)) \<noteq> []"
    using assms(2) True last_in_set [of "uh_redoable (es_undo s)"] by (metis can_redo_def redo_sound_def)
  show ?thesis
  proof (rule redo_one_step [OF assms(1) True])
    fix t
    assume t: "redo_one s = (True, t)"
      "replay (last (uh_redoable (es_undo s))) (es_buffer s) = Some (es_buffer t)"
      "replay (concat (rev (butlast (uh_redoable (es_undo s))))) (es_buffer t) \<noteq> None"
      "uh_steps (es_undo t) = uh_steps (es_undo s) @ [last (uh_redoable (es_undo s))]"
      "uh_redoable (es_undo t) = butlast (uh_redoable (es_undo s))"
      "uh_open (es_undo t) = uh_open (es_undo s)" "uh_group_depth (es_undo t) = uh_group_depth (es_undo s)"
    have "replay (concat (uh_steps (es_undo s))) b0 = Some (es_buffer s)"
      using k(1) k(3) [OF assms(3)] by simp
    with t(2) have "replay (concat (uh_steps (es_undo t))) b0 = Some (es_buffer t)"
      unfolding t(4) by (simp add: replay_append)
    with t k(2) k(3) [OF assms(3)] ne show ?thesis by (auto simp: well_kept_def)
  qed
qed (simp add: redo_one_def can_redo_def assms)

lemma redo_sound_step:
  assumes "well_kept b0 s" "redo_sound s"
  shows "redo_sound (edit_step op s)"
proof (cases op)
  case (Edit lo hi ins c)
  note k = well_keptD [OF assms(1)]
  obtain e s1 where e: "edit_made lo hi ins c s = (e, s1)" by fastforce
  then have "es_undo s1 = es_undo s" by (auto simp: edit_made_def Let_def case_prod_beta)
  with e record_edit_replay(3) [OF k(2,3), of e] show ?thesis
    by (simp add: Edit redo_sound_def apply_edit_def)
next
  case Undo_key
  with assms(2) well_keptD(2) [OF assms(1)] show ?thesis
    by (cases "uh_steps (es_undo s)" rule: rev_cases) (auto simp: redo_sound_def undo_one_def Let_def)
next
  case Redo_key
  with assms(2) show ?thesis by (auto simp: redo_sound_def redo_one_def Let_def dest: in_set_butlastD)
qed (use assms in \<open>auto simp: redo_sound_def begin_group_def end_group_def break_coalescing_def Let_def\<close>)

lemma session_kept: "session b0 s \<Longrightarrow> well_kept b0 s \<and> redo_sound s"
proof (induction rule: session.induct)
  case (edited s op)
  then have "well_kept b0 (edit_step op s)"
    by (cases op) (auto intro: well_kept_apply_edit well_kept_undo_one well_kept_redo_one well_kept_groups)
  with edited redo_sound_step show ?case by blast
qed (simp add: well_kept_def undo_history_init_def redo_sound_def)

subsection \<open>Undoing and redoing several steps\<close>

fun undo_times :: "nat \<Rightarrow> editor_state \<Rightarrow> editor_state" where
  "undo_times 0 s = s"
| "undo_times (Suc n) s = undo_times n (snd (undo_one s))"

fun redo_times :: "nat \<Rightarrow> editor_state \<Rightarrow> editor_state" where
  "redo_times 0 s = s"
| "redo_times (Suc n) s = snd (redo_one (redo_times n s))"

lemma undo_then_redo_one:
  assumes "well_kept b0 s" "uh_group_depth (es_undo s) = 0" "can_undo (es_undo s)"
    and "es_buffer t = es_buffer (snd (undo_one s))" "uh_steps (es_undo t) = uh_steps (es_undo (snd (undo_one s)))"
    "uh_redoable (es_undo t) = uh_redoable (es_undo (snd (undo_one s)))"
  shows "es_buffer (snd (redo_one t)) = es_buffer s \<and> uh_steps (es_undo (snd (redo_one t))) = uh_steps (es_undo s) \<and>
    uh_redoable (es_undo (snd (redo_one t))) = uh_redoable (es_undo s)"
proof (rule undo_one_step [OF assms(1) well_keptD(3) [OF assms(1,2)] assms(3)])
  fix u b1
  assume u: "undo_one s = (True, u)" "es_buffer u = b1"
    "replay (last (uh_steps (es_undo s))) b1 = Some (es_buffer s)"
    "uh_steps (es_undo u) = butlast (uh_steps (es_undo s))"
    "uh_redoable (es_undo u) = uh_redoable (es_undo s) @ [last (uh_steps (es_undo s))]"
  have "es_buffer (fold redo_record (last (uh_steps (es_undo s))) t) = es_buffer s"
    using u assms(4) by (intro fold_redo_buffer) simp
  with u assms(3,5,6) show ?thesis by (simp add: redo_one_def Let_def can_undo_def)
qed

lemma undo_redo_times:
  assumes "well_kept b0 s" "uh_group_depth (es_undo s) = 0" "n \<le> step_count (es_undo s)"
  shows "es_buffer (redo_times n (undo_times n s)) = es_buffer s \<and>
    uh_steps (es_undo (redo_times n (undo_times n s))) = uh_steps (es_undo s) \<and>
    uh_redoable (es_undo (redo_times n (undo_times n s))) = uh_redoable (es_undo s)"
  using assms
proof (induction n arbitrary: s)
  case (Suc n)
  let ?u = "snd (undo_one s)"
  have c: "can_undo (es_undo s)" using Suc.prems(3) by (auto simp: can_undo_def step_count_def)
  have u: "well_kept b0 ?u" "uh_group_depth (es_undo ?u) = 0" "n \<le> step_count (es_undo ?u)"
    using well_kept_undo_one [OF Suc.prems(1,2)] Suc.prems(2,3) c
    by (auto simp: undo_one_def Let_def step_count_def can_undo_def)
  show ?case using undo_then_redo_one [OF Suc.prems(1,2) c] Suc.IH [OF u] by simp
qed simp

lemma undo_all_buffer:
  assumes "well_kept b0 s" "uh_group_depth (es_undo s) = 0" "n = step_count (es_undo s)"
  shows "es_buffer (undo_times n s) = b0 \<and> uh_steps (es_undo (undo_times n s)) = []"
  using assms
proof (induction n arbitrary: s)
  case 0
  with well_keptD(1,3) [OF 0(1)] show ?case by (auto simp: step_count_def)
next
  case (Suc n)
  let ?u = "snd (undo_one s)"
  have c: "can_undo (es_undo s)" using Suc.prems(3) by (auto simp: can_undo_def step_count_def)
  have u: "well_kept b0 ?u" "uh_group_depth (es_undo ?u) = 0" "n = step_count (es_undo ?u)"
    using well_kept_undo_one [OF Suc.prems(1,2)] Suc.prems(2,3) c
    by (auto simp: undo_one_def Let_def step_count_def can_undo_def)
  show ?case using Suc.IH [OF u] by simp
qed

subsection \<open>Typing and grouping\<close>

text \<open>A run of typed characters, each inserted at the cursor.\<close>

definition type_char :: "char \<Rightarrow> editor_state \<Rightarrow> editor_state" where
  "type_char ch s = apply_edit (es_cursor s) (es_cursor s) [ch] None s"

lemma apply_insert:
  assumes "es_cursor s \<le> length (es_buffer s)"
  shows "\<exists>e u. apply_edit (es_cursor s) (es_cursor s) ins None s = u \<and>
    es_undo u = record_edit e (es_undo s) \<and> er_at e = es_cursor s \<and> er_removed e = [] \<and> er_inserted e = ins \<and>
    er_cursor_before e = es_cursor s \<and> er_anchor_before e = es_anchor s \<and> er_active_before e = es_active s \<and>
    es_buffer u = take (es_cursor s) (es_buffer s) @ ins @ drop (es_cursor s) (es_buffer s) \<and>
    es_cursor u = es_cursor s + length ins"
proof -
  let ?c = "es_cursor s"
  have r: "replace (es_buffer s) ?c ?c ins = (take ?c (es_buffer s) @ ins @ drop ?c (es_buffer s), ?c + length ins)"
    using assms by (simp add: replace_def Let_def)
  have sl: "slice (es_buffer s) ?c ?c = []" by (simp add: slice_def Let_def substr_def)
  show ?thesis using r sl assms by (auto simp: apply_edit_def edit_made_def Let_def)
qed

lemma typing_invariant:
  assumes "es_cursor s \<le> length (es_buffer s)" "uh_group_depth (es_undo s) = 0"
    and "\<not> uh_coalescing (es_undo s)" and "ins \<noteq> []"
  shows "\<exists>r. uh_steps (es_undo (fold type_char ins s)) = uh_steps (es_undo s) @ [[r]] \<and>
    er_at r = es_cursor s \<and> er_removed r = [] \<and> er_inserted r = ins \<and> er_cursor_before r = es_cursor s \<and>
    er_anchor_before r = es_anchor s \<and> er_active_before r = es_active s \<and>
    uh_coalescing (es_undo (fold type_char ins s)) \<and> uh_group_depth (es_undo (fold type_char ins s)) = 0 \<and>
    es_buffer (fold type_char ins s) = take (es_cursor s) (es_buffer s) @ ins @ drop (es_cursor s) (es_buffer s) \<and>
    es_cursor (fold type_char ins s) = es_cursor s + length ins"
  using assms(4)
proof (induction ins rule: rev_nonempty_induct)
  case (single ch)
  obtain e where "es_undo (type_char ch s) = record_edit e (es_undo s)" "er_at e = es_cursor s" "er_removed e = []"
    "er_inserted e = [ch]" "er_cursor_before e = es_cursor s" "er_anchor_before e = es_anchor s"
    "er_active_before e = es_active s"
    "es_buffer (type_char ch s) = take (es_cursor s) (es_buffer s) @ [ch] @ drop (es_cursor s) (es_buffer s)"
    "es_cursor (type_char ch s) = es_cursor s + 1"
    using apply_insert [OF assms(1), of "[ch]"] by (auto simp: type_char_def)
  with assms show ?case
    by (auto simp: record_edit_def coalesce_into_last_def Let_def is_plain_insertion_def)
next
  case (snoc ch ins)
  let ?t = "fold type_char ins s"
  from snoc.IH obtain r where r: "uh_steps (es_undo ?t) = uh_steps (es_undo s) @ [[r]]" "er_at r = es_cursor s"
    "er_removed r = []" "er_inserted r = ins" "er_cursor_before r = es_cursor s" "er_anchor_before r = es_anchor s"
    "er_active_before r = es_active s" "uh_coalescing (es_undo ?t)" "uh_group_depth (es_undo ?t) = 0"
    "es_buffer ?t = take (es_cursor s) (es_buffer s) @ ins @ drop (es_cursor s) (es_buffer s)"
    "es_cursor ?t = es_cursor s + length ins" by blast
  have "es_cursor ?t \<le> length (es_buffer ?t)" using r(10,11) assms(1) by simp
  from apply_insert [OF this, of "[ch]"]
  obtain e where e: "es_undo (type_char ch ?t) = record_edit e (es_undo ?t)" "er_at e = es_cursor ?t" "er_removed e = []"
    "er_inserted e = [ch]"
    "es_buffer (type_char ch ?t) = take (es_cursor ?t) (es_buffer ?t) @ [ch] @ drop (es_cursor ?t) (es_buffer ?t)"
    "es_cursor (type_char ch ?t) = es_cursor ?t + 1"
    by (auto simp: type_char_def)
  have "uh_steps (record_edit e (es_undo ?t)) = uh_steps (es_undo s) @ [[merge_record r e]]"
    "uh_coalescing (record_edit e (es_undo ?t))" "uh_group_depth (record_edit e (es_undo ?t)) = 0"
    using r e snoc.hyps
    by (auto simp: record_edit_def coalesce_into_last_def Let_def is_plain_insertion_def end_after_insertion_def)
  moreover have "es_buffer (type_char ch ?t) = take (es_cursor s) (es_buffer s) @ (ins @ [ch]) @ drop (es_cursor s) (es_buffer s)"
    using e(5) r(10,11) assms(1) by simp
  ultimately show ?case using r e by (auto simp: merge_record_def)
qed

text \<open>Inside a group every record waits in the open step.\<close>

fun apply_edits :: "(position \<times> position \<times> string \<times> position option) list \<Rightarrow> editor_state \<Rightarrow> editor_state" where
  "apply_edits [] s = s"
| "apply_edits ((lo, hi, ins, c) # es) s = apply_edits es (apply_edit lo hi ins c s)"

fun edits_inside :: "(position \<times> position \<times> string \<times> position option) list \<Rightarrow> editor_state \<Rightarrow> bool" where
  "edits_inside [] s = True"
| "edits_inside ((lo, hi, ins, c) # es) s =
    (lo \<le> length (es_buffer s) \<and> edits_inside es (apply_edit lo hi ins c s))"

lemma edits_in_group:
  assumes "edits_inside es s" "0 < uh_group_depth (es_undo s)"
  shows "\<exists>rs. uh_open (es_undo (apply_edits es s)) = uh_open (es_undo s) @ rs \<and> length rs = length es \<and>
    replay rs (es_buffer s) = Some (es_buffer (apply_edits es s)) \<and>
    uh_steps (es_undo (apply_edits es s)) = uh_steps (es_undo s) \<and>
    uh_group_depth (es_undo (apply_edits es s)) = uh_group_depth (es_undo s)"
  using assms
proof (induction es s rule: apply_edits.induct)
  case (2 lo hi ins c es s)
  then have lo: "lo \<le> length (es_buffer s)" by simp
  let ?u = "apply_edit lo hi ins c s"
  obtain e where e: "es_undo ?u = record_edit e (es_undo s)" "fits e (es_buffer s)" "es_buffer ?u = done_to e (es_buffer s)"
    using apply_edit_record [OF lo] by blast
  have u: "uh_open (es_undo ?u) = uh_open (es_undo s) @ [e]" "uh_steps (es_undo ?u) = uh_steps (es_undo s)"
    "uh_group_depth (es_undo ?u) = uh_group_depth (es_undo s)"
    using 2(3) by (simp_all add: e(1) record_edit_def Let_def)
  with 2(2,3) obtain rs where "uh_open (es_undo (apply_edits es ?u)) = uh_open (es_undo ?u) @ rs"
    "length rs = length es" "replay rs (es_buffer ?u) = Some (es_buffer (apply_edits es ?u))"
    "uh_steps (es_undo (apply_edits es ?u)) = uh_steps (es_undo ?u)"
    "uh_group_depth (es_undo (apply_edits es ?u)) = uh_group_depth (es_undo ?u)"
    using 2(1) by fastforce
  with u e show ?case by (intro exI [of _ "e # rs"]) simp
qed simp

definition as_group :: "(position \<times> position \<times> string \<times> position option) list \<Rightarrow> editor_state \<Rightarrow> editor_state" where
  "as_group es s = with_history end_group (apply_edits es (with_history begin_group s))"

subsection \<open>Properties\<close>

text \<open>C10: undoing every recorded step restores the text the session began with, whatever sequence of
  edits, undos, redos, groups and coalescing breaks led here.\<close>

theorem undo_all_restores:
  assumes "session b0 s" "uh_group_depth (es_undo s) = 0"
  shows "es_buffer (undo_times (step_count (es_undo s)) s) = b0 \<and>
    \<not> can_undo (es_undo (undo_times (step_count (es_undo s)) s))"
  using undo_all_buffer [OF _ assms(2) refl] session_kept [OF assms(1)] by (auto simp: can_undo_def)

definition blank_editor :: "text_buffer \<Rightarrow> editor_state" where
  "blank_editor b = \<lparr>es_buffer = b, es_cursor = length b, es_anchor = 0, es_active = False,
     es_undo = undo_history_init, es_gen = 0\<rparr>"

definition demo_editing :: editor_state where
  "demo_editing = apply_edit 0 2 ''cd'' None (type_char (CHR ''t'') (type_char (CHR ''s'') (blank_editor ''ls '')))"

lemma demo_session: "session ''ls '' demo_editing"
proof -
  have 0: "session ''ls '' (blank_editor ''ls '')" by (rule session.opened) (simp_all add: blank_editor_def)
  have 1: "session ''ls '' (edit_step (Edit 3 3 ''s'' None) (blank_editor ''ls ''))"
    by (rule session.edited [OF 0]) (simp add: blank_editor_def)
  have 2: "session ''ls '' (edit_step (Edit 4 4 ''t'' None) (edit_step (Edit 3 3 ''s'' None) (blank_editor ''ls '')))"
    by (rule session.edited [OF 1]) code_simp
  have 3: "session ''ls '' (edit_step (Edit 0 2 ''cd'' None)
      (edit_step (Edit 4 4 ''t'' None) (edit_step (Edit 3 3 ''s'' None) (blank_editor ''ls ''))))"
    by (rule session.edited [OF 2]) code_simp
  have "demo_editing = edit_step (Edit 0 2 ''cd'' None)
      (edit_step (Edit 4 4 ''t'' None) (edit_step (Edit 3 3 ''s'' None) (blank_editor ''ls '')))"
    by code_simp
  with 3 show ?thesis by simp
qed

theorem undo_all_restores_witness:
  "es_buffer demo_editing = ''cd st'' \<and> step_count (es_undo demo_editing) = 2 \<and>
   es_buffer (undo_times 2 demo_editing) = ''ls ''"
proof -
  have d: "uh_group_depth (es_undo demo_editing) = 0" "step_count (es_undo demo_editing) = 2"
    "es_buffer demo_editing = ''cd st''" by code_simp+
  show ?thesis using undo_all_restores [OF demo_session d(1)] d by simp
qed

text \<open>C11: redo is the exact inverse of undo. Undoing any number of recorded steps and redoing as many
  restores the text, the undo stack and the redo stack.\<close>

theorem redo_inverts_undo:
  assumes "session b0 s" "uh_group_depth (es_undo s) = 0" "n \<le> step_count (es_undo s)"
  shows "es_buffer (redo_times n (undo_times n s)) = es_buffer s \<and>
    uh_steps (es_undo (redo_times n (undo_times n s))) = uh_steps (es_undo s) \<and>
    uh_redoable (es_undo (redo_times n (undo_times n s))) = uh_redoable (es_undo s)"
  using undo_redo_times [OF _ assms(2,3)] session_kept [OF assms(1)] by blast

theorem redo_inverts_undo_witness:
  "es_buffer (undo_times 1 demo_editing) = ''ls st'' \<and>
   es_buffer (redo_times 2 (undo_times 2 demo_editing)) = ''cd st''"
proof -
  have d: "uh_group_depth (es_undo demo_editing) = 0" "2 \<le> step_count (es_undo demo_editing)"
    "es_buffer demo_editing = ''cd st''" "es_buffer (undo_times 1 demo_editing) = ''ls st''" by code_simp+
  show ?thesis using redo_inverts_undo [OF demo_session d(1,2)] d by simp
qed

text \<open>A run of typing is one undo step. However many characters are typed at the cursor after a
  break, the history grows by one step, and one undo takes the whole run out and puts the cursor and
  the selection back.\<close>

theorem typing_run_is_one_step:
  assumes "es_cursor s \<le> length (es_buffer s)" "uh_group_depth (es_undo s) = 0"
    and "\<not> uh_coalescing (es_undo s)" and "ins \<noteq> []"
  shows "let t = fold type_char ins s; u = snd (undo_one t) in
    es_buffer t = take (es_cursor s) (es_buffer s) @ ins @ drop (es_cursor s) (es_buffer s) \<and>
    step_count (es_undo t) = step_count (es_undo s) + 1 \<and>
    es_buffer u = es_buffer s \<and> es_cursor u = es_cursor s \<and> es_anchor u = es_anchor s \<and>
    es_active u = es_active s \<and> uh_steps (es_undo u) = uh_steps (es_undo s)"
proof -
  let ?t = "fold type_char ins s"
  obtain r where r: "uh_steps (es_undo ?t) = uh_steps (es_undo s) @ [[r]]" "er_at r = es_cursor s"
    "er_removed r = []" "er_inserted r = ins" "er_cursor_before r = es_cursor s" "er_anchor_before r = es_anchor s"
    "er_active_before r = es_active s"
    "es_buffer ?t = take (es_cursor s) (es_buffer s) @ ins @ drop (es_cursor s) (es_buffer s)"
    using typing_invariant [OF assms] by blast
  have "fits r (es_buffer s)" using r(2,3) assms(1) by (simp add: fits_def)
  moreover have "es_buffer ?t = done_to r (es_buffer s)" using r by (simp add: done_to_def)
  ultimately have "es_buffer (undo_record r ?t) = es_buffer s" by (rule undo_record_buffer)
  with r show ?thesis by (simp add: undo_one_def Let_def step_count_def undo_record_def)
qed

theorem typing_run_is_one_step_witness:
  "step_count (es_undo (fold type_char ''make'' (blank_editor ''$ ''))) = 1 \<and>
   es_buffer (snd (undo_one (fold type_char ''make'' (blank_editor ''$ '')))) = ''$ ''"
  using typing_run_is_one_step [of "blank_editor ''$ ''" "''make''"]
  by (simp add: Let_def blank_editor_def undo_history_init_def step_count_def)

text \<open>An edit group is one undo step. Any non-empty list of edits made between begin and end adds
  one step, and one undo restores the text before the group.\<close>

theorem group_is_one_step:
  assumes "session b0 s" "uh_group_depth (es_undo s) = 0"
    and "edits_inside es (with_history begin_group s)" "es \<noteq> []"
  shows "step_count (es_undo (as_group es s)) = step_count (es_undo s) + 1 \<and>
    es_buffer (as_group es s) = es_buffer (apply_edits es (with_history begin_group s)) \<and>
    es_buffer (snd (undo_one (as_group es s))) = es_buffer s"
proof -
  let ?s = "with_history begin_group s"
  have d: "uh_group_depth (es_undo ?s) = 1" "uh_open (es_undo ?s) = []" "uh_steps (es_undo ?s) = uh_steps (es_undo s)"
    using assms(2) by (simp_all add: begin_group_def)
  obtain rs where rs: "uh_open (es_undo (apply_edits es ?s)) = rs" "length rs = length es"
    "replay rs (es_buffer s) = Some (es_buffer (apply_edits es ?s))"
    "uh_steps (es_undo (apply_edits es ?s)) = uh_steps (es_undo s)"
    "uh_group_depth (es_undo (apply_edits es ?s)) = 1"
    using edits_in_group [OF assms(3)] d by auto
  have ne: "rs \<noteq> []" using rs(2) assms(4) by auto
  have t: "uh_steps (es_undo (as_group es s)) = uh_steps (es_undo s) @ [rs]"
    "es_buffer (as_group es s) = es_buffer (apply_edits es ?s)"
    using rs ne by (simp_all add: as_group_def end_group_def Let_def)
  have "es_buffer (fold undo_record (rev rs) (as_group es s)) = es_buffer s"
    by (rule fold_undo_buffer) (simp add: rs(3) t(2))
  with t show ?thesis by (simp add: step_count_def undo_one_def Let_def)
qed

theorem group_is_one_step_witness:
  "es_buffer (as_group [(0, 2, ''cat'', None), (4, 4, ''-n '', None)] demo_editing) = ''cat -n st'' \<and>
   es_buffer (snd (undo_one (as_group [(0, 2, ''cat'', None), (4, 4, ''-n '', None)] demo_editing))) = ''cd st''"
proof -
  let ?es = "[(0, 2, ''cat'', None), (4, 4, ''-n '', None)] :: (position \<times> position \<times> string \<times> position option) list"
  have d: "uh_group_depth (es_undo demo_editing) = 0" "edits_inside ?es (with_history begin_group demo_editing)"
    "es_buffer demo_editing = ''cd st''"
    "es_buffer (apply_edits ?es (with_history begin_group demo_editing)) = ''cat -n st''"
    by code_simp+
  show ?thesis using group_is_one_step [OF demo_session d(1,2)] d(3,4) by simp
qed

end
