(* ===== verification/KillStore.thy ===== *)
theory KillStore
  imports Base
begin

text \<open>
  \<^verbatim>\<open>src/leshper/kill_store.h\<close> and \<^verbatim>\<open>kill_store.cpp\<close>: the keyed register store that kills, deletes and
  yanks write and puts read.  The store is the vector of entries; a pointer result is an option.
  The store is an instance of the keyed-store interface, which gives its last-write behaviour.
\<close>

definition kill_charwise :: nat where "kill_charwise = 0"
definition kill_linewise :: nat where "kill_linewise = 1"

record kill_entry =
  ke_key :: string
  ke_text :: string
  ke_flags :: nat

type_synonym kill_store = "kill_entry list"

definition unnamed :: string where "unnamed = ''''"

fun put :: "string \<Rightarrow> string \<Rightarrow> nat \<Rightarrow> kill_store \<Rightarrow> kill_store" where
  "put key text flags [] = [\<lparr>ke_key = key, ke_text = text, ke_flags = flags\<rparr>]"
| "put key text flags (one # rest) =
    (if ke_key one = key then one\<lparr>ke_text := text, ke_flags := flags\<rparr> # rest
     else one # put key text flags rest)"

fun get :: "kill_store \<Rightarrow> string \<Rightarrow> kill_entry option" where
  "get [] key = None"
| "get (one # rest) key = (if ke_key one = key then Some one else get rest key)"

definition empty :: "kill_store \<Rightarrow> bool" where "empty s \<longleftrightarrow> s = []"
definition kill_size :: "kill_store \<Rightarrow> nat" where "kill_size s = length s"
definition clear :: "kill_store \<Rightarrow> kill_store" where "clear s = []"

subsection \<open>The store as a keyed store\<close>

definition put_pair :: "string \<Rightarrow> string \<times> nat \<Rightarrow> kill_store \<Rightarrow> kill_store" where
  "put_pair key v s = put key (fst v) (snd v) s"

definition contents :: "kill_store \<Rightarrow> string \<Rightarrow> (string \<times> nat) option" where
  "contents s key = map_option (\<lambda>e. (ke_text e, ke_flags e)) (get s key)"

definition one_entry_per_key :: "kill_store \<Rightarrow> bool" where
  "one_entry_per_key s \<longleftrightarrow> distinct (map ke_key s)"

lemma keys_put: "set (map ke_key (put key text flags s)) = insert key (set (map ke_key s))"
  by (induction s) auto

lemma put_distinct: "one_entry_per_key s \<Longrightarrow> one_entry_per_key (put key text flags s)"
proof (induction s)
  case (Cons e s)
  have "ke_key e \<notin> set (map ke_key (put key text flags s)) \<longleftrightarrow> ke_key e \<noteq> key \<and> ke_key e \<notin> set (map ke_key s)"
    by (simp only: keys_put) auto
  with Cons show ?case by (auto simp: one_entry_per_key_def)
qed (simp add: one_entry_per_key_def)

lemma get_after_put:
  "get (put key text flags s) j =
    (if j = key then Some \<lparr>ke_key = key, ke_text = text, ke_flags = flags\<rparr> else get s j)"
  by (induction s) auto

lemma get_key: "get s key = Some e \<Longrightarrow> ke_key e = key"
  by (induction s) (auto split: if_splits)

interpretation kill: keyed_store put_pair contents one_entry_per_key
  by unfold_locales (auto simp: contents_def put_pair_def get_after_put put_distinct)

lemma keys_puts:
  "set (map ke_key (fold (\<lambda>(k, v). put_pair k v) kvs s)) = fst ` set kvs \<union> set (map ke_key s)"
  by (induction kvs arbitrary: s) (auto simp: put_pair_def keys_put simp del: set_map)

text \<open>A register holds the last text killed into it. After any sequence of kills into any keys, each
  key reads its most recent text and shape, a key never killed into reads nothing, and the store has
  exactly one entry per key ever written.\<close>

theorem registers_hold_last_kill:
  "contents (fold (\<lambda>(k, v). put_pair k v) kvs (clear s)) key = map_of (rev kvs) key \<and>
   kill_size (fold (\<lambda>(k, v). put_pair k v) kvs (clear s)) = card (fst ` set kvs)"
proof -
  let ?s = "fold (\<lambda>(k, v). put_pair k v) kvs (clear s)"
  have inv: "one_entry_per_key (clear s)" by (simp add: one_entry_per_key_def clear_def)
  have "contents ?s = contents (clear s) ++ map_of (rev kvs)" by (rule kill.get_puts [OF inv])
  then have "contents ?s = map_of (rev kvs)" by (simp add: contents_def clear_def fun_eq_iff map_add_def split: option.splits)
  moreover have "card (set (map ke_key ?s)) = length (map ke_key ?s)"
    using kill.inv_puts [OF inv, of kvs] unfolding one_entry_per_key_def by (rule distinct_card)
  moreover have "set (map ke_key ?s) = fst ` set kvs" by (simp only: keys_puts) (simp add: clear_def)
  ultimately show ?thesis by (simp add: kill_size_def)
qed

end
