(* ===== verification/Keys.thy ===== *)
theory Keys
  imports Base
begin

text \<open>
  The key and event types of \<^verbatim>\<open>src/leshper/event.h\<close>, which the input decoder produces and the
  keymap reads, and \<open>encode_utf8\<close> of \<^verbatim>\<open>src/leshper/keymap.cpp\<close>.  A \<open>char32_t\<close> and the other
  unsigned fields are natural numbers: no modelled operation takes one out of its range.  The bit
  lemmas read the masks and shifts of the UTF-8 code as division and remainder.
\<close>

unbundle bit_operations_syntax

datatype named_key =
    Backspace | Left | Right | Home | End | Up | Down | Page_up | Page_down | Insert | Delete_forward
  | F1 | F2 | F3 | F4 | F5 | F6 | F7 | F8 | F9 | F10 | F11 | F12

record key_modifiers =
  km_shift :: bool
  km_alt :: bool
  km_ctrl :: bool

definition no_modifiers :: key_modifiers where
  "no_modifiers = \<lparr>km_shift = False, km_alt = False, km_ctrl = False\<rparr>"

definition any :: "key_modifiers \<Rightarrow> bool" where
  "any m \<longleftrightarrow> km_shift m \<or> km_alt m \<or> km_ctrl m"

record key_event =
  ke_codepoint :: nat
  ke_named :: bool
  ke_name :: named_key
  ke_modifiers :: key_modifiers

definition codepoint_key :: "nat \<Rightarrow> key_modifiers \<Rightarrow> key_event" where
  "codepoint_key c m = \<lparr>ke_codepoint = c, ke_named = False, ke_name = Backspace, ke_modifiers = m\<rparr>"

definition named_key_event :: "named_key \<Rightarrow> key_modifiers \<Rightarrow> key_event" where
  "named_key_event k m = \<lparr>ke_codepoint = 0, ke_named = True, ke_name = k, ke_modifiers = m\<rparr>"

record resize_event = re_columns :: nat re_rows :: nat
record job_notice = jn_pid :: int jn_status :: int
record timer_fired = tf_id :: nat tf_action :: nat

datatype event =
    Key_event key_event
  | Resize_event resize_event
  | Worker_result nat
  | Job_notice job_notice
  | Injected_input string
  | Signal_event int
  | Paste_event string
  | Timer_fired timer_fired

definition encode_utf8 :: "nat \<Rightarrow> string" where
  "encode_utf8 c =
     (if c < 0x80 then [char_of c]
      else if c < 0x800 then [char_of (0xC0 OR drop_bit 6 c), char_of (0x80 OR (c AND 0x3F))]
      else if c < 0x10000 then
        [char_of (0xE0 OR drop_bit 12 c), char_of (0x80 OR (drop_bit 6 c AND 0x3F)), char_of (0x80 OR (c AND 0x3F))]
      else
        [char_of (0xF0 OR drop_bit 18 c), char_of (0x80 OR (drop_bit 12 c AND 0x3F)),
         char_of (0x80 OR (drop_bit 6 c AND 0x3F)), char_of (0x80 OR (c AND 0x3F))])"

subsection \<open>Masks and shifts as arithmetic\<close>

lemma and_mask_mod: "(n :: nat) AND mask k = n mod 2 ^ k"
  by (metis take_bit_eq_mask take_bit_eq_mod)

lemma and_masks [byte_simps]:
  "(n :: nat) AND 0x07 = n mod 8" "n AND 0x0F = n mod 16" "n AND 0x1F = n mod 32" "n AND 0x3F = n mod 64"
  "n AND 0xFF = n mod 256"
  using and_mask_mod [of n 3] and_mask_mod [of n 4] and_mask_mod [of n 5] and_mask_mod [of n 6] and_mask_mod [of n 8]
  by (simp_all add: mask_eq_exp_minus_1)

lemma and_high_bits: "(b :: nat) AND push_bit k m = push_bit k (drop_bit k b AND m)"
  by (rule bit_eqI) (auto simp only: bit_and_iff bit_push_bit_iff bit_drop_bit_eq comp_def le_add_diff_inverse)

lemma and_tags [byte_simps]:
  assumes "b < (256 :: nat)"
  shows "b AND 0xC0 = 64 * (b div 64)" "b AND 0xE0 = 32 * (b div 32)" "b AND 0xF0 = 16 * (b div 16)"
    "b AND 0xF8 = 8 * (b div 8)"
proof -
  have m: "drop_bit k b AND mask j = b div 2 ^ k" if "k + j = 8" for k j
  proof -
    have "b div 2 ^ k < 2 ^ j" using assms that by (simp add: less_mult_imp_div_less flip: power_add add.commute)
    then show ?thesis by (simp add: and_mask_mod drop_bit_eq_div)
  qed
  have e: "mask 2 = (3 :: nat)" "mask 3 = (7 :: nat)" "mask 4 = (15 :: nat)" "mask 5 = (31 :: nat)"
    by (simp_all add: mask_eq_exp_minus_1)
  show "b AND 0xC0 = 64 * (b div 64)" "b AND 0xE0 = 32 * (b div 32)" "b AND 0xF0 = 16 * (b div 16)"
    "b AND 0xF8 = 8 * (b div 8)"
    using and_high_bits [of b 6 3] and_high_bits [of b 5 7] and_high_bits [of b 4 15] and_high_bits [of b 3 31]
      m [of 6 2] m [of 5 3] m [of 4 4] m [of 3 5] by (simp_all add: e push_bit_eq_mult)
qed

lemma or_low_bits:
  assumes "b < 2 ^ k"
  shows "(a * 2 ^ k) OR b = a * 2 ^ k + (b :: nat)"
proof -
  have "a * 2 ^ k = push_bit k a" "b = take_bit k b"
    using assms by (simp_all add: push_bit_eq_mult take_bit_nat_eq_self)
  then have "a * 2 ^ k AND b = 0"
    by (metis push_bit_of_0 bit.conj_zero_left push_bit_take_bit take_bit_and take_bit_push_bit and.right_idem
      and_zero_eq diff_self_eq_0 take_bit_0 take_bit_eq_mask and.assoc and.commute)
  then show ?thesis by (simp add: disjunctive_add_eq_or)
qed

lemma or_leads [byte_simps]:
  "x < 64 \<Longrightarrow> 0x80 OR (x :: nat) = 128 + x" "x < 32 \<Longrightarrow> 0xC0 OR x = 192 + x"
  "x < 16 \<Longrightarrow> 0xE0 OR x = 224 + x" "x < 8 \<Longrightarrow> 0xF0 OR x = 240 + x"
  using or_low_bits [of x 6 2] or_low_bits [of x 5 6] or_low_bits [of x 4 14] or_low_bits [of x 3 30] by simp_all

lemma encode_utf8_bytes:
  "c < 0x80 \<Longrightarrow> encode_utf8 c = [char_of c]"
  "0x80 \<le> c \<Longrightarrow> c < 0x800 \<Longrightarrow> encode_utf8 c = [char_of (192 + c div 64), char_of (128 + c mod 64)]"
  "0x800 \<le> c \<Longrightarrow> c < 0x10000 \<Longrightarrow> encode_utf8 c =
     [char_of (224 + c div 4096), char_of (128 + c div 64 mod 64), char_of (128 + c mod 64)]"
  "0x10000 \<le> c \<Longrightarrow> c < 0x200000 \<Longrightarrow> encode_utf8 c =
     [char_of (240 + c div 262144), char_of (128 + c div 4096 mod 64), char_of (128 + c div 64 mod 64),
      char_of (128 + c mod 64)]"
  by (simp_all add: encode_utf8_def drop_bit_eq_div and_masks or_leads div_less_iff_less_mult
      del: char_of_eq_iff One_nat_def)

text \<open>The codepoint a lead and its continuation bytes spell.\<close>

lemma joined_bits [byte_simps]:
  "z < 64 \<Longrightarrow> push_bit 6 y OR z = 64 * y + (z :: nat)"
  "v < 4096 \<Longrightarrow> push_bit 12 x OR v = 4096 * x + (v :: nat)"
  "u < 262144 \<Longrightarrow> push_bit 18 w OR u = 262144 * w + (u :: nat)"
  using or_low_bits [of z 6 y] or_low_bits [of v 12 x] or_low_bits [of u 18 w]
  by (simp_all add: push_bit_eq_mult mult.commute)

text \<open>Base 64, four digits.\<close>

lemma base64_horner:
  "c = 64 * q1 + e \<Longrightarrow> q1 = 64 * q2 + d \<Longrightarrow> q2 = 64 * a + b \<Longrightarrow>
    c = 262144 * a + 4096 * b + 64 * d + (e :: nat)"
  by simp

lemma div_64s: "c div 4096 = c div 64 div 64" "c div 262144 = c div 64 div 64 div 64" for c :: nat
  using div_mult2_eq [of c 64 64] div_mult2_eq [of c 4096 64] by simp_all

lemma base64_split:
  "(c :: nat) = 262144 * (c div 262144) + 4096 * (c div 4096 mod 64) + 64 * (c div 64 mod 64) + c mod 64"
  unfolding div_64s by (rule base64_horner) (rule mult_div_mod_eq [symmetric])+

lemma base64_join:
  fixes a b d e :: nat
  assumes "b < 64" "d < 64" "e < 64" and c: "c = 262144 * a + 4096 * b + 64 * d + e"
  shows "c div 262144 = a" "c div 4096 mod 64 = b" "c div 64 mod 64 = d" "c mod 64 = e"
proof -
  have step: "(64 * q + r) div 64 = q" "(64 * q + r) mod 64 = r" if "r < 64" for q r :: nat
    using that by simp_all
  have c': "c = 64 * (64 * (64 * a + b) + d) + e" using c by simp
  have 1: "c div 64 = 64 * (64 * a + b) + d" "c mod 64 = e"
    unfolding c' by (rule step [OF assms(3)])+
  have 2: "c div 64 div 64 = 64 * a + b" "c div 64 mod 64 = d"
    unfolding 1(1) by (rule step [OF assms(2)])+
  have 3: "c div 64 div 64 div 64 = a" "c div 64 div 64 mod 64 = b"
    unfolding 2(1) by (rule step [OF assms(1)])+
  show "c div 262144 = a" "c div 4096 mod 64 = b" "c div 64 mod 64 = d" "c mod 64 = e"
    unfolding div_64s by (rule 3 2 1)+
qed

lemma base64_join3:
  fixes b d e :: nat
  assumes "d < 64" "e < 64" and c: "c = 4096 * b + 64 * d + e"
  shows "c div 4096 = b" "c div 64 mod 64 = d" "c mod 64 = e"
proof -
  have c': "c = 64 * (64 * b + d) + e" using c by simp
  have step: "(64 * q + r) div 64 = q" "(64 * q + r) mod 64 = r" if "r < 64" for q r :: nat
    using that by simp_all
  have 1: "c div 64 = 64 * b + d" "c mod 64 = e" unfolding c' by (rule step [OF assms(2)])+
  have 2: "c div 64 div 64 = b" "c div 64 mod 64 = d" unfolding 1(1) by (rule step [OF assms(1)])+
  show "c div 4096 = b" "c div 64 mod 64 = d" "c mod 64 = e" unfolding div_64s by (rule 2 1)+
qed

lemma tag_mod [byte_simps]:
  "x < 64 \<Longrightarrow> (128 + x) mod 64 = (x :: nat)" "x < 32 \<Longrightarrow> (192 + x) mod 32 = (x :: nat)"
  "x < 16 \<Longrightarrow> (224 + x) mod 16 = (x :: nat)" "x < 8 \<Longrightarrow> (240 + x) mod 8 = (x :: nat)"
proof -
  have "(k * n + x) mod n = x" if "x < n" for k n x :: nat using that by simp
  from this [of x 64 2] this [of x 32 6] this [of x 16 14] this [of x 8 30]
  show "x < 64 \<Longrightarrow> (128 + x) mod 64 = (x :: nat)" "x < 32 \<Longrightarrow> (192 + x) mod 32 = (x :: nat)"
    "x < 16 \<Longrightarrow> (224 + x) mod 16 = (x :: nat)" "x < 8 \<Longrightarrow> (240 + x) mod 8 = (x :: nat)" by simp_all
qed

text \<open>A Unicode scalar value: in range and not a surrogate.\<close>

definition is_scalar_value :: "nat \<Rightarrow> bool" where
  "is_scalar_value c \<longleftrightarrow> c < 0xD800 \<or> 0xE000 \<le> c \<and> c < 0x110000"

end
