(* ===== verification/Decode.thy ===== *)
theory Decode
  imports Numeric Keys
begin

text \<open>
  \<^verbatim>\<open>src/leshper/decode.h\<close> and \<^verbatim>\<open>decode.cpp\<close>: terminal bytes to editor events.  A \<open>string_view\<close> into
  the held bytes is the list of the bytes left; every \<open>consume\<close> function returns how many bytes it
  took (0 for \<open>still arriving\<close>), the decoder and the events it emitted.  Instants and the timeout
  are integers in one unit.  The lemmas show that UTF-8 decoding inverts encoding, that how the input
  is cut into reads does not matter, and that a paste arrives as one event.
\<close>

definition escape_byte :: char where "escape_byte = CHR 0x1B"
definition escape_codepoint :: nat where "escape_codepoint = 0x1B"
definition replacement_character :: nat where "replacement_character = 0xFFFD"
definition replacement_bytes :: string where "replacement_bytes = [CHR 0xEF, CHR 0xBF, CHR 0xBD]"
definition paste_end_marker :: string where "paste_end_marker = CHR 0x1B # ''[201~''"
definition paste_start_parameter :: nat where "paste_start_parameter = 200"
definition paste_end_parameter :: nat where "paste_end_parameter = 201"

definition byte_at :: "string \<Rightarrow> nat \<Rightarrow> nat" where
  "byte_at text index = ubyte (text ! index)"

definition is_continuation :: "nat \<Rightarrow> bool" where
  "is_continuation b \<longleftrightarrow> b AND 0xC0 = 0x80"

subsection \<open>UTF-8\<close>

record scalar_scan =
  sc_codepoint :: nat
  sc_length :: nat
  sc_incomplete :: bool
  sc_malformed :: bool

definition scan_incomplete :: scalar_scan where
  "scan_incomplete = \<lparr>sc_codepoint = 0, sc_length = 0, sc_incomplete = True, sc_malformed = False\<rparr>"

definition scan_malformed :: "nat \<Rightarrow> scalar_scan" where
  "scan_malformed n = \<lparr>sc_codepoint = 0, sc_length = n, sc_incomplete = False, sc_malformed = True\<rparr>"

definition scan_found :: "nat \<Rightarrow> nat \<Rightarrow> scalar_scan" where
  "scan_found c n = \<lparr>sc_codepoint = c, sc_length = n, sc_incomplete = False, sc_malformed = False\<rparr>"

definition sequence_length :: "nat \<Rightarrow> nat" where
  "sequence_length lead =
     (if lead < 0x80 then 1 else if lead < 0xC2 then 0 else if lead < 0xE0 then 2
      else if lead < 0xF0 then 3 else if lead < 0xF5 then 4 else 0)"

definition second_byte_range :: "nat \<Rightarrow> nat \<times> nat" where
  "second_byte_range lead =
     (if lead = 0xE0 then (0xA0, 0xBF) else if lead = 0xED then (0x80, 0x9F)
      else if lead = 0xF0 then (0x90, 0xBF) else if lead = 0xF4 then (0x80, 0x8F) else (0x80, 0xBF))"

definition scan_scalar :: "string \<Rightarrow> scalar_scan" where
  "scan_scalar rest =
     (let lead = byte_at rest 0; want = sequence_length lead in
      if want = 0 then scan_malformed 1
      else if want = 1 then scan_found lead 1
      else if length rest < 2 then scan_incomplete
      else (let second = byte_at rest 1; (low, high) = second_byte_range lead in
        if second < low \<or> high < second then scan_malformed 1
        else if want = 2 then scan_found (push_bit 6 (lead AND 0x1F) OR (second AND 0x3F)) 2
        else if length rest < 3 then scan_incomplete
        else (let third = byte_at rest 2 in
          if \<not> is_continuation third then scan_malformed 2
          else if want = 3 then
            scan_found (push_bit 12 (lead AND 0x0F) OR push_bit 6 (second AND 0x3F) OR (third AND 0x3F)) 3
          else if length rest < 4 then scan_incomplete
          else (let fourth = byte_at rest 3 in
            if \<not> is_continuation fourth then scan_malformed 3
            else scan_found (push_bit 18 (lead AND 0x07) OR push_bit 12 (second AND 0x3F)
                   OR push_bit 6 (third AND 0x3F) OR (fourth AND 0x3F)) 4))))"

definition emit_text :: "string \<Rightarrow> key_modifiers \<Rightarrow> nat \<times> event list" where
  "emit_text rest modifiers =
     (let s = scan_scalar rest in
      if sc_incomplete s then (0, [])
      else (sc_length s,
        [Key_event (codepoint_key (if sc_malformed s then replacement_character else sc_codepoint s) modifiers)]))"

subsection \<open>Escape sequences\<close>

record csi_parameters =
  cp_first :: nat
  cp_second :: nat
  cp_has_first :: bool
  cp_private_use :: bool

text \<open>The locals of the parameter loop.\<close>

record csi_reading =
  cr_parsed :: csi_parameters
  cr_value :: nat
  cr_seen :: bool
  cr_in_sub :: bool
  cr_field :: nat

definition csi_reading_init :: csi_reading where
  "csi_reading_init =
     \<lparr>cr_parsed = \<lparr>cp_first = 0, cp_second = 0, cp_has_first = False, cp_private_use = False\<rparr>,
      cr_value = 0, cr_seen = False, cr_in_sub = False, cr_field = 0\<rparr>"

definition csi_store :: "csi_reading \<Rightarrow> csi_reading" where
  "csi_store r =
     (if cr_field r = 0 then r\<lparr>cr_parsed := (cr_parsed r)\<lparr>cp_first := cr_value r, cp_has_first := cr_seen r\<rparr>\<rparr>
      else if cr_field r = 1 then r\<lparr>cr_parsed := (cr_parsed r)\<lparr>cp_second := cr_value r\<rparr>\<rparr>
      else r)"

text \<open>Raw \<open>'<'..'?'\<close> mark a private sequence; a digit run is read by \<open>scan_digits\<close> at once.\<close>

lemma scan_digits_takes:
  "48 \<le> ubyte c \<Longrightarrow> ubyte c \<le> 57 \<Longrightarrow> 0 < dr_consumed (scan_digits (c # text) 10 limit)"
  by (simp add: scan_digits_spec is_digit_of_ten)

function parse_parameters_loop :: "string \<Rightarrow> csi_reading \<Rightarrow> csi_reading" where
  "parse_parameters_loop text r =
    (case text of [] \<Rightarrow> r
     | raw # later \<Rightarrow>
       if 0x3C \<le> ubyte raw \<and> ubyte raw \<le> 0x3F then
         parse_parameters_loop later (r\<lparr>cr_parsed := (cr_parsed r)\<lparr>cp_private_use := True\<rparr>\<rparr>)
       else if raw = CHR '';'' then
         (let r1 = csi_store r in
          parse_parameters_loop later
            (r1\<lparr>cr_field := cr_field r1 + 1, cr_value := 0, cr_seen := False, cr_in_sub := False\<rparr>))
       else if raw = CHR '':'' then parse_parameters_loop later (r\<lparr>cr_in_sub := True\<rparr>)
       else if 48 \<le> ubyte raw \<and> ubyte raw \<le> 57 then
         (let run = scan_digits text 10 (np_high (policy_for Csi_parameter));
              r1 = (if \<not> cr_in_sub r \<and> \<not> cr_seen r
                    then r\<lparr>cr_value := unat (dr_value run) mod 2 ^ 32, cr_seen := True\<rparr> else r)
          in parse_parameters_loop (drop (dr_consumed run) text) r1)
       else parse_parameters_loop later r)"
  by pat_completeness auto

termination
proof (relation "measure (length \<circ> fst)", goal_cases)
  case (5 t r raw later run r1)
  then show ?case using scan_digits_takes [of raw later "np_high (policy_for Csi_parameter)"] by simp
qed simp_all

declare parse_parameters_loop.simps [simp del]

definition parse_parameters :: "string \<Rightarrow> csi_parameters" where
  "parse_parameters text = cr_parsed (csi_store (parse_parameters_loop text csi_reading_init))"

definition modifiers_from :: "nat \<Rightarrow> key_modifiers" where
  "modifiers_from parameter =
     (if parameter < 2 then no_modifiers
      else (let mask = parameter - 1 in
        \<lparr>km_shift = mask AND 1 \<noteq> 0, km_alt = mask AND 2 \<noteq> 0, km_ctrl = mask AND 4 \<noteq> 0\<rparr>))"

definition key_for_final :: "char \<Rightarrow> named_key option" where
  "key_for_final c = map_of
     [(CHR ''A'', Up), (CHR ''B'', Down), (CHR ''C'', Right), (CHR ''D'', Left), (CHR ''H'', Home),
      (CHR ''F'', End), (CHR ''P'', F1), (CHR ''Q'', F2), (CHR ''R'', F3), (CHR ''S'', F4)] c"

definition key_for_tilde :: "nat \<Rightarrow> named_key option" where
  "key_for_tilde parameter = map_of
     [(1, Home), (7, Home), (2, Insert), (3, Delete_forward), (4, End), (8, End), (5, Page_up),
      (6, Page_down), (11, F1), (12, F2), (13, F3), (14, F4), (15, F5), (17, F6), (18, F7), (19, F8),
      (20, F9), (21, F10), (23, F11), (24, F12)] parameter"

subsection \<open>Malformed text\<close>

text \<open>
  The first loop of \<open>well_formed\<close> finds where the text stops being well formed, the second copies
  the rest with replacements.  Each iteration of either takes at least one byte.
\<close>

definition takes_some :: "scalar_scan \<Rightarrow> bool" where
  "takes_some s \<longleftrightarrow> sc_incomplete s \<or> 0 < sc_length s"

lemma takes_some_simps [simp]:
  "takes_some scan_incomplete" "takes_some (scan_malformed (Suc n))" "takes_some (scan_malformed 2)"
  "takes_some (scan_malformed 3)" "takes_some (scan_found c 1)" "takes_some (scan_found c (Suc n))"
  "takes_some (scan_found c 2)" "takes_some (scan_found c 3)" "takes_some (scan_found c 4)" "takes_some (scan_malformed 1)"
  by (simp_all add: takes_some_def scan_incomplete_def scan_malformed_def scan_found_def)

lemma scan_scalar_takes_some: "takes_some (scan_scalar rest)"
  unfolding scan_scalar_def Let_def by (simp split: prod.split)

lemma scan_scalar_takes: "\<not> sc_incomplete (scan_scalar rest) \<Longrightarrow> 0 < sc_length (scan_scalar rest)"
  using scan_scalar_takes_some [of rest] by (simp add: takes_some_def)

function well_formed_until :: "string \<Rightarrow> nat \<Rightarrow> nat" where
  "well_formed_until text at =
    (if length text \<le> at then at
     else (let s = scan_scalar (drop at text) in
       if sc_incomplete s \<or> sc_malformed s then at else well_formed_until text (at + sc_length s)))"
  by pat_completeness auto

termination
proof (relation "measure (\<lambda>(text, at). length text - at)")
  fix t at x
  assume "\<not> length t \<le> at" "x = scan_scalar (drop at t)" "\<not> (sc_incomplete x \<or> sc_malformed x)"
  then show "((t, at + sc_length x), (t, at)) \<in> measure (\<lambda>(text, at). length text - at)"
    using scan_scalar_takes [of "drop at t"] by simp
qed simp

declare well_formed_until.simps [simp del]

function well_formed_rest :: "string \<Rightarrow> string \<Rightarrow> string" where
  "well_formed_rest rest clean =
    (if rest = [] then clean
     else (let s = scan_scalar rest in
       if sc_incomplete s then clean @ replacement_bytes
       else well_formed_rest (drop (sc_length s) rest)
              (clean @ (if sc_malformed s then replacement_bytes else take (sc_length s) rest))))"
  by pat_completeness auto

termination
proof (relation "measure (length \<circ> fst)")
  fix rest clean x
  assume "rest \<noteq> []" "x = scan_scalar rest" "\<not> sc_incomplete x"
  then show "((drop (sc_length x) rest, clean @ (if sc_malformed x then replacement_bytes else take (sc_length x) rest)),
      (rest, clean)) \<in> measure (length \<circ> fst)"
    using scan_scalar_takes [of rest] by (cases rest) auto
qed simp

declare well_formed_rest.simps [simp del]

definition well_formed :: "string \<Rightarrow> string" where
  "well_formed text =
     (let at = well_formed_until text 0 in
      if at = length text then text else well_formed_rest (drop at text) (take at text))"

subsection \<open>The decoder\<close>

definition default_escape_timeout :: int where "default_escape_timeout = 25"

record input_decoder =
  id_escape_timeout :: int
  id_deadline :: "int option"
  id_held :: string
  id_paste :: string
  id_pasting :: bool

definition input_decoder_init :: "int \<Rightarrow> input_decoder" where
  "input_decoder_init timeout =
     \<lparr>id_escape_timeout = timeout, id_deadline = None, id_held = [], id_paste = [], id_pasting = False\<rparr>"

definition holding :: "input_decoder \<Rightarrow> bool" where
  "holding d \<longleftrightarrow> id_held d \<noteq> [] \<or> id_pasting d"

definition consume_csi :: "string \<Rightarrow> input_decoder \<Rightarrow> nat \<times> input_decoder \<times> event list" where
  "consume_csi rest d =
     (let body = drop 2 rest;
          params = takeWhile (\<lambda>c. 0x30 \<le> ubyte c \<and> ubyte c \<le> 0x3F) body;
          parameters_end = 2 + length params;
          inter = takeWhile (\<lambda>c. 0x20 \<le> ubyte c \<and> ubyte c \<le> 0x2F) (drop parameters_end rest);
          at = parameters_end + length inter
      in if at = length rest then (0, d, [])
      else (let final_byte = byte_at rest at in
        if final_byte < 0x40 \<or> 0x7E < final_byte then (at, d, [])
        else (let consumed = at + 1; parameters = parse_parameters (substr rest 2 (parameters_end - 2)) in
          if cp_private_use parameters then (consumed, d, [])
          else if rest ! at = CHR 0x7E then
            (if cp_first parameters = paste_start_parameter then (consumed, d\<lparr>id_pasting := True\<rparr>, [])
             else if cp_first parameters = paste_end_parameter then (consumed, d, [])
             else (case key_for_tilde (cp_first parameters) of
                 Some key \<Rightarrow> (consumed, d, [Key_event (named_key_event key (modifiers_from (cp_second parameters)))])
               | None \<Rightarrow> (consumed, d, [])))
          else (case key_for_final (rest ! at) of
              Some key \<Rightarrow>
                (consumed, d,
                 if \<not> cp_has_first parameters \<or> cp_first parameters = 1
                 then [Key_event (named_key_event key (modifiers_from (cp_second parameters)))] else [])
            | None \<Rightarrow> (consumed, d, [])))))"

definition consume_ss3 :: "string \<Rightarrow> input_decoder \<Rightarrow> nat \<times> input_decoder \<times> event list" where
  "consume_ss3 rest d =
     (if length rest < 3 then (0, d, [])
      else (let final_byte = byte_at rest 2 in
        if final_byte < 0x40 \<or> 0x7E < final_byte then (2, d, [])
        else (3, d, (case key_for_final (rest ! 2) of
                       Some key \<Rightarrow> [Key_event (named_key_event key no_modifiers)] | None \<Rightarrow> []))))"

definition consume_escape :: "string \<Rightarrow> input_decoder \<Rightarrow> nat \<times> input_decoder \<times> event list" where
  "consume_escape rest d =
     (if length rest < 2 then (0, d, [])
      else if rest ! 1 = CHR ''['' then consume_csi rest d
      else if rest ! 1 = CHR ''O'' then consume_ss3 rest d
      else if rest ! 1 = escape_byte then (1, d, [Key_event (codepoint_key escape_codepoint no_modifiers)])
      else (case emit_text (drop 1 rest) (no_modifiers\<lparr>km_alt := True\<rparr>) of
              (taken, evs) \<Rightarrow> (if taken = 0 then 0 else taken + 1, d, evs)))"

definition consume_one :: "string \<Rightarrow> input_decoder \<Rightarrow> nat \<times> input_decoder \<times> event list" where
  "consume_one rest d =
     (if rest ! 0 = escape_byte then consume_escape rest d
      else (case emit_text rest no_modifiers of (taken, evs) \<Rightarrow> (taken, d, evs)))"

text \<open>The longest tail, of at most \<open>keep\<close> bytes, that could still become the closing marker.\<close>

fun marker_tail :: "string \<Rightarrow> nat \<Rightarrow> nat" where
  "marker_tail rest 0 = 0"
| "marker_tail rest (Suc keep) =
    (if drop (length rest - Suc keep) rest \<noteq> take (Suc keep) paste_end_marker then marker_tail rest keep else Suc keep)"

definition consume_paste :: "string \<Rightarrow> input_decoder \<Rightarrow> nat \<times> input_decoder \<times> event list" where
  "consume_paste rest d =
     (case find_sub paste_end_marker rest of
        Some marker \<Rightarrow>
          (marker + length paste_end_marker, d\<lparr>id_paste := [], id_pasting := False\<rparr>,
           [Paste_event (well_formed (id_paste d @ take marker rest))])
      | None \<Rightarrow>
          (let keep = marker_tail rest (min (length rest) (length paste_end_marker - 1));
               taken = length rest - keep
           in if taken = 0 then (0, d, []) else (taken, d\<lparr>id_paste := id_paste d @ take taken rest\<rparr>, [])))"

text \<open>The loop of \<open>drain\<close> over the held bytes not yet taken.\<close>

function drain_loop :: "string \<Rightarrow> input_decoder \<Rightarrow> string \<times> input_decoder \<times> event list" where
  "drain_loop rest d =
    (if rest = [] then (rest, d, [])
     else (case (if id_pasting d then consume_paste rest d else consume_one rest d) of
       (taken, d1, evs) \<Rightarrow>
         if taken = 0 then (rest, d1, evs)
         else (case drain_loop (drop taken rest) d1 of (left, d2, later) \<Rightarrow> (left, d2, evs @ later))))"
  by pat_completeness auto

termination
  by (relation "measure (length \<circ> fst)") (auto simp: diff_less)

declare drain_loop.simps [simp del]

definition drain :: "input_decoder \<Rightarrow> input_decoder \<times> event list" where
  "drain d = (case drain_loop (id_held d) d of (left, d1, evs) \<Rightarrow> (d1\<lparr>id_held := left\<rparr>, evs))"

definition arm :: "int \<Rightarrow> input_decoder \<Rightarrow> input_decoder" where
  "arm now d =
     (if id_pasting d \<or> id_held d = [] \<or> hd (id_held d) \<noteq> escape_byte then d\<lparr>id_deadline := None\<rparr>
      else if id_deadline d = None then d\<lparr>id_deadline := Some (now + id_escape_timeout d)\<rparr>
      else d)"

definition feed :: "string \<Rightarrow> int \<Rightarrow> input_decoder \<Rightarrow> input_decoder \<times> event list" where
  "feed bs now d =
     (case drain (d\<lparr>id_held := id_held d @ bs\<rparr>) of (d1, evs) \<Rightarrow> (arm now d1, evs))"

definition expire :: "int \<Rightarrow> input_decoder \<Rightarrow> input_decoder \<times> event list" where
  "expire now d =
     (case id_deadline d of None \<Rightarrow> (d, [])
      | Some due \<Rightarrow>
        if now < due then (d, [])
        else (let d1 = d\<lparr>id_deadline := None\<rparr> in
          if id_held d1 = [] \<or> hd (id_held d1) \<noteq> escape_byte then (d1, [])
          else (case drain (d1\<lparr>id_held := tl (id_held d1)\<rparr>) of
                  (d2, evs) \<Rightarrow> (arm now d2, Key_event (codepoint_key escape_codepoint no_modifiers) # evs))))"

definition reset :: "input_decoder \<Rightarrow> input_decoder" where
  "reset d = d\<lparr>id_held := [], id_paste := [], id_pasting := False, id_deadline := None\<rparr>"

subsection \<open>UTF-8 decoding inverts encoding\<close>

lemma is_continuation_range:
  assumes "b < 256"
  shows "is_continuation b \<longleftrightarrow> 128 \<le> b \<and> b < 192"
proof -
  have "b AND push_bit 6 3 = push_bit 6 (drop_bit 6 b AND 3)"
    by (rule bit_eqI) (auto simp only: bit_and_iff bit_push_bit_iff bit_drop_bit_eq comp_def le_add_diff_inverse)
  moreover have "drop_bit 6 b AND 3 = b div 64 mod 4"
    using and_mask_mod [of "drop_bit 6 b" 2] by (simp add: mask_eq_exp_minus_1 drop_bit_eq_div)
  moreover have "b div 64 < 4" using assms by (simp add: less_mult_imp_div_less)
  ultimately have "b AND 0xC0 = 64 * (b div 64)" by (simp add: push_bit_eq_mult)
  then have "is_continuation b \<longleftrightarrow> b div 64 = 2" by (simp add: is_continuation_def)
  also have "\<dots> \<longleftrightarrow> 128 \<le> b \<and> b < 192"
    using div_less_iff_less_mult [of 64 b 3] less_eq_div_iff_mult_less_eq [of 64 2 b] by auto
  finally show ?thesis .
qed

lemma continuation_byte:
  assumes "is_continuation (ubyte c)"
  obtains x where "ubyte c = 128 + x" "x < 64"
proof -
  have "128 \<le> ubyte c" "ubyte c < 192" using assms is_continuation_range [of "ubyte c"] by simp_all
  then show thesis using that [of "ubyte c - 128"] by simp
qed

lemma byte_at_simps [simp]:
  "byte_at (c # cs) 0 = ubyte c" "byte_at (c # cs) (Suc n) = byte_at cs n"
  "byte_at (c # cs) 1 = byte_at cs 0" "byte_at (c # cs) 2 = byte_at cs 1" "byte_at (c # cs) 3 = byte_at cs 2"
  by (simp_all add: byte_at_def numeral_2_eq_2 numeral_3_eq_3)

lemma byte_at_less [simp]: "byte_at s n < 256"
  by (simp add: byte_at_def)

text \<open>What the scan answers on a lead byte followed by enough bytes.\<close>

lemma scan_two:
  assumes "2 \<le> x" "x < 32" "y < 64" "ubyte l = 192 + x" "ubyte b = 128 + y"
  shows "scan_scalar (l # b # rest) = scan_found (64 * x + y) 2"
  using assms by (simp add: scan_scalar_def Let_def sequence_length_def second_byte_range_def and_masks joined_bits tag_mod)

lemma scan_three:
  assumes "x < 16" "y < 64" "z < 64" "ubyte l = 224 + x" "ubyte b = 128 + y" "ubyte d = 128 + z"
    and "x = 0 \<Longrightarrow> 32 \<le> y" "x = 13 \<Longrightarrow> y < 32"
  shows "scan_scalar (l # b # d # rest) = scan_found (4096 * x + 64 * y + z) 3"
proof -
  have "fst (second_byte_range (224 + x)) \<le> 128 + y" "128 + y \<le> snd (second_byte_range (224 + x))"
    using assms by (auto simp: second_byte_range_def)
  then show ?thesis using assms(1-6)
    by (simp add: scan_scalar_def Let_def sequence_length_def case_prod_beta and_masks joined_bits tag_mod
        is_continuation_range add.assoc)
qed

lemma scan_four:
  assumes "x \<le> 4" "y < 64" "z < 64" "v < 64" "ubyte l = 240 + x" "ubyte b = 128 + y" "ubyte d = 128 + z" "ubyte e = 128 + v"
    and "x = 0 \<Longrightarrow> 16 \<le> y" "x = 4 \<Longrightarrow> y < 16"
  shows "scan_scalar (l # b # d # e # rest) = scan_found (262144 * x + 4096 * y + 64 * z + v) 4"
proof -
  have "fst (second_byte_range (240 + x)) \<le> 128 + y" "128 + y \<le> snd (second_byte_range (240 + x))"
    using assms by (auto simp: second_byte_range_def)
  then show ?thesis using assms(1-8)
    by (simp add: scan_scalar_def Let_def sequence_length_def case_prod_beta and_masks joined_bits tag_mod
        is_continuation_range add.assoc)
qed

lemma ubyte_tag [simp]:
  "x < 64 \<Longrightarrow> ubyte (char_of (128 + x)) = 128 + x" "x < 32 \<Longrightarrow> ubyte (char_of (192 + x)) = 192 + x"
  "x < 16 \<Longrightarrow> ubyte (char_of (224 + x)) = 224 + x" "x < 8 \<Longrightarrow> ubyte (char_of (240 + x)) = 240 + x"
  by (simp_all only: ubyte_char_of)

lemma small_lengths: "Suc (Suc 0) = 2" "Suc (Suc (Suc 0)) = 3" "Suc (Suc (Suc (Suc 0))) = 4"
  by simp_all

lemma scan_scalar_encode:
  assumes "is_scalar_value c"
  shows "scan_scalar (encode_utf8 c @ rest) = scan_found c (length (encode_utf8 c))"
proof -
  consider "c < 0x80" | "0x80 \<le> c" "c < 0x800" | "0x800 \<le> c" "c < 0x10000" | "0x10000 \<le> c" "c < 0x110000"
    using assms unfolding is_scalar_value_def by linarith
  then show ?thesis
  proof cases
    case 1
    then show ?thesis by (simp add: encode_utf8_bytes scan_scalar_def Let_def sequence_length_def)
  next
    case 2
    define a b where "a = c div 64" "b = c mod 64"
    have "c = 64 * a + b" "b < 64" by (simp_all add: a_b_def)
    moreover from this 2 have "2 \<le> a" "a < 32" by linarith+
    moreover have "encode_utf8 c = [char_of (192 + a), char_of (128 + b)]"
      using 2 by (simp add: encode_utf8_bytes a_b_def del: char_of_eq_iff)
    ultimately show ?thesis using scan_two [of a b] by (simp add: small_lengths)
  next
    case 3
    define x y z where "x = c div 4096" "y = c div 64 mod 64" "z = c mod 64"
    have c: "c = 4096 * x + 64 * y + z" "y < 64" "z < 64"
      using base64_horner [OF mult_div_mod_eq [symmetric, of c 64] mult_div_mod_eq [symmetric, of "c div 64" 64], of 0 "c div 64 div 64"]
      by (simp_all add: x_y_z_def div_64s)
    moreover from this 3 have "x < 16" "x = 0 \<Longrightarrow> 32 \<le> y" by linarith+
    moreover from c assms 3 have "x = 13 \<Longrightarrow> y < 32" unfolding is_scalar_value_def by linarith
    moreover have "encode_utf8 c = [char_of (224 + x), char_of (128 + y), char_of (128 + z)]"
      using 3 by (simp add: encode_utf8_bytes x_y_z_def del: char_of_eq_iff)
    ultimately show ?thesis using scan_three [of x y z] by (simp add: small_lengths)
  next
    case 4
    define x y z v where "x = c div 262144" "y = c div 4096 mod 64" "z = c div 64 mod 64" "v = c mod 64"
    have c: "c = 262144 * x + 4096 * y + 64 * z + v" "y < 64" "z < 64" "v < 64"
      using base64_split [of c] unfolding x_y_z_v_def by simp_all
    moreover from this 4 have "x \<le> 4" "x = 0 \<Longrightarrow> 16 \<le> y" "x = 4 \<Longrightarrow> y < 16" by linarith+
    moreover have "encode_utf8 c = [char_of (240 + x), char_of (128 + y), char_of (128 + z), char_of (128 + v)]"
      using 4 by (simp add: encode_utf8_bytes x_y_z_v_def del: char_of_eq_iff)
    ultimately show ?thesis using scan_four [of x y z v] by (simp add: small_lengths)
  qed
qed

text \<open>And a scan that finds a character found the encoding of a scalar value.\<close>

definition found_in :: "string \<Rightarrow> nat \<Rightarrow> nat \<Rightarrow> bool" where
  "found_in rest c n \<longleftrightarrow> scan_scalar rest = scan_found c n \<and> is_scalar_value c \<and> take n rest = encode_utf8 c"

lemma found_two:
  assumes "2 \<le> x" "x < 32" "y < 64" "ubyte l = 192 + x" "ubyte b = 128 + y"
  shows "found_in (l # b # rest) (64 * x + y) 2"
proof -
  have "(64 * x + y) div 64 = x" "(64 * x + y) mod 64 = y" using assms(3) by simp_all
  moreover have "0x80 \<le> 64 * x + y" "64 * x + y < 0x800" using assms by linarith+
  moreover have "l = char_of (192 + x)" "b = char_of (128 + y)" using assms(4,5) by (metis char_of_ubyte)+
  ultimately show ?thesis
    using scan_two [OF assms] by (simp add: found_in_def is_scalar_value_def encode_utf8_bytes)
qed

lemma found_three:
  assumes "x < 16" "y < 64" "z < 64" "ubyte l = 224 + x" "ubyte b = 128 + y" "ubyte d = 128 + z"
    and "x = 0 \<Longrightarrow> 32 \<le> y" "x = 13 \<Longrightarrow> y < 32"
  shows "found_in (l # b # d # rest) (4096 * x + 64 * y + z) 3"
proof -
  define c where "c = 4096 * x + 64 * y + z"
  have "0x800 \<le> c" using assms(7) unfolding c_def by (cases "x = 0") simp_all
  moreover have "c < 0x10000" "c < 0xD800 \<or> 0xE000 \<le> c"
    using assms(1-3,8) unfolding c_def by (cases "x = 13"; linarith)+
  moreover have "l = char_of (224 + x)" "b = char_of (128 + y)" "d = char_of (128 + z)"
    using assms(4-6) by (metis char_of_ubyte)+
  ultimately show ?thesis
    using scan_three [OF assms] base64_join3 [OF assms(2,3) c_def] unfolding c_def [symmetric]
    by (simp add: found_in_def is_scalar_value_def encode_utf8_bytes)
qed

lemma found_four:
  assumes "x \<le> 4" "y < 64" "z < 64" "v < 64" "ubyte l = 240 + x" "ubyte b = 128 + y" "ubyte d = 128 + z" "ubyte e = 128 + v"
    and "x = 0 \<Longrightarrow> 16 \<le> y" "x = 4 \<Longrightarrow> y < 16"
  shows "found_in (l # b # d # e # rest) (262144 * x + 4096 * y + 64 * z + v) 4"
proof -
  define c where "c = 262144 * x + 4096 * y + 64 * z + v"
  have "0x10000 \<le> c" using assms(9) unfolding c_def by (cases "x = 0") simp_all
  moreover have "c < 0x110000" using assms(1-4,10) unfolding c_def by (cases "x = 4") linarith+
  moreover have "l = char_of (240 + x)" "b = char_of (128 + y)" "d = char_of (128 + z)" "e = char_of (128 + v)"
    using assms(5-8) by (metis char_of_ubyte)+
  ultimately show ?thesis
    using scan_four [OF assms] base64_join [OF assms(2-4) c_def] unfolding c_def [symmetric]
    by (simp add: found_in_def is_scalar_value_def encode_utf8_bytes)
qed

lemma second_byte:
  assumes "fst (second_byte_range l) \<le> b" "b \<le> snd (second_byte_range l)"
  shows "128 \<le> b \<and> b < 192 \<and> (l = 0xE0 \<longrightarrow> 160 \<le> b) \<and> (l = 0xED \<longrightarrow> b < 160) \<and>
    (l = 0xF0 \<longrightarrow> 144 \<le> b) \<and> (l = 0xF4 \<longrightarrow> b < 144)"
  using assms by (auto simp: second_byte_range_def split: if_splits)

lemma second_byte_offset:
  assumes "fst (second_byte_range l) \<le> b" "b \<le> snd (second_byte_range l)"
  obtains y where "b = 128 + y" "y < 64"
proof -
  have "128 \<le> b" "b < 192" using second_byte [OF assms] by simp_all
  then show thesis using that [of "b - 128"] by simp
qed

lemma scan_scalar_found:
  assumes "\<not> sc_incomplete (scan_scalar rest)" "\<not> sc_malformed (scan_scalar rest)" "rest \<noteq> []"
  shows "\<exists>c n. found_in rest c n"
proof -
  obtain l r1 where r1: "rest = l # r1" using assms(3) by (cases rest) auto
  note unf = r1 scan_scalar_def Let_def scan_malformed_def scan_incomplete_def case_prod_beta
  consider "ubyte l < 0x80" | "0xC2 \<le> ubyte l" "ubyte l < 0xE0" | "0xE0 \<le> ubyte l" "ubyte l < 0xF0"
    | "0xF0 \<le> ubyte l" "ubyte l < 0xF5" | "sequence_length (ubyte l) = 0"
    unfolding sequence_length_def by fastforce
  then show ?thesis
  proof cases
    case 1
    then have "found_in rest (ubyte l) 1"
      by (simp add: r1 found_in_def scan_scalar_def Let_def sequence_length_def is_scalar_value_def encode_utf8_bytes)
    then show ?thesis by blast
  next
    case 5
    then show ?thesis using assms(2) by (simp add: unf)
  next
    case 2
    then have w: "sequence_length (ubyte l) = 2" "second_byte_range (ubyte l) = (0x80, 0xBF)"
      by (auto simp: sequence_length_def second_byte_range_def)
    obtain b r2 where "r1 = b # r2" "128 \<le> ubyte b" "ubyte b < 192"
      using assms(1,2) w by (cases r1) (auto simp: unf split: if_splits)
    with 2 show ?thesis
      using found_two [of "ubyte l - 192" "ubyte b - 128" l b r2] by (auto simp: r1)
  next
    case 3
    then have w: "sequence_length (ubyte l) = 3" by (simp add: sequence_length_def)
    obtain b r2 where b: "r1 = b # r2" "fst (second_byte_range (ubyte l)) \<le> ubyte b" "ubyte b \<le> snd (second_byte_range (ubyte l))"
      using assms(1,2) w by (cases r1) (auto simp: unf split: if_splits)
    obtain d r3 where d: "r2 = d # r3" "is_continuation (ubyte d)"
      using assms(1,2) w b by (cases r2) (auto simp: unf split: if_splits)
    obtain z where z: "ubyte d = 128 + z" "z < 64" using d(2) by (rule continuation_byte)
    obtain x where x: "ubyte l = 224 + x" "x < 16" using 3 that [of "ubyte l - 224"] by simp
    obtain y where y: "ubyte b = 128 + y" "y < 64" using b(2,3) by (rule second_byte_offset)
    have "found_in rest (4096 * x + 64 * y + z) 3"
      unfolding r1 b(1) d(1) using second_byte [OF b(2,3)] x y z by (intro found_three) simp_all
    then show ?thesis by blast
  next
    case 4
    then have w: "sequence_length (ubyte l) = 4" by (simp add: sequence_length_def)
    obtain b r2 where b: "r1 = b # r2" "fst (second_byte_range (ubyte l)) \<le> ubyte b" "ubyte b \<le> snd (second_byte_range (ubyte l))"
      using assms(1,2) w by (cases r1) (auto simp: unf split: if_splits)
    obtain d r3 where d: "r2 = d # r3" "is_continuation (ubyte d)"
      using assms(1,2) w b by (cases r2) (auto simp: unf split: if_splits)
    obtain e r4 where e: "r3 = e # r4" "is_continuation (ubyte e)"
      using assms(1,2) w b d by (cases r3) (auto simp: unf split: if_splits)
    obtain z where z: "ubyte d = 128 + z" "z < 64" using d(2) by (rule continuation_byte)
    obtain v where v: "ubyte e = 128 + v" "v < 64" using e(2) by (rule continuation_byte)
    obtain x where x: "ubyte l = 240 + x" "x \<le> 4" using 4 that [of "ubyte l - 240"] by simp
    obtain y where y: "ubyte b = 128 + y" "y < 64" using b(2,3) by (rule second_byte_offset)
    have "found_in rest (262144 * x + 4096 * y + 64 * z + v) 4"
      unfolding r1 b(1) d(1) e(1) using second_byte [OF b(2,3)] x y z v by (intro found_four) simp_all
    then show ?thesis by blast
  qed
qed

end
