(* ===== verification/Keymap.thy ===== *)
theory Keymap
  imports Keys "HOL-Library.Char_ord" "HOL-Library.List_Lexorder" "HOL-Library.AList"
begin

text \<open>
  \<^verbatim>\<open>src/leshper/keymap.h\<close> and \<^verbatim>\<open>keymap.cpp\<close>: the canonical encoding of key events, the key
  notation, the sorted binding table, the keymap registry with its default tables, and resolution of
  a key sequence against the keymap stack.  A position into a \<open>string_view\<close> is the list of the
  bytes left; a function that appends to an output parameter returns what it appends.  Byte strings
  are ordered as \<open>std::string\<close> orders them, by unsigned byte.
\<close>

subsection \<open>Encoding\<close>

definition encoded_key_size :: nat where "encoded_key_size = 6"
definition kind_codepoint :: char where "kind_codepoint = CHR 0x01"
definition kind_named :: char where "kind_named = CHR 0x02"
definition modifier_shift :: nat where "modifier_shift = 1"
definition modifier_alt :: nat where "modifier_alt = 2"
definition modifier_ctrl :: nat where "modifier_ctrl = 4"
definition delete_character :: nat where "delete_character = 0x7F"

definition modifier_bits :: "key_modifiers \<Rightarrow> nat" where
  "modifier_bits m =
     (if km_shift m then modifier_shift else 0) OR (if km_alt m then modifier_alt else 0) OR
     (if km_ctrl m then modifier_ctrl else 0)"

definition modifiers_of :: "nat \<Rightarrow> key_modifiers" where
  "modifiers_of bits =
     \<lparr>km_shift = bits AND modifier_shift \<noteq> 0, km_alt = bits AND modifier_alt \<noteq> 0,
      km_ctrl = bits AND modifier_ctrl \<noteq> 0\<rparr>"

text \<open>The enumerators of \<open>named_key\<close> in order: a \<open>static_cast\<close> is an index or a look-up.\<close>

definition named_keys :: "named_key list" where
  "named_keys = [Backspace, Left, Right, Home, End, Up, Down, Page_up, Page_down, Insert, Delete_forward,
     F1, F2, F3, F4, F5, F6, F7, F8, F9, F10, F11, F12]"

definition named_index :: "named_key \<Rightarrow> nat" where
  "named_index k = length (takeWhile (\<lambda>j. j \<noteq> k) named_keys)"

definition last_named_key :: nat where "last_named_key = named_index F12"

definition big_endian :: "nat \<Rightarrow> string" where
  "big_endian v = [char_of (drop_bit 24 v AND 0xFF), char_of (drop_bit 16 v AND 0xFF),
     char_of (drop_bit 8 v AND 0xFF), char_of (v AND 0xFF)]"

lemma big_endian_div:
  "big_endian v = [char_of (v div 16777216 mod 256), char_of (v div 65536 mod 256), char_of (v div 256 mod 256), char_of (v mod 256)]"
  by (simp add: big_endian_def and_masks drop_bit_eq_div)

lemma big_endian_code [code]:
  "big_endian v = (if v < 256 then [CHR 0x00, CHR 0x00, CHR 0x00, char_of v]
     else [char_of (v div 16777216 mod 256), char_of (v div 65536 mod 256), char_of (v div 256 mod 256), char_of (v mod 256)])"
proof -
  have "char_of (0 :: nat) = CHR 0x00" by code_simp
  then show ?thesis by (simp add: big_endian_div)
qed

definition encode_key :: "key_event \<Rightarrow> string" where
  "encode_key key =
     [if ke_named key then kind_named else kind_codepoint, char_of (modifier_bits (ke_modifiers key))] @
     big_endian (if ke_named key then named_index (ke_name key) else ke_codepoint key)"

definition decode_key :: "string \<Rightarrow> (key_event \<times> string) option" where
  "decode_key encoded =
     (if length encoded < encoded_key_size then None
      else (let kind = encoded ! 0 in
        if kind \<noteq> kind_codepoint \<and> kind \<noteq> kind_named then None
        else (let v = push_bit 24 (ubyte (encoded ! 2)) OR push_bit 16 (ubyte (encoded ! 3)) OR
                      push_bit 8 (ubyte (encoded ! 4)) OR ubyte (encoded ! 5) in
          if kind = kind_named \<and> last_named_key < v then None
          else Some (if kind = kind_named then named_key_event (named_keys ! v) (modifiers_of (ubyte (encoded ! 1)))
                     else codepoint_key v (modifiers_of (ubyte (encoded ! 1))),
                     drop encoded_key_size encoded))))"

subsection \<open>Notation\<close>

definition is_ascii_letter :: "nat \<Rightarrow> bool" where
  "is_ascii_letter c \<longleftrightarrow> 0x61 \<le> c \<and> c \<le> 0x7A \<or> 0x41 \<le> c \<and> c \<le> 0x5A"

definition lowered :: "char \<Rightarrow> char" where
  "lowered b = (if 0x41 \<le> ubyte b \<and> ubyte b \<le> 0x5A then char_of (ubyte b - 0x41 + 0x61) else b)"

definition same_name :: "string \<Rightarrow> string \<Rightarrow> bool" where
  "same_name a b \<longleftrightarrow> length a = length b \<and> list_all2 (\<lambda>x y. lowered x = lowered y) a b"

definition named_spellings :: "(string \<times> named_key) list" where
  "named_spellings =
     [(''Up'', Up), (''Down'', Down), (''Left'', Left), (''Right'', Right), (''Home'', Home), (''End'', End),
      (''PageUp'', Page_up), (''PageDown'', Page_down), (''Insert'', Insert), (''Del'', Delete_forward),
      (''Delete'', Delete_forward), (''F1'', F1), (''F2'', F2), (''F3'', F3), (''F4'', F4), (''F5'', F5),
      (''F6'', F6), (''F7'', F7), (''F8'', F8), (''F9'', F9), (''F10'', F10), (''F11'', F11), (''F12'', F12),
      (''BSKey'', Backspace)]"

definition codepoint_spellings :: "(string \<times> nat) list" where
  "codepoint_spellings =
     [(''Space'', 0x20), (''Tab'', 9), (''CR'', 13), (''Enter'', 13), (''Return'', 13), (''NL'', 10), (''LF'', 10),
      (''Esc'', 0x1B), (''BS'', delete_character), (''Backspace'', delete_character), (''lt'', 0x3C),
      (''gt'', 0x3E), (''Bslash'', 0x5C)]"

definition control_of :: "nat \<Rightarrow> nat option" where
  "control_of c =
     (if is_ascii_letter c then Some (c AND 0x1F)
      else if c = 0x40 \<or> c = 0x20 then Some 0
      else if c = 0x5B then Some 0x1B
      else if c = 0x5C then Some 0x1C
      else if c = 0x5D then Some 0x1D
      else if c = 0x5E then Some 0x1E
      else if c = 0x5F then Some 0x1F
      else if c = 0x3F then Some delete_character
      else None)"

text \<open>\<open>next_scalar\<close> answers the scalar and how many bytes it took.\<close>

definition continues :: "string \<Rightarrow> nat \<Rightarrow> bool" where
  "continues rest i \<longleftrightarrow> i < length rest \<and> ubyte (rest ! i) AND 0xC0 = 0x80"

definition next_scalar :: "string \<Rightarrow> (nat \<times> nat) option" where
  "next_scalar rest =
     (if rest = [] then None
      else if ubyte (rest ! 0) < 0x80 then Some (ubyte (rest ! 0), 1)
      else if ubyte (rest ! 0) AND 0xE0 = 0xC0 \<and> continues rest 1 then
        Some (push_bit 6 (ubyte (rest ! 0) AND 0x1F) OR (ubyte (rest ! 1) AND 0x3F), 2)
      else if ubyte (rest ! 0) AND 0xF0 = 0xE0 \<and> continues rest 1 \<and> continues rest 2 then
        Some (push_bit 12 (ubyte (rest ! 0) AND 0x0F) OR push_bit 6 (ubyte (rest ! 1) AND 0x3F)
              OR (ubyte (rest ! 2) AND 0x3F), 3)
      else if ubyte (rest ! 0) AND 0xF8 = 0xF0 \<and> continues rest 1 \<and> continues rest 2 \<and> continues rest 3 then
        Some (push_bit 18 (ubyte (rest ! 0) AND 0x07) OR push_bit 12 (ubyte (rest ! 1) AND 0x3F)
              OR push_bit 6 (ubyte (rest ! 2) AND 0x3F) OR (ubyte (rest ! 3) AND 0x3F), 4)
      else None)"

text \<open>The loop over modifier prefixes of a group.\<close>

function strip_modifiers :: "string \<Rightarrow> key_modifiers \<Rightarrow> string \<times> key_modifiers" where
  "strip_modifiers body m =
    (if length body < 3 \<or> body ! 1 \<noteq> CHR ''-'' then (body, m)
     else if lowered (body ! 0) = CHR ''c'' then strip_modifiers (drop 2 body) (m\<lparr>km_ctrl := True\<rparr>)
     else if lowered (body ! 0) = CHR ''a'' \<or> lowered (body ! 0) = CHR ''m'' then
       strip_modifiers (drop 2 body) (m\<lparr>km_alt := True\<rparr>)
     else if lowered (body ! 0) = CHR ''s'' then strip_modifiers (drop 2 body) (m\<lparr>km_shift := True\<rparr>)
     else (body, m))"
  by pat_completeness auto

termination by (relation "measure (length \<circ> fst)") auto

declare strip_modifiers.simps [simp del]

fun spelling_of :: "(string \<times> 'a) list \<Rightarrow> string \<Rightarrow> 'a option" where
  "spelling_of [] body = None"
| "spelling_of ((spelled, what) # rows) body =
    (if same_name spelled body then Some what else spelling_of rows body)"

text \<open>What a group's codepoint means with its modifiers.\<close>

definition group_codepoint :: "nat \<Rightarrow> key_modifiers \<Rightarrow> string option" where
  "group_codepoint c m =
     (case (if km_shift m \<and> is_ascii_letter c then (c - (c AND 0x20), m\<lparr>km_shift := False\<rparr>) else (c, m)) of
        (c1, m1) \<Rightarrow>
          if km_ctrl m1 then
            (case control_of c1 of None \<Rightarrow> None
             | Some folded \<Rightarrow> Some (encode_key (codepoint_key folded (m1\<lparr>km_ctrl := False\<rparr>))))
          else Some (encode_key (codepoint_key c1 m1)))"

definition parse_group_body :: "string \<Rightarrow> string option" where
  "parse_group_body body0 =
     (case strip_modifiers body0 no_modifiers of (body, m) \<Rightarrow>
      if body = [] then None
      else (case spelling_of named_spellings body of
          Some key \<Rightarrow> Some (encode_key (named_key_event key m))
        | None \<Rightarrow>
          (case spelling_of codepoint_spellings body of
             Some c \<Rightarrow> group_codepoint c m
           | None \<Rightarrow>
             (case next_scalar body of
                None \<Rightarrow> None
              | Some (c, n) \<Rightarrow> if n \<noteq> length body then None else group_codepoint c m))))"

definition parse_angle_group :: "string \<Rightarrow> (string \<times> string) option" where
  "parse_angle_group rest =
     (let body = takeWhile (\<lambda>c. c \<noteq> CHR ''>'') rest in
      if length body = length rest \<or> body = [] then None
      else map_option (\<lambda>enc. (enc, drop (length body + 1) rest)) (parse_group_body body))"

lemma next_scalar_takes: "next_scalar rest = Some (c, n) \<Longrightarrow> 0 < n \<and> rest \<noteq> []"
  by (auto simp: next_scalar_def split: if_splits)

lemma parse_angle_group_less: "parse_angle_group rest = Some (enc, left) \<Longrightarrow> length left < length rest"
  by (cases rest) (auto simp: parse_angle_group_def Let_def split: if_splits)

text \<open>The loop of \<open>parse_key_notation\<close>.\<close>

function notation_loop :: "string \<Rightarrow> string \<Rightarrow> string option" where
  "notation_loop rest built =
    (if rest = [] then Some built
     else (case (if hd rest = CHR ''<'' then parse_angle_group (tl rest) else None) of
         Some (enc, left) \<Rightarrow> notation_loop left (built @ enc)
       | None \<Rightarrow>
         if hd rest = CHR ''<'' \<and> CHR ''>'' \<in> set rest then None
         else (case next_scalar rest of
             None \<Rightarrow> None
           | Some (c, n) \<Rightarrow> notation_loop (drop n rest) (built @ encode_key (codepoint_key c no_modifiers)))))"
  by pat_completeness auto

termination
proof (relation "measure (length \<circ> fst)", goal_cases)
  case (2 rest built)
  then show ?case using next_scalar_takes [of rest] by (cases rest) auto
next
  case (3 rest built)
  then show ?case by (cases rest) (auto dest!: parse_angle_group_less parse_angle_group_less [OF sym] split: if_splits)
qed simp

declare notation_loop.simps [simp del]

definition parse_key_notation :: "string \<Rightarrow> string option" where
  "parse_key_notation s =
     (if s = [] then None
      else (case notation_loop s [] of None \<Rightarrow> None | Some built \<Rightarrow> if built = [] then None else Some built))"

subsection \<open>Rendering\<close>

definition spelled_as :: "(string \<times> 'a) list \<Rightarrow> 'a \<Rightarrow> string" where
  "spelled_as rows what = (case find (\<lambda>r. snd r = what) rows of Some r \<Rightarrow> fst r | None \<Rightarrow> [])"

text \<open>The text of a key that is written as a group, without its brackets and modifiers.\<close>

definition rendered_body :: "key_event \<Rightarrow> string" where
  "rendered_body key =
     (let c = ke_codepoint key in
      if ke_named key then spelled_as named_spellings (ke_name key)
      else if c = 0x3C then ''lt''
      else if c = 0x20 then ''Space''
      else if c < 0x20 \<or> c = delete_character then
        (if \<exists>r \<in> set codepoint_spellings. snd r = c then spelled_as codepoint_spellings c
         else ''C-'' @ [if 1 \<le> c \<and> c \<le> 0x1A then char_of (c + 0x60) else char_of (c + 0x40)])
      else encode_utf8 c)"

definition rendered_key :: "key_event \<Rightarrow> string" where
  "rendered_key key =
     (if \<not> ke_named key \<and> ke_codepoint key \<noteq> 0x3C \<and> ke_codepoint key \<noteq> 0x20 \<and>
         \<not> (ke_codepoint key < 0x20 \<or> ke_codepoint key = delete_character) \<and> \<not> any (ke_modifiers key)
      then encode_utf8 (ke_codepoint key)
      else (let body = (if rendered_body key = [] then ''?'' else rendered_body key);
                prefix = (if km_ctrl (ke_modifiers key) then ''C-'' else []) @
                  (if km_alt (ke_modifiers key) then ''A-'' else []) @
                  (if km_shift (ke_modifiers key) then ''S-'' else [])
            in ''<'' @ prefix @ body @ ''>''))"

lemma decode_key_less: "decode_key s = Some (k, rest) \<Longrightarrow> length rest < length s"
  by (auto simp: decode_key_def Let_def encoded_key_size_def split: if_splits)

text \<open>Every reader of an encoded sequence runs \<open>decode_key\<close> until it refuses.\<close>

function decoded_keys :: "string \<Rightarrow> key_event list" where
  "decoded_keys s = (case decode_key s of None \<Rightarrow> [] | Some (k, rest) \<Rightarrow> k # decoded_keys rest)"
  by pat_completeness auto

termination by (relation "measure length") (auto dest: decode_key_less)

declare decoded_keys.simps [simp del]

definition render_key_notation :: "string \<Rightarrow> string" where
  "render_key_notation encoded = concat (map rendered_key (decoded_keys encoded))"

definition encoded_keys_as_text :: "string \<Rightarrow> string" where
  "encoded_keys_as_text encoded =
     concat (map (\<lambda>k. if \<not> ke_named k \<and> \<not> km_alt (ke_modifiers k) \<and> \<not> km_ctrl (ke_modifiers k)
                      then encode_utf8 (ke_codepoint k) else []) (decoded_keys encoded))"

definition encoded_keys_are_text :: "string \<Rightarrow> bool" where
  "encoded_keys_are_text encoded =
     (list_all (\<lambda>k. \<not> (ke_named k \<or> km_alt (ke_modifiers k) \<or> km_ctrl (ke_modifiers k))) (decoded_keys encoded)
      \<and> decoded_keys encoded \<noteq> [])"

subsection \<open>The table\<close>

record entry =
  en_keys :: string
  en_action :: string

record keymap =
  mp_entries :: "entry list"
  mp_opaque :: bool
  mp_default_action :: string
  mp_indicator :: string

definition keymap_init :: keymap where
  "keymap_init = \<lparr>mp_entries = [], mp_opaque = False, mp_default_action = [], mp_indicator = []\<rparr>"

text \<open>\<open>std::lower_bound\<close>: the binary search over \<open>[first, first + count)\<close>.\<close>

function lower_bound :: "entry list \<Rightarrow> string \<Rightarrow> nat \<Rightarrow> nat \<Rightarrow> nat" where
  "lower_bound es keys first count =
    (if count = 0 then first
     else if en_keys (es ! (first + count div 2)) < keys then
       lower_bound es keys (first + count div 2 + 1) (count - (count div 2 + 1))
     else lower_bound es keys first (count div 2))"
  by pat_completeness auto

termination by (relation "measure (\<lambda>(es, keys, first, count). count)") auto

declare lower_bound.simps [simp del]

definition search :: "entry list \<Rightarrow> string \<Rightarrow> nat" where
  "search es keys = lower_bound es keys 0 (length es)"

definition found_at :: "entry list \<Rightarrow> string \<Rightarrow> nat \<Rightarrow> bool" where
  "found_at es keys i \<longleftrightarrow> i \<noteq> length es \<and> en_keys (es ! i) = keys"

definition erase_at :: "'a list \<Rightarrow> nat \<Rightarrow> 'a list" where
  "erase_at xs i = take i xs @ drop (i + 1) xs"

definition insert_at :: "'a list \<Rightarrow> nat \<Rightarrow> 'a \<Rightarrow> 'a list" where
  "insert_at xs i x = take i xs @ x # drop i xs"

definition bind :: "string \<Rightarrow> string \<Rightarrow> keymap \<Rightarrow> keymap" where
  "bind keys action m =
     (if keys = [] then m
      else (let es = mp_entries m; i = search es keys in
        if found_at es keys i then
          (if action = [] then m\<lparr>mp_entries := erase_at es i\<rparr>
           else m\<lparr>mp_entries := es[i := (es ! i)\<lparr>en_action := action\<rparr>]\<rparr>)
        else if action = [] then m
        else m\<lparr>mp_entries := insert_at es i \<lparr>en_keys = keys, en_action = action\<rparr>\<rparr>))"

definition unbind :: "string \<Rightarrow> keymap \<Rightarrow> bool \<times> keymap" where
  "unbind keys m =
     (let es = mp_entries m; i = search es keys in
      if \<not> found_at es keys i then (False, m) else (True, m\<lparr>mp_entries := erase_at es i\<rparr>))"

definition action_for :: "keymap \<Rightarrow> string \<Rightarrow> string option" where
  "action_for m keys =
     (let es = mp_entries m; i = search es keys in
      if \<not> found_at es keys i then None else Some (en_action (es ! i)))"

definition has_longer :: "keymap \<Rightarrow> string \<Rightarrow> bool" where
  "has_longer m keys =
     (let es = mp_entries m; i = search es keys;
          j = (if found_at es keys i then i + 1 else i)
      in j \<noteq> length es \<and> starts_with (en_keys (es ! j)) keys)"

definition empty_keymap :: "keymap \<Rightarrow> bool" where
  "empty_keymap m \<longleftrightarrow> mp_entries m = []"

subsection \<open>The registry\<close>

type_synonym keymap_registry = "(string \<times> keymap) list"

definition find_keymap :: "keymap_registry \<Rightarrow> string \<Rightarrow> keymap option" where
  "find_keymap maps name = map_of maps name"

definition create :: "string \<Rightarrow> string \<Rightarrow> keymap_registry \<Rightarrow> keymap option \<times> keymap_registry" where
  "create name copy_from maps =
     (if name = [] then (None, maps)
      else if copy_from \<noteq> [] then
        (case find_keymap maps copy_from of
           None \<Rightarrow> (None, maps)
         | Some copied \<Rightarrow> (Some copied, AList.update name copied maps))
      else (Some keymap_init, AList.update name keymap_init maps))"

definition erase :: "string \<Rightarrow> keymap_registry \<Rightarrow> bool \<times> keymap_registry" where
  "erase name maps =
     (case find_keymap maps name of None \<Rightarrow> (False, maps) | Some m \<Rightarrow> (True, AList.delete name maps))"

definition names :: "keymap_registry \<Rightarrow> string list" where
  "names maps = sort (map fst maps)"

text \<open>A notation of a default table that did not parse would be an assertion failure.\<close>

definition bind_notation :: "string \<times> string \<Rightarrow> keymap \<Rightarrow> keymap" where
  "bind_notation row m = (case parse_key_notation (fst row) of Some keys \<Rightarrow> bind keys (snd row) m | None \<Rightarrow> m)"

definition vi_motions :: "(string \<times> string) list" where
  "vi_motions =
     [
      (''h'', ''vi_backward_char''), (''l'', ''vi_forward_char''), ('' '', ''vi_forward_char''),
      (''j'', ''vi_line_down''), (''k'', ''vi_line_up''), (''^'', ''vi_first_nonblank''),
      (''$'', ''end_of_line''), (''w'', ''vi_word_next''), (''b'', ''vi_word_prev''),
      (''e'', ''vi_word_end''), (''W'', ''vi_blank_word_next''), (''B'', ''vi_blank_word_prev''),
      (''E'', ''vi_blank_word_end''), (''f'', ''vi_find_forward''), (''F'', ''vi_find_backward''),
      (''t'', ''vi_till_forward''), (''T'', ''vi_till_backward''), ('';'', ''vi_find_repeat''),
      ('','', ''vi_find_repeat_reverse''), (''<Left>'', ''vi_backward_char''),
      (''<Right>'', ''vi_forward_char''), (''<Up>'', ''vi_line_up''), (''<Down>'', ''vi_line_down'')]"

definition accept_by_fallthrough :: "(string \<times> string) list" where
  "accept_by_fallthrough =
     [
      (''<Right>'', ''accept_suggestion_or_forward_char''),
      (''<C-f>'', ''accept_suggestion_or_forward_char''),
      (''<End>'', ''accept_suggestion_or_end_of_line''),
      (''<C-e>'', ''accept_suggestion_or_end_of_line''),
      (''<A-f>'', ''accept_suggestion_or_forward_word''),
      (''<A-Right>'', ''accept_suggestion_or_forward_word'')]"

definition vi_delimiters :: "string list" where
  "vi_delimiters = [''('', '')'', ''b'', ''['', '']'', ''{'', ''}'', ''B'', [CHR 0x22], [CHR 0x27], [CHR 0x60]]"

definition vi_objects :: "(string \<times> string) list" where
  "vi_objects =
     [
      (''iw'', ''vi_object_inner_word''), (''aw'', ''vi_object_a_word''),
      (''iW'', ''vi_object_inner_blank_word''), (''aW'', ''vi_object_a_blank_word'')] @
     concat (map (\<lambda>one. [(CHR ''i'' # one, ''vi_object_inner_pair''), (CHR ''a'' # one, ''vi_object_a_pair'')]) vi_delimiters)"

definition emacs_bindings :: "(string \<times> string) list" where
  "emacs_bindings =
     [
      (''<BS>'', ''delete_backward_char''), (''<C-h>'', ''delete_backward_char''),
      (''<BSKey>'', ''delete_backward_char''), (''<C-w>'', ''delete_backward_word''),
      (''<C-u>'', ''unix_line_discard''), (''<C-k>'', ''kill_line''), (''<C-a>'', ''beginning_of_line''),
      (''<C-b>'', ''backward_char''), (''<C-_>'', ''undo''), (''<Left>'', ''backward_char''),
      (''<Home>'', ''beginning_of_line'')] @
     accept_by_fallthrough @ [
      (''<C-y>'', ''yank'')]"

definition vi_insert_bindings :: "(string \<times> string) list" where
  "vi_insert_bindings =
     [
      (''<BS>'', ''delete_backward_char''), (''<C-h>'', ''delete_backward_char''),
      (''<BSKey>'', ''delete_backward_char''), (''<C-w>'', ''delete_backward_word''),
      (''<C-u>'', ''unix_line_discard''), (''<Left>'', ''backward_char''),
      (''<Home>'', ''beginning_of_line''), (''<Esc>'', ''vi_command_mode'')] @ accept_by_fallthrough"

definition vi_command_bindings :: "(string \<times> string) list" where
  "vi_command_bindings =
     vi_motions @ [
      (''0'', ''vi_digit_or_line_start''), (''1'', ''vi_digit_argument''),
      (''2'', ''vi_digit_argument''), (''3'', ''vi_digit_argument''), (''4'', ''vi_digit_argument''),
      (''5'', ''vi_digit_argument''), (''6'', ''vi_digit_argument''), (''7'', ''vi_digit_argument''),
      (''8'', ''vi_digit_argument''), (''9'', ''vi_digit_argument''), (''d'', ''vi_delete_operator''),
      (''c'', ''vi_change_operator''), (''y'', ''vi_yank_operator''), (''x'', ''vi_delete_char''),
      (''s'', ''vi_substitute_char''), (''r'', ''vi_replace_char''), (''~'', ''vi_toggle_case''),
      (''D'', ''vi_delete_to_line_end''), (''C'', ''vi_change_to_line_end''), (''Y'', ''vi_yank_line''),
      (''p'', ''vi_put_after''), (''P'', ''vi_put_before''), (''i'', ''vi_insert_mode''),
      (''I'', ''vi_insert_at_line_start''), (''a'', ''vi_append''), (''A'', ''vi_append_at_line_end''),
      (''o'', ''vi_open_below''), (''O'', ''vi_open_above''), (''v'', ''vi_visual_mode''),
      (''.'', ''vi_repeat''), (''<Esc>'', ''vi_normal_reset''), (''u'', ''undo''), (''<C-r>'', ''redo''),
      (''<Home>'', ''beginning_of_line''), (''<End>'', ''end_of_line''),
      (''w'', ''accept_suggestion_or_word_start_next''), (''e'', ''accept_suggestion_or_word_end_next'')]"

definition vi_pending_bindings :: "(string \<times> string) list" where
  "vi_pending_bindings =
     vi_motions @ vi_objects @ [
      (''0'', ''vi_digit_or_line_start''), (''1'', ''vi_digit_argument''),
      (''2'', ''vi_digit_argument''), (''3'', ''vi_digit_argument''), (''4'', ''vi_digit_argument''),
      (''5'', ''vi_digit_argument''), (''6'', ''vi_digit_argument''), (''7'', ''vi_digit_argument''),
      (''8'', ''vi_digit_argument''), (''9'', ''vi_digit_argument''), (''d'', ''vi_line_object''),
      (''c'', ''vi_line_object''), (''y'', ''vi_line_object''), (''<Esc>'', ''vi_operator_abort'')]"

definition vi_visual_bindings :: "(string \<times> string) list" where
  "vi_visual_bindings =
     vi_objects @ [
      (''d'', ''vi_visual_delete''), (''x'', ''vi_visual_delete''), (''c'', ''vi_visual_change''),
      (''s'', ''vi_visual_change''), (''y'', ''vi_visual_yank''), (''o'', ''vi_visual_swap_ends''),
      (''v'', ''vi_visual_exit''), (''<Esc>'', ''vi_visual_exit'')]"

definition pager_bindings :: "(string \<times> string) list" where
  "pager_bindings =
     [
      (''<Tab>'', ''pager_next''), (''<S-Tab>'', ''pager_previous''), (''<Right>'', ''pager_next''),
      (''<Left>'', ''pager_previous''), (''<Down>'', ''pager_next_row''),
      (''<Up>'', ''pager_previous_row''), (''<C-m>'', ''pager_accept''), (''<C-j>'', ''pager_accept''),
      (''<Esc>'', ''pager_close''), (''<C-g>'', ''pager_close''), (''<BS>'', ''pager_filter_backspace''),
      (''<C-h>'', ''pager_filter_backspace''), (''<BSKey>'', ''pager_filter_backspace'')]"


definition default_keymap :: "(string \<times> string) list \<Rightarrow> string \<Rightarrow> bool \<Rightarrow> string \<Rightarrow> keymap" where
  "default_keymap rows indicator opaque fallback =
     (fold bind_notation rows keymap_init)\<lparr>mp_indicator := indicator, mp_opaque := opaque, mp_default_action := fallback\<rparr>"

definition default_keymaps :: "(string \<times> (string \<times> string) list \<times> string \<times> bool \<times> string) list" where
  "default_keymaps =
     [(''emacs'', emacs_bindings, [], False, []),
      (''vi_insert'', vi_insert_bindings, ''INSERT'', False, []),
      (''vi_command'', vi_command_bindings, ''NORMAL'', True, []),
      (''vi_operator_pending'', vi_pending_bindings, ''PENDING'', True, []),
      (''vi_visual'', vi_visual_bindings, ''VISUAL'', False, []),
      (''vi_find_char'', [], [], True, ''vi_find_char_target''),
      (''vi_replace_char'', [], [], True, ''vi_replace_char_with''),
      (''pager'', pager_bindings, [], True, ''pager_filter_key'')]"

definition install_defaults :: "keymap_registry \<Rightarrow> keymap_registry" where
  "install_defaults maps =
     fold (\<lambda>(name, rows, indicator, opaque, fallback).
       AList.update name (default_keymap rows indicator opaque fallback)) default_keymaps maps"

subsection \<open>Resolution\<close>

definition is_self_inserting :: "key_event \<Rightarrow> bool" where
  "is_self_inserting key =
     (if ke_named key then False
      else if km_alt (ke_modifiers key) \<or> km_ctrl (ke_modifiers key) then False
      else 0x20 \<le> ke_codepoint key \<and> ke_codepoint key \<noteq> delete_character)"

record found =
  fd_exact :: "string option"
  fd_fallback :: "string option"
  fd_prefix :: bool
  fd_floored :: bool

definition found_init :: found where
  "found_init = \<lparr>fd_exact = None, fd_fallback = None, fd_prefix = False, fd_floored = True\<rparr>"

definition see_keymap :: "keymap \<Rightarrow> string \<Rightarrow> found \<Rightarrow> found" where
  "see_keymap m candidate seen =
     seen\<lparr>fd_exact := (if fd_exact seen = None then action_for m candidate else fd_exact seen),
          fd_prefix := (if \<not> fd_prefix seen then has_longer m candidate else fd_prefix seen),
          fd_fallback := (if fd_fallback seen = None \<and> mp_default_action m \<noteq> []
                          then Some (mp_default_action m) else fd_fallback seen)\<rparr>"

text \<open>The layers, topmost first.\<close>

fun walk_layers :: "keymap_registry \<Rightarrow> string list \<Rightarrow> string \<Rightarrow> found \<Rightarrow> found" where
  "walk_layers maps [] candidate seen = seen"
| "walk_layers maps (layer # below) candidate seen =
    (case find_keymap maps layer of
       None \<Rightarrow> walk_layers maps below candidate seen
     | Some m \<Rightarrow>
       (let seen1 = see_keymap m candidate seen in
        if mp_opaque m then seen1\<lparr>fd_floored := False\<rparr> else walk_layers maps below candidate seen1))"

definition walk_stack :: "keymap_registry \<Rightarrow> string list \<Rightarrow> string \<Rightarrow> found" where
  "walk_stack maps layers candidate = walk_layers maps (rev layers) candidate found_init"

datatype resolution = Unbound | Dispatch string | Hold

definition settle :: "found \<Rightarrow> string \<Rightarrow> bool \<Rightarrow> resolution" where
  "settle seen candidate printable =
     (case fd_exact seen of
        Some action \<Rightarrow> Dispatch action
      | None \<Rightarrow>
        if length candidate \<noteq> encoded_key_size then Unbound
        else (case fd_fallback seen of
            Some action \<Rightarrow> Dispatch action
          | None \<Rightarrow> if fd_floored seen \<and> printable then Dispatch ''self_insert'' else Unbound))"

definition resolve_keys :: "keymap_registry \<Rightarrow> string list \<Rightarrow> string \<Rightarrow> bool \<Rightarrow> resolution" where
  "resolve_keys maps layers candidate printable =
     (let seen = walk_stack maps layers candidate in
      if fd_prefix seen then Hold else settle seen candidate printable)"

definition resolve_expired_keys :: "keymap_registry \<Rightarrow> string list \<Rightarrow> string \<Rightarrow> resolution" where
  "resolve_expired_keys maps layers held =
     (let printable = (if length held = encoded_key_size
                       then (case decode_key held of Some (key, rest) \<Rightarrow> is_self_inserting key | None \<Rightarrow> False)
                       else False)
      in settle (walk_stack maps layers held) held printable)"

fun indicator_of_layers :: "keymap_registry \<Rightarrow> string list \<Rightarrow> string" where
  "indicator_of_layers maps [] = []"
| "indicator_of_layers maps (layer # below) =
    (case find_keymap maps layer of
       Some m \<Rightarrow> if mp_indicator m \<noteq> [] then mp_indicator m else indicator_of_layers maps below
     | None \<Rightarrow> indicator_of_layers maps below)"

definition indicator_of :: "keymap_registry \<Rightarrow> string list \<Rightarrow> string" where
  "indicator_of maps layers = indicator_of_layers maps (rev layers)"

end
