(* ===== verification/Glob.thy ===== *)
theory Glob
  imports Pattern "HOL-Library.Char_ord" "HOL-Library.List_Lexorder"
begin

text \<open>
  Pathname expansion (\<open>src/runtime/glob.cpp\<close>).  The directory reader and \<open>lstat\<close> are the
  arguments of the model: \<open>fs_list\<close> answers the entries of a directory, in the order \<open>readdir\<close>
  gives them, or nothing when it cannot be opened, and \<open>fs_lstat\<close> whether a path names an entry.
\<close>

datatype entry_type = DT_DIR | DT_LNK | DT_UNKNOWN | DT_OTHER

record filesystem =
  fs_list :: "string \<Rightarrow> (string \<times> entry_type) list option"
  fs_lstat :: "string \<Rightarrow> bool"

definition slash_joined :: "string \<Rightarrow> string" where
  "slash_joined dir = (if dir \<noteq> [] \<and> last dir \<noteq> CHR ''/'' then dir @ ''/'' else dir)"

definition leads_on :: "entry_type \<Rightarrow> bool" where
  "leads_on ty \<longleftrightarrow> ty = DT_DIR \<or> ty = DT_LNK \<or> ty = DT_UNKNOWN"

definition expand_component :: "filesystem \<Rightarrow> string \<Rightarrow> bool \<Rightarrow> string \<Rightarrow> string list" where
  "expand_component fs component is_last dir =
     (case fs_list fs (if dir = [] then ''.'' else dir) of
        None \<Rightarrow> []
      | Some entries \<Rightarrow>
          map (\<lambda>name. slash_joined dir @ name)
            (sort (map fst (filter (\<lambda>(name, ty). pattern_match component name True \<and> (is_last \<or> leads_on ty))
              entries))))"

definition literal_component :: "filesystem \<Rightarrow> string \<Rightarrow> bool \<Rightarrow> string \<Rightarrow> string list" where
  "literal_component fs component is_last dir =
     (case slash_joined dir @ remove_pattern_escapes component of full \<Rightarrow>
      if is_last \<and> \<not> fs_lstat fs full then [] else [full])"

definition extend_path :: "filesystem \<Rightarrow> string \<Rightarrow> bool \<Rightarrow> string \<Rightarrow> string list" where
  "extend_path fs component is_last dir =
     (if is_pattern component then expand_component fs component is_last dir
      else literal_component fs component is_last dir)"

text \<open>The loop over the components; \<open>rest\<close> is the pattern from \<open>at\<close> on.\<close>

function walk_components :: "filesystem \<Rightarrow> string list \<Rightarrow> string \<Rightarrow> string list" where
  "walk_components fs current rest =
     (case takeWhile (\<lambda>c. c \<noteq> CHR ''/'') rest of component \<Rightarrow>
      (case dropWhile (\<lambda>c. c \<noteq> CHR ''/'') rest of
         [] \<Rightarrow> (if component = [] then current else concat (map (extend_path fs component True) current))
       | slash # after \<Rightarrow>
           walk_components fs
             (if component = [] then current else concat (map (extend_path fs component False) current)) after))"
  by pat_completeness auto

termination
proof (relation "measure (\<lambda>(fs, current, rest). length rest)", goal_cases)
  case (2 fs current rest slash after)
  then have "length (slash # after) \<le> length rest" by (metis length_dropWhile_le)
  then show ?case by simp
qed simp

declare walk_components.simps [simp del]

definition expand_pathnames :: "filesystem \<Rightarrow> string \<Rightarrow> string \<Rightarrow> string list option" where
  "expand_pathnames fs pat quote_removed =
     (if \<not> is_pattern pat then None
      else case (if hd pat = CHR ''/'' then walk_components fs [''/''] (tl pat) else walk_components fs [[]] pat) of paths \<Rightarrow>
        (case (if last pat = CHR ''/'' then map (\<lambda>path. if path = [] \<or> last path \<noteq> CHR ''/'' then path @ ''/'' else path) paths
               else paths) of finished \<Rightarrow>
         if finished = [] then Some [quote_removed] else Some finished))"

subsection \<open>The pathnames a pattern names\<close>



function components :: "string \<Rightarrow> string list" where
  "components s =
     (case dropWhile (\<lambda>c. c \<noteq> CHR ''/'') s of
        [] \<Rightarrow> [takeWhile (\<lambda>c. c \<noteq> CHR ''/'') s]
      | slash # rest \<Rightarrow> takeWhile (\<lambda>c. c \<noteq> CHR ''/'') s # components rest)"
  by pat_completeness auto

termination
proof (relation "measure length", goal_cases)
  case (2 s slash rest)
  then have "length (slash # rest) \<le> length s" by (metis length_dropWhile_le)
  then show ?case by simp
qed simp

declare components.simps [simp del]

lemma components_nonempty [simp]: "components s \<noteq> []"
  by (subst components.simps) (simp split: list.split)




text \<open>A pathname expansion that a pattern starts always leaves at least one field.\<close>

lemma expand_pathnames_nonempty: "expand_pathnames fs pat field = Some paths \<Longrightarrow> paths \<noteq> []"
  by (auto simp: expand_pathnames_def Let_def split: if_splits)





end
