(* ===== verification/Lexer.thy ===== *)
theory Lexer
  imports Numeric CharUtils
begin

text \<open>
  \<^verbatim>\<open>src/syntax/token.h\<close>, \<^verbatim>\<open>lexer.h\<close> and \<^verbatim>\<open>lexer.cpp\<close>: the tokens, the scans that find where a
  quoted run or an expansion ends, the here-document delimiter and \<open>$'...'\<close> decoding, and the lexer
  itself in all its modes.  A lexer is the source it reads, a position in it and the \<open>incomplete\<close>
  flag; the source and its offsets are shorter than 2 to the 32, so an offset is a \<open>nat\<close>.  A loop
  that advances one byte at a time is \<open>seek\<close>; the other loops are recursive functions with the
  distance to the end of the source as their measure.
\<close>

unbundle bit_operations_syntax

text \<open>Positions are written \<open>p + 1\<close>, as in the code, and stay so.\<close>

declare One_nat_def [simp del]

subsection \<open>Tokens\<close>

datatype token_kind =
    T_end | T_newline | T_word | T_io_number | T_comment
  | T_pipe | T_and_if | T_or_if | T_semi | T_dsemi | T_semi_and | T_amp | T_lparen | T_rparen
  | T_less | T_great | T_dless | T_dgreat | T_dless_dash | T_less_and | T_great_and | T_less_great | T_clobber
  | Seg_literal | Seg_single_quoted | Seg_dollar_single_quoted | Seg_double_quoted | Seg_parameter
  | Seg_command_sub | Seg_arithmetic | Seg_tilde

datatype token_error =
    No_error | Unterminated_single_quote | Unterminated_double_quote | Unterminated_backquote
  | Unterminated_command_sub | Unterminated_arithmetic | Unterminated_parameter_expansion | Unexpected_byte

fun error_phrase :: "token_error \<Rightarrow> string option" where
  "error_phrase Unterminated_single_quote = Some ''unterminated quoted string''"
| "error_phrase Unterminated_double_quote = Some ''unterminated quoted string''"
| "error_phrase Unterminated_backquote = Some ''unterminated command substitution''"
| "error_phrase Unterminated_command_sub = Some ''unterminated command substitution''"
| "error_phrase Unterminated_arithmetic = Some ''unterminated arithmetic expansion''"
| "error_phrase Unterminated_parameter_expansion = Some ''unterminated parameter expansion''"
| "error_phrase Unexpected_byte = None"
| "error_phrase No_error = None"

text \<open>The bits of \<open>token_flags\<close> the lexer sets are fields of their own.\<close>

record token =
  tk_offset :: nat
  tk_length :: nat
  tk_error_offset :: nat
  tk_kind :: token_kind
  tk_error :: token_error
  tk_literal :: bool
  tk_preceded_by_blank :: bool

definition end_offset :: "token \<Rightarrow> nat" where
  "end_offset t = tk_offset t + tk_length t"

datatype lex_mode =
    Command | Word_interior | Assignment_interior | Double_quote_interior | Here_doc_body | Here_doc_delimiter

subsection \<open>Bytes\<close>

abbreviation backslash :: char where "backslash \<equiv> CHR 0x5C"
abbreviation newline :: char where "newline \<equiv> CHR 0x0A"
abbreviation tab :: char where "tab \<equiv> CHR 0x09"
abbreviation single_quote :: char where "single_quote \<equiv> CHR 0x27"
abbreviation double_quote :: char where "double_quote \<equiv> CHR 0x22"
abbreviation backquote :: char where "backquote \<equiv> CHR 0x60"

definition is_blank_char :: "char \<Rightarrow> bool" where
  "is_blank_char c \<longleftrightarrow> c = CHR '' '' \<or> c = tab"

definition is_digit_char :: "char \<Rightarrow> bool" where
  "is_digit_char c \<longleftrightarrow> c \<in> set ''0123456789''"

definition needs_expansion :: "char \<Rightarrow> bool" where
  "needs_expansion c \<longleftrightarrow>
     c \<in> set [CHR ''$'', backquote, backslash, single_quote, double_quote, CHR ''~'', CHR ''*'', CHR ''?'', CHR ''['']"

definition is_word_terminator :: "char \<Rightarrow> bool" where
  "is_word_terminator c \<longleftrightarrow>
     c \<in> set [CHR 0x00, CHR '' '', tab, newline, CHR ''|'', CHR ''&'', CHR '';'', CHR ''('', CHR '')'', CHR ''<'', CHR ''>'']"

text \<open>\<open>char_at\<close> answers NUL past the end of the source.\<close>

definition char_at :: "string \<Rightarrow> nat \<Rightarrow> char" where
  "char_at s at = (if at < length s then s ! at else CHR 0x00)"

function past_continuations :: "string \<Rightarrow> nat \<Rightarrow> nat" where
  "past_continuations s at =
    (if at + 1 < length s \<and> s ! at = backslash \<and> s ! (at + 1) = newline then past_continuations s (at + 2) else at)"
  by pat_completeness auto

termination by (relation "measure (\<lambda>(s, at). length s - at)") auto

declare past_continuations.simps [simp del]

text \<open>The first position from \<open>p\<close> on whose byte satisfies a test, or the end of the source.\<close>

definition seek :: "string \<Rightarrow> (char \<Rightarrow> bool) \<Rightarrow> nat \<Rightarrow> nat" where
  "seek s stops p = p + length (takeWhile (\<lambda>c. \<not> stops c) (drop p s))"

text \<open>The same for one closing byte, where a backslash takes the byte after it along.\<close>

function seek_unescaped :: "string \<Rightarrow> char \<Rightarrow> nat \<Rightarrow> nat" where
  "seek_unescaped s q p =
    (if p < length s \<and> s ! p \<noteq> q then
       (if s ! p = backslash \<and> p + 1 < length s then seek_unescaped s q (p + 2) else seek_unescaped s q (p + 1))
     else p)"
  by pat_completeness auto

termination by (relation "measure (\<lambda>(s, q, p). length s - p)") auto

declare seek_unescaped.simps [simp del]

text \<open>Past the closing byte, when there is one.\<close>

definition past_closer :: "string \<Rightarrow> nat \<Rightarrow> nat" where
  "past_closer s p = (if p < length s then p + 1 else p)"

lemma past_continuations_ge: "at \<le> past_continuations s at"
  by (induction s at rule: past_continuations.induct) (subst past_continuations.simps, auto)

lemma past_continuations_le: "past_continuations s at \<le> max at (length s)"
proof (induction s at rule: past_continuations.induct)
  case (1 s at)
  then show ?case by (subst past_continuations.simps) (auto simp: max_def split: if_splits)
qed

lemma seek_ge: "p \<le> seek s f p"
  by (simp add: seek_def)

lemma seek_le: "seek s f p \<le> max p (length s)"
  using length_takeWhile_le [of "\<lambda>c. \<not> f c" "drop p s"] by (cases "p \<le> length s") (simp_all add: seek_def)

lemma seek_unescaped_ge: "p \<le> seek_unescaped s q p"
  by (induction s q p rule: seek_unescaped.induct) (subst seek_unescaped.simps, auto)

lemma seek_unescaped_le: "seek_unescaped s q p \<le> max p (length s)"
proof (induction s q p rule: seek_unescaped.induct)
  case (1 s q p)
  then show ?case by (subst seek_unescaped.simps) (auto simp: max_def split: if_splits)
qed

lemma past_closer_bounds: "p \<le> past_closer s p" "past_closer s p \<le> max p (length s)"
  by (auto simp: past_closer_def)

subsection \<open>ANSI-C escapes\<close>

record ansi_c_step =
  ac_bytes :: "nat list"
  ac_consumed :: nat
  ac_truncates :: bool

definition ansi_one :: "nat \<Rightarrow> nat \<Rightarrow> ansi_c_step" where
  "ansi_one b used =
     (if b = 0 then \<lparr>ac_bytes = [], ac_consumed = used, ac_truncates = True\<rparr>
      else \<lparr>ac_bytes = [b], ac_consumed = used, ac_truncates = False\<rparr>)"

definition ansi_two :: "nat \<Rightarrow> nat \<Rightarrow> ansi_c_step" where
  "ansi_two a b = \<lparr>ac_bytes = [a, b], ac_consumed = 2, ac_truncates = False\<rparr>"

definition simple_escapes :: "(char \<times> nat) list" where
  "simple_escapes =
     [(CHR ''a'', 7), (CHR ''b'', 8), (CHR ''f'', 12), (CHR ''n'', 10), (CHR ''r'', 13), (CHR ''t'', 9), (CHR ''v'', 11),
      (backslash, 0x5C), (single_quote, 0x27), (double_quote, 0x22), (CHR ''e'', 0x1B), (CHR ''E'', 0x1B)]"

definition decode_ansi_hex :: "string \<Rightarrow> nat \<Rightarrow> ansi_c_step" where
  "decode_ansi_hex body at =
     (case scan_digits (substr body (at + 2) 2) 16 0xFF of run \<Rightarrow>
      if dr_consumed run = 0 then ansi_two 0x5C (ubyte (CHR ''x''))
      else ansi_one (unat (dr_value run) mod 256) (2 + dr_consumed run))"

definition decode_ansi_octal :: "string \<Rightarrow> nat \<Rightarrow> ansi_c_step" where
  "decode_ansi_octal body at =
     (case scan_digits (substr body (at + 1) 3) 8 0x1FF of run \<Rightarrow>
      ansi_one (unat (dr_value run AND 0xFF) mod 256) (1 + dr_consumed run))"

definition upper_byte :: "nat \<Rightarrow> nat" where
  "upper_byte x = (if 97 \<le> x \<and> x \<le> 122 then x - 32 else x)"

definition decode_ansi_control :: "string \<Rightarrow> nat \<Rightarrow> ansi_c_step" where
  "decode_ansi_control body at =
     (if length body \<le> at + 2 then ansi_two 0x5C (ubyte (CHR ''c''))
      else ansi_one (upper_byte (ubyte (body ! (at + 2))) XOR 0x40)
        (if body ! (at + 2) = backslash \<and> at + 3 < length body \<and> body ! (at + 3) = backslash then 4 else 3))"

definition decode_ansi_c_escape :: "string \<Rightarrow> nat \<Rightarrow> ansi_c_step" where
  "decode_ansi_c_escape body at =
     (if body ! at \<noteq> backslash \<or> length body \<le> at + 1 then ansi_one (ubyte (body ! at)) 1
      else (case map_of simple_escapes (body ! (at + 1)) of
          Some b \<Rightarrow> ansi_one b 2
        | None \<Rightarrow>
          if body ! (at + 1) = CHR ''x'' then decode_ansi_hex body at
          else if body ! (at + 1) \<in> set ''01234567'' then decode_ansi_octal body at
          else if body ! (at + 1) = CHR ''c'' then decode_ansi_control body at
          else ansi_two 0x5C (ubyte (body ! (at + 1)))))"

lemma scan_digits_loop_consumed: "dr_consumed (scan_digits_loop digits base limit run) \<le> dr_consumed run + length digits"
proof (induction digits arbitrary: run)
  case (Cons c digits)
  show ?case
  proof (cases "digit_value c base < 0")
    case True
    then show ?thesis by simp
  next
    case False
    obtain ok v where acc: "accumulate_digit (dr_value run) (word_of_int (digit_value c base)) base limit = (ok, v)"
      by (cases "accumulate_digit (dr_value run) (word_of_int (digit_value c base)) base limit")
    show ?thesis
      using False Cons.IH [of "run\<lparr>dr_consumed := Suc (dr_consumed run), dr_value := v, dr_overflowed := dr_overflowed run \<or> \<not> ok\<rparr>"]
      by (simp add: acc)
  qed
qed simp

lemma scan_digits_consumed: "dr_consumed (scan_digits digits base limit) \<le> length digits"
  using scan_digits_loop_consumed [of digits base limit "\<lparr>dr_consumed = 0, dr_value = 0, dr_overflowed = False\<rparr>"]
  by (simp add: scan_digits_def)

lemma ansi_step_simps [simp]:
  "ac_consumed (ansi_one b used) = used" "ac_consumed (ansi_two a b) = 2"
  by (simp_all add: ansi_one_def ansi_two_def)

text \<open>A step uses at least one byte and none past the end, so a decoding loop ends.\<close>

lemma substr_length: "a \<le> length s \<Longrightarrow> a + length (substr s a n) \<le> length s"
  by (simp add: substr_def)

lemma decode_ansi_parts:
  assumes "at + 2 \<le> length body"
  shows "0 < ac_consumed (decode_ansi_hex body at)" "at + ac_consumed (decode_ansi_hex body at) \<le> length body"
    "0 < ac_consumed (decode_ansi_octal body at)" "at + ac_consumed (decode_ansi_octal body at) \<le> length body"
    "0 < ac_consumed (decode_ansi_control body at)" "at + ac_consumed (decode_ansi_control body at) \<le> length body"
proof -
  note hex = le_trans [OF add_left_mono [OF scan_digits_consumed] substr_length [OF assms], of 2 16 "0xFF"]
  have "at + 1 \<le> length body" using assms by simp
  note oct = le_trans [OF add_left_mono [OF scan_digits_consumed] substr_length [OF this], of 3 8 "0x1FF"]
  show "0 < ac_consumed (decode_ansi_hex body at)" "at + ac_consumed (decode_ansi_hex body at) \<le> length body"
    using assms hex by (simp_all only: decode_ansi_hex_def ansi_step_simps split: if_split) simp_all
  show "0 < ac_consumed (decode_ansi_octal body at)" "at + ac_consumed (decode_ansi_octal body at) \<le> length body"
    using oct by (simp_all add: decode_ansi_octal_def del: One_nat_def)
  show "0 < ac_consumed (decode_ansi_control body at)" "at + ac_consumed (decode_ansi_control body at) \<le> length body"
    using assms by (simp_all add: decode_ansi_control_def)
qed

lemma decode_step_progress:
  assumes "at < length body"
  shows "0 < ac_consumed (decode_ansi_c_escape body at)" "at + ac_consumed (decode_ansi_c_escape body at) \<le> length body"
proof -
  have "0 < ac_consumed (decode_ansi_c_escape body at) \<and> at + ac_consumed (decode_ansi_c_escape body at) \<le> length body"
  proof (cases "body ! at \<noteq> backslash \<or> length body \<le> at + 1")
    case True
    then show ?thesis using assms by (simp only: decode_ansi_c_escape_def if_True ansi_step_simps) simp
  next
    case False
    then have more: "at + 2 \<le> length body" by simp
    show ?thesis
    proof (cases "map_of simple_escapes (body ! (at + 1))")
      case None
      show ?thesis unfolding decode_ansi_c_escape_def if_not_P [OF False] None option.case
        using decode_ansi_parts [OF more] more by (simp only: ansi_step_simps split: if_split) simp
    next
      case (Some b)
      show ?thesis unfolding decode_ansi_c_escape_def if_not_P [OF False] Some option.case using more by simp
    qed
  qed
  then show "0 < ac_consumed (decode_ansi_c_escape body at)" "at + ac_consumed (decode_ansi_c_escape body at) \<le> length body"
    by simp_all
qed

subsection \<open>Here-document delimiters\<close>

text \<open>
  The comparison walks the spelled delimiter and the line together; what is left of each is the list
  of its bytes.  A quoted part answers \<open>Inl\<close> when it settles the whole question.
\<close>

definition eat :: "string \<Rightarrow> string \<Rightarrow> string option" where
  "eat expected line = (if starts_with line expected then Some (drop (length expected) line) else None)"

function match_ansi :: "string \<Rightarrow> string \<Rightarrow> bool + (string \<times> string)" where
  "match_ansi raw line =
    (if raw = [] then Inl False
     else if hd raw = single_quote then Inr (tl raw, line)
     else if ac_truncates (decode_ansi_c_escape raw 0) then Inl (line = [])
     else (case eat (map char_of (ac_bytes (decode_ansi_c_escape raw 0))) line of
         None \<Rightarrow> Inl False
       | Some left \<Rightarrow> match_ansi (drop (ac_consumed (decode_ansi_c_escape raw 0)) raw) left))"
  by pat_completeness auto

termination
  using decode_step_progress(1) [of 0] by (relation "measure (\<lambda>(raw, line). length raw)") auto

declare match_ansi.simps [simp del]

fun match_single :: "string \<Rightarrow> string \<Rightarrow> (string \<times> string) option" where
  "match_single [] line = None"
| "match_single (c # raw) line =
    (if c = single_quote then Some (raw, line)
     else (case eat [c] line of None \<Rightarrow> None | Some left \<Rightarrow> match_single raw left))"

definition double_quote_escapes :: "string \<Rightarrow> bool" where
  "double_quote_escapes raw \<longleftrightarrow>
     (case raw of c # d # _ \<Rightarrow> c = backslash \<and> (d = CHR ''$'' \<or> d = backquote \<or> d = double_quote \<or> d = backslash) | _ \<Rightarrow> False)"

function match_double :: "string \<Rightarrow> string \<Rightarrow> (string \<times> string) option" where
  "match_double raw line =
    (if raw = [] then None
     else if hd raw = double_quote then Some (tl raw, line)
     else if double_quote_escapes raw then
       (case eat [raw ! 1] line of None \<Rightarrow> None | Some left \<Rightarrow> match_double (drop 2 raw) left)
     else (case eat [hd raw] line of None \<Rightarrow> None | Some left \<Rightarrow> match_double (tl raw) left))"
  by pat_completeness auto

termination
proof (relation "measure (\<lambda>(raw, line). length raw)", goal_cases)
  case (2 raw line left)
  then show ?case by (cases raw) auto
qed auto

declare match_double.simps [simp del]

lemma match_ansi_shorter: "match_ansi raw line = Inr (r, l) \<Longrightarrow> length r < length raw"
proof (induction raw line rule: match_ansi.induct)
  case (1 raw line)
  show ?case
  proof (cases "raw = [] \<or> hd raw = single_quote \<or> ac_truncates (decode_ansi_c_escape raw 0)")
    case True
    then show ?thesis using 1(2) by (subst (asm) match_ansi.simps) (cases raw; auto split: if_splits)
  next
    case False
    then obtain left where left: "eat (map char_of (ac_bytes (decode_ansi_c_escape raw 0))) line = Some left"
      "match_ansi (drop (ac_consumed (decode_ansi_c_escape raw 0)) raw) left = Inr (r, l)"
      using 1(2) by (subst (asm) match_ansi.simps) (auto split: option.splits)
    have "length r < length (drop (ac_consumed (decode_ansi_c_escape raw 0)) raw)"
      by (rule 1(1) [OF _ _ _ left]) (use False in auto)
    then show ?thesis by simp
  qed
qed

lemma match_single_shorter: "match_single raw line = Some (r, l) \<Longrightarrow> length r < length raw"
  by (induction raw line rule: match_single.induct) (auto split: if_splits option.splits)

lemma match_double_shorter: "match_double raw line = Some (r, l) \<Longrightarrow> length r < length raw"
proof (induction raw line rule: match_double.induct)
  case (1 raw line)
  show ?case
  proof (cases "raw = [] \<or> hd raw = double_quote")
    case True
    then show ?thesis using 1(3) by (subst (asm) match_double.simps) (cases raw; auto split: if_splits)
  next
    case False
    then obtain c rest where raw: "raw = c # rest" by (cases raw) auto
    show ?thesis
    proof (cases "double_quote_escapes raw")
      case True
      then obtain left where left: "eat [raw ! 1] line = Some left" "match_double (drop 2 raw) left = Some (r, l)"
        using 1(3) False by (subst (asm) match_double.simps) (auto split: option.splits)
      have "length r < length (drop 2 raw)" by (rule 1(1) [OF _ _ True left]) (use False in auto)
      then show ?thesis by simp
    next
      case plain: False
      then obtain left where left: "eat [hd raw] line = Some left" "match_double (tl raw) left = Some (r, l)"
        using 1(3) False by (subst (asm) match_double.simps) (auto split: option.splits)
      have "length r < length (tl raw)" by (rule 1(2) [OF _ _ plain left]) (use False in auto)
      then show ?thesis by simp
    qed
  qed
qed

function here_doc_delimiter_matches :: "string \<Rightarrow> string \<Rightarrow> bool" where
  "here_doc_delimiter_matches raw line =
    (case raw of
       [] \<Rightarrow> line = []
     | c # rest \<Rightarrow>
       if c = backslash \<and> rest \<noteq> [] \<and> hd rest = newline then here_doc_delimiter_matches (tl rest) line
       else if c = CHR ''$'' \<and> rest \<noteq> [] \<and> hd rest = single_quote then
         (case match_ansi (tl rest) line of
            Inl answer \<Rightarrow> answer
          | Inr (r, l) \<Rightarrow> here_doc_delimiter_matches r l)
       else if c = single_quote then
         (case match_single rest line of None \<Rightarrow> False | Some (r, l) \<Rightarrow> here_doc_delimiter_matches r l)
       else if c = double_quote then
         (case match_double rest line of None \<Rightarrow> False | Some (r, l) \<Rightarrow> here_doc_delimiter_matches r l)
       else if c = backslash then
         (if rest = [] then False
          else (case eat [hd rest] line of None \<Rightarrow> False | Some l \<Rightarrow> here_doc_delimiter_matches (tl rest) l))
       else (case eat [c] line of None \<Rightarrow> False | Some l \<Rightarrow> here_doc_delimiter_matches rest l))"
  by pat_completeness auto

termination
proof (relation "measure (\<lambda>(raw, line). length raw)", goal_cases)
  case (2 raw line c rest)
  then show ?case by (cases rest) auto
next
  case (3 raw line c rest a r l)
  then show ?case using match_ansi_shorter [of "tl rest" line r l] by (cases rest) auto
next
  case (4 raw line c rest a r l)
  then show ?case using match_single_shorter [of rest line r l] by auto
next
  case (5 raw line c rest a r l)
  then show ?case using match_double_shorter [of rest line r l] by auto
next
  case (6 raw line c rest l)
  then show ?case by (cases rest) auto
qed auto

declare here_doc_delimiter_matches.simps [simp del]

subsection \<open>Where a quoted run or an expansion ends\<close>

text \<open>The runs without nesting answer the position after them and whether they were closed.\<close>

definition skip_dollar_single_quote :: "string \<Rightarrow> nat \<Rightarrow> nat \<times> bool" where
  "skip_dollar_single_quote s at =
     (case seek_unescaped s single_quote (at + 2) of p \<Rightarrow> if p < length s then (p + 1, True) else (p, False))"

definition skip_single_quote :: "string \<Rightarrow> nat \<Rightarrow> nat \<times> bool" where
  "skip_single_quote s at =
     (case seek s (\<lambda>c. c = single_quote) (at + 1) of p \<Rightarrow> if p < length s then (p + 1, True) else (p, False))"

definition starts_a_word :: "string \<Rightarrow> nat \<Rightarrow> nat \<Rightarrow> bool" where
  "starts_a_word s p base \<longleftrightarrow>
     p \<le> base \<or>
     s ! (p - 1) \<in> set [CHR '' '', tab, newline, CHR '';'', CHR ''&'', CHR ''|'', CHR ''('', CHR '')'']"

fun back_while :: "string \<Rightarrow> (char \<Rightarrow> bool) \<Rightarrow> nat \<Rightarrow> nat \<Rightarrow> nat" where
  "back_while s goes base 0 = 0"
| "back_while s goes base (Suc q) =
    (if base < Suc q \<and> goes (s ! q) then back_while s goes base q else Suc q)"

definition introduces_command :: "string \<Rightarrow> bool" where
  "introduces_command word \<longleftrightarrow> word \<in> set [''then'', ''else'', ''elif'', ''do'', ''{'', ''!'']"

definition starts_a_command :: "string \<Rightarrow> nat \<Rightarrow> nat \<Rightarrow> bool" where
  "starts_a_command s p base \<longleftrightarrow>
     (case back_while s is_blank_char base p of q \<Rightarrow>
       q \<le> base \<or>
       s ! (q - 1) \<in> set [newline, CHR '';'', CHR ''&'', CHR ''|'', CHR ''('', CHR '')''] \<or>
       (case back_while s (\<lambda>c. \<not> is_word_terminator c) base q of w \<Rightarrow> introduces_command (substr s w (q - w))))"

record level =
  lv_closer :: char
  lv_ordinary_single :: bool
  lv_arithmetic :: bool
  lv_awaiting_in :: nat
  lv_open_cases :: nat

record pending_here_doc =
  ph_offset :: nat
  ph_length :: nat
  ph_at_depth :: nat
  ph_strip_tabs :: bool

text \<open>The scan: its position, the open levels and the pending here-documents, both latest first.\<close>

record scan =
  sc_at :: nat
  sc_stack :: "level list"
  sc_pending :: "pending_here_doc list"
  sc_too_deep :: bool

definition kMaxScanNesting :: nat where "kMaxScanNesting = 256"
definition kMaxPendingHereDocs :: nat where "kMaxPendingHereDocs = 16"

definition scan_init :: "nat \<Rightarrow> scan" where
  "scan_init at = \<lparr>sc_at = at, sc_stack = [], sc_pending = [], sc_too_deep = False\<rparr>"

definition open_level :: "char \<Rightarrow> nat \<Rightarrow> bool \<Rightarrow> bool \<Rightarrow> scan \<Rightarrow> scan" where
  "open_level closer after single_is_ordinary arithmetic st =
     (if length (sc_stack st) < kMaxScanNesting then
        st\<lparr>sc_at := after,
           sc_stack := \<lparr>lv_closer = closer, lv_ordinary_single = single_is_ordinary, lv_arithmetic = arithmetic,
                        lv_awaiting_in = 0, lv_open_cases = 0\<rparr> # sc_stack st\<rparr>
      else st\<lparr>sc_at := after, sc_too_deep := True\<rparr>)"

definition close_level :: "scan \<Rightarrow> scan" where
  "close_level st =
     st\<lparr>sc_at := sc_at st + 1, sc_stack := tl (sc_stack st),
        sc_pending := dropWhile (\<lambda>h. length (tl (sc_stack st)) < ph_at_depth h) (sc_pending st)\<rparr>"

definition command_list :: "level \<Rightarrow> bool" where
  "command_list cur \<longleftrightarrow> lv_closer cur = CHR '')'' \<and> \<not> lv_arithmetic cur"

definition open_expansion :: "string \<Rightarrow> nat \<Rightarrow> bool \<Rightarrow> scan \<Rightarrow> scan option" where
  "open_expansion s after_dollar ordinary st =
     (if char_at s after_dollar = CHR ''{'' then Some (open_level (CHR ''}'') (after_dollar + 1) ordinary False st)
      else if char_at s after_dollar = CHR ''('' then
        Some (open_level (CHR '')'') (after_dollar + 1) False
                (char_at s (past_continuations s (after_dollar + 1)) = CHR ''('') st)
      else None)"

definition scan_dollar :: "string \<Rightarrow> level \<Rightarrow> scan \<Rightarrow> scan" where
  "scan_dollar s cur st =
     (if char_at s (sc_at st + 1) = single_quote \<and> \<not> lv_ordinary_single cur then
        st\<lparr>sc_at := fst (skip_dollar_single_quote s (sc_at st))\<rparr>
      else (case open_expansion s (past_continuations s (sc_at st + 1)) (lv_ordinary_single cur) st of
          Some opened \<Rightarrow> opened
        | None \<Rightarrow> st\<lparr>sc_at := sc_at st + 1\<rparr>))"

text \<open>The word after \<open><<\<close>, and the operator remembered until its line ends.\<close>

function delimiter_end :: "string \<Rightarrow> nat \<Rightarrow> nat" where
  "delimiter_end s d =
    (if d < length s then
       (if s ! d = backslash \<and> d + 1 < length s then delimiter_end s (d + 2)
        else if s ! d = single_quote then
          delimiter_end s (past_closer s (seek s (\<lambda>c. c = single_quote) (d + 1)))
        else if s ! d = double_quote then
          delimiter_end s (past_closer s (seek_unescaped s double_quote (d + 1)))
        else if is_word_terminator (s ! d) then d
        else delimiter_end s (d + 1))
     else d)"
  by pat_completeness auto

termination
proof (relation "measure (\<lambda>(s, d). length s - d)", goal_cases)
  case (3 s d)
  then show ?case
    using past_closer_bounds(1) [where p = "seek s (\<lambda>c. c = single_quote) (d + 1)" and s = s] seek_ge [of "d + 1" s "\<lambda>c. c = single_quote"]
    by simp
next
  case (4 s d)
  then show ?case
    using past_closer_bounds(1) [where p = "seek_unescaped s double_quote (d + 1)" and s = s] seek_unescaped_ge [of "d + 1" s double_quote]
    by simp
qed auto

declare delimiter_end.simps [simp del]

definition operator_end :: "string \<Rightarrow> nat \<Rightarrow> bool \<times> nat" where
  "operator_end s p =
     (case past_continuations s (p + 2) of d \<Rightarrow>
      if char_at s d = CHR ''-'' then (True, past_continuations s (d + 1)) else (False, d))"

definition delimiter_start :: "string \<Rightarrow> nat \<Rightarrow> nat" where
  "delimiter_start s d = past_continuations s (seek s (\<lambda>c. \<not> is_blank_char c) d)"

definition scan_here_doc :: "string \<Rightarrow> scan \<Rightarrow> scan" where
  "scan_here_doc s st =
     (case operator_end s (sc_at st) of (strip_tabs, d) \<Rightarrow>
      (case delimiter_start s d of word_start \<Rightarrow>
       (case delimiter_end s word_start of word_end \<Rightarrow>
        st\<lparr>sc_at := word_end,
           sc_pending :=
             (if word_start < word_end \<and> length (sc_pending st) < kMaxPendingHereDocs then
                \<lparr>ph_offset = word_start, ph_length = word_end - word_start, ph_at_depth = length (sc_stack st),
                 ph_strip_tabs = strip_tabs\<rparr> # sc_pending st
              else sc_pending st)\<rparr>)))"

text \<open>Past the body of one here-document, which begins at \<open>p\<close>.\<close>

definition body_line :: "string \<Rightarrow> bool \<Rightarrow> nat \<Rightarrow> nat \<Rightarrow> string" where
  "body_line s strip_tabs p nl =
     (case substr s p (nl - p) of line \<Rightarrow> if strip_tabs then dropWhile (\<lambda>c. c = tab) line else line)"

function body_end :: "string \<Rightarrow> string \<Rightarrow> bool \<Rightarrow> nat \<Rightarrow> nat" where
  "body_end s raw strip_tabs p =
    (if p < length s then
       (if here_doc_delimiter_matches raw (body_line s strip_tabs p (seek s (\<lambda>c. c = newline) p)) then
          past_closer s (seek s (\<lambda>c. c = newline) p)
        else if length s \<le> seek s (\<lambda>c. c = newline) p then length s
        else body_end s raw strip_tabs (seek s (\<lambda>c. c = newline) p + 1))
     else p)"
  by pat_completeness auto

termination
proof (relation "measure (\<lambda>(s, raw, strip_tabs, p). length s - p)", goal_cases)
  case (2 s raw strip_tabs p)
  then show ?case using seek_ge [of p s "\<lambda>c. c = newline"] by simp
qed simp

declare body_end.simps [simp del]

definition scan_newline :: "string \<Rightarrow> scan \<Rightarrow> scan" where
  "scan_newline s st =
     st\<lparr>sc_at := fold (\<lambda>h p. body_end s (substr s (ph_offset h) (ph_length h)) (ph_strip_tabs h) p)
                  (rev (takeWhile (\<lambda>h. ph_at_depth h = length (sc_stack st)) (sc_pending st))) (sc_at st + 1),
        sc_pending := dropWhile (\<lambda>h. ph_at_depth h = length (sc_stack st)) (sc_pending st)\<rparr>"

text \<open>\<open>case\<close>, \<open>in\<close> and \<open>esac\<close> of a command list; \<open>None\<close> when the word is none of them here.\<close>

definition scan_case_word :: "string \<Rightarrow> nat \<Rightarrow> level \<Rightarrow> scan \<Rightarrow> scan option" where
  "scan_case_word s base cur st =
     (case seek s is_word_terminator (sc_at st) of w \<Rightarrow>
      (case substr s (sc_at st) (w - sc_at st) of word \<Rightarrow>
       if word = ''case'' \<and> starts_a_command s (sc_at st) base then
         Some (st\<lparr>sc_at := w, sc_stack :=
           cur\<lparr>lv_awaiting_in := (if lv_awaiting_in cur < 255 then lv_awaiting_in cur + 1 else lv_awaiting_in cur)\<rparr> # tl (sc_stack st)\<rparr>)
       else if word = ''in'' \<and> 0 < lv_awaiting_in cur then
         Some (st\<lparr>sc_at := w, sc_stack :=
           cur\<lparr>lv_awaiting_in := lv_awaiting_in cur - 1,
               lv_open_cases := (if lv_open_cases cur < 255 then lv_open_cases cur + 1 else lv_open_cases cur)\<rparr> # tl (sc_stack st)\<rparr>)
       else if word = ''esac'' \<and> starts_a_command s (sc_at st) base then
         Some (st\<lparr>sc_at := w, sc_stack :=
           (if 0 < lv_open_cases cur then cur\<lparr>lv_open_cases := lv_open_cases cur - 1\<rparr>
            else if 0 < lv_awaiting_in cur then cur\<lparr>lv_awaiting_in := lv_awaiting_in cur - 1\<rparr>
            else cur) # tl (sc_stack st)\<rparr>)
       else None))"

text \<open>What is left once no special word was found.\<close>

definition scan_plain :: "string \<Rightarrow> level \<Rightarrow> scan \<Rightarrow> scan" where
  "scan_plain s cur st =
     (if s ! sc_at st = CHR ''('' \<and> lv_closer cur = CHR '')'' then
        open_level (CHR '')'') (sc_at st + 1) (lv_ordinary_single cur) (lv_arithmetic cur) st
      else if s ! sc_at st = CHR ''{'' \<and> lv_closer cur = CHR ''}'' then
        open_level (CHR ''}'') (sc_at st + 1) (lv_ordinary_single cur) False st
      else st\<lparr>sc_at := sc_at st + 1\<rparr>)"

definition scan_step :: "string \<Rightarrow> nat \<Rightarrow> level \<Rightarrow> scan \<Rightarrow> scan" where
  "scan_step s base cur st =
     (case s ! sc_at st of c \<Rightarrow>
      if c = backslash \<and> sc_at st + 1 < length s then st\<lparr>sc_at := sc_at st + 2\<rparr>
      else if c = lv_closer cur then
        (if command_list cur \<and> 0 < lv_open_cases cur then st\<lparr>sc_at := sc_at st + 1\<rparr> else close_level st)
      else if c = single_quote then
        (if lv_ordinary_single cur then st\<lparr>sc_at := sc_at st + 1\<rparr>
         else st\<lparr>sc_at := fst (skip_single_quote s (sc_at st))\<rparr>)
      else if c = double_quote then open_level double_quote (sc_at st + 1) True False st
      else if c = backquote then open_level backquote (sc_at st + 1) False False st
      else if c = CHR ''$'' then scan_dollar s cur st
      else if c = CHR ''#'' \<and> lv_closer cur = CHR '')'' \<and> starts_a_word s (sc_at st) base then
        st\<lparr>sc_at := seek s (\<lambda>b. b = newline) (sc_at st)\<rparr>
      else if command_list cur \<and> c = CHR ''<'' \<and> char_at s (sc_at st + 1) = CHR ''<'' \<and>
              char_at s (sc_at st + 2) \<noteq> CHR ''<'' then
        scan_here_doc s st
      else if c = newline \<and> sc_pending st \<noteq> [] \<and> ph_at_depth (hd (sc_pending st)) = length (sc_stack st) then
        scan_newline s st
      else if command_list cur \<and> (c = CHR ''c'' \<or> c = CHR ''i'' \<or> c = CHR ''e'') then
        (case scan_case_word s base cur st of Some found \<Rightarrow> found | None \<Rightarrow> scan_plain s cur st)
      else scan_plain s cur st)"

text \<open>Every step moves on and stays in the source; the rules for it are collected in \<open>advance\<close>.\<close>

definition onward :: "string \<Rightarrow> nat \<Rightarrow> nat \<Rightarrow> bool" where
  "onward s p q \<longleftrightarrow> p < q \<and> q \<le> length s"

named_theorems advance "a step of the lexer moves on and stays in the source"

lemma onward_next [advance]: "p < length s \<Longrightarrow> onward s p (p + 1)"
  by (simp add: onward_def)

lemma past_continuations_onward [advance]:
  "p < length s \<Longrightarrow> p < past_continuations s (p + 1) \<and> past_continuations s (p + 1) \<le> length s"
  using past_continuations_ge [of "p + 1" s] past_continuations_le [of s "p + 1"] by simp

lemma char_at_in: "char_at s p = c \<Longrightarrow> c \<noteq> CHR 0x00 \<Longrightarrow> p < length s"
  by (auto simp: char_at_def split: if_splits)

lemma past_closer_onward: "p < q \<Longrightarrow> q \<le> length s \<Longrightarrow> onward s p (past_closer s q)"
  by (auto simp: past_closer_def onward_def)

lemma seek_onward [advance]: "p < length s \<Longrightarrow> p < seek s f (p + 1) \<and> seek s f (p + 1) \<le> length s"
  using seek_ge [of "p + 1" s f] seek_le [of s f "p + 1"] by simp

lemma seek_unescaped_onward [advance]:
  "p < length s \<Longrightarrow> p < seek_unescaped s q (p + 1) \<and> seek_unescaped s q (p + 1) \<le> length s"
  using seek_unescaped_ge [of "p + 1" s q] seek_unescaped_le [of s q "p + 1"] by simp

lemma skip_single_quote_onward [advance]: "p < length s \<Longrightarrow> onward s p (fst (skip_single_quote s p))"
  using seek_onward [of p s "\<lambda>c. c = single_quote"] by (simp add: skip_single_quote_def onward_def)

lemma skip_dollar_onward [advance]:
  assumes "char_at s (p + 1) = single_quote"
  shows "onward s p (fst (skip_dollar_single_quote s p))"
proof -
  have "p + 1 < length s" using char_at_in [OF assms] by simp
  then show ?thesis
    using seek_unescaped_ge [of "p + 2" s single_quote] seek_unescaped_le [of s single_quote "p + 2"]
    by (simp add: skip_dollar_single_quote_def onward_def)
qed

lemma open_level_at [simp]: "sc_at (open_level closer after ordinary arithmetic st) = after"
  by (simp add: open_level_def)

lemma open_expansion_onward [advance]:
  assumes "p < length s" "open_expansion s (past_continuations s (p + 1)) ordinary st = Some opened"
  shows "onward s p (sc_at opened)"
proof -
  have "past_continuations s (p + 1) < length s" using assms(2) by (auto simp: open_expansion_def split: if_splits dest: char_at_in)
  then show ?thesis using assms past_continuations_onward [OF assms(1)]
    by (auto simp: open_expansion_def onward_def split: if_splits)
qed

lemma scan_dollar_onward [advance]: "sc_at st < length s \<Longrightarrow> onward s (sc_at st) (sc_at (scan_dollar s cur st))"
  by (auto simp: scan_dollar_def advance split: option.split)

lemma delimiter_end_bounds: "d \<le> delimiter_end s d \<and> delimiter_end s d \<le> max d (length s)"
proof (induction s d rule: delimiter_end.induct)
  case (1 s d)
  show ?case
  proof (cases "d < length s")
    case False
    then show ?thesis by (subst (1 2) delimiter_end.simps) simp
  next
    case True
    have q: "onward s d (past_closer s (seek s (\<lambda>c. c = single_quote) (d + 1)))"
      "onward s d (past_closer s (seek_unescaped s double_quote (d + 1)))"
      using True advance by (auto intro: past_closer_onward)
    show ?thesis
      by (subst (1 2) delimiter_end.simps) (use True 1 q in \<open>auto simp: onward_def split: if_splits\<close>)
  qed
qed

lemma delimiter_start_bounds: "d \<le> delimiter_start s d \<and> delimiter_start s d \<le> max d (length s)"
  using past_continuations_ge [of "seek s (\<lambda>c. \<not> is_blank_char c) d" s] past_continuations_le [of s "seek s (\<lambda>c. \<not> is_blank_char c) d"]
    seek_ge [of d s "\<lambda>c. \<not> is_blank_char c"] seek_le [of s "\<lambda>c. \<not> is_blank_char c" d]
  by (auto simp: delimiter_start_def)

lemma operator_end_bounds:
  assumes "p + 1 < length s"
  shows "p < snd (operator_end s p) \<and> snd (operator_end s p) \<le> length s"
  using past_continuations_ge [of "p + 2" s] past_continuations_le [of s "p + 2"] assms
    past_continuations_onward [of "past_continuations s (p + 2)" s] char_at_in [of s "past_continuations s (p + 2)" "CHR ''-''"]
  by (auto simp: operator_end_def)

lemma scan_here_doc_onward [advance]:
  assumes "char_at s (sc_at st + 1) = CHR ''<''"
  shows "onward s (sc_at st) (sc_at (scan_here_doc s st))"
proof -
  have "sc_at st + 1 < length s" using char_at_in [OF assms] by simp
  note b = operator_end_bounds [OF this]
  show ?thesis
    using b delimiter_start_bounds [of "snd (operator_end s (sc_at st))" s]
      delimiter_end_bounds [of "delimiter_start s (snd (operator_end s (sc_at st)))" s]
    by (auto simp: scan_here_doc_def onward_def split: prod.splits)
qed

lemma body_end_bounds: "p \<le> body_end s raw strip_tabs p \<and> body_end s raw strip_tabs p \<le> max p (length s)"
proof (induction s raw strip_tabs p rule: body_end.induct)
  case (1 s raw strip_tabs p)
  let ?nl = "seek s (\<lambda>c. c = newline) p"
  have "p \<le> ?nl" "?nl \<le> max p (length s)" by (rule seek_ge seek_le)+
  then show ?case
    by (subst (1 2) body_end.simps) (use 1 past_closer_bounds [where p = ?nl and s = s] in \<open>auto split: if_splits\<close>)
qed

lemma bodies_bounds: "p \<le> fold (\<lambda>h p. body_end s (f h) (g h) p) hs p \<and> fold (\<lambda>h p. body_end s (f h) (g h) p) hs p \<le> max p (length s)"
proof (induction hs arbitrary: p)
  case (Cons h hs)
  show ?case using Cons.IH [of "body_end s (f h) (g h) p"] body_end_bounds [of p s "f h" "g h"] by auto
qed simp

lemma scan_newline_onward [advance]: "sc_at st < length s \<Longrightarrow> onward s (sc_at st) (sc_at (scan_newline s st))"
  using bodies_bounds [of "sc_at st + 1" s "\<lambda>h. substr s (ph_offset h) (ph_length h)" ph_strip_tabs
      "rev (takeWhile (\<lambda>h. ph_at_depth h = length (sc_stack st)) (sc_pending st))"] by (simp add: scan_newline_def onward_def)

lemma word_onward:
  assumes "p < length s" "\<not> stops (s ! p)"
  shows "onward s p (seek s stops p)"
proof -
  have "drop p s = s ! p # drop (p + 1) s" using assms(1) by (simp add: Cons_nth_drop_Suc Suc_eq_plus1 [symmetric])
  then have "seek s stops p = seek s stops (p + 1)" using assms(2) by (simp add: seek_def)
  then show ?thesis using seek_onward [OF assms(1)] by (simp add: onward_def)
qed

lemma scan_case_word_at: "scan_case_word s base cur st = Some found \<Longrightarrow> sc_at found = seek s is_word_terminator (sc_at st)"
  by (auto simp: scan_case_word_def split: if_splits)

lemma scan_case_word_onward [advance]:
  assumes "sc_at st < length s" "scan_case_word s base cur st = Some found"
    "s ! sc_at st = CHR ''c'' \<or> s ! sc_at st = CHR ''i'' \<or> s ! sc_at st = CHR ''e''"
  shows "onward s (sc_at st) (sc_at found)"
  unfolding scan_case_word_at [OF assms(2)] using assms by (intro word_onward) (auto simp: is_word_terminator_def)

lemma scan_plain_onward [advance]: "sc_at st < length s \<Longrightarrow> onward s (sc_at st) (sc_at (scan_plain s cur st))"
  by (simp add: scan_plain_def advance)

lemma scan_comment_onward [advance]:
  "p < length s \<Longrightarrow> s ! p = CHR ''#'' \<Longrightarrow> onward s p (seek s (\<lambda>b. b = newline) p)"
  by (intro word_onward) auto

lemma close_level_at [simp]: "sc_at (close_level st) = sc_at st + 1"
  by (simp add: close_level_def)

lemma onward_two: "p + 1 < length s \<Longrightarrow> onward s p (p + 2)"
  by (simp add: onward_def)

lemma onward_if:
  "(b \<Longrightarrow> onward s p (sc_at x)) \<Longrightarrow> (\<not> b \<Longrightarrow> onward s p (sc_at y)) \<Longrightarrow> onward s p (sc_at (if b then x else y))"
  by simp

lemma scan_step_onward:
  assumes "sc_at st < length s"
  shows "onward s (sc_at st) (sc_at (scan_step s base cur st))"
  unfolding scan_step_def
proof (intro onward_if, goal_cases)
  case 1
  then show ?case using onward_two by simp
next
  case 12
  then show ?case by (cases "scan_case_word s base cur st") (simp_all add: assms advance)
qed (simp_all add: assms advance)

function scan_loop :: "string \<Rightarrow> nat \<Rightarrow> scan \<Rightarrow> scan" where
  "scan_loop s base st =
    (if sc_stack st \<noteq> [] \<and> sc_at st < length s then scan_loop s base (scan_step s base (hd (sc_stack st)) st) else st)"
  by pat_completeness auto

termination
proof (relation "measure (\<lambda>(s, base, st). length s - sc_at st)", goal_cases)
  case (2 s base st)
  then show ?case using scan_step_onward [of st s base "hd (sc_stack st)"] by (simp add: onward_def diff_less_mono2)
qed simp

declare scan_loop.simps [simp del]

text \<open>What the loop answers: past the end when the nesting was too deep, as an unterminated construct.\<close>

definition scan_answer :: "string \<Rightarrow> scan \<Rightarrow> nat \<times> bool" where
  "scan_answer s st =
     (if sc_too_deep st then length s else sc_at st, sc_stack st = [] \<and> \<not> sc_too_deep st)"

definition skip_quoted_or_expansion :: "string \<Rightarrow> nat \<Rightarrow> bool \<Rightarrow> nat \<times> bool" where
  "skip_quoted_or_expansion s at inside_double_quotes =
     (if char_at s at = single_quote \<and> \<not> inside_double_quotes then skip_single_quote s at
      else if char_at s at = double_quote then
        scan_answer s (scan_loop s at (open_level double_quote (at + 1) True False (scan_init at)))
      else if char_at s at = backquote then
        scan_answer s (scan_loop s at (open_level backquote (at + 1) False False (scan_init at)))
      else if char_at s at = CHR ''$'' then
        (if char_at s (at + 1) = single_quote \<and> \<not> inside_double_quotes then skip_dollar_single_quote s at
         else (case open_expansion s (past_continuations s (at + 1)) inside_double_quotes (scan_init at) of
             Some opened \<Rightarrow> scan_answer s (scan_loop s at opened)
           | None \<Rightarrow> (at, False)))
      else (at, False))"

lemma scan_loop_bounds:
  "sc_at st \<le> length s \<Longrightarrow> sc_at st \<le> sc_at (scan_loop s base st) \<and> sc_at (scan_loop s base st) \<le> length s"
proof (induction s base st rule: scan_loop.induct)
  case (1 s base st)
  show ?case
  proof (cases "sc_stack st \<noteq> [] \<and> sc_at st < length s")
    case True
    with scan_step_onward [of st s base "hd (sc_stack st)"] have "onward s (sc_at st) (sc_at (scan_step s base (hd (sc_stack st)) st))" by blast
    with 1(1) [OF True] show ?thesis by (subst (1 2) scan_loop.simps) (simp add: onward_def True)
  next
    case False
    then show ?thesis using 1(2) by (subst (1 2) scan_loop.simps) auto
  qed
qed

lemma scan_answer_onward:
  assumes "p < sc_at st" "sc_at st \<le> length s"
  shows "onward s p (fst (scan_answer s (scan_loop s base st)))"
  using scan_loop_bounds [of st s base] assms by (auto simp: scan_answer_def onward_def)

text \<open>The scan answers its own position when no construct starts there, and moves on otherwise.\<close>

lemma skip_quoted_bounds:
  assumes "at < length s"
  shows "fst (skip_quoted_or_expansion s at inside) = at \<and> \<not> snd (skip_quoted_or_expansion s at inside)
    \<or> onward s at (fst (skip_quoted_or_expansion s at inside))"
proof -
  have "onward s at (fst (scan_answer s (scan_loop s at (open_level closer (at + 1) ordinary arithmetic (scan_init at)))))"
    for closer ordinary arithmetic
    using assms by (intro scan_answer_onward) simp_all
  moreover have "onward s at (fst (scan_answer s (scan_loop s at opened)))"
    if "open_expansion s (past_continuations s (at + 1)) inside (scan_init at) = Some opened" for opened
    using open_expansion_onward [OF assms that] by (intro scan_answer_onward) (simp_all add: onward_def)
  ultimately show ?thesis
    using assms by (simp add: skip_quoted_or_expansion_def advance split: option.split)
qed

lemma skip_quoted_le:
  assumes "at \<le> length s"
  shows "fst (skip_quoted_or_expansion s at inside) \<le> length s"
proof (cases "at < length s")
  case True
  then show ?thesis using skip_quoted_bounds [OF True, of inside] by (auto simp: onward_def)
next
  case False
  then show ?thesis using assms by (simp add: skip_quoted_or_expansion_def char_at_def)
qed

subsection \<open>The bodies of the quoted runs and expansions of a word\<close>

text \<open>A byte that may start a construct to skip whole.\<close>

definition opens_expansion :: "string \<Rightarrow> nat \<Rightarrow> bool" where
  "opens_expansion s p \<longleftrightarrow>
     char_at s p = backquote \<or>
     char_at s p = CHR ''$'' \<and> (char_at s (p + 1) = CHR ''('' \<or> char_at s (p + 1) = CHR ''{'')"

definition opens_quoted :: "string \<Rightarrow> nat \<Rightarrow> bool" where
  "opens_quoted s p \<longleftrightarrow> char_at s p = single_quote \<or> char_at s p = double_quote \<or> opens_expansion s p"

function double_quoted_end :: "string \<Rightarrow> nat \<Rightarrow> nat" where
  "double_quoted_end s p =
    (if p < length s \<and> s ! p \<noteq> double_quote then
       (if s ! p = backslash \<and> p + 1 < length s then double_quoted_end s (p + 2)
        else if opens_expansion s p \<and> p < fst (skip_quoted_or_expansion s p True) then
          double_quoted_end s (fst (skip_quoted_or_expansion s p True))
        else double_quoted_end s (p + 1))
     else p)"
  by pat_completeness auto

termination by (relation "measure (\<lambda>(s, p). length s - p)") auto

declare double_quoted_end.simps [simp del]

function braces_end :: "string \<Rightarrow> bool \<Rightarrow> nat \<Rightarrow> nat \<Rightarrow> nat \<times> nat" where
  "braces_end s inside p depth =
    (if p < length s \<and> 0 < depth then
       (if s ! p = backslash \<and> p + 1 < length s then braces_end s inside (p + 2) depth
        else if opens_quoted s p \<and> p < fst (skip_quoted_or_expansion s p inside) then
          braces_end s inside (fst (skip_quoted_or_expansion s p inside)) depth
        else braces_end s inside (p + 1)
          (if s ! p = CHR ''{'' then depth + 1 else if s ! p = CHR ''}'' then depth - 1 else depth))
     else (p, depth))"
  by pat_completeness auto

termination by (relation "measure (\<lambda>(s, inside, p, depth). length s - p)") auto

declare braces_end.simps [simp del]

function parens_end :: "string \<Rightarrow> nat \<Rightarrow> nat \<Rightarrow> nat" where
  "parens_end s p depth =
    (if p < length s \<and> 0 < depth then
       parens_end s (p + 1) (if s ! p = CHR ''('' then depth + 1 else if s ! p = CHR '')'' then depth - 1 else depth)
     else p)"
  by pat_completeness auto

termination by (relation "measure (\<lambda>(s, p, depth). length s - p)") auto

declare parens_end.simps [simp del]

lemma double_quoted_end_bounds: "p \<le> length s \<Longrightarrow> p \<le> double_quoted_end s p \<and> double_quoted_end s p \<le> length s"
proof (induction s p rule: double_quoted_end.induct)
  case (1 s p)
  show ?case
    using 1 skip_quoted_le [of p s True] by (subst (1 2) double_quoted_end.simps) auto
qed

lemma braces_end_bounds: "p \<le> length s \<Longrightarrow> p \<le> fst (braces_end s inside p depth) \<and> fst (braces_end s inside p depth) \<le> length s"
proof (induction s inside p depth rule: braces_end.induct)
  case (1 s inside p depth)
  show ?case
  proof (cases "p < length s \<and> 0 < depth")
    case True
    let ?q = "fst (skip_quoted_or_expansion s p inside)"
    have "?q \<le> length s" using skip_quoted_le [OF 1(4)] .
    moreover have "braces_end s inside p depth =
        (if s ! p = backslash \<and> p + 1 < length s then braces_end s inside (p + 2) depth
         else if opens_quoted s p \<and> p < ?q then braces_end s inside ?q depth
         else braces_end s inside (p + 1)
           (if s ! p = CHR ''{'' then depth + 1 else if s ! p = CHR ''}'' then depth - 1 else depth))"
      using True by (subst braces_end.simps) simp
    ultimately show ?thesis
      using 1(1) [OF True] 1(2) [OF True] 1(3) [OF True] True
      by (cases "s ! p = backslash \<and> p + 1 < length s"; cases "opens_quoted s p \<and> p < ?q")
        (simp_all only: if_True if_False simp_thms, force+)
  next
    case False
    then show ?thesis using 1(4) by (subst (1 2) braces_end.simps) auto
  qed
qed

lemma parens_end_bounds: "p \<le> length s \<Longrightarrow> p \<le> parens_end s p depth \<and> parens_end s p depth \<le> length s"
proof (induction s p depth rule: parens_end.induct)
  case (1 s p depth)
  then show ?case by (subst (1 2) parens_end.simps) force
qed

subsection \<open>The lexer\<close>

record lexer =
  lx_source :: string
  lx_position :: nat
  lx_incomplete :: bool

definition lexer_at :: "string \<Rightarrow> nat \<Rightarrow> lexer" where
  "lexer_at s position = \<lparr>lx_source = s, lx_position = position, lx_incomplete = False\<rparr>"

definition token_text :: "string \<Rightarrow> token \<Rightarrow> string" where
  "token_text s t = substr s (tk_offset t) (tk_length t)"

text \<open>What a scan of one token found: its kind, where it ends, what is wrong with it and where,
  whether it is literal, and whether more input could complete it.\<close>

record lexed =
  ld_kind :: token_kind
  ld_end :: nat
  ld_error :: token_error
  ld_error_at :: nat
  ld_literal :: bool
  ld_incomplete :: bool

definition whole :: "token_kind \<Rightarrow> nat \<Rightarrow> lexed" where
  "whole kind stop =
     \<lparr>ld_kind = kind, ld_end = stop, ld_error = No_error, ld_error_at = 0, ld_literal = False, ld_incomplete = False\<rparr>"

definition cut_short :: "token_kind \<Rightarrow> nat \<Rightarrow> token_error \<Rightarrow> nat \<Rightarrow> lexed" where
  "cut_short kind stop error error_at =
     \<lparr>ld_kind = kind, ld_end = stop, ld_error = error, ld_error_at = error_at, ld_literal = False, ld_incomplete = True\<rparr>"

definition token_of :: "nat \<Rightarrow> lexed \<Rightarrow> token" where
  "token_of start d =
     \<lparr>tk_offset = start, tk_length = ld_end d - start,
      tk_error_offset = (if ld_error d \<noteq> No_error then ld_error_at d else 0),
      tk_kind = ld_kind d, tk_error = ld_error d, tk_literal = ld_literal d, tk_preceded_by_blank = False\<rparr>"

lemma past_continuations_moves: "past_continuations s at \<noteq> at \<Longrightarrow> at < length s"
  by (subst (asm) past_continuations.simps) (auto split: if_splits)

function skip_blanks :: "string \<Rightarrow> nat \<Rightarrow> nat" where
  "skip_blanks s p =
    (if past_continuations s (seek s (\<lambda>c. \<not> is_blank_char c) p) \<noteq> seek s (\<lambda>c. \<not> is_blank_char c) p
     then skip_blanks s (past_continuations s (seek s (\<lambda>c. \<not> is_blank_char c) p))
     else seek s (\<lambda>c. \<not> is_blank_char c) p)"
  by pat_completeness auto

termination
proof (relation "measure (\<lambda>(s, p). length s - p)", goal_cases)
  case (2 s p)
  then show ?case
    using past_continuations_moves [OF 2] past_continuations_ge [of "seek s (\<lambda>c. \<not> is_blank_char c) p" s]
      seek_ge [of p s "\<lambda>c. \<not> is_blank_char c"]
    by (simp add: diff_less_mono2)
qed simp

declare skip_blanks.simps [simp del]

text \<open>Operators.  Each character is looked up past line continuations.\<close>

definition operator_of :: "char \<Rightarrow> char \<Rightarrow> char \<Rightarrow> nat \<Rightarrow> nat \<Rightarrow> nat \<Rightarrow> (token_kind \<times> nat) option" where
  "operator_of c c1 c2 at1 at2 at3 =
     (if c = CHR ''|'' then Some (if c1 = CHR ''|'' then (T_or_if, at2) else (T_pipe, at1))
      else if c = CHR ''&'' then Some (if c1 = CHR ''&'' then (T_and_if, at2) else (T_amp, at1))
      else if c = CHR '';'' then
        Some (if c1 = CHR '';'' then (T_dsemi, at2) else if c1 = CHR ''&'' then (T_semi_and, at2) else (T_semi, at1))
      else if c = CHR ''('' then Some (T_lparen, at1)
      else if c = CHR '')'' then Some (T_rparen, at1)
      else if c = CHR ''<'' then
        Some (if c1 = CHR ''<'' \<and> c2 = CHR ''-'' then (T_dless_dash, at3)
              else if c1 = CHR ''<'' then (T_dless, at2)
              else if c1 = CHR ''&'' then (T_less_and, at2)
              else if c1 = CHR ''>'' then (T_less_great, at2)
              else (T_less, at1))
      else if c = CHR ''>'' then
        Some (if c1 = CHR ''>'' then (T_dgreat, at2)
              else if c1 = CHR ''&'' then (T_great_and, at2)
              else if c1 = CHR ''|'' then (T_clobber, at2)
              else (T_great, at1))
      else None)"

definition lex_operator :: "string \<Rightarrow> nat \<Rightarrow> lexed" where
  "lex_operator s start =
     (case past_continuations s (start + 1) of at1 \<Rightarrow>
      (case past_continuations s (at1 + 1) of at2 \<Rightarrow>
      (case past_continuations s (at2 + 1) of at3 \<Rightarrow>
       (case operator_of (char_at s start) (char_at s at1) (char_at s at2) at1 at2 at3 of
          Some (kind, stop) \<Rightarrow> whole kind stop
        | None \<Rightarrow> (whole T_word at1)\<lparr>ld_error := Unexpected_byte, ld_error_at := start\<rparr>))))"

text \<open>One step of the word scan: on to a position, keeping the word literal or not; the end of the word; or a
  construct that the input cuts short, which is never literal.\<close>

datatype word_step = Word_goes nat bool | Word_stops | Word_cut nat token_error nat

definition closed_or :: "token_error \<Rightarrow> nat \<Rightarrow> nat \<times> bool \<Rightarrow> word_step" where
  "closed_or error opened_at r = (if snd r then Word_goes (fst r) False else Word_cut (fst r) error opened_at)"

definition quote_closed :: "string \<Rightarrow> nat \<Rightarrow> nat \<times> bool" where
  "quote_closed s p = (past_closer s p, p < length s)"

definition word_dollar :: "string \<Rightarrow> nat \<Rightarrow> word_step" where
  "word_dollar s p =
     (case past_continuations s (p + 1) of after \<Rightarrow>
      if char_at s (p + 1) = single_quote then closed_or Unterminated_single_quote p (skip_dollar_single_quote s p)
      else if char_at s after = CHR ''{'' then
        (case braces_end s False (after + 1) 1 of (q, depth) \<Rightarrow>
           closed_or Unterminated_parameter_expansion p (q, depth = 0))
      else if char_at s after = CHR ''('' then
        closed_or (if char_at s (past_continuations s (after + 1)) = CHR ''('' then Unterminated_arithmetic
                   else Unterminated_command_sub) p (skip_quoted_or_expansion s p False)
      else Word_goes (p + 1) False)"

definition word_step_at :: "string \<Rightarrow> bool \<Rightarrow> nat \<Rightarrow> word_step" where
  "word_step_at s operators_terminate p =
     (case s ! p of c \<Rightarrow>
      if c = single_quote then
        closed_or Unterminated_single_quote p (quote_closed s (seek s (\<lambda>b. b = single_quote) (p + 1)))
      else if c = double_quote then
        closed_or Unterminated_double_quote p (quote_closed s (double_quoted_end s (p + 1)))
      else if c = backslash \<and> char_at s (p + 1) = newline then Word_goes (p + 2) False
      else if c = backslash then
        (if length s \<le> p + 1 then Word_cut (p + 1) No_error 0 else Word_goes (p + 2) False)
      else if c = CHR ''$'' then word_dollar s p
      else if c = backquote then
        closed_or Unterminated_backquote p (quote_closed s (seek_unescaped s backquote (p + 1)))
      else if operators_terminate \<and> is_word_terminator c then Word_stops
      else Word_goes (p + 1) (\<not> needs_expansion c))"

definition word_onward :: "string \<Rightarrow> nat \<Rightarrow> word_step \<Rightarrow> bool" where
  "word_onward s p w \<longleftrightarrow>
     (case w of Word_goes q _ \<Rightarrow> onward s p q | Word_stops \<Rightarrow> True | Word_cut q _ _ \<Rightarrow> p < q \<and> q = length s)"

lemma scan_loop_unclosed: "sc_stack (scan_loop s base st) \<noteq> [] \<Longrightarrow> length s \<le> sc_at (scan_loop s base st)"
proof (induction s base st rule: scan_loop.induct)
  case (1 s base st)
  then show ?case by (subst scan_loop.simps, subst (asm) (2) scan_loop.simps) (auto split: if_splits)
qed

text \<open>A construct that is not closed runs to the end of the input.\<close>

lemma scan_answer_unclosed:
  assumes "sc_at st \<le> length s" "\<not> snd (scan_answer s (scan_loop s base st))"
  shows "fst (scan_answer s (scan_loop s base st)) = length s"
  using scan_loop_unclosed [of s base st] scan_loop_bounds [OF assms(1), of base] assms(2)
  by (auto simp: scan_answer_def)

lemma skip_expansion_unclosed:
  assumes "p < length s" "s ! p = CHR ''$''" "char_at s (past_continuations s (p + 1)) = CHR ''(''" 
    "\<not> snd (skip_quoted_or_expansion s p False)" "char_at s (p + 1) \<noteq> single_quote"
  shows "fst (skip_quoted_or_expansion s p False) = length s"
proof -
  obtain opened where o: "open_expansion s (past_continuations s (p + 1)) False (scan_init p) = Some opened"
    using assms(3) by (simp add: open_expansion_def)
  have "sc_at opened \<le> length s" using open_expansion_onward [OF assms(1) o] by (simp add: onward_def)
  note unclosed = scan_answer_unclosed [OF this, of p]
  have "skip_quoted_or_expansion s p False = scan_answer s (scan_loop s p opened)"
    using assms(1,2,5) o by (simp add: skip_quoted_or_expansion_def char_at_def [of s p])
  then show ?thesis using unclosed assms(4) by simp
qed

lemma skip_expansion_onward:
  assumes "p < length s" "s ! p = CHR ''$''" "char_at s (past_continuations s (p + 1)) = CHR ''(''" "char_at s (p + 1) \<noteq> single_quote"
  shows "onward s p (fst (skip_quoted_or_expansion s p False))"
proof -
  obtain opened where o: "open_expansion s (past_continuations s (p + 1)) False (scan_init p) = Some opened"
    using assms(3) by (simp add: open_expansion_def)
  have "onward s p (fst (scan_answer s (scan_loop s p opened)))"
    using open_expansion_onward [OF assms(1) o] by (intro scan_answer_onward) (simp_all add: onward_def)
  moreover have "skip_quoted_or_expansion s p False = scan_answer s (scan_loop s p opened)"
    using assms o by (simp add: skip_quoted_or_expansion_def char_at_def [of s p])
  ultimately show ?thesis by simp
qed

lemma braces_end_unclosed: "p \<le> length s \<Longrightarrow> 0 < snd (braces_end s inside p depth) \<Longrightarrow> fst (braces_end s inside p depth) = length s"
proof (induction s inside p depth rule: braces_end.induct)
  case (1 s inside p depth)
  let ?q = "fst (skip_quoted_or_expansion s p inside)"
  show ?case
  proof (cases "p < length s \<and> 0 < depth")
    case True
    have "?q \<le> length s" using skip_quoted_le [OF 1(4)] .
    moreover have "braces_end s inside p depth =
        (if s ! p = backslash \<and> p + 1 < length s then braces_end s inside (p + 2) depth
         else if opens_quoted s p \<and> p < ?q then braces_end s inside ?q depth
         else braces_end s inside (p + 1)
           (if s ! p = CHR ''{'' then depth + 1 else if s ! p = CHR ''}'' then depth - 1 else depth))"
      using True by (subst braces_end.simps) simp
    ultimately show ?thesis
      using 1(1) [OF True] 1(2) [OF True] 1(3) [OF True] 1(5) True
      by (cases "s ! p = backslash \<and> p + 1 < length s"; cases "opens_quoted s p \<and> p < ?q")
        (simp_all only: if_True if_False simp_thms, force+)
  next
    case False
    then show ?thesis using 1(4,5) by (subst braces_end.simps, subst (asm) braces_end.simps) auto
  qed
qed

lemma closed_or_onward:
  assumes "onward s p (fst r)" "\<not> snd r \<Longrightarrow> fst r = length s"
  shows "word_onward s p (closed_or error p r)"
  using assms by (simp add: word_onward_def closed_or_def onward_def)

lemma quote_closed_onward:
  assumes "p < q" "q \<le> length s"
  shows "word_onward s p (closed_or error p (quote_closed s q))"
  using past_closer_onward [OF assms] assms by (intro closed_or_onward) (auto simp: quote_closed_def past_closer_def)

lemma skip_dollar_unclosed:
  "char_at s (p + 1) = single_quote \<Longrightarrow> \<not> snd (skip_dollar_single_quote s p) \<Longrightarrow> fst (skip_dollar_single_quote s p) = length s"
  using skip_dollar_onward [of s p] by (auto simp: skip_dollar_single_quote_def onward_def)

lemma word_dollar_onward:
  assumes "p < length s" "s ! p = CHR ''$''"
  shows "word_onward s p (word_dollar s p)"
proof -
  let ?a = "past_continuations s (p + 1)"
  have "p < ?a" using past_continuations_onward [OF assms(1)] by simp
  consider (quote) "char_at s (p + 1) = single_quote"
    | (brace) "char_at s (p + 1) \<noteq> single_quote" "char_at s ?a = CHR ''{''"
    | (paren) "char_at s (p + 1) \<noteq> single_quote" "char_at s ?a = CHR ''(''"
    | (plain) "char_at s (p + 1) \<noteq> single_quote" "char_at s ?a \<noteq> CHR ''{''" "char_at s ?a \<noteq> CHR ''(''"
    by blast
  then show ?thesis
  proof cases
    case quote
    then show ?thesis using skip_dollar_onward skip_dollar_unclosed
      by (simp add: word_dollar_def) (rule closed_or_onward; blast)
  next
    case brace
    have "?a < length s" using char_at_in [OF brace(2)] by simp
    then have b: "?a + 1 \<le> fst (braces_end s False (?a + 1) 1)" "fst (braces_end s False (?a + 1) 1) \<le> length s"
      "0 < snd (braces_end s False (?a + 1) 1) \<Longrightarrow> fst (braces_end s False (?a + 1) 1) = length s"
      using braces_end_bounds [of "?a + 1" s False 1] braces_end_unclosed [of "?a + 1" s False 1] by simp_all
    have "word_onward s p (closed_or Unterminated_parameter_expansion p
        (fst (braces_end s False (?a + 1) 1), snd (braces_end s False (?a + 1) 1) = 0))"
      using b \<open>p < ?a\<close> by (intro closed_or_onward) (auto simp: onward_def)
    then show ?thesis using brace by (simp add: word_dollar_def case_prod_beta)
  next
    case paren
    then show ?thesis
      using skip_expansion_onward [OF assms paren(2,1)] skip_expansion_unclosed [OF assms paren(2) _ paren(1)]
      by (simp add: word_dollar_def closed_or_onward)
  next
    case plain
    then show ?thesis using assms(1) by (simp add: word_dollar_def word_onward_def onward_next)
  qed
qed

lemma word_step_onward:
  assumes "p < length s"
  shows "word_onward s p (word_step_at s operators_terminate p)"
proof -
  have dq: "p < double_quoted_end s (p + 1)" "double_quoted_end s (p + 1) \<le> length s"
    using double_quoted_end_bounds [of "p + 1" s] assms by simp_all
  have "char_at s (p + 1) = newline \<Longrightarrow> p + 1 < length s" using char_at_in by simp
  then show ?thesis
    using assms dq seek_onward [OF assms] seek_unescaped_onward [OF assms] word_dollar_onward [OF assms] onward_two [of p s]
    by (auto simp: word_step_at_def quote_closed_onward word_onward_def [of s p "Word_goes _ _"] word_onward_def [of s p "Word_cut _ _ _"]
        word_onward_def [of s p Word_stops] onward_next not_le)
qed

function word_loop :: "string \<Rightarrow> bool \<Rightarrow> nat \<Rightarrow> bool \<Rightarrow> lexed" where
  "word_loop s operators_terminate p literal =
    (if p < length s then
       (case word_step_at s operators_terminate p of
          Word_goes q keeps \<Rightarrow> word_loop s operators_terminate q (literal \<and> keeps)
        | Word_stops \<Rightarrow> (whole T_word p)\<lparr>ld_literal := literal\<rparr>
        | Word_cut q error error_at \<Rightarrow> cut_short T_word q error error_at)
     else (whole T_word p)\<lparr>ld_literal := literal\<rparr>)"
  by pat_completeness auto

termination
proof (relation "measure (\<lambda>(s, operators_terminate, p, literal). length s - p)", goal_cases)
  case (2 s operators_terminate p literal q keeps)
  then show ?case using word_step_onward [OF 2(1), of operators_terminate]
    by (simp add: word_onward_def onward_def diff_less_mono2)
qed simp

declare word_loop.simps [simp del]

definition lex_word :: "string \<Rightarrow> lex_mode \<Rightarrow> nat \<Rightarrow> lexed" where
  "lex_word s mode start = word_loop s (mode \<noteq> Here_doc_delimiter) start True"

subsection \<open>The segments of a word\<close>

definition quotes_are_bytes :: "lex_mode \<Rightarrow> bool" where
  "quotes_are_bytes mode \<longleftrightarrow> mode = Double_quote_interior \<or> mode = Here_doc_body"

definition double_quotes_are_bytes :: "lex_mode \<Rightarrow> bool" where
  "double_quotes_are_bytes mode \<longleftrightarrow> mode = Here_doc_body"

text \<open>The tilde-prefix: where it ends, unless something in it is quoted.\<close>

definition disqualifies_tilde :: "char \<Rightarrow> bool" where
  "disqualifies_tilde b \<longleftrightarrow> b = single_quote \<or> b = double_quote \<or> b = backslash \<or> b = CHR ''$'' \<or> b = backquote"

definition tilde_end :: "string \<Rightarrow> bool \<Rightarrow> nat \<Rightarrow> nat option" where
  "tilde_end s in_assignment start =
     (case seek s (\<lambda>b. b = CHR ''/'' \<or> is_blank_char b \<or> in_assignment \<and> b = CHR '':'' \<or> disqualifies_tilde b) (start + 1) of look \<Rightarrow>
      if look < length s \<and> disqualifies_tilde (s ! look) then None else Some look)"

definition tilde_eligible :: "string \<Rightarrow> lex_mode \<Rightarrow> nat \<Rightarrow> bool" where
  "tilde_eligible s mode start \<longleftrightarrow>
     s ! start = CHR ''~'' \<and> (mode = Word_interior \<or> mode = Assignment_interior) \<and>
     (start = 0 \<or> mode = Assignment_interior \<and> 0 < start \<and> s ! (start - 1) = CHR '':'')"

definition special_parameter :: "char \<Rightarrow> bool" where
  "special_parameter c \<longleftrightarrow> c \<in> set ''?#$!@*-''"

function name_end :: "string \<Rightarrow> nat \<Rightarrow> nat" where
  "name_end s p =
    (if past_continuations s p < length s \<and> is_valid_var_name_non_first_char (s ! past_continuations s p)
     then name_end s (past_continuations s p + 1) else p)"
  by pat_completeness auto

termination
proof (relation "measure (\<lambda>(s, p). length s - p)", goal_cases)
  case (2 s p)
  then show ?case using past_continuations_ge [of p s] by (simp add: diff_less_mono2)
qed simp

declare name_end.simps [simp del]

definition lex_arithmetic_segment :: "string \<Rightarrow> nat \<Rightarrow> nat \<Rightarrow> lexed" where
  "lex_arithmetic_segment s start opened =
     (case parens_end s opened 1 of p \<Rightarrow>
      (case past_continuations s p of at_close \<Rightarrow>
       if char_at s at_close = CHR '')'' then whole Seg_arithmetic (at_close + 1)
       else if length s \<le> p then cut_short Seg_arithmetic p Unterminated_arithmetic start
       else whole Seg_arithmetic p))"

definition segment_or :: "token_kind \<Rightarrow> token_error \<Rightarrow> nat \<Rightarrow> nat \<times> bool \<Rightarrow> lexed" where
  "segment_or kind error start r = (if snd r then whole kind (fst r) else cut_short kind (fst r) error start)"

definition lex_dollar_segment :: "string \<Rightarrow> lex_mode \<Rightarrow> nat \<Rightarrow> lexed" where
  "lex_dollar_segment s mode start =
     (case past_continuations s (start + 1) of at_next \<Rightarrow>
      (case past_continuations s (at_next + 1) of at_next2 \<Rightarrow>
      (case char_at s at_next of following \<Rightarrow>
       if following = single_quote \<and> \<not> quotes_are_bytes mode \<and> at_next = start + 1 then
         segment_or Seg_dollar_single_quoted Unterminated_single_quote start (skip_dollar_single_quote s start)
       else if following = CHR ''('' \<and> char_at s at_next2 = CHR ''('' then lex_arithmetic_segment s start (at_next2 + 1)
       else if following = CHR ''('' then
         segment_or Seg_command_sub Unterminated_command_sub start (skip_quoted_or_expansion s start False)
       else if following = CHR ''{'' then
         (case braces_end s (quotes_are_bytes mode) (at_next + 1) 1 of (q, depth) \<Rightarrow>
            segment_or Seg_parameter Unterminated_parameter_expansion start (q, depth = 0))
       else if is_valid_var_name_first_char following then whole Seg_parameter (name_end s (at_next + 1))
       else if special_parameter following then whole Seg_parameter (at_next + 1)
       else if is_digit_char following then whole Seg_parameter (at_next + 1)
       else whole Seg_literal (start + 1))))"

function literal_end :: "string \<Rightarrow> lex_mode \<Rightarrow> nat \<Rightarrow> nat \<Rightarrow> nat" where
  "literal_end s mode start p =
    (if p < length s then
       (if mode = Assignment_interior \<and> s ! p = CHR ''~'' \<and> start < p \<and> s ! (p - 1) = CHR '':'' then p
        else if s ! p = backslash \<and> p + 1 < length s then literal_end s mode start (p + 2)
        else if (s ! p = single_quote \<and> \<not> quotes_are_bytes mode) \<or> (s ! p = double_quote \<and> \<not> double_quotes_are_bytes mode) \<or>
                s ! p = CHR ''$'' \<or> s ! p = backquote then p
        else literal_end s mode start (p + 1))
     else p)"
  by pat_completeness auto

termination by (relation "measure (\<lambda>(s, mode, start, p). length s - p)") auto

declare literal_end.simps [simp del]

definition lex_word_segment :: "string \<Rightarrow> lex_mode \<Rightarrow> nat \<Rightarrow> lexed" where
  "lex_word_segment s mode start =
     (case s ! start of c \<Rightarrow>
      if c = single_quote \<and> \<not> quotes_are_bytes mode then
        segment_or Seg_single_quoted Unterminated_single_quote start
          (quote_closed s (seek s (\<lambda>b. b = single_quote) (start + 1)))
      else if c = double_quote \<and> \<not> double_quotes_are_bytes mode then
        segment_or Seg_double_quoted Unterminated_double_quote start (quote_closed s (double_quoted_end s (start + 1)))
      else (case (if tilde_eligible s mode start then tilde_end s (mode = Assignment_interior) start else None) of
          Some stop \<Rightarrow> whole Seg_tilde stop
        | None \<Rightarrow>
          if c = backquote then
            segment_or Seg_command_sub Unterminated_backquote start (quote_closed s (seek_unescaped s backquote (start + 1)))
          else if c = CHR ''$'' then lex_dollar_segment s mode start
          else whole Seg_literal (literal_end s mode start start)))"

subsection \<open>Where a command substitution's interior is\<close>

definition command_sub_open :: "string \<Rightarrow> nat \<Rightarrow> nat \<Rightarrow> nat option" where
  "command_sub_open s offset stop =
     (if s ! offset = backquote then
        (if list_ex (\<lambda>i. s ! i = backslash) [offset + 1..<stop] then None else Some (offset + 1))
      else if s ! offset \<noteq> CHR ''$'' then None
      else (case past_continuations s (offset + 1) of at \<Rightarrow>
        if length s \<le> at \<or> s ! at \<noteq> CHR ''('' then None else Some (at + 1)))"

definition command_sub_interior :: "string \<Rightarrow> token \<Rightarrow> (nat \<times> nat) option" where
  "command_sub_interior s segment =
     (if tk_kind segment \<noteq> Seg_command_sub then None
      else if length s \<le> tk_offset segment \<or> tk_length segment = 0 then None
      else (case min (end_offset segment) (length s) of stop0 \<Rightarrow>
       (case (if tk_error segment = No_error \<and> tk_offset segment < stop0 then stop0 - 1 else stop0) of stop \<Rightarrow>
        (case command_sub_open s (tk_offset segment) stop of
           None \<Rightarrow> None
         | Some opened \<Rightarrow> if stop < opened then None else Some (opened, stop)))))"

subsection \<open>The next token\<close>

definition interior :: "lex_mode \<Rightarrow> bool" where
  "interior mode \<longleftrightarrow> mode \<in> {Word_interior, Assignment_interior, Double_quote_interior, Here_doc_body}"

text \<open>An IO number: the digits, across line continuations, and whether they fit a descriptor.\<close>

function io_digits :: "string \<Rightarrow> nat \<Rightarrow> u64 \<Rightarrow> bool \<Rightarrow> nat \<times> bool" where
  "io_digits s p fd fits =
    (if p < length s \<and> is_digit_char (s ! p) then
       (case accumulate_digit fd (word_of_nat (ubyte (s ! p) - 48)) 10 (np_high (policy_for Redirection_word_fd)) of
          (ok, fd1) \<Rightarrow> io_digits s (past_continuations s (p + 1)) fd1 (fits \<and> ok))
     else (p, fits))"
  by pat_completeness auto

termination
proof (relation "measure (\<lambda>(s, p, fd, fits). length s - p)", goal_cases)
  case (2 s p fd fits)
  then show ?case using past_continuations_onward [of p s] by (simp add: diff_less_mono2)
qed simp

declare io_digits.simps [simp del]

definition io_number_end :: "string \<Rightarrow> nat \<Rightarrow> nat option" where
  "io_number_end s p =
     (case io_digits s (past_continuations s p) 0 True of (ahead, fits) \<Rightarrow>
      if fits \<and> ahead < length s \<and> (s ! ahead = CHR ''<'' \<or> s ! ahead = CHR ''>'') then Some ahead else None)"

definition lex_outside_word :: "string \<Rightarrow> lex_mode \<Rightarrow> nat \<Rightarrow> lexed" where
  "lex_outside_word s mode p =
     (if s ! p = CHR ''#'' then whole T_comment (seek s (\<lambda>c. c = newline) p)
      else if s ! p = newline then whole T_newline (p + 1)
      else (case (if mode = Command \<and> is_digit_char (s ! p) then io_number_end s p else None) of
          Some ahead \<Rightarrow> (whole T_io_number ahead)\<lparr>ld_literal := True\<rparr>
        | None \<Rightarrow>
          if mode = Command \<and> is_word_terminator (s ! p) then lex_operator s p else lex_word s mode p))"

definition lexed_token :: "lexer \<Rightarrow> nat \<Rightarrow> bool \<Rightarrow> lexed \<Rightarrow> token \<times> lexer" where
  "lexed_token lx start skipped d =
     ((token_of start d)\<lparr>tk_preceded_by_blank := skipped\<rparr>, lx\<lparr>lx_position := ld_end d, lx_incomplete := ld_incomplete d\<rparr>)"

definition next_token :: "lex_mode \<Rightarrow> lexer \<Rightarrow> token \<times> lexer" where
  "next_token mode lx =
     (if interior mode then
        (if length (lx_source lx) \<le> lx_position lx then
           lexed_token lx (lx_position lx) False (whole T_end (lx_position lx))
         else lexed_token lx (lx_position lx) False (lex_word_segment (lx_source lx) mode (lx_position lx)))
      else (case skip_blanks (lx_source lx) (lx_position lx) of p \<Rightarrow>
        if length (lx_source lx) \<le> p then lexed_token lx p False (whole T_end p)
        else lexed_token lx p (p \<noteq> lx_position lx) (lex_outside_word (lx_source lx) mode p)))"

end
