(* ===== verification/Ast.thy ===== *)
theory Ast
  imports Lexer
begin

text \<open>
  The parse tree (\<^verbatim>\<open>src/syntax/ast.h\<close>).  Nodes live in one list and refer to each other by index; the
  children of a node are a contiguous run of a second list.  A tree also keeps its tokens, the bodies of its
  here-documents, the comments, the command substitutions found in its words, and the alias bodies registered as
  text above the input.  Indices and offsets are below 2 to the 32 and are \<open>nat\<close>; \<open>no_node\<close> is \<open>None\<close>.
\<close>

unbundle bit_operations_syntax

declare One_nat_def [simp del]

subsection \<open>Nodes\<close>

datatype node_kind =
    Error_node | Program | And_or | Pipeline | Simple_command | Word_node | Assignment_node | Redirect
  | Compound_list | If_clause | While_loop | Until_loop | For_loop | Case_clause | Case_item | Subshell
  | Brace_group | Here_doc | Function_definition | Async_list | Negation

datatype word_role = Role_ordinary | Role_pattern | Role_case_subject | Role_command_name | Role_redirect_target

fun role_code :: "word_role \<Rightarrow> nat" where
  "role_code Role_ordinary = 0"
| "role_code Role_pattern = 1"
| "role_code Role_case_subject = 2"
| "role_code Role_command_name = 3"
| "role_code Role_redirect_target = 4"

datatype parse_error = No_defect | Unexpected_operator | Missing_operand | Unterminated_word | Missing_terminator

fun unterminated_phrase :: "node_kind \<Rightarrow> string option" where
  "unterminated_phrase If_clause = Some ''unterminated if command''"
| "unterminated_phrase While_loop = Some ''unterminated while loop''"
| "unterminated_phrase Until_loop = Some ''unterminated until loop''"
| "unterminated_phrase For_loop = Some ''unterminated for loop''"
| "unterminated_phrase Case_clause = Some ''unterminated case command''"
| "unterminated_phrase Case_item = Some ''unterminated case pattern list''"
| "unterminated_phrase Subshell = Some ''unterminated subshell''"
| "unterminated_phrase Brace_group = Some ''unterminated brace group''"
| "unterminated_phrase kind = None"

fun missing_operand_phrase :: "node_kind \<Rightarrow> string option" where
  "missing_operand_phrase If_clause = Some ''if command with an empty condition or body''"
| "missing_operand_phrase While_loop = Some ''while loop with an empty condition or body''"
| "missing_operand_phrase Until_loop = Some ''until loop with an empty condition or body''"
| "missing_operand_phrase For_loop = Some ''for loop with no variable name or an empty body''"
| "missing_operand_phrase Subshell = Some ''empty subshell''"
| "missing_operand_phrase Brace_group = Some ''empty brace group''"
| "missing_operand_phrase kind = None"

record node =
  nd_kind :: node_kind
  nd_error :: parse_error
  nd_first :: nat
  nd_last :: nat
  nd_start :: nat
  nd_count :: nat
  nd_aux :: nat

text \<open>A node with every member at its default, for its kind and the tokens it spans.\<close>

definition node_over :: "node_kind \<Rightarrow> nat \<Rightarrow> nat \<Rightarrow> node" where
  "node_over kind first stop =
     \<lparr>nd_kind = kind, nd_error = No_defect, nd_first = first, nd_last = stop, nd_start = 0, nd_count = 0, nd_aux = 0\<rparr>"

definition is_defective :: "node \<Rightarrow> bool" where
  "is_defective n \<longleftrightarrow> nd_kind n = Error_node \<or> nd_error n \<noteq> No_defect"

subsection \<open>What stands beside the nodes\<close>

record here_doc_body =
  hb_offset :: nat
  hb_length :: nat
  hb_expand :: bool
  hb_strip_tabs :: bool
  hb_fd :: nat

record span =
  sp_offset :: nat
  sp_length :: nat

definition span_end :: "span \<Rightarrow> nat" where
  "span_end s = sp_offset s + sp_length s"

definition span_contains :: "span \<Rightarrow> nat \<Rightarrow> bool" where
  "span_contains s p \<longleftrightarrow> sp_offset s \<le> p \<and> p < sp_offset s + sp_length s"

record sub_parse =
  sub_word_token :: nat
  sub_interior :: span
  sub_root :: "nat option"
  sub_depth :: nat
  sub_node_begin :: nat
  sub_node_end :: nat

definition kMaxSubParseDepth :: nat where "kMaxSubParseDepth = 256"

definition kMaxAliasChain :: nat where "kMaxAliasChain = 16"

record invocation_site =
  site_offset :: nat
  site_chain :: "string list"

record text_region =
  rg_text :: string
  rg_name :: string
  rg_invoked_at :: nat

text \<open>\<open>flag_keyword\<close>, the one bit the parser sets on a token after it was added, is the list of the tokens
  that carry it.\<close>

record tree =
  tr_source :: string
  tr_nodes :: "node list"
  tr_children :: "nat list"
  tr_tokens :: "token list"
  tr_keywords :: "nat list"
  tr_here_docs :: "here_doc_body list"
  tr_comments :: "span list"
  tr_sub_parses :: "sub_parse list"
  tr_regions :: "text_region list"
  tr_region_end :: nat
  tr_root :: "nat option"
  tr_top_level_end :: nat
  tr_incomplete :: bool

definition tree_init :: "string \<Rightarrow> tree" where
  "tree_init source =
     \<lparr>tr_source = source, tr_nodes = [], tr_children = [], tr_tokens = [], tr_keywords = [], tr_here_docs = [],
      tr_comments = [], tr_sub_parses = [], tr_regions = [], tr_region_end = length source, tr_root = None,
      tr_top_level_end = 0xFFFFFFFF, tr_incomplete = False\<rparr>"

subsection \<open>Building a tree\<close>

definition add_token :: "token \<Rightarrow> tree \<Rightarrow> nat \<times> tree" where
  "add_token t tr = (length (tr_tokens tr), tr\<lparr>tr_tokens := tr_tokens tr @ [t]\<rparr>)"

definition mark_keyword :: "nat \<Rightarrow> tree \<Rightarrow> tree" where
  "mark_keyword i tr = tr\<lparr>tr_keywords := tr_keywords tr @ [i]\<rparr>"

definition add_text_region :: "string \<Rightarrow> string \<Rightarrow> nat \<Rightarrow> tree \<Rightarrow> nat \<times> tree" where
  "add_text_region bytes name invoked_at tr =
     (tr_region_end tr,
      tr\<lparr>tr_regions := tr_regions tr @ [\<lparr>rg_text = bytes, rg_name = name, rg_invoked_at = invoked_at\<rparr>],
         tr_region_end := tr_region_end tr + length bytes\<rparr>)"

definition add_here_doc :: "here_doc_body \<Rightarrow> tree \<Rightarrow> nat \<times> tree" where
  "add_here_doc b tr = (length (tr_here_docs tr), tr\<lparr>tr_here_docs := tr_here_docs tr @ [b]\<rparr>)"

definition add_comment :: "span \<Rightarrow> tree \<Rightarrow> tree" where
  "add_comment s tr = tr\<lparr>tr_comments := tr_comments tr @ [s]\<rparr>"

definition add_sub_parse :: "sub_parse \<Rightarrow> tree \<Rightarrow> tree" where
  "add_sub_parse s tr = tr\<lparr>tr_sub_parses := tr_sub_parses tr @ [s]\<rparr>"

definition set_sub_parse_result :: "nat \<Rightarrow> nat \<Rightarrow> nat \<Rightarrow> nat \<Rightarrow> tree \<Rightarrow> tree" where
  "set_sub_parse_result i root node_begin node_end tr =
     tr\<lparr>tr_sub_parses := (tr_sub_parses tr)[i := (tr_sub_parses tr ! i)
       \<lparr>sub_root := Some root, sub_node_begin := node_begin, sub_node_end := node_end\<rparr>]\<rparr>"

definition seal_top_level :: "tree \<Rightarrow> tree" where
  "seal_top_level tr = tr\<lparr>tr_top_level_end := length (tr_nodes tr)\<rparr>"

definition add_node :: "node \<Rightarrow> tree \<Rightarrow> nat \<times> tree" where
  "add_node n tr = (length (tr_nodes tr), tr\<lparr>tr_nodes := tr_nodes tr @ [n]\<rparr>)"

definition add_children :: "nat list \<Rightarrow> tree \<Rightarrow> nat \<times> tree" where
  "add_children kids tr = (length (tr_children tr), tr\<lparr>tr_children := tr_children tr @ kids\<rparr>)"

subsection \<open>Reading a tree\<close>

definition child_of :: "tree \<Rightarrow> node \<Rightarrow> nat \<Rightarrow> nat" where
  "child_of tr parent i = tr_children tr ! (nd_start parent + i)"

definition children_of :: "tree \<Rightarrow> node \<Rightarrow> nat list" where
  "children_of tr n = take (nd_count n) (drop (nd_start n) (tr_children tr))"

definition holds_no_command :: "tree \<Rightarrow> bool" where
  "holds_no_command tr = (case tr_root tr of None \<Rightarrow> True | Some r \<Rightarrow> nd_count (tr_nodes tr ! r) = 0)"

definition span_of :: "tree \<Rightarrow> node \<Rightarrow> span" where
  "span_of tr n =
     (if tr_tokens tr = [] then \<lparr>sp_offset = 0, sp_length = 0\<rparr>
      else (case tr_tokens tr ! nd_first n of first \<Rightarrow> case tr_tokens tr ! nd_last n of final \<Rightarrow>
        if end_offset final < tk_offset first then \<lparr>sp_offset = tk_offset first, sp_length = tk_length first\<rparr>
        else \<lparr>sp_offset = tk_offset first, sp_length = end_offset final - tk_offset first\<rparr>))"

text \<open>The region an offset falls in, walking them from the end of the input up: its first offset and itself.\<close>

fun region_at :: "text_region list \<Rightarrow> nat \<Rightarrow> nat \<Rightarrow> (nat \<times> text_region) option" where
  "region_at [] base offset = None"
| "region_at (r # rs) base offset =
     (if offset < base + length (rg_text r) then Some (base, r) else region_at rs (base + length (rg_text r)) offset)"

definition text_at :: "tree \<Rightarrow> nat \<Rightarrow> nat \<Rightarrow> string" where
  "text_at tr offset len =
     (if offset < length (tr_source tr) then substr (tr_source tr) offset (min len (length (tr_source tr) - offset))
      else (case region_at (tr_regions tr) (length (tr_source tr)) offset of
          None \<Rightarrow> []
        | Some (base, r) \<Rightarrow>
            substr (rg_text r) (offset - base) (min len (base + length (rg_text r) - offset))))"

definition text_of :: "tree \<Rightarrow> node \<Rightarrow> string" where
  "text_of tr n = text_at tr (sp_offset (span_of tr n)) (sp_length (span_of tr n))"

definition text_of_token :: "tree \<Rightarrow> token \<Rightarrow> string" where
  "text_of_token tr t = text_at tr (tk_offset t) (tk_length t)"

definition here_doc_text :: "tree \<Rightarrow> nat \<Rightarrow> string" where
  "here_doc_text tr i = text_at tr (hb_offset (tr_here_docs tr ! i)) (hb_length (tr_here_docs tr ! i))"

text \<open>The walk from a virtual offset out to the input, at most \<open>kMaxAliasChain\<close> bodies long.  The chain is
  collected innermost first and reversed.\<close>

function invocation_walk :: "tree \<Rightarrow> nat \<Rightarrow> string list \<Rightarrow> nat \<times> string list" where
  "invocation_walk tr offset chain =
     (if offset < length (tr_source tr) \<or> kMaxAliasChain \<le> length chain then (offset, chain)
      else (case region_at (tr_regions tr) (length (tr_source tr)) offset of
          None \<Rightarrow> (offset, chain)
        | Some (base, r) \<Rightarrow> invocation_walk tr (rg_invoked_at r) (chain @ [rg_name r])))"
  by pat_completeness auto

termination
  by (relation "measure (\<lambda>(tr, offset, chain). kMaxAliasChain - length chain)") auto

declare invocation_walk.simps [simp del]

definition invocation_of :: "tree \<Rightarrow> nat \<Rightarrow> invocation_site" where
  "invocation_of tr offset =
     (case invocation_walk tr offset [] of (site, chain) \<Rightarrow> \<lparr>site_offset = site, site_chain = rev chain\<rparr>)"

text \<open>The deepest node whose span contains an offset: down the first child that contains it, for as long as
  there is one.\<close>

definition child_containing :: "tree \<Rightarrow> nat \<Rightarrow> node \<Rightarrow> nat option" where
  "child_containing tr offset n = find (\<lambda>c. span_contains (span_of tr (tr_nodes tr ! c)) offset) (children_of tr n)"

partial_function (option) deepest_node :: "tree \<Rightarrow> nat \<Rightarrow> nat \<Rightarrow> nat option" where
  "deepest_node tr offset current =
     (case child_containing tr offset (tr_nodes tr ! current) of
        None \<Rightarrow> Some current
      | Some child \<Rightarrow> deepest_node tr offset child)"

definition node_at :: "tree \<Rightarrow> nat \<Rightarrow> nat option option" where
  "node_at tr offset =
     (case tr_root tr of
        None \<Rightarrow> Some None
      | Some root \<Rightarrow>
          if tr_nodes tr = [] \<or> \<not> span_contains (span_of tr (tr_nodes tr ! root)) offset then Some None
          else map_option Some (deepest_node tr offset root))"

definition first_error :: "tree \<Rightarrow> nat option" where
  "first_error tr =
     find (\<lambda>i. is_defective (tr_nodes tr ! i)) [0..<min (length (tr_nodes tr)) (tr_top_level_end tr)]"

definition has_errors :: "tree \<Rightarrow> bool" where
  "has_errors tr \<longleftrightarrow> first_error tr \<noteq> None"

definition error_detail :: "tree \<Rightarrow> node \<Rightarrow> string option" where
  "error_detail tr n =
     (case (if nd_error n = Missing_terminator then unterminated_phrase (nd_kind n) else None) of
        Some phrase \<Rightarrow> Some phrase
      | None \<Rightarrow>
          (case (if nd_error n = Missing_operand then missing_operand_phrase (nd_kind n) else None) of
             Some phrase \<Rightarrow> Some phrase
           | None \<Rightarrow>
               (case List.map_filter (\<lambda>i. error_phrase (tk_error (tr_tokens tr ! i)))
                       [nd_first n..<min (nd_last n + 1) (length (tr_tokens tr))] of
                  [] \<Rightarrow> None
                | phrase # _ \<Rightarrow> Some phrase)))"

end
