(* ===== verification/DecodeStream.thy ===== *)
theory DecodeStream
  imports Decode
begin

text \<open>
  Properties of the input decoder as a stream transformer: cutting the input into reads differently
  changes nothing, a paste is one event, typed text and pasted text degrade the same way, and the
  escape deadline is armed exactly while a key prefix is held.
\<close>

subsection \<open>A decision once made is not changed by later bytes\<close>

lemma byte_at_append [simp]: "i < length rest \<Longrightarrow> byte_at (rest @ ext) i = byte_at rest i"
  by (simp add: byte_at_def nth_append)

lemma scan_scalar_append:
  assumes "\<not> sc_incomplete (scan_scalar rest)" "rest \<noteq> []"
  shows "scan_scalar (rest @ ext) = scan_scalar rest"
proof -
  have 0: "0 < length rest" using assms(2) by simp
  consider "length rest < 2" | "\<not> length rest < 2" "length rest < 3" | "\<not> length rest < 3" "length rest < 4" | "\<not> length rest < 4"
    by linarith
  then show ?thesis
    using 0 assms(1) by cases (auto simp: scan_scalar_def Let_def scan_incomplete_def case_prod_beta split: if_splits)
qed

lemma emit_text_append:
  "fst (emit_text rest m) \<noteq> 0 \<Longrightarrow> rest \<noteq> [] \<Longrightarrow> emit_text (rest @ ext) m = emit_text rest m"
  by (cases "sc_incomplete (scan_scalar rest)") (simp_all add: emit_text_def Let_def scan_scalar_append)

lemma takeWhile_stopped:
  "length (takeWhile P xs) \<noteq> length xs \<Longrightarrow> takeWhile P (xs @ ys) = takeWhile P xs"
  by (induction xs) auto

lemma consume_csi_append:
  assumes "fst (consume_csi rest d) \<noteq> 0" "2 \<le> length rest"
  shows "consume_csi (rest @ ext) d = consume_csi rest d"
proof -
  let ?P = "\<lambda>c. 0x30 \<le> ubyte c \<and> ubyte c \<le> 0x3F" let ?Q = "\<lambda>c. 0x20 \<le> ubyte c \<and> ubyte c \<le> 0x2F"
  let ?params = "takeWhile ?P (drop 2 rest)"
  let ?pe = "2 + length ?params"
  let ?inter = "takeWhile ?Q (drop ?pe rest)"
  let ?at = "?pe + length ?inter"
  have at: "?at \<noteq> length rest" using assms(1) by (auto simp: consume_csi_def Let_def)
  have le: "length ?params \<le> length rest - 2" "length ?inter \<le> length rest - ?pe"
    using length_takeWhile_le [of ?P "drop 2 rest"] length_takeWhile_le [of ?Q "drop ?pe rest"] by simp_all
  have p: "length ?params \<noteq> length (drop 2 rest)"
  proof
    assume "length ?params = length (drop 2 rest)"
    then have "?pe = length rest" using assms(2) by simp
    with le at show False by simp
  qed
  then have P: "takeWhile ?P (drop 2 (rest @ ext)) = ?params"
    using takeWhile_stopped [OF p, of ext] assms(2) by simp
  have q: "length ?inter \<noteq> length (drop ?pe rest)" using at le assms(2) by simp
  then have Q: "takeWhile ?Q (drop ?pe (rest @ ext)) = ?inter"
    using takeWhile_stopped [OF q, of ext] le assms(2) by simp
  have "?at < length rest" using at le assms(2) by linarith
  then have "(rest @ ext) ! ?at = rest ! ?at" "byte_at (rest @ ext) ?at = byte_at rest ?at"
    "?at \<noteq> length (rest @ ext)" "substr (rest @ ext) 2 (?pe - 2) = substr rest 2 (?pe - 2)"
    using le assms(2) by (simp_all add: nth_append substr_def)
  with at show ?thesis unfolding consume_csi_def Let_def P Q by (simp only: if_False simp_thms)
qed

lemma consume_ss3_append:
  "fst (consume_ss3 rest d) \<noteq> 0 \<Longrightarrow> consume_ss3 (rest @ ext) d = consume_ss3 rest d"
  by (auto simp: consume_ss3_def nth_append Let_def split: if_splits)

lemma consume_escape_append:
  assumes "fst (consume_escape rest d) \<noteq> 0"
  shows "consume_escape (rest @ ext) d = consume_escape rest d"
proof -
  have l: "2 \<le> length rest" using assms by (auto simp: consume_escape_def split: if_splits)
  then have n: "(rest @ ext) ! 1 = rest ! 1" "drop 1 (rest @ ext) = drop 1 rest @ ext" "drop 1 rest \<noteq> []"
    by (auto simp: nth_append)
  consider "rest ! 1 = CHR ''[''" | "rest ! 1 = CHR ''O''" | "rest ! 1 = escape_byte"
    | "rest ! 1 \<noteq> CHR ''[''" "rest ! 1 \<noteq> CHR ''O''" "rest ! 1 \<noteq> escape_byte" by blast
  then show ?thesis
  proof cases
    case 4
    then have "fst (emit_text (drop 1 rest) (no_modifiers\<lparr>km_alt := True\<rparr>)) \<noteq> 0"
      using assms l by (auto simp: consume_escape_def case_prod_beta split: if_splits)
    from emit_text_append [OF this n(3)] 4 l n show ?thesis by (simp add: consume_escape_def)
  qed (use assms l n in \<open>simp_all add: consume_escape_def consume_csi_append consume_ss3_append escape_byte_def\<close>)
qed

lemma consume_one_append:
  assumes "fst (consume_one rest d) \<noteq> 0" "rest \<noteq> []"
  shows "consume_one (rest @ ext) d = consume_one rest d"
proof (cases "rest ! 0 = escape_byte")
  case True
  with assms show ?thesis by (simp add: consume_one_def nth_append consume_escape_append)
next
  case False
  with assms have "fst (emit_text rest no_modifiers) \<noteq> 0" by (auto simp: consume_one_def case_prod_beta)
  with False assms(2) show ?thesis by (simp add: consume_one_def nth_append emit_text_append)
qed

subsection \<open>Nothing is taken beyond the input, and nothing happens when nothing is taken\<close>

lemma scan_scalar_length_le:
  assumes "rest \<noteq> []"
  shows "sc_length (scan_scalar rest) \<le> length rest"
proof -
  have 0: "1 \<le> length rest" using assms by (cases rest) simp_all
  consider "length rest < 2" | "\<not> length rest < 2" "length rest < 3" | "\<not> length rest < 3" "length rest < 4" | "\<not> length rest < 4"
    by linarith
  then show ?thesis
    using 0 by cases (auto simp: scan_scalar_def Let_def scan_incomplete_def scan_malformed_def scan_found_def
        case_prod_beta simp flip: One_nat_def)
qed

lemma emit_text_le: "rest \<noteq> [] \<Longrightarrow> fst (emit_text rest m) \<le> length rest"
  by (simp add: emit_text_def Let_def scan_scalar_length_le)

lemma emit_text_zero: "fst (emit_text rest m) = 0 \<Longrightarrow> snd (emit_text rest m) = []"
  using scan_scalar_takes [of rest] by (auto simp: emit_text_def Let_def split: if_splits)

lemma consume_csi_le: "2 \<le> length rest \<Longrightarrow> fst (consume_csi rest d) \<le> length rest"
proof -
  assume 2: "2 \<le> length rest"
  let ?P = "\<lambda>c. 0x30 \<le> ubyte c \<and> ubyte c \<le> 0x3F" let ?Q = "\<lambda>c. 0x20 \<le> ubyte c \<and> ubyte c \<le> 0x2F"
  let ?pe = "2 + length (takeWhile ?P (drop 2 rest))"
  let ?at = "?pe + length (takeWhile ?Q (drop ?pe rest))"
  have "?at \<le> length rest"
    using length_takeWhile_le [of ?P "drop 2 rest"] length_takeWhile_le [of ?Q "drop ?pe rest"] 2 by simp
  moreover have "fst (consume_csi rest d) \<in> {0, ?at} \<or> ?at \<noteq> length rest \<and> fst (consume_csi rest d) = ?at + 1"
    by (simp add: consume_csi_def Let_def split: option.split)
  ultimately show ?thesis by auto
qed

definition zero_or_more :: "input_decoder \<Rightarrow> nat \<times> input_decoder \<times> event list \<Rightarrow> bool" where
  "zero_or_more d r \<longleftrightarrow> r = (0, d, []) \<or> 2 \<le> fst r"

lemma zero_or_more_simps [simp]: "zero_or_more d (0, d, [])" "2 \<le> n \<Longrightarrow> zero_or_more d (n, e, v)"
  by (simp_all add: zero_or_more_def)

lemma consume_csi_zero: "fst (consume_csi rest d) = 0 \<Longrightarrow> snd (consume_csi rest d) = (d, [])"
proof -
  have "zero_or_more d (consume_csi rest d)" by (simp add: consume_csi_def Let_def split: option.split)
  then show "fst (consume_csi rest d) = 0 \<Longrightarrow> snd (consume_csi rest d) = (d, [])"
    by (auto simp: zero_or_more_def)
qed

lemma consume_ss3_le: "fst (consume_ss3 rest d) \<le> length rest"
  by (simp add: consume_ss3_def Let_def)

lemma consume_ss3_zero: "fst (consume_ss3 rest d) = 0 \<Longrightarrow> snd (consume_ss3 rest d) = (d, [])"
  by (auto simp: consume_ss3_def Let_def split: if_splits)

lemma consume_one_le: "rest \<noteq> [] \<Longrightarrow> fst (consume_one rest d) \<le> length rest"
  using emit_text_le [of rest no_modifiers] emit_text_le [of "drop 1 rest" "no_modifiers\<lparr>km_alt := True\<rparr>"]
    consume_csi_le [of rest d] consume_ss3_le [of rest d]
  by (auto simp: consume_one_def consume_escape_def case_prod_beta)

lemma consume_one_zero: "fst (consume_one rest d) = 0 \<Longrightarrow> snd (consume_one rest d) = (d, [])"
  using emit_text_zero [of rest no_modifiers] emit_text_zero [of "drop 1 rest" "no_modifiers\<lparr>km_alt := True\<rparr>"]
    consume_csi_zero [of rest d] consume_ss3_zero [of rest d]
  by (auto simp: consume_one_def consume_escape_def case_prod_beta escape_byte_def split: if_splits)

lemma paste_marker_length [simp]: "length paste_end_marker = 6"
  by (simp add: paste_end_marker_def)

lemma consume_paste_zero: "fst (consume_paste rest d) = 0 \<Longrightarrow> snd (consume_paste rest d) = (d, [])"
  by (auto simp: consume_paste_def Let_def split: option.splits if_splits)

subsection \<open>The tail held back while a paste is in flight\<close>

text \<open>A suffix can still become, or is, the closing marker.\<close>

definition closing :: "string \<Rightarrow> bool" where
  "closing x \<longleftrightarrow> starts_with paste_end_marker (take 6 x)"

lemma closing_marker: "starts_with x paste_end_marker \<Longrightarrow> closing x"
  by (simp add: closing_def starts_with_def)

lemma closing_short: "length x \<le> 5 \<Longrightarrow> closing x \<longleftrightarrow> x = take (length x) paste_end_marker"
  by (auto simp: closing_def starts_with_def)

lemma closing_append:
  assumes "closing (x @ ext)"
  shows "starts_with x paste_end_marker \<or> length x \<le> 5 \<and> closing x"
proof (cases "6 \<le> length x")
  case True
  then have "starts_with paste_end_marker (take 6 x)" using assms by (simp add: closing_def)
  with True show ?thesis by (simp add: starts_with_def)
next
  case False
  then have "length x \<le> 5" by simp
  moreover have "take 6 (x @ ext) = x @ take (6 - length x) ext" using False by simp
  then have "closing x" using assms False
    by (auto simp: closing_def starts_with_iff)
  ultimately show ?thesis by simp
qed

lemma marker_tail_spec:
  "k \<le> length rest \<Longrightarrow> k \<le> 5 \<Longrightarrow>
    marker_tail rest k \<le> k \<and> closing (drop (length rest - marker_tail rest k) rest) \<and>
    (\<forall>j. marker_tail rest k < j \<and> j \<le> k \<longrightarrow> \<not> closing (drop (length rest - j) rest))"
proof (induction k)
  case 0
  then show ?case by (auto simp: closing_short)
next
  case (Suc k)
  have "closing (drop (length rest - Suc k) rest) \<longleftrightarrow> drop (length rest - Suc k) rest = take (Suc k) paste_end_marker"
    using Suc.prems closing_short [of "drop (length rest - Suc k) rest"] by simp
  with Suc show ?case by (auto simp: le_Suc_eq)
qed

lemma marker_tail_unique:
  assumes "k \<le> length rest" "k \<le> 5" "m \<le> k" "closing (drop (length rest - m) rest)"
    and "\<And>j. m < j \<Longrightarrow> j \<le> k \<Longrightarrow> \<not> closing (drop (length rest - j) rest)"
  shows "marker_tail rest k = m"
  using marker_tail_spec [OF assms(1,2)] assms(3-5) by (metis linorder_neqE_nat)

definition keep_of :: "string \<Rightarrow> nat" where
  "keep_of rest = marker_tail rest (min (length rest) (length paste_end_marker - 1))"

lemma keep_of_spec:
  "keep_of rest \<le> length rest" "keep_of rest \<le> 5" "closing (drop (length rest - keep_of rest) rest)"
  "keep_of rest < j \<Longrightarrow> j \<le> length rest \<Longrightarrow> j \<le> 5 \<Longrightarrow> \<not> closing (drop (length rest - j) rest)"
  using marker_tail_spec [of "min (length rest) 5" rest] by (auto simp: keep_of_def)

lemma keep_of_shift:
  assumes "\<forall>j < length pre. \<not> closing (drop j (pre @ s))"
  shows "keep_of (pre @ s) = keep_of s"
  unfolding keep_of_def [of "pre @ s"]
proof (rule marker_tail_unique)
  show "keep_of s \<le> min (length (pre @ s)) (length paste_end_marker - 1)"
    using keep_of_spec(1,2) [of s] by simp
  show "closing (drop (length (pre @ s) - keep_of s) (pre @ s))"
    using keep_of_spec(1,3) [of s] by simp
next
  fix j assume j: "keep_of s < j" "j \<le> min (length (pre @ s)) (length paste_end_marker - 1)"
  show "\<not> closing (drop (length (pre @ s) - j) (pre @ s))"
  proof (cases "j \<le> length s")
    case True
    with keep_of_spec(4) [OF j(1)] j(2) show ?thesis by simp
  next
    case False
    then have "length (pre @ s) - j < length pre" using j(2) by auto
    with assms show ?thesis by blast
  qed
qed simp_all

lemma find_sub_shift:
  "\<forall>j < length pre. \<not> starts_with (drop j (pre @ s)) p \<Longrightarrow>
    find_sub p (pre @ s) = map_option (\<lambda>i. i + length pre) (find_sub p s)"
proof (induction pre)
  case (Cons x pre)
  have "\<not> starts_with (x # pre @ s) p" using Cons.prems by auto
  moreover have "\<forall>j < length pre. \<not> starts_with (drop j (pre @ s)) p" using Cons.prems by auto
  ultimately show ?case using Cons.IH by (simp add: option.map_comp comp_def)
qed (simp add: option.map_ident)

lemma find_sub_append: "find_sub p s = Some i \<Longrightarrow> p \<noteq> [] \<Longrightarrow> find_sub p (s @ t) = Some i"
proof (induction s arbitrary: i)
  case (Cons x s)
  show ?case
  proof (cases "starts_with (x # s) p")
    case True
    then obtain r where "x # s = p @ r" by (auto simp: starts_with_iff)
    then have "x # s @ t = p @ r @ t" by (metis append.assoc append_Cons)
    then have "starts_with (x # s @ t) p" unfolding starts_with_iff by blast
    with True Cons.prems(1) show ?thesis by simp
  next
    case False
    then obtain j where j: "find_sub p s = Some j" "i = Suc j" using Cons.prems by auto
    have "take (length p) (x # s @ t) = take (length p) (x # s)"
      using find_sub_Some_less [OF j(1) Cons.prems(2)] take_append [of "length p" "x # s" t] by simp
    with False have "\<not> starts_with (x # s @ t) p" by (simp add: starts_with_def)
    with Cons.IH [OF j(1) Cons.prems(2)] j(2) show ?thesis by simp
  qed
qed simp

lemma drain_loop_Nil [simp]: "drain_loop [] d = ([], d, [])"
  by (simp add: drain_loop.simps)

lemma marker_nonempty [simp]: "paste_end_marker \<noteq> []"
  by (simp add: paste_end_marker_def)

text \<open>In a paste, bytes that cannot begin the marker go to the payload, whenever they are seen.\<close>

lemma drain_paste_shift:
  assumes "id_pasting d" "\<forall>j < length pre. \<not> closing (drop j (pre @ s))"
  shows "drain_loop (pre @ s) d = drain_loop s (d\<lparr>id_paste := id_paste d @ pre\<rparr>)"
proof (cases "pre = []")
  case True
  then show ?thesis by simp
next
  case False
  let ?d = "d\<lparr>id_paste := id_paste d @ pre\<rparr>"
  have ns: "\<forall>j < length pre. \<not> starts_with (drop j (pre @ s)) paste_end_marker"
    using assms(2) closing_marker by blast
  note f = find_sub_shift [OF ns] and k = keep_of_shift [OF assms(2)]
  show ?thesis
  proof (cases "find_sub paste_end_marker s")
    case (Some i)
    then have "s \<noteq> []" by auto
    with Some f assms(1) False show ?thesis
      by (simp add: drain_loop.simps [of "pre @ s"] drain_loop.simps [of s] consume_paste_def)
  next
    case None
    have consume: "consume_paste r e = (if length r - keep_of r = 0 then (0, e, [])
        else (length r - keep_of r, e\<lparr>id_paste := id_paste e @ take (length r - keep_of r) r\<rparr>, []))"
      if "find_sub paste_end_marker r = None" for r e
      using that by (simp add: consume_paste_def Let_def keep_of_def)
    have c1: "consume_paste (pre @ s) d =
        (length pre + (length s - keep_of s), d\<lparr>id_paste := id_paste d @ pre @ take (length s - keep_of s) s\<rparr>, [])"
      using None f k keep_of_spec(1) [of s] False by (cases pre) (simp_all add: consume Suc_diff_le)
    have "drain_loop (pre @ s) d = drain_loop (drop (length s - keep_of s) s)
        (d\<lparr>id_paste := id_paste d @ pre @ take (length s - keep_of s) s\<rparr>)"
      using c1 False assms(1) by (simp add: drain_loop.simps [of "pre @ s"] split: prod.split)
    moreover have "drain_loop s ?d = drain_loop (drop (length s - keep_of s) s)
        (d\<lparr>id_paste := id_paste d @ pre @ take (length s - keep_of s) s\<rparr>)"
    proof (cases "length s \<le> keep_of s")
      case False
      then have "consume_paste s ?d =
          (length s - keep_of s, d\<lparr>id_paste := id_paste d @ pre @ take (length s - keep_of s) s\<rparr>, [])"
        using None by (simp add: consume)
      with False assms(1) show ?thesis by (simp add: drain_loop.simps [of s] split: prod.split)
    qed simp
    ultimately show ?thesis by simp
  qed
qed

lemma paste_prefix_never_closes:
  assumes "find_sub paste_end_marker rest = None" "j < length rest - keep_of rest"
  shows "\<not> closing (drop j (rest @ ext))"
proof
  assume c: "closing (drop j (rest @ ext))"
  moreover have "drop j (rest @ ext) = drop j rest @ ext" using assms(2) by simp
  ultimately have "starts_with (drop j rest) paste_end_marker \<or> length (drop j rest) \<le> 5 \<and> closing (drop j rest)"
    using closing_append by metis
  moreover have "\<not> starts_with (drop j rest) paste_end_marker" using find_sub_None [OF assms(1)] .
  ultimately have s: "length rest - j \<le> 5" "closing (drop j rest)" by simp_all
  have "closing (drop (length rest - (length rest - j)) rest)" using s(2) assms(2) by simp
  moreover have "\<not> closing (drop (length rest - (length rest - j)) rest)"
    by (rule keep_of_spec(4)) (use s(1) assms(2) in linarith)+
  ultimately show False by simp
qed

subsection \<open>Draining in two steps\<close>

abbreviation then_drain ::
  "string \<times> input_decoder \<times> event list \<Rightarrow> string \<Rightarrow> string \<times> input_decoder \<times> event list" where
  "then_drain r ext \<equiv> (case r of (left, d1, e1) \<Rightarrow>
     (case drain_loop (left @ ext) d1 of (l2, d2, e2) \<Rightarrow> (l2, d2, e1 @ e2)))"

lemma drain_loop_one:
  assumes "rest \<noteq> []" "\<not> id_pasting d" "fst (consume_one rest d) \<noteq> 0"
  shows "drain_loop rest d = (case consume_one rest d of (n, d1, evs) \<Rightarrow>
    (case drain_loop (drop n rest) d1 of (left, d2, later) \<Rightarrow> (left, d2, evs @ later)))"
  using assms by (subst drain_loop.simps) (simp add: case_prod_beta)

lemma drain_loop_paste:
  assumes "rest \<noteq> []" "id_pasting d" "fst (consume_paste rest d) \<noteq> 0"
  shows "drain_loop rest d = (case consume_paste rest d of (n, d1, evs) \<Rightarrow>
    (case drain_loop (drop n rest) d1 of (left, d2, later) \<Rightarrow> (left, d2, evs @ later)))"
  using assms by (subst drain_loop.simps) (simp add: case_prod_beta)

lemma drain_loop_stuck:
  assumes "rest \<noteq> []" "fst (if id_pasting d then consume_paste rest d else consume_one rest d) = 0"
  shows "drain_loop rest d = (rest, d, [])"
  using assms consume_one_zero [of rest d] consume_paste_zero [of rest d]
  by (subst drain_loop.simps) (auto simp: case_prod_beta split: if_splits)

lemma drain_loop_append: "drain_loop (rest @ ext) d = then_drain (drain_loop rest d) ext"
proof (induction rest d rule: drain_loop.induct)
  case (1 rest d)
  show ?case
  proof (cases "rest = [] \<or> fst (if id_pasting d then consume_paste rest d else consume_one rest d) = 0")
    case True
    then show ?thesis using drain_loop_stuck [of rest d] by (cases "rest = []") (auto split: prod.split)
  next
    case False
    then have ne: "rest \<noteq> []" and some: "fst (if id_pasting d then consume_paste rest d else consume_one rest d) \<noteq> 0" by auto
    obtain n d1 evs where st: "(if id_pasting d then consume_paste rest d else consume_one rest d) = (n, d1, evs)"
      by (cases "if id_pasting d then consume_paste rest d else consume_one rest d")
    have IH: "drain_loop (drop n rest @ ext) d1 = then_drain (drain_loop (drop n rest) d1) ext"
      using 1 [OF ne st [symmetric] refl] some st by simp
    show ?thesis
    proof (cases "id_pasting d")
      case F: False
      have c: "consume_one rest d = (n, d1, evs)" "n \<noteq> 0" using st some F by auto
      have "consume_one (rest @ ext) d = (n, d1, evs)" "n \<le> length rest"
        using consume_one_append [of rest d ext] consume_one_le [OF ne, of d] c ne by simp_all
      then show ?thesis
        using drain_loop_one [of "rest @ ext" d] drain_loop_one [OF ne F] F c ne IH by (simp add: case_prod_beta)
    next
      case T: True
      have c: "consume_paste rest d = (n, d1, evs)" "n \<noteq> 0" using st some T by auto
      note r = drain_loop_paste [OF ne T]
      show ?thesis
      proof (cases "find_sub paste_end_marker rest")
        case (Some i)
        then have "consume_paste (rest @ ext) d = (n, d1, evs)" "n \<le> length rest"
          using c(1) find_sub_append [OF Some, of ext] find_sub_Some_less [OF Some]
          by (auto simp: consume_paste_def)
        then show ?thesis using drain_loop_paste [of "rest @ ext" d] r T c ne IH by (simp add: case_prod_beta)
      next
        case None
        let ?pre = "take (length rest - keep_of rest) rest"
        have e: "n = length rest - keep_of rest" "d1 = d\<lparr>id_paste := id_paste d @ ?pre\<rparr>" "evs = []"
          using c None by (auto simp: consume_paste_def Let_def keep_of_def split: if_splits)
        have "drain_loop (rest @ ext) d = drain_loop (drop n rest @ ext) d1"
          using drain_paste_shift [OF T, of ?pre "drop n rest @ ext"] paste_prefix_never_closes [OF None, of _ ext]
          unfolding e by (simp flip: append_assoc)
        then show ?thesis using r c IH e(3) by (simp add: case_prod_beta)
      qed
    qed
  qed
qed

subsection \<open>Reads\<close>

text \<open>The held bytes and the deadline are not looked at while draining.\<close>

definition outer :: "string \<Rightarrow> int option \<Rightarrow> input_decoder \<Rightarrow> input_decoder" where
  "outer h x d = d\<lparr>id_held := h, id_deadline := x\<rparr>"

lemma outer_simps [simp]:
  "id_pasting (outer h x d) = id_pasting d" "id_paste (outer h x d) = id_paste d" "id_held (outer h x d) = h"
  "id_deadline (outer h x d) = x" "id_escape_timeout (outer h x d) = id_escape_timeout d"
  "outer h x (outer h' x' d) = outer h x d" "outer (id_held d) (id_deadline d) d = d"
  by (simp_all add: outer_def)

abbreviation outer_result :: "string \<Rightarrow> int option \<Rightarrow> 'a \<times> input_decoder \<times> event list \<Rightarrow> 'a \<times> input_decoder \<times> event list" where
  "outer_result h x r \<equiv> (fst r, outer h x (fst (snd r)), snd (snd r))"

lemma consume_csi_outer: "consume_csi rest (outer h x d) = outer_result h x (consume_csi rest d)"
  by (simp add: consume_csi_def Let_def outer_def split: option.split)

lemma consume_ss3_outer: "consume_ss3 rest (outer h x d) = outer_result h x (consume_ss3 rest d)"
  by (simp add: consume_ss3_def Let_def)

lemma consume_one_outer: "consume_one rest (outer h x d) = outer_result h x (consume_one rest d)"
  by (simp add: consume_one_def consume_escape_def consume_csi_outer consume_ss3_outer case_prod_beta)

lemma consume_paste_outer: "consume_paste rest (outer h x d) = outer_result h x (consume_paste rest d)"
  by (simp add: consume_paste_def Let_def outer_def split: option.split)

lemma drain_loop_outer: "drain_loop rest (outer h x d) = outer_result h x (drain_loop rest d)"
proof (induction rest d rule: drain_loop.induct)
  case (1 rest d)
  let ?c = "if id_pasting d then consume_paste rest d else consume_one rest d"
  have c: "(if id_pasting (outer h x d) then consume_paste rest (outer h x d) else consume_one rest (outer h x d)) =
      outer_result h x ?c"
    by (simp add: consume_one_outer consume_paste_outer)
  obtain n d1 evs where st: "?c = (n, d1, evs)" by (cases ?c)
  show ?case
  proof (cases "rest = [] \<or> n = 0")
    case True
    then show ?thesis
      unfolding drain_loop.simps [of rest "outer h x d"] drain_loop.simps [of rest d] c st by auto
  next
    case False
    then have "drain_loop (drop n rest) (outer h x d1) = outer_result h x (drain_loop (drop n rest) d1)"
      using 1 [OF _ st [symmetric] refl] by simp
    with False show ?thesis
      unfolding drain_loop.simps [of rest "outer h x d"] drain_loop.simps [of rest d] c st
      by (simp add: case_prod_beta)
  qed
qed

fun feeds :: "(string \<times> int) list \<Rightarrow> input_decoder \<Rightarrow> input_decoder \<times> event list" where
  "feeds [] d = (d, [])"
| "feeds ((bs, now) # reads) d =
    (case feed bs now d of (d1, e1) \<Rightarrow> (case feeds reads d1 of (d2, e2) \<Rightarrow> (d2, e1 @ e2)))"

definition undated :: "input_decoder \<Rightarrow> input_decoder" where
  "undated d = d\<lparr>id_deadline := None\<rparr>"

lemma undated_outer: "undated d = outer (id_held d) None d"
  by (simp add: undated_def outer_def)

lemma arm_outer: "\<exists>x. arm now d = outer (id_held d) x d"
  unfolding arm_def outer_def by (cases "id_deadline d") (auto intro: exI [of _ None] exI [of _ "id_deadline d"])

lemma feed_drains:
  "\<exists>x. feed bs now d = (outer (fst (drain_loop (id_held d @ bs) d)) x (fst (snd (drain_loop (id_held d @ bs) d))),
     snd (snd (drain_loop (id_held d @ bs) d)))"
proof -
  let ?r = "drain_loop (id_held d @ bs) d"
  have o: "d\<lparr>id_held := id_held d @ bs\<rparr> = outer (id_held d @ bs) (id_deadline d) d" by (simp add: outer_def)
  have "drain (d\<lparr>id_held := id_held d @ bs\<rparr>) =
      ((outer (id_held d @ bs) (id_deadline d) (fst (snd ?r)))\<lparr>id_held := fst ?r\<rparr>, snd (snd ?r))"
    unfolding o by (simp add: drain_def drain_loop_outer)
  also have "\<dots> = (outer (fst ?r) (id_deadline d) (fst (snd ?r)), snd (snd ?r))" by (simp add: outer_def)
  finally show ?thesis
    using arm_outer [of now "outer (fst ?r) (id_deadline d) (fst (snd ?r))"] by (auto simp: feed_def)
qed

lemma feeds_drain:
  assumes "reads \<noteq> []"
  shows "\<exists>x. feeds reads d = (outer (fst (drain_loop (id_held d @ concat (map fst reads)) d)) x
      (fst (snd (drain_loop (id_held d @ concat (map fst reads)) d))),
      snd (snd (drain_loop (id_held d @ concat (map fst reads)) d)))"
  using assms
proof (induction reads arbitrary: d)
  case (Cons r reads)
  obtain bs now where r: "r = (bs, now)" by (cases r)
  let ?r = "drain_loop (id_held d @ bs) d"
  obtain x where f: "feed bs now d = (outer (fst ?r) x (fst (snd ?r)), snd (snd ?r))" using feed_drains by blast
  show ?case
  proof (cases "reads = []")
    case True
    with f r show ?thesis by auto
  next
    case False
    let ?d = "outer (fst ?r) x (fst (snd ?r))"
    let ?s = "drain_loop (fst ?r @ concat (map fst reads)) (fst (snd ?r))"
    from Cons.IH [OF False, of ?d] obtain y where
      "feeds reads ?d = (outer (fst ?s) y (fst (snd ?s)), snd (snd ?s))"
      by (auto simp: drain_loop_outer)
    moreover have "drain_loop (id_held d @ concat (map fst (r # reads))) d = (fst ?s, fst (snd ?s), snd (snd ?r) @ snd (snd ?s))"
      using drain_loop_append [of "id_held d @ bs" "concat (map fst reads)" d] by (simp add: r case_prod_beta)
    ultimately show ?thesis using f r by auto
  qed
qed simp

end
