(* ===== verification/DecodeProps.thy ===== *)
theory DecodeProps
  imports DecodeStream
begin

text \<open>
  The properties of the input decoder: reads, pastes, typed text, modified keys and the escape
  deadline.  \<open>chars_of\<close> is the reference reading of a byte string as scalar values, with a
  replacement character for each maximal malformed part.
\<close>

subsection \<open>The characters of a text\<close>

function chars_of :: "string \<Rightarrow> nat list" where
  "chars_of rest =
    (if rest = [] then []
     else if sc_incomplete (scan_scalar rest) then [replacement_character]
     else (if sc_malformed (scan_scalar rest) then replacement_character else sc_codepoint (scan_scalar rest))
       # chars_of (drop (sc_length (scan_scalar rest)) rest))"
  by pat_completeness auto

termination
proof (relation "measure length")
  fix rest :: string
  assume "rest \<noteq> []" "\<not> sc_incomplete (scan_scalar rest)"
  then show "(drop (sc_length (scan_scalar rest)) rest, rest) \<in> measure length"
    using scan_scalar_takes [of rest] by (cases rest) auto
qed simp

declare chars_of.simps [simp del]

definition encode_all :: "nat list \<Rightarrow> string" where
  "encode_all cs = concat (map encode_utf8 cs)"

lemma encode_all_simps [simp]:
  "encode_all [] = []" "encode_all (c # cs) = encode_utf8 c @ encode_all cs"
  by (simp_all add: encode_all_def)

lemma encode_utf8_nonempty [simp]: "encode_utf8 c \<noteq> []"
  by (simp add: encode_utf8_def)

lemma scan_found_simps [simp]:
  "sc_codepoint (scan_found c n) = c" "sc_length (scan_found c n) = n"
  "\<not> sc_incomplete (scan_found c n)" "\<not> sc_malformed (scan_found c n)"
  by (simp_all add: scan_found_def)

lemma replacement_is_scalar: "is_scalar_value replacement_character"
  by (simp add: replacement_character_def is_scalar_value_def)

lemma replacement_encoded: "replacement_bytes = encode_utf8 replacement_character"
proof -
  have "encode_utf8 replacement_character = [char_of (239 :: nat), char_of (191 :: nat), char_of (189 :: nat)]"
    by (simp add: replacement_character_def encode_utf8_bytes)
  also have "\<dots> = replacement_bytes" unfolding replacement_bytes_def by code_simp
  finally show ?thesis by simp
qed

lemma scan_scalar_taken:
  assumes "\<not> sc_incomplete (scan_scalar rest)" "\<not> sc_malformed (scan_scalar rest)" "rest \<noteq> []"
  shows "is_scalar_value (sc_codepoint (scan_scalar rest))"
    "take (sc_length (scan_scalar rest)) rest = encode_utf8 (sc_codepoint (scan_scalar rest))"
  using scan_scalar_found [OF assms] by (auto simp: found_in_def)

lemma chars_of_scalar: "\<forall>c \<in> set (chars_of rest). is_scalar_value c"
proof (induction rest rule: chars_of.induct)
  case (1 rest)
  then show ?case
    by (subst chars_of.simps) (auto simp: replacement_is_scalar scan_scalar_taken)
qed

lemma chars_of_encode: "\<forall>c \<in> set cs. is_scalar_value c \<Longrightarrow> chars_of (encode_all cs) = cs"
proof (induction cs)
  case (Cons c cs)
  have "scan_scalar (encode_all (c # cs)) = scan_found c (length (encode_utf8 c))"
    using scan_scalar_encode [of c "encode_all cs"] Cons.prems by simp
  with Cons show ?case by (subst chars_of.simps) simp
qed (simp add: chars_of.simps)

subsection \<open>Repairing a text\<close>

lemma well_formed_rest_chars: "well_formed_rest rest clean = clean @ encode_all (chars_of rest)"
proof (induction rest clean rule: well_formed_rest.induct)
  case (1 rest clean)
  show ?case
  proof (cases "rest = [] \<or> sc_incomplete (scan_scalar rest)")
    case True
    then show ?thesis
      by (subst well_formed_rest.simps, subst chars_of.simps) (auto simp: replacement_encoded)
  next
    case False
    with 1 [OF _ refl] show ?thesis
      by (subst well_formed_rest.simps, subst chars_of.simps)
        (simp add: replacement_encoded scan_scalar_taken Let_def)
  qed
qed

lemma well_formed_until_rest:
  "well_formed_rest (drop (well_formed_until s at) s) (take (well_formed_until s at) s) =
   well_formed_rest (drop at s) (take at s)"
proof (induction s at rule: well_formed_until.induct)
  case (1 s at)
  let ?s = "scan_scalar (drop at s)"
  show ?case
  proof (cases "length s \<le> at \<or> sc_incomplete ?s \<or> sc_malformed ?s")
    case True
    then have "well_formed_until s at = at" by (subst well_formed_until.simps) (auto simp: Let_def)
    then show ?thesis by simp
  next
    case False
    then have "well_formed_until s at = well_formed_until s (at + sc_length ?s)"
      by (subst well_formed_until.simps) (simp add: Let_def)
    moreover have "well_formed_rest (drop at s) (take at s) =
        well_formed_rest (drop (at + sc_length ?s) s) (take (at + sc_length ?s) s)"
      using False by (subst well_formed_rest.simps) (simp add: Let_def take_add add.commute)
    ultimately show ?thesis using 1 [OF _ refl] False by simp
  qed
qed

lemma well_formed_chars: "well_formed s = encode_all (chars_of s)"
proof -
  have "well_formed s = well_formed_rest (drop (well_formed_until s 0) s) (take (well_formed_until s 0) s)"
    by (simp add: well_formed_def Let_def well_formed_rest_chars chars_of.simps)
  also have "\<dots> = encode_all (chars_of s)"
    unfolding well_formed_until_rest by (simp add: well_formed_rest_chars)
  finally show ?thesis .
qed

text \<open>Repairing malformed text gives well-formed UTF-8, leaves well-formed text as it is, and is
  idempotent.\<close>

theorem well_formed_repairs:
  "(\<exists>cs. list_all is_scalar_value cs \<and> well_formed s = encode_all cs) \<and>
   (list_all is_scalar_value cs \<longrightarrow> well_formed (encode_all cs) = encode_all cs) \<and>
   well_formed (well_formed s) = well_formed s"
  using chars_of_scalar [of s] chars_of_encode
  by (auto simp: well_formed_chars list_all_iff)

theorem well_formed_repairs_witness:
  "list_all is_scalar_value [0x41, 0xE9, 0x20AC, 0x1F600] \<and>
   well_formed (encode_all [0x41, 0xE9, 0x20AC, 0x1F600]) = encode_all [0x41, 0xE9, 0x20AC, 0x1F600]"
proof -
  have s: "list_all is_scalar_value [0x41, 0xE9, 0x20AC, 0x1F600]" by (simp add: is_scalar_value_def)
  with well_formed_repairs [of "[]" "[0x41, 0xE9, 0x20AC, 0x1F600]"] show ?thesis by blast
qed

subsection \<open>Typed text\<close>

definition idle :: "input_decoder \<Rightarrow> bool" where
  "idle d \<longleftrightarrow> id_held d = [] \<and> id_paste d = [] \<and> \<not> id_pasting d"

definition typed :: "nat \<Rightarrow> event" where
  "typed c = Key_event (codepoint_key c no_modifiers)"

lemma drain_typed:
  assumes "escape_byte \<notin> set rest" "\<not> id_pasting d"
  shows "fst (snd (drain_loop rest d)) = d \<and>
    (fst (drain_loop rest d) = [] \<longrightarrow> snd (snd (drain_loop rest d)) = map typed (chars_of rest)) \<and>
    (fst (drain_loop rest d) \<noteq> [] \<longrightarrow>
      map typed (chars_of rest) = snd (snd (drain_loop rest d)) @ [typed replacement_character])"
  using assms
proof (induction rest rule: chars_of.induct)
  case (1 rest)
  let ?s = "scan_scalar rest"
  show ?case
  proof (cases "rest = []")
    case True
    then show ?thesis by (simp add: chars_of.simps)
  next
    case ne: False
    have "rest ! 0 \<noteq> escape_byte" using 1(2) ne by (cases rest) auto
    then have one: "consume_one rest d = (fst (emit_text rest no_modifiers), d, snd (emit_text rest no_modifiers))"
      by (simp add: consume_one_def case_prod_beta)
    show ?thesis
    proof (cases "sc_incomplete ?s")
      case True
      then have "drain_loop rest d = (rest, d, [])"
        using drain_loop_stuck [OF ne, of d] 1(3) one by (simp add: emit_text_def)
      with True ne show ?thesis by (simp add: chars_of.simps [of rest])
    next
      case False
      have e: "consume_one rest d = (sc_length ?s, d,
          [typed (if sc_malformed ?s then replacement_character else sc_codepoint ?s)])" "0 < sc_length ?s"
        using one False scan_scalar_takes [OF False] by (simp_all add: emit_text_def Let_def typed_def)
      have "escape_byte \<notin> set (drop (sc_length ?s) rest)" using 1(2) by (meson in_set_dropD)
      with 1(1) [OF ne False this 1(3)] drain_loop_one [OF ne 1(3)] e ne False show ?thesis
        by (simp add: chars_of.simps [of rest] case_prod_beta)
    qed
  qed
qed

lemma feeds_result:
  assumes "reads \<noteq> []" "idle d"
  shows "snd (feeds reads d) = snd (snd (drain_loop (concat (map fst reads)) d))"
    "id_held (fst (feeds reads d)) = fst (drain_loop (concat (map fst reads)) d)"
    "id_paste (fst (feeds reads d)) = id_paste (fst (snd (drain_loop (concat (map fst reads)) d)))"
    "id_pasting (fst (feeds reads d)) = id_pasting (fst (snd (drain_loop (concat (map fst reads)) d)))"
  using feeds_drain [OF assms(1), of d] assms(2) by (auto simp: idle_def)






text \<open>Typing and pasting degrade alike. When text without escapes is typed and fully consumed, the
  characters of the key events spell exactly the text the same bytes would have been pasted as.\<close>

theorem typed_as_pasted:
  assumes "idle d" "reads \<noteq> []" "escape_byte \<notin> set (concat (map fst reads))" "id_held (fst (feeds reads d)) = []"
  shows "\<exists>cs. list_all is_scalar_value cs \<and>
    snd (feeds reads d) = map (\<lambda>c. Key_event (codepoint_key c no_modifiers)) cs \<and>
    well_formed (concat (map fst reads)) = encode_all cs"
proof -
  let ?s = "concat (map fst reads)"
  have "snd (feeds reads d) = map typed (chars_of ?s)"
    using drain_typed [OF assms(3), of d] feeds_result [OF assms(2,1)] assms(1,4) by (simp add: idle_def)
  then show ?thesis
    using chars_of_scalar [of ?s]
    by (intro exI [of _ "chars_of ?s"]) (simp add: well_formed_chars typed_def comp_def list_all_iff cong: map_cong)
qed

theorem typed_as_pasted_witness:
  "\<exists>cs. list_all is_scalar_value cs \<and>
    snd (feeds [(''ls'', 0)] (input_decoder_init 25)) =
      map (\<lambda>c. Key_event (codepoint_key c no_modifiers)) cs \<and>
    well_formed (concat (map fst [(''ls'', 0 :: int)])) = encode_all cs"
proof (rule typed_as_pasted)
  show "id_held (fst (feeds [(''ls'', 0)] (input_decoder_init 25))) = []" by code_simp
qed (simp_all add: idle_def input_decoder_init_def escape_byte_def)

subsection \<open>Escape sequences\<close>

lemma consume_csi_whole:
  assumes "\<forall>c \<in> set ps. 0x30 \<le> ubyte c \<and> ubyte c \<le> 0x3F" "0x40 \<le> ubyte f" "ubyte f \<le> 0x7E"
  shows "consume_csi (escape_byte # CHR ''['' # ps @ [f]) d =
    (let consumed = length ps + 3; parameters = parse_parameters ps in
      if cp_private_use parameters then (consumed, d, [])
      else if f = CHR 0x7E then
        (if cp_first parameters = paste_start_parameter then (consumed, d\<lparr>id_pasting := True\<rparr>, [])
         else if cp_first parameters = paste_end_parameter then (consumed, d, [])
         else (case key_for_tilde (cp_first parameters) of
             Some key \<Rightarrow> (consumed, d, [Key_event (named_key_event key (modifiers_from (cp_second parameters)))])
           | None \<Rightarrow> (consumed, d, [])))
      else (case key_for_final f of
          Some key \<Rightarrow> (consumed, d,
             if \<not> cp_has_first parameters \<or> cp_first parameters = 1
             then [Key_event (named_key_event key (modifiers_from (cp_second parameters)))] else [])
        | None \<Rightarrow> (consumed, d, [])))"
proof -
  let ?P = "\<lambda>c. 0x30 \<le> ubyte c \<and> ubyte c \<le> 0x3F" let ?Q = "\<lambda>c. 0x20 \<le> ubyte c \<and> ubyte c \<le> 0x2F"
  let ?r = "escape_byte # CHR ''['' # ps @ [f]"
  have d: "drop 2 ?r = ps @ [f]" "drop (2 + length ps) ?r = [f]" by simp_all
  have p: "takeWhile ?P (drop 2 ?r) = ps" unfolding d using assms by (simp add: takeWhile_append)
  have q: "takeWhile ?Q (drop (2 + length ps) ?r) = []" unfolding d using assms by simp
  have s: "substr ?r 2 (2 + length ps - 2) = ps" by (simp add: substr_def)
  have n: "?r ! (2 + length ps + length ([] :: string)) = f" "length ?r = length ps + 3"
    "2 + length ps + length ([] :: string) \<noteq> length ps + 3" "2 + length ps + length ([] :: string) + 1 = length ps + 3"
    "\<not> (ubyte f < 64 \<or> 126 < ubyte f)" using assms by simp_all
  show ?thesis
    unfolding consume_csi_def Let_def byte_at_def p q s n by (simp only: n if_False)
qed

text \<open>A run of digits is one parameter.\<close>

lemma csi_limit: "unat (np_high (policy_for Csi_parameter)) = 4294967295"
  by (simp add: kNumericUnsignedMax_def)

lemma parse_digits:
  assumes "ds \<noteq> []" "\<forall>c \<in> set ds. 48 \<le> ubyte c \<and> ubyte c \<le> 57" "rest = [] \<or> \<not> is_digit_of 10 (hd rest)"
    and "\<not> cr_in_sub r" "\<not> cr_seen r"
  shows "parse_parameters_loop (ds @ rest) r =
    parse_parameters_loop rest (r\<lparr>cr_value := min (digits_from 10 0 ds) 4294967295, cr_seen := True\<rparr>)"
proof -
  obtain c cs where ds: "ds = c # cs" using assms(1) by (cases ds) auto
  have c: "48 \<le> ubyte c" "ubyte c \<le> 57" using assms(2) ds by simp_all
  then have ne: "c \<noteq> CHR '';''" "c \<noteq> CHR '':''" by (auto simp: ubyte_def)
  have tw: "takeWhile (is_digit_of 10) (ds @ rest) = ds"
    using assms(2,3) by (cases rest) (auto simp: is_digit_of_ten takeWhile_append)
  have run: "dr_consumed (scan_digits (ds @ rest) 10 (np_high (policy_for Csi_parameter))) = length ds"
    "unat (dr_value (scan_digits (ds @ rest) 10 (np_high (policy_for Csi_parameter)))) = min (digits_from 10 0 ds) 4294967295"
    using scan_digits_spec [of 10 "ds @ rest" "np_high (policy_for Csi_parameter)"] tw csi_limit by simp_all
  have "min (digits_from 10 0 ds) 4294967295 mod 2 ^ 32 = min (digits_from 10 0 ds) 4294967295" by simp
  with run c ne assms(4,5) show ?thesis
    by (subst parse_parameters_loop.simps) (simp add: ds Let_def del: policy_for_rows)
qed

lemma digit_nat_char: "d < 10 \<Longrightarrow> digit_nat 10 (char_of (48 + d :: nat)) = d \<and> ubyte (char_of (48 + d :: nat)) = 48 + d"
  using decimal_char [of d] ubyte_char_of [of "48 + d"] by simp

lemma parse_200:
  "parse_parameters ''200'' = \<lparr>cp_first = 200, cp_second = 0, cp_has_first = True, cp_private_use = False\<rparr>"
proof -
  have d: "\<forall>c \<in> set ''200''. 48 \<le> ubyte c \<and> ubyte c \<le> 57" by code_simp
  have v: "digits_from 10 0 ''200'' = 200"
    by (simp add: digits_from_def digit_nat_ten is_digit_of_ten ubyte_def)
  have "parse_parameters_loop ''200'' csi_reading_init = csi_reading_init\<lparr>cr_value := 200, cr_seen := True\<rparr>"
    using parse_digits [of "''200''" "[]" csi_reading_init] d v
    by (simp add: csi_reading_init_def parse_parameters_loop.simps [of "[]"])
  then show ?thesis by (simp add: parse_parameters_def csi_store_def csi_reading_init_def)
qed

lemma parse_modified:
  assumes "p < 10"
  shows "parse_parameters [CHR ''1'', CHR '';'', char_of (48 + p)] =
    \<lparr>cp_first = 1, cp_second = p, cp_has_first = True, cp_private_use = False\<rparr>"
proof -
  let ?c = "char_of (48 + p) :: char"
  let ?r0 = "csi_reading_init\<lparr>cr_value := 1, cr_seen := True\<rparr>"
  let ?r1 = "(csi_store ?r0)\<lparr>cr_field := 1, cr_value := 0, cr_seen := False, cr_in_sub := False\<rparr>"
  have one: "digits_from 10 0 [CHR ''1''] = 1" "\<not> is_digit_of 10 (CHR '';'')" "48 \<le> ubyte (CHR ''1'')" "ubyte (CHR ''1'') \<le> 57"
    by (simp_all add: digits_from_def digit_nat_ten is_digit_of_ten ubyte_def)
  have two: "digits_from 10 0 [?c] = p" "48 \<le> ubyte ?c" "ubyte ?c \<le> 57"
    using digit_nat_char [OF assms] assms by (simp_all add: digits_from_def)
  have "parse_parameters_loop ([CHR ''1''] @ [CHR '';'', ?c]) csi_reading_init = parse_parameters_loop [CHR '';'', ?c] ?r0"
    using parse_digits [of "[CHR ''1'']" "[CHR '';'', ?c]" csi_reading_init] one by (simp add: csi_reading_init_def)
  also have "\<dots> = parse_parameters_loop ([?c] @ []) ?r1"
    by (subst parse_parameters_loop.simps) (simp add: csi_store_def csi_reading_init_def Let_def ubyte_def)
  also have "\<dots> = parse_parameters_loop [] (?r1\<lparr>cr_value := p, cr_seen := True\<rparr>)"
    using parse_digits [of "[?c]" "[]" ?r1] two assms by simp
  finally show ?thesis
    by (simp add: parse_parameters_def parse_parameters_loop.simps [of "[]"] csi_store_def csi_reading_init_def)
qed

lemma drain_csi:
  assumes "\<forall>c \<in> set ps. 0x30 \<le> ubyte c \<and> ubyte c \<le> 0x3F" "0x40 \<le> ubyte f" "ubyte f \<le> 0x7E" "\<not> id_pasting d"
    and "consume_csi (escape_byte # CHR ''['' # ps @ [f]) d = (length ps + 3, d1, evs)"
  shows "drain_loop (escape_byte # CHR ''['' # ps @ [f]) d = ([], d1, evs)"
proof -
  have "consume_one (escape_byte # CHR ''['' # ps @ [f]) d = (length ps + 3, d1, evs)"
    using assms(5) by (simp add: consume_one_def consume_escape_def)
  then show ?thesis using drain_loop_one [of "escape_byte # CHR ''['' # ps @ [f]" d] assms(4) by simp
qed

definition paste_start_marker :: string where
  "paste_start_marker = escape_byte # ''[200~''"

lemma drain_paste_start:
  assumes "\<not> id_pasting d"
  shows "drain_loop paste_start_marker d = ([], d\<lparr>id_pasting := True\<rparr>, [])"
proof -
  have r: "\<forall>c \<in> set ''200''. 0x30 \<le> ubyte c \<and> ubyte c \<le> 0x3F" "0x40 \<le> ubyte (CHR 0x7E)" "ubyte (CHR 0x7E) \<le> 0x7E"
    by code_simp+
  have "consume_csi (escape_byte # CHR ''['' # ''200'' @ [CHR 0x7E]) d =
      (length ''200'' + 3, d\<lparr>id_pasting := True\<rparr>, [])"
    unfolding consume_csi_whole [OF r] parse_200 by (simp add: paste_start_parameter_def Let_def)
  from drain_csi [OF r assms this] show ?thesis by (simp add: paste_start_marker_def)
qed

lemma drain_paste_body:
  assumes "id_pasting d" "find_sub paste_end_marker (payload @ paste_end_marker) = Some (length payload)"
  shows "drain_loop (payload @ paste_end_marker) d =
    ([], d\<lparr>id_paste := [], id_pasting := False\<rparr>, [Paste_event (well_formed (id_paste d @ payload))])"
proof -
  have "consume_paste (payload @ paste_end_marker) d = (length payload + 6, d\<lparr>id_paste := [], id_pasting := False\<rparr>,
      [Paste_event (well_formed (id_paste d @ payload))])"
    using assms(2) by (simp add: consume_paste_def)
  then show ?thesis using drain_loop_paste [of "payload @ paste_end_marker" d] assms(1) by simp
qed

text \<open>C13: a bracketed paste is one event. However the bytes of start marker, payload and end marker are
  cut into reads, the decoder emits exactly one paste event carrying the repaired payload, and is idle
  again. The payload may contain escapes and partial markers, only not the end marker.\<close>

theorem paste_is_one_event:
  assumes "idle d" "reads \<noteq> []"
    and "concat (map fst reads) = paste_start_marker @ payload @ paste_end_marker"
    and "find_sub paste_end_marker (payload @ paste_end_marker) = Some (length payload)"
  shows "snd (feeds reads d) = [Paste_event (well_formed payload)] \<and> idle (fst (feeds reads d))"
proof -
  have "drain_loop (paste_start_marker @ payload @ paste_end_marker) d =
      ([], d\<lparr>id_pasting := True, id_paste := [], id_pasting := False\<rparr>, [Paste_event (well_formed payload)])"
    using drain_loop_append [of paste_start_marker "payload @ paste_end_marker" d] assms(1)
      drain_paste_start [of d] drain_paste_body [of "d\<lparr>id_pasting := True\<rparr>" payload] assms(4)
    by (simp add: idle_def)
  with feeds_result [OF assms(2,1)] assms(3) show ?thesis by (simp add: idle_def)
qed

definition demo_reads :: "(string \<times> int) list" where
  "demo_reads = [(CHR 0x1B # ''[20'', 0), (''0~rm -rf'' @ [CHR 0x1B], 9), (''[201'', 50), (CHR 0x7E # [], 90)]"

theorem paste_is_one_event_witness:
  "snd (feeds demo_reads (input_decoder_init 25)) = [Paste_event (well_formed ''rm -rf'')]"
proof -
  have "concat (map fst demo_reads) = paste_start_marker @ ''rm -rf'' @ paste_end_marker"
    "find_sub paste_end_marker (''rm -rf'' @ paste_end_marker) = Some (length ''rm -rf'')" by code_simp+
  from paste_is_one_event [OF _ _ this, of "input_decoder_init 25"] show ?thesis
    by (simp add: idle_def input_decoder_init_def demo_reads_def)
qed

text \<open>C12: where the input is cut into reads does not matter. Feeding any sequence of reads gives the same
  events and leaves the same held bytes and paste as feeding all their bytes at once; only the deadline,
  which depends on the arrival times, may differ.\<close>

theorem reads_do_not_matter:
  assumes "reads \<noteq> []"
  shows "snd (feeds reads d) = snd (feed (concat (map fst reads)) now d) \<and>
    undated (fst (feeds reads d)) = undated (fst (feed (concat (map fst reads)) now d))"
  using feeds_drain [OF assms, of d] feed_drains [of "concat (map fst reads)" now d] by (auto simp: undated_outer)

theorem reads_do_not_matter_witness:
  "snd (feeds demo_reads (input_decoder_init 25)) = snd (feed (concat (map fst demo_reads)) 0 (input_decoder_init 25))"
  using reads_do_not_matter [of demo_reads "input_decoder_init 25" 0] by (simp add: demo_reads_def)

text \<open>xterm's modifier parameter of a set of modifiers.\<close>

definition parameter_of :: "key_modifiers \<Rightarrow> nat" where
  "parameter_of m = 1 + (if km_shift m then 1 else 0) + (if km_alt m then 2 else 0) + (if km_ctrl m then 4 else 0)"

lemma modifiers_from_parameter: "modifiers_from (parameter_of m) = m"
proof -
  have "modifiers_from (parameter_of \<lparr>km_shift = s, km_alt = a, km_ctrl = c\<rparr>) = \<lparr>km_shift = s, km_alt = a, km_ctrl = c\<rparr>" for s a c
    by (cases s; cases a; cases c) (simp_all add: modifiers_from_def parameter_of_def no_modifiers_def Let_def small_lengths)
  then show ?thesis by (cases m) simp
qed

definition modified_sequence :: "key_modifiers \<Rightarrow> char \<Rightarrow> string" where
  "modified_sequence m f = escape_byte # CHR ''['' # [CHR ''1'', CHR '';'', char_of (48 + parameter_of m)] @ [f]"

lemma parameter_of_less: "parameter_of m < 10"
  by (simp add: parameter_of_def)

lemma key_for_final_range: "key_for_final f = Some k \<Longrightarrow> 0x41 \<le> ubyte f \<and> ubyte f \<le> 0x53"
  by (auto simp: key_for_final_def ubyte_def split: if_splits)

text \<open>A modified cursor or function key decodes to that key with exactly its modifiers. For every
  letter-final key and every set of modifiers, the sequence \<open>ESC [ 1 ; m F\<close> in any reads is one key event
  with the key and the modifiers.\<close>

theorem modified_keys_decode:
  assumes "key_for_final f = Some k" "idle d" "reads \<noteq> []" "concat (map fst reads) = modified_sequence m f"
  shows "snd (feeds reads d) = [Key_event (named_key_event k m)] \<and> idle (fst (feeds reads d))"
proof -
  let ?ps = "[CHR ''1'', CHR '';'', char_of (48 + parameter_of m)] :: string"
  note f = key_for_final_range [OF assms(1)]
  have r: "\<forall>c \<in> set ?ps. 0x30 \<le> ubyte c \<and> ubyte c \<le> 0x3F" "0x40 \<le> ubyte f" "ubyte f \<le> 0x7E"
    using f digit_nat_char [OF parameter_of_less, of m] parameter_of_less [of m]
    by (simp_all add: ubyte_def)
  have ne: "f \<noteq> CHR 0x7E" using f by (auto simp: ubyte_def)
  have "consume_csi (escape_byte # CHR ''['' # ?ps @ [f]) d = (length ?ps + 3, d, [Key_event (named_key_event k m)])"
    unfolding consume_csi_whole [OF r] parse_modified [OF parameter_of_less, of m]
    by (simp add: ne assms(1) modifiers_from_parameter Let_def)
  moreover have "\<not> id_pasting d" using assms(2) by (simp add: idle_def)
  ultimately have "drain_loop (modified_sequence m f) d = ([], d, [Key_event (named_key_event k m)])"
    unfolding modified_sequence_def by (intro drain_csi [OF r])
  with feeds_result [OF assms(3,2)] assms(2,4) show ?thesis by (simp add: idle_def)
qed

theorem modified_keys_decode_witness:
  "snd (feeds [(CHR 0x1B # ''[1'', 0), ('';5C'', 3)] (input_decoder_init 25)) =
   [Key_event (named_key_event Right \<lparr>km_shift = False, km_alt = False, km_ctrl = True\<rparr>)]"
proof -
  let ?m = "\<lparr>km_shift = False, km_alt = False, km_ctrl = True\<rparr>"
  have k: "key_for_final (CHR ''C'') = Some Right" by code_simp
  have "char_of (48 + parameter_of ?m) = CHR ''5''" by (simp add: parameter_of_def) code_simp
  then have s: "concat (map fst [(CHR 0x1B # ''[1'', 0 :: int), ('';5C'', 3)]) = modified_sequence ?m (CHR ''C'')"
    by (simp add: modified_sequence_def escape_byte_def)
  show ?thesis
    using modified_keys_decode [OF k _ _ s, of "input_decoder_init 25"] by (simp add: idle_def input_decoder_init_def)
qed

subsection \<open>The escape deadline\<close>

datatype decoder_call = Feed string int | Expire int | Reset

fun decoder_step :: "decoder_call \<Rightarrow> input_decoder \<Rightarrow> input_decoder" where
  "decoder_step (Feed bs now) d = fst (feed bs now d)"
| "decoder_step (Expire now) d = fst (expire now d)"
| "decoder_step Reset d = reset d"

text \<open>The latest time an operation saw.\<close>

fun call_time :: "decoder_call \<Rightarrow> int" where
  "call_time (Feed bs now) = now"
| "call_time (Expire now) = now"
| "call_time Reset = 0"

definition waiting :: "input_decoder \<Rightarrow> bool" where
  "waiting d \<longleftrightarrow> \<not> id_pasting d \<and> id_held d \<noteq> [] \<and> hd (id_held d) = escape_byte"

definition armed_right :: "input_decoder \<Rightarrow> bool" where
  "armed_right d \<longleftrightarrow> (id_deadline d \<noteq> None \<longleftrightarrow> waiting d)"

lemma armed_right_arm: "armed_right (arm now d)"
  by (simp add: armed_right_def waiting_def arm_def)

lemma armed_right_step: "armed_right d \<Longrightarrow> armed_right (decoder_step c d)"
proof (cases c)
  case (Expire now)
  assume a: "armed_right d"
  show ?thesis
  proof (cases "id_deadline d")
    case (Some due)
    then have "waiting d" using a by (simp add: armed_right_def)
    with Some a show ?thesis
      by (auto simp: Expire expire_def Let_def waiting_def armed_right_arm split: prod.split)
  qed (simp add: Expire expire_def a)
next
  case (Feed bs now)
  then show ?thesis by (simp add: feed_def armed_right_arm split: prod.split)
qed (simp add: reset_def armed_right_def waiting_def)

text \<open>C15: the loop is woken exactly when a key prefix is ambiguous. After any sequence of feeds, expiries
  and resets the deadline is armed if and only if bytes starting with ESC are held outside a paste; a
  partial character and a paste in flight never arm it.\<close>

theorem deadline_iff_ambiguous:
  "id_deadline (fold decoder_step calls (input_decoder_init timeout)) \<noteq> None \<longleftrightarrow>
    (let d = fold decoder_step calls (input_decoder_init timeout) in
     \<not> id_pasting d \<and> id_held d \<noteq> [] \<and> hd (id_held d) = escape_byte)"
proof -
  have "armed_right (fold decoder_step calls d)" if "armed_right d" for d
    using that by (induction calls arbitrary: d) (simp_all add: armed_right_step)
  moreover have "armed_right (input_decoder_init timeout)"
    by (simp add: armed_right_def waiting_def input_decoder_init_def)
  ultimately show ?thesis by (simp add: armed_right_def waiting_def Let_def)
qed

text \<open>
  A new ESC that begins in the same read in which an older prefix completes keeps the older
  deadline: here the second ESC arrives at 24, one unit before the deadline armed at 0, and is
  resolved as the Escape key at 25 rather than at 49.
\<close>

lemma stale_deadline:
  "id_deadline (fst (feeds [([CHR 0x1B], 0), (''[A'' @ [CHR 0x1B], 24)] (input_decoder_init 25))) = Some 25 \<and>
   id_held (fst (feeds [([CHR 0x1B], 0), (''[A'' @ [CHR 0x1B], 24)] (input_decoder_init 25))) = [CHR 0x1B]"
  by code_simp

end
