(* ===== verification/LexerProps.thy ===== *)
theory LexerProps
  imports Lexer
begin

text \<open>
  Properties of the lexer: every token moves on and stays in the source, a token cut short runs to
  the end of the input, the tokens flatten back to the source, a literal word has nothing to
  expand, and the here-document comparison is quote removal.
\<close>

subsection \<open>Every token moves on\<close>

text \<open>What every scan of a token promises about its result.\<close>

definition sound_lexed :: "string \<Rightarrow> nat \<Rightarrow> lexed \<Rightarrow> bool" where
  "sound_lexed s p d \<longleftrightarrow>
     onward s p (ld_end d) \<and> (ld_incomplete d \<longrightarrow> ld_end d = length s) \<and>
     (ld_error d = No_error \<or> ld_error d = Unexpected_byte \<or> ld_incomplete d)"

lemma whole_sound [intro]: "onward s p q \<Longrightarrow> sound_lexed s p (whole kind q)"
  by (simp add: sound_lexed_def whole_def)

lemma whole_fields [simp]:
  "ld_kind (whole kind q) = kind" "ld_end (whole kind q) = q" "ld_error (whole kind q) = No_error"
  "ld_incomplete (whole kind q) = False" "ld_literal (whole kind q) = False"
  by (simp_all add: whole_def)

lemma cut_short_fields [simp]:
  "ld_kind (cut_short kind q e a) = kind" "ld_end (cut_short kind q e a) = q" "ld_error (cut_short kind q e a) = e"
  "ld_incomplete (cut_short kind q e a) = True" "ld_literal (cut_short kind q e a) = False"
  by (simp_all add: cut_short_def)

lemma segment_or_sound:
  "onward s p (fst r) \<Longrightarrow> (\<not> snd r \<Longrightarrow> fst r = length s) \<Longrightarrow> sound_lexed s p (segment_or kind error p r)"
  by (auto simp: segment_or_def sound_lexed_def)

lemma quote_segment_sound:
  assumes "p < q" "q \<le> length s"
  shows "sound_lexed s p (segment_or kind error p (quote_closed s q))"
  using past_closer_onward [OF assms] assms by (intro segment_or_sound) (auto simp: quote_closed_def past_closer_def)

lemma past_continuations_first: "past_continuations s p \<noteq> p \<Longrightarrow> s ! p = backslash \<and> p < length s"
  by (subst (asm) past_continuations.simps) (auto split: if_splits)

lemma not_quote_before:
  assumes "char_at s (past_continuations s p) = c" "c \<noteq> single_quote"
  shows "char_at s p \<noteq> single_quote"
  using past_continuations_first [of s p] assms by (cases "past_continuations s p = p") (auto simp: char_at_def)

lemma name_end_bounds: "p \<le> length s \<Longrightarrow> p \<le> name_end s p \<and> name_end s p \<le> length s"
proof (induction s p rule: name_end.induct)
  case (1 s p)
  then show ?case
    using past_continuations_ge [of p s] by (subst (1 2) name_end.simps) (auto split: if_splits)
qed

lemma arithmetic_segment_sound:
  assumes "p < opened" "opened \<le> length s"
  shows "sound_lexed s p (lex_arithmetic_segment s p opened)"
proof -
  let ?e = "parens_end s opened 1"
  have e: "p < ?e" "?e \<le> length s" using parens_end_bounds [OF assms(2), of 1] assms(1) by simp_all
  have "?e \<le> past_continuations s ?e" by (rule past_continuations_ge)
  moreover have "char_at s (past_continuations s ?e) = CHR '')'' \<Longrightarrow> past_continuations s ?e < length s"
    using char_at_in by simp
  ultimately show ?thesis using e
    by (auto simp: lex_arithmetic_segment_def sound_lexed_def onward_def)
qed

lemma dollar_segment_sound:
  assumes "p < length s" "s ! p = CHR ''$''"
  shows "sound_lexed s p (lex_dollar_segment s mode p)"
proof -
  let ?a = "past_continuations s (p + 1)"
  let ?b = "past_continuations s (?a + 1)"
  have a: "p < ?a" using past_continuations_onward [OF assms(1)] by simp
  have ain: "?a < length s" if "char_at s ?a = c" "c \<noteq> CHR 0x00" for c using char_at_in that by blast
  have b: "p < ?b" using a past_continuations_ge [of "?a + 1" s] by simp
  have bin: "?b < length s" if "char_at s ?b = c" "c \<noteq> CHR 0x00" for c using char_at_in that by blast
  have "sound_lexed s p (segment_or Seg_dollar_single_quoted Unterminated_single_quote p (skip_dollar_single_quote s p))"
    if "char_at s (p + 1) = single_quote"
    using that skip_dollar_onward [of s p] skip_dollar_unclosed [of s p] by (intro segment_or_sound) simp_all
  moreover have "sound_lexed s p (lex_arithmetic_segment s p (?b + 1))" if "char_at s ?b = CHR ''(''"
    using bin [OF that] b by (intro arithmetic_segment_sound) simp_all
  moreover have "sound_lexed s p (segment_or Seg_command_sub Unterminated_command_sub p (skip_quoted_or_expansion s p False))"
    if "char_at s ?a = CHR ''(''"
    using skip_expansion_onward [OF assms that] skip_expansion_unclosed [OF assms that] not_quote_before [OF that]
    by (intro segment_or_sound) simp_all
  moreover have "sound_lexed s p (case braces_end s inside (?a + 1) 1 of (q, depth) \<Rightarrow>
      segment_or Seg_parameter Unterminated_parameter_expansion p (q, depth = 0))" if "char_at s ?a = CHR ''{''" for inside
    using ain [OF that] a braces_end_bounds [of "?a + 1" s inside 1] braces_end_unclosed [of "?a + 1" s inside 1]
    by (simp add: case_prod_beta) (intro segment_or_sound; simp add: onward_def)
  moreover have "sound_lexed s p (whole Seg_parameter (name_end s (?a + 1)))"
    if "is_valid_var_name_first_char (char_at s ?a)"
    using that ain [of "char_at s ?a"] a name_end_bounds [of "?a + 1" s]
    by (intro whole_sound) (auto simp: onward_def is_valid_var_name_first_char_def)
  moreover have "sound_lexed s p (whole Seg_parameter (?a + 1))" if "char_at s ?a \<noteq> CHR 0x00"
    using that ain [of "char_at s ?a"] a by (intro whole_sound) (auto simp: onward_def)
  moreover have "special_parameter c \<or> is_digit_char c \<Longrightarrow> c \<noteq> CHR 0x00" for c
    by (auto simp: special_parameter_def is_digit_char_def)
  moreover have "sound_lexed s p (whole Seg_literal (p + 1))" using assms(1) by (auto intro: onward_next)
  ultimately show ?thesis unfolding lex_dollar_segment_def by (auto simp: Let_def split del: prod.split)
qed

text \<open>A literal run begins with a byte that does not start another segment.\<close>

lemma literal_end_bounds: "p \<le> length s \<Longrightarrow> p \<le> literal_end s mode start p \<and> literal_end s mode start p \<le> length s"
proof (induction s mode start p rule: literal_end.induct)
  case (1 s mode start p)
  show ?case
  proof (cases "p < length s")
    case False
    then show ?thesis using 1(3) by (subst (1 2) literal_end.simps) simp
  next
    case True
    then show ?thesis using 1 by (subst (1 2) literal_end.simps) force
  qed
qed

lemma literal_end_onward:
  assumes "p < length s" "s ! p \<noteq> single_quote \<or> quotes_are_bytes mode" "s ! p \<noteq> double_quote \<or> double_quotes_are_bytes mode"
    "s ! p \<noteq> CHR ''$''" "s ! p \<noteq> backquote"
  shows "onward s p (literal_end s mode p p)"
proof -
  have "literal_end s mode p p =
      (if s ! p = backslash \<and> p + 1 < length s then literal_end s mode p (p + 2) else literal_end s mode p (p + 1))"
    using assms by (subst literal_end.simps) auto
  then show ?thesis
    using assms(1) literal_end_bounds [of "p + 1" s mode p] literal_end_bounds [of "p + 2" s mode p] by (auto simp: onward_def)
qed

lemma tilde_end_onward: "p < length s \<Longrightarrow> tilde_end s asg p = Some q \<Longrightarrow> onward s p q"
  using seek_onward [of p s] by (auto simp: tilde_end_def onward_def split: if_splits)

lemma segment_sound:
  assumes "p < length s"
  shows "sound_lexed s p (lex_word_segment s mode p)"
proof -
  have dq: "p < double_quoted_end s (p + 1)" "double_quoted_end s (p + 1) \<le> length s"
    using double_quoted_end_bounds [of "p + 1" s] assms by simp_all
  show ?thesis
  proof (cases "if tilde_eligible s mode p then tilde_end s (mode = Assignment_interior) p else None")
    case None
    then show ?thesis
      using assms dq seek_onward [OF assms, of "\<lambda>b. b = single_quote"] seek_unescaped_onward [OF assms] literal_end_onward [OF assms]
        dollar_segment_sound [OF assms]
      unfolding lex_word_segment_def None option.case
      by (auto simp: Let_def quote_segment_sound intro!: whole_sound)
  next
    case (Some q)
    then have "onward s p q" using tilde_end_onward [OF assms] by (auto split: if_splits)
    then show ?thesis
      using assms dq seek_onward [OF assms, of "\<lambda>b. b = single_quote"]
      unfolding lex_word_segment_def Some option.case by (auto simp: Let_def quote_segment_sound)
  qed
qed

lemma word_loop_bounds:
  assumes "p \<le> length s"
  shows "p \<le> ld_end (word_loop s ot p literal) \<and> ld_end (word_loop s ot p literal) \<le> length s \<and>
    (ld_incomplete (word_loop s ot p literal) \<longrightarrow> ld_end (word_loop s ot p literal) = length s) \<and>
    (ld_error (word_loop s ot p literal) = No_error \<or> ld_incomplete (word_loop s ot p literal)) \<and>
    ld_kind (word_loop s ot p literal) = T_word"
  using assms
proof (induction s ot p literal rule: word_loop.induct)
  case (1 s ot p literal)
  show ?case
  proof (cases "p < length s")
    case False
    then show ?thesis using 1(2) by (subst (1 2 3 4 5 6 7) word_loop.simps) simp
  next
    case True
    note on = word_step_onward [OF True, of ot]
    show ?thesis
    proof (cases "word_step_at s ot p")
      case (Word_goes q keeps)
      then have q: "p < q" "q \<le> length s" using on by (simp_all add: word_onward_def onward_def)
      have "word_loop s ot p literal = word_loop s ot q (literal \<and> keeps)"
        by (subst word_loop.simps) (simp add: True Word_goes)
      then show ?thesis using 1(1) [OF True Word_goes q(2)] q by simp
    next
      case Word_stops
      have "word_loop s ot p literal = (whole T_word p)\<lparr>ld_literal := literal\<rparr>"
        by (subst word_loop.simps) (simp add: True Word_stops)
      then show ?thesis using 1(2) by simp
    next
      case (Word_cut q e a)
      have "word_loop s ot p literal = cut_short T_word q e a"
        by (subst word_loop.simps) (simp add: True Word_cut)
      then show ?thesis using on Word_cut by (simp add: word_onward_def)
    qed
  qed
qed

lemma word_step_stops: "word_step_at s ot p = Word_stops \<Longrightarrow> ot \<and> is_word_terminator (s ! p)"
  by (auto simp: word_step_at_def closed_or_def word_dollar_def Let_def split: if_splits prod.splits)

lemma lex_word_sound:
  assumes "p < length s" "mode = Here_doc_delimiter \<or> \<not> is_word_terminator (s ! p)"
  shows "sound_lexed s p (lex_word s mode p)"
proof -
  let ?ot = "mode \<noteq> Here_doc_delimiter"
  note on = word_step_onward [OF assms(1), of ?ot]
  show ?thesis
  proof (cases "word_step_at s ?ot p")
    case (Word_goes q keeps)
    then have q: "p < q" "q \<le> length s" using on by (simp_all add: word_onward_def onward_def)
    have "lex_word s mode p = word_loop s ?ot q (True \<and> keeps)"
      unfolding lex_word_def by (subst word_loop.simps) (simp add: assms(1) Word_goes)
    then show ?thesis using word_loop_bounds [OF q(2), of ?ot "True \<and> keeps"] q by (auto simp: sound_lexed_def onward_def)
  next
    case Word_stops
    then show ?thesis using word_step_stops assms(2) by blast
  next
    case (Word_cut q e a)
    have "lex_word s mode p = cut_short T_word q e a"
      unfolding lex_word_def by (subst word_loop.simps) (simp add: assms(1) Word_cut)
    then show ?thesis using on Word_cut by (simp add: word_onward_def sound_lexed_def onward_def)
  qed
qed

lemma operator_of_stop:
  "operator_of c c1 c2 at1 at2 at3 = Some (kind, stop) \<Longrightarrow>
   stop = at1 \<or> stop = at2 \<and> c1 \<noteq> CHR 0x00 \<or> stop = at3 \<and> c1 \<noteq> CHR 0x00 \<and> c2 \<noteq> CHR 0x00"
  by (auto simp: operator_of_def split: if_splits)

lemma lex_operator_sound:
  assumes "p < length s"
  shows "sound_lexed s p (lex_operator s p)"
proof -
  define at1 where "at1 = past_continuations s (p + 1)"
  define at2 where "at2 = past_continuations s (at1 + 1)"
  define at3 where "at3 = past_continuations s (at2 + 1)"
  have a1: "p < at1" "at1 \<le> length s" using past_continuations_onward [OF assms] by (simp_all add: at1_def)
  have a2: "at1 < at2 \<and> at2 \<le> length s" if "char_at s at1 \<noteq> CHR 0x00"
    using past_continuations_onward [of at1 s] char_at_in [OF refl that] by (simp add: at2_def)
  have a3: "at2 < at3 \<and> at3 \<le> length s" if "char_at s at2 \<noteq> CHR 0x00"
    using past_continuations_onward [of at2 s] char_at_in [OF refl that] by (simp add: at3_def)
  have on: "onward s p stop"
    if "operator_of (char_at s p) (char_at s at1) (char_at s at2) at1 at2 at3 = Some (kind, stop)" for kind stop
    using operator_of_stop [OF that] a1 a2 a3 by (auto simp: onward_def)
  have "sound_lexed s p (whole T_word at1\<lparr>ld_error := Unexpected_byte, ld_error_at := p\<rparr>)"
    using a1 by (simp add: sound_lexed_def onward_def)
  then show ?thesis
    using on by (auto simp: lex_operator_def at1_def [symmetric] at2_def [symmetric] at3_def [symmetric] Let_def split: option.split)
qed

lemma io_digits_bounds: "p \<le> length s \<Longrightarrow> p \<le> fst (io_digits s p fd fits) \<and> fst (io_digits s p fd fits) \<le> length s"
proof (induction s p fd fits rule: io_digits.induct)
  case (1 s p fd fits)
  show ?case
  proof (cases "p < length s \<and> is_digit_char (s ! p)")
    case False
    then show ?thesis using 1(2) by (subst (1 2) io_digits.simps) auto
  next
    case True
    obtain ok fd1 where acc: "accumulate_digit fd (word_of_nat (ubyte (s ! p) - 48)) 10 (np_high (policy_for Redirection_word_fd)) = (ok, fd1)"
      by fastforce
    have "io_digits s p fd fits = io_digits s (past_continuations s (p + 1)) fd1 (fits \<and> ok)"
      by (subst io_digits.simps) (simp only: True acc if_True simp_thms prod.case)
    then show ?thesis
      using 1(1) [OF True acc [symmetric]] past_continuations_onward [of p s] True by auto
  qed
qed

lemma io_number_onward:
  assumes "p < length s" "s ! p \<noteq> CHR ''<''" "s ! p \<noteq> CHR ''>''" "io_number_end s p = Some q"
  shows "onward s p q"
proof -
  have "p \<le> past_continuations s p" "past_continuations s p \<le> length s"
    using past_continuations_ge past_continuations_le [of s p] assms(1) by auto
  then have "p \<le> q" "q < length s" "s ! q = CHR ''<'' \<or> s ! q = CHR ''>''"
    using io_digits_bounds [of "past_continuations s p" s 0 True] assms(4)
    by (auto simp: io_number_end_def split: prod.splits if_splits)
  then show ?thesis using assms(2,3) by (cases "q = p") (auto simp: onward_def)
qed

lemma outside_word_sound:
  assumes "p < length s" "\<not> interior mode"
  shows "sound_lexed s p (lex_outside_word s mode p)"
proof -
  have mode: "mode = Command \<or> mode = Here_doc_delimiter" using assms(2) by (cases mode) (simp_all add: interior_def)
  have "onward s p (seek s (\<lambda>c. c = newline) p)" if "s ! p = CHR ''#''" using scan_comment_onward [OF assms(1) that] .
  moreover have "sound_lexed s p ((whole T_io_number q)\<lparr>ld_literal := True\<rparr>)" if "is_digit_char (s ! p)" "io_number_end s p = Some q" for q
    using io_number_onward [OF assms(1) _ _ that(2)] that(1) by (auto simp: sound_lexed_def is_digit_char_def)
  moreover have "sound_lexed s p (lex_operator s p)" by (rule lex_operator_sound [OF assms(1)])
  moreover have "sound_lexed s p (lex_word s mode p)" if "\<not> (mode = Command \<and> is_word_terminator (s ! p))"
    using that mode by (intro lex_word_sound [OF assms(1)]) auto
  ultimately show ?thesis
    using onward_next [OF assms(1)] unfolding lex_outside_word_def by (auto intro: whole_sound split: option.split)
qed

subsection \<open>The next token\<close>

lemma segment_kind: "ld_kind (lex_word_segment s mode p) \<noteq> T_end"
  by (simp add: lex_word_segment_def lex_dollar_segment_def lex_arithmetic_segment_def segment_or_def Let_def case_prod_beta
      split: option.split)

lemma operator_kind: "operator_of c c1 c2 at1 at2 at3 = Some (kind, stop) \<Longrightarrow> kind \<noteq> T_end"
  by (auto simp: operator_of_def split: if_splits)

lemma outside_word_kind: "p \<le> length s \<Longrightarrow> ld_kind (lex_outside_word s mode p) \<noteq> T_end"
  using word_loop_bounds [of p s] operator_kind
  by (auto simp: lex_outside_word_def lex_operator_def lex_word_def Let_def split: option.split)

lemma skip_blanks_bounds: "p \<le> skip_blanks s p \<and> skip_blanks s p \<le> max p (length s)"
proof (induction s p rule: skip_blanks.induct)
  case (1 s p)
  let ?q = "seek s (\<lambda>c. \<not> is_blank_char c) p"
  have q: "p \<le> ?q" "?q \<le> max p (length s)" by (rule seek_ge seek_le)+
  show ?case
  proof (cases "past_continuations s ?q = ?q")
    case True
    then show ?thesis using q by (subst (1 2) skip_blanks.simps) simp
  next
    case False
    then have "skip_blanks s p = skip_blanks s (past_continuations s ?q)" by (subst skip_blanks.simps) simp
    then show ?thesis
      using 1(1) [OF False] q past_continuations_ge [of ?q s] past_continuations_le [of s ?q] by auto
  qed
qed

text \<open>Every token but the last starts at or after the position, in an interior mode exactly there, ends where
  the lexer then stands, and the lexer has moved on.\<close>

lemma next_token_shape:
  assumes "lx_position lx \<le> length (lx_source lx)" "next_token mode lx = (t, lx1)"
  shows "lx_source lx1 = lx_source lx" "lx_position lx \<le> tk_offset t" "lx_position lx1 = end_offset t"
    "lx_position lx1 \<le> length (lx_source lx)"
    "interior mode \<Longrightarrow> tk_offset t = lx_position lx"
    "\<not> interior mode \<Longrightarrow> tk_offset t = skip_blanks (lx_source lx) (lx_position lx)"
    "if tk_offset t < length (lx_source lx) then 0 < tk_length t \<and> tk_kind t \<noteq> T_end else tk_kind t = T_end \<and> tk_length t = 0"
    "lx_incomplete lx1 \<Longrightarrow> lx_position lx1 = length (lx_source lx)"
    "tk_error t = No_error \<or> tk_error t = Unexpected_byte \<or> lx_incomplete lx1"
proof -
  let ?s = "lx_source lx" and ?p = "lx_position lx"
  define start where "start = (if interior mode then ?p else skip_blanks ?s ?p)"
  have start: "?p \<le> start" "start \<le> length ?s"
    using assms(1) skip_blanks_bounds [of ?p ?s] by (auto simp: start_def)
  define d where "d = (if length ?s \<le> start then whole T_end start
    else if interior mode then lex_word_segment ?s mode start else lex_outside_word ?s mode start)"
  have "\<exists>skipped. next_token mode lx = lexed_token lx start skipped d"
    by (auto simp: next_token_def start_def d_def Let_def)
  then obtain skipped where step: "next_token mode lx = lexed_token lx start skipped d" by blast
  have t: "tk_offset t = start" "tk_length t = ld_end d - start" "tk_kind t = ld_kind d" "tk_error t = ld_error d"
    and lx1: "lx_source lx1 = ?s" "lx_position lx1 = ld_end d" "lx_incomplete lx1 = ld_incomplete d"
    using assms(2) unfolding step by (auto simp: lexed_token_def token_of_def)
  have sound: "start < length ?s \<Longrightarrow> sound_lexed ?s start d"
    using segment_sound outside_word_sound by (auto simp: d_def)
  have kind: "start < length ?s \<Longrightarrow> ld_kind d \<noteq> T_end"
    using segment_kind outside_word_kind by (auto simp: d_def)
  have "length ?s \<le> start \<Longrightarrow> d = whole T_end start" by (simp add: d_def)
  then have "start \<le> ld_end d \<and> ld_end d \<le> length ?s \<and>
      (ld_incomplete d \<longrightarrow> ld_end d = length ?s) \<and>
      (ld_error d = No_error \<or> ld_error d = Unexpected_byte \<or> ld_incomplete d) \<and>
      (if start < length ?s then start < ld_end d \<and> ld_kind d \<noteq> T_end else ld_kind d = T_end \<and> ld_end d = start)"
    using sound start kind by (cases "start < length ?s") (auto simp: sound_lexed_def onward_def)
  with start t lx1 show "lx_source lx1 = ?s" "?p \<le> tk_offset t" "lx_position lx1 = end_offset t"
    "lx_position lx1 \<le> length ?s"
    "if tk_offset t < length ?s then 0 < tk_length t \<and> tk_kind t \<noteq> T_end else tk_kind t = T_end \<and> tk_length t = 0"
    "lx_incomplete lx1 \<Longrightarrow> lx_position lx1 = length ?s"
    "tk_error t = No_error \<or> tk_error t = Unexpected_byte \<or> lx_incomplete lx1"
    by (auto simp: end_offset_def split: if_splits)
  show "interior mode \<Longrightarrow> tk_offset t = ?p" "\<not> interior mode \<Longrightarrow> tk_offset t = skip_blanks ?s ?p"
    using t(1) by (simp_all add: start_def)
qed

text \<open>The loop every reader of tokens runs: take tokens until the end of the input.\<close>

function lex_all :: "lex_mode \<Rightarrow> lexer \<Rightarrow> token list" where
  "lex_all mode lx =
    (if length (lx_source lx) < lx_position lx \<or> tk_kind (fst (next_token mode lx)) = T_end then []
     else fst (next_token mode lx) # lex_all mode (snd (next_token mode lx)))"
  by pat_completeness auto

termination
proof (relation "measure (\<lambda>(mode, lx). length (lx_source lx) - lx_position lx)", goal_cases)
  case (2 mode lx)
  obtain t lx1 where n: "next_token mode lx = (t, lx1)" by fastforce
  then have le: "lx_position lx \<le> length (lx_source lx)" and k: "tk_kind t \<noteq> T_end" using 2 by simp_all
  note shape = next_token_shape [OF le n]
  show ?case using shape(1,2,3,4,7) k by (auto simp: n end_offset_def split: if_splits)
qed simp

declare lex_all.simps [simp del]

text \<open>C19: lexing always moves on. From any position inside the source every token lies in the rest of the
  source, the lexer then stands at its end, a token is empty only at the end of the input, a token that more input
  could complete reaches the end of the input, and an error other than a stray byte is always such a token.\<close>

theorem next_token_advances:
  assumes "lx_position lx \<le> length (lx_source lx)" "next_token mode lx = (t, lx1)"
  shows "lx_source lx1 = lx_source lx \<and> lx_position lx \<le> tk_offset t \<and> lx_position lx1 = end_offset t \<and>
    end_offset t \<le> length (lx_source lx) \<and>
    (tk_length t = 0 \<longrightarrow> tk_kind t = T_end \<and> end_offset t = length (lx_source lx)) \<and>
    (lx_incomplete lx1 \<longrightarrow> end_offset t = length (lx_source lx)) \<and>
    (tk_error t \<noteq> No_error \<and> tk_error t \<noteq> Unexpected_byte \<longrightarrow> lx_incomplete lx1)"
  using next_token_shape [OF assms] by (auto simp: end_offset_def split: if_splits)

theorem next_token_advances_witness:
  "end_offset (fst (next_token Command (lexer_at ''a $(x'' 1))) \<le> length ''a $(x''"
proof -
  have "lx_position (lexer_at ''a $(x'' 1) \<le> length (lx_source (lexer_at ''a $(x'' 1))"
    by (simp add: lexer_at_def)
  from next_token_advances [OF this, of Command "fst (next_token Command (lexer_at ''a $(x'' 1))"
    "snd (next_token Command (lexer_at ''a $(x'' 1))"]
  show ?thesis by (simp add: lexer_at_def)
qed

subsection \<open>The tokens flatten back to the source\<close>

lemma token_text_split:
  assumes "p \<le> tk_offset t" "end_offset t \<le> length s"
  shows "drop p s = substr s p (tk_offset t - p) @ token_text s t @ drop (end_offset t) s"
proof -
  have "drop p s = take (tk_offset t - p) (drop p s) @ drop (tk_offset t) s"
    using assms(1) by (metis append_take_drop_id drop_drop le_add_diff_inverse2)
  also have "drop (tk_offset t) s = take (tk_length t) (drop (tk_offset t) s) @ drop (end_offset t) s"
    by (metis append_take_drop_id drop_drop end_offset_def add.commute)
  finally show ?thesis by (simp add: substr_def token_text_def)
qed

text \<open>What may lie between two tokens: blanks and line continuations.\<close>

fun gap :: "string \<Rightarrow> bool" where
  "gap [] = True"
| "gap (c # cs) =
    (if is_blank_char c then gap cs
     else c = backslash \<and> (case cs of d # ds \<Rightarrow> d = newline \<and> gap ds | [] \<Rightarrow> False))"

lemma gap_append: "gap a \<Longrightarrow> gap b \<Longrightarrow> gap (a @ b)"
  by (induction a rule: gap.induct) (auto split: if_splits list.splits)

lemma gap_blanks: "list_all is_blank_char a \<Longrightarrow> gap a"
  by (induction a) auto

lemma past_continuations_gap: "gap (substr s p (past_continuations s p - p))"
proof (induction s p rule: past_continuations.induct)
  case (1 s p)
  show ?case
  proof (cases "p + 1 < length s \<and> s ! p = backslash \<and> s ! (p + 1) = newline")
    case False
    then have "past_continuations s p = p" by (subst past_continuations.simps) auto
    then show ?thesis by (simp add: substr_def)
  next
    case True
    have q: "past_continuations s p = past_continuations s (p + 2)" by (subst past_continuations.simps) (simp add: True)
    have ge: "p + 2 \<le> past_continuations s (p + 2)" by (rule past_continuations_ge)
    have "drop p s = backslash # newline # drop (p + 2) s"
      using True by (metis Cons_nth_drop_Suc Suc_eq_plus1 Suc_lessD add_2_eq_Suc')
    then have "substr s p (past_continuations s p - p) = backslash # newline # substr s (p + 2) (past_continuations s (p + 2) - (p + 2))"
      using ge unfolding substr_def q by (simp add: take_Cons' Suc_diff_Suc One_nat_def)
    then show ?thesis using 1 [OF True] by (simp add: is_blank_char_def)
  qed
qed

lemma substr_glue:
  assumes "p \<le> q" "q \<le> r"
  shows "substr s p (r - p) = substr s p (q - p) @ substr s q (r - q)"
proof -
  have "r - p = (q - p) + (r - q)" "drop (q - p) (drop p s) = drop q s" using assms by simp_all
  then show ?thesis by (simp only: substr_def take_add)
qed

lemma skip_blanks_gap: "gap (substr s p (skip_blanks s p - p))"
proof (induction s p rule: skip_blanks.induct)
  case (1 s p)
  let ?q = "seek s (\<lambda>c. \<not> is_blank_char c) p"
  have "substr s p (?q - p) = takeWhile is_blank_char (drop p s)"
    by (simp add: seek_def substr_def takeWhile_eq_take [symmetric])
  then have first: "gap (substr s p (?q - p))" "p \<le> ?q"
    by (auto intro!: gap_blanks simp: list_all_iff seek_ge dest: set_takeWhileD)
  show ?case
  proof (cases "past_continuations s ?q = ?q")
    case True
    then have "skip_blanks s p = ?q" by (subst skip_blanks.simps) simp
    then show ?thesis using first by simp
  next
    case False
    then have q: "skip_blanks s p = skip_blanks s (past_continuations s ?q)" by (subst skip_blanks.simps) simp
    have le: "?q \<le> past_continuations s ?q" "past_continuations s ?q \<le> skip_blanks s (past_continuations s ?q)"
      using past_continuations_ge skip_blanks_bounds by blast+
    define a b where "a = past_continuations s ?q" and "b = skip_blanks s a"
    have "substr s p (b - p) = substr s p (?q - p) @ substr s ?q (a - ?q) @ substr s a (b - a)"
      using first(2) le substr_glue [of p ?q b s] substr_glue [of ?q a b s] by (simp add: a_def b_def)
    moreover have "gap (substr s ?q (a - ?q))" "gap (substr s a (b - a))"
      using past_continuations_gap [of s ?q] 1 [OF False] by (simp_all add: a_def b_def)
    ultimately show ?thesis unfolding q a_def [symmetric] b_def [symmetric] using first(1) by (simp add: gap_append)
  qed
qed

lemma lex_all_covers:
  assumes "lx_position lx \<le> length (lx_source lx)"
  shows "\<exists>gaps final. length gaps = length (lex_all mode lx) \<and> list_all gap (final # gaps) \<and>
    drop (lx_position lx) (lx_source lx) =
      concat (map2 (\<lambda>g t. g @ token_text (lx_source lx) t) gaps (lex_all mode lx)) @ final \<and>
    (interior mode \<longrightarrow> list_all (\<lambda>g. g = []) (final # gaps))"
  using assms
proof (induction mode lx rule: lex_all.induct)
  case (1 mode lx)
  let ?s = "lx_source lx" and ?p = "lx_position lx"
  obtain t lx1 where n: "next_token mode lx = (t, lx1)" by fastforce
  note shape = next_token_shape [OF 1(2) n]
  let ?g = "substr ?s ?p (tk_offset t - ?p)"
  have g: "gap ?g" "interior mode \<Longrightarrow> ?g = []"
    using skip_blanks_gap [of ?s ?p] shape(5,6) by (cases "interior mode"; simp add: substr_def)+
  have split: "drop ?p ?s = ?g @ token_text ?s t @ drop (end_offset t) ?s"
    using shape(2,3,4) by (intro token_text_split) simp_all
  show ?case
  proof (cases "tk_kind t = T_end")
    case True
    then have "length ?s \<le> tk_offset t" "tk_length t = 0" using shape(7) by (auto split: if_splits)
    then have rest: "drop ?p ?s = ?g" using split by (simp add: end_offset_def token_text_def substr_def [of ?s "tk_offset t"])
    have "lex_all mode lx = []" by (subst lex_all.simps) (simp add: n True)
    then show ?thesis using g rest by (intro exI [of _ "[]"] exI [of _ ?g]) auto
  next
    case False
    then have cond: "\<not> (length ?s < ?p \<or> tk_kind (fst (next_token mode lx)) = T_end)" using 1(2) n by simp
    have rest: "lex_all mode lx = t # lex_all mode lx1"
      by (subst lex_all.simps) (use cond n in simp)
    from 1(1) [OF cond] obtain gaps final where ih: "length gaps = length (lex_all mode lx1)" "list_all gap (final # gaps)"
      "drop (lx_position lx1) ?s = concat (map2 (\<lambda>g t. g @ token_text ?s t) gaps (lex_all mode lx1)) @ final"
      "interior mode \<longrightarrow> list_all (\<lambda>g. g = []) (final # gaps)"
      using shape(1,4) n by auto
    show ?thesis
      by (intro exI [of _ "?g # gaps"] exI [of _ final]) (use ih g split shape(3) rest in auto)
  qed
qed

lemma lex_all_nonempty:
  assumes "lx_position lx \<le> length (lx_source lx)"
  shows "list_all (\<lambda>t. token_text (lx_source lx) t \<noteq> []) (lex_all mode lx)"
  using assms
proof (induction mode lx rule: lex_all.induct)
  case (1 mode lx)
  obtain t lx1 where n: "next_token mode lx = (t, lx1)" by fastforce
  note shape = next_token_shape [OF 1(2) n]
  show ?case
  proof (cases "tk_kind t = T_end")
    case True
    have "lex_all mode lx = []" by (subst lex_all.simps) (simp add: n True)
    then show ?thesis by simp
  next
    case False
    then have cond: "\<not> (length (lx_source lx) < lx_position lx \<or> tk_kind (fst (next_token mode lx)) = T_end)" using 1(2) n by simp
    have "lex_all mode lx = t # lex_all mode lx1" by (subst lex_all.simps) (use cond n in simp)
    moreover have "token_text (lx_source lx) t \<noteq> []"
      using False shape(7) by (auto simp: token_text_def substr_def split: if_splits)
    moreover have "list_all (\<lambda>t. token_text (lx_source lx) t \<noteq> []) (lex_all mode lx1)"
      using 1(1) [OF cond] shape(1,4) n by simp
    ultimately show ?thesis by simp
  qed
qed

lemma concat_no_gaps: "length gaps = length ts \<Longrightarrow> list_all (\<lambda>g. g = []) gaps \<Longrightarrow> concat (map2 (\<lambda>g t. g @ f t) gaps ts) = concat (map f ts)"
  by (induction gaps ts rule: list_induct2) auto

text \<open>C20: decomposing a word loses nothing. In every interior mode the segments are non-empty and their texts,
  in order, are exactly the source.\<close>

theorem segments_flatten:
  assumes "mode \<in> {Word_interior, Assignment_interior, Double_quote_interior, Here_doc_body}"
  shows "concat (map (token_text s) (lex_all mode (lexer_at s 0))) = s \<and>
    list_all (\<lambda>t. token_text s t \<noteq> []) (lex_all mode (lexer_at s 0))"
proof -
  have start: "lx_position (lexer_at s 0) \<le> length (lx_source (lexer_at s 0))" "lx_source (lexer_at s 0) = s" "lx_position (lexer_at s 0) = 0"
    by (simp_all add: lexer_at_def)
  have mode: "interior mode" using assms by (simp add: interior_def)
  obtain gaps final where g: "length gaps = length (lex_all mode (lexer_at s 0))" "list_all (\<lambda>g. g = []) gaps" "final = []"
    "s = concat (map2 (\<lambda>g t. g @ token_text s t) gaps (lex_all mode (lexer_at s 0))) @ final"
    using lex_all_covers [OF start(1), of mode] mode start by auto
  have "concat (map (token_text s) (lex_all mode (lexer_at s 0))) = s"
    using g(4) concat_no_gaps [OF g(1,2), of "token_text s"] g(3) by simp
  then show ?thesis using lex_all_nonempty [OF start(1), of mode] start by simp
qed

theorem segments_flatten_witness:
  "concat (map (token_text ''a~$x'') (lex_all Assignment_interior (lexer_at ''a~$x'' 0))) = ''a~$x''"
  using segments_flatten [of Assignment_interior "''a~$x''"] by simp

text \<open>No byte of a command line is lost. The tokens of any mode cover the source but for gaps, and a gap
  holds only blanks and line continuations.\<close>

theorem tokens_cover_source:
  "\<exists>gaps final. length gaps = length (lex_all mode (lexer_at s 0)) \<and> list_all gap (final # gaps) \<and>
     s = concat (map2 (\<lambda>g t. g @ token_text s t) gaps (lex_all mode (lexer_at s 0))) @ final"
  using lex_all_covers [of "lexer_at s 0" mode] by (auto simp: lexer_at_def)

subsection \<open>Literal words\<close>

lemma word_step_keeps:
  "word_step_at s ot p = Word_goes q True \<Longrightarrow> q = p + 1 \<and> \<not> needs_expansion (s ! p) \<and> (ot \<longrightarrow> \<not> is_word_terminator (s ! p))"
  by (auto simp: word_step_at_def closed_or_def word_dollar_def Let_def split: if_splits prod.splits)

lemma word_loop_literal:
  "ld_literal (word_loop s ot p literal) \<Longrightarrow>
   literal \<and> (\<forall>i. p \<le> i \<and> i < ld_end (word_loop s ot p literal) \<and> i < length s \<longrightarrow>
     \<not> needs_expansion (s ! i) \<and> (ot \<longrightarrow> \<not> is_word_terminator (s ! i)))"
proof (induction s ot p literal rule: word_loop.induct)
  case (1 s ot p literal)
  show ?case
  proof (cases "p < length s")
    case False
    then show ?thesis using 1(2) by (subst (asm) word_loop.simps) auto
  next
    case True
    show ?thesis
    proof (cases "word_step_at s ot p")
      case (Word_goes q keeps)
      have step: "word_loop s ot p literal = word_loop s ot q (literal \<and> keeps)"
        by (subst word_loop.simps) (simp add: True Word_goes)
      note ih = 1(1) [OF True Word_goes 1(2) [unfolded step]]
      then have "q = p + 1 \<and> \<not> needs_expansion (s ! p) \<and> (ot \<longrightarrow> \<not> is_word_terminator (s ! p))" "literal"
        using word_step_keeps [of s ot p q] Word_goes by simp_all
      then show ?thesis using ih unfolding step by (metis Suc_eq_plus1 Suc_leI le_neq_implies_less)
    next
      case Word_stops
      have "word_loop s ot p literal = (whole T_word p)\<lparr>ld_literal := literal\<rparr>"
        by (subst word_loop.simps) (simp add: True Word_stops)
      then show ?thesis using 1(2) by auto
    next
      case (Word_cut q e a)
      have "word_loop s ot p literal = cut_short T_word q e a"
        by (subst word_loop.simps) (simp add: True Word_cut)
      then show ?thesis using 1(2) by simp
    qed
  qed
qed

lemma literal_end_plain:
  "p \<le> length s \<Longrightarrow> list_all (\<lambda>c. \<not> needs_expansion c) s \<Longrightarrow> literal_end s Word_interior start p = length s"
proof (induction s "Word_interior" start p rule: literal_end.induct)
  case (1 s start p)
  show ?case
  proof (cases "p < length s")
    case False
    then show ?thesis using 1 by (subst literal_end.simps) simp
  next
    case True
    then have "\<not> needs_expansion (s ! p)" using 1(4) by (simp add: list_all_length)
    then have "s ! p \<noteq> backslash" "s ! p \<noteq> single_quote" "s ! p \<noteq> double_quote" "s ! p \<noteq> CHR ''$''" "s ! p \<noteq> backquote"
      by (auto simp: needs_expansion_def)
    then show ?thesis using 1 True by (subst literal_end.simps) auto
  qed
qed

lemma plain_word_segments:
  assumes "w \<noteq> []" "list_all (\<lambda>c. \<not> needs_expansion c) w"
  shows "lex_all Word_interior (lexer_at w 0) = [token_of 0 (whole Seg_literal (length w))]"
proof -
  have "\<not> needs_expansion (w ! 0)" using assms by (simp add: list_all_length)
  then have c: "w ! 0 \<noteq> single_quote" "w ! 0 \<noteq> double_quote" "w ! 0 \<noteq> CHR ''~''" "w ! 0 \<noteq> backquote" "w ! 0 \<noteq> CHR ''$''"
    by (auto simp: needs_expansion_def)
  have seg: "lex_word_segment w Word_interior 0 = whole Seg_literal (length w)"
    using c by (simp add: lex_word_segment_def tilde_eligible_def literal_end_plain [OF _ assms(2)])
  have first: "next_token Word_interior (lexer_at w 0) = (token_of 0 (whole Seg_literal (length w)), lexer_at w (length w))"
    using assms(1) by (simp add: next_token_def interior_def lexer_at_def seg lexed_token_def token_of_def)
  have last: "lex_all Word_interior (lexer_at w (length w)) = []"
    by (subst lex_all.simps) (simp add: next_token_def interior_def lexer_at_def lexed_token_def token_of_def)
  show ?thesis
    by (subst lex_all.simps) (simp add: first last, simp add: lexer_at_def token_of_def)
qed

lemma outside_literal:
  assumes "ld_kind (lex_outside_word s Command p) = T_word" "ld_literal (lex_outside_word s Command p)"
  shows "lex_outside_word s Command p = word_loop s True p True"
  using assms operator_kind
  by (auto simp: lex_outside_word_def lex_word_def lex_operator_def Let_def split: if_splits option.splits)

text \<open>The literal flag is sound. A word the command scan marks literal holds no byte that expansion, quote
  removal or the command grammar reads, and its decomposition is one literal segment: handing its bytes
  through untouched is what expanding it would do.\<close>

lemma literal_word_plain:
  assumes "lx_position lx \<le> length (lx_source lx)" "next_token Command lx = (t, lx1)" "tk_kind t = T_word" "tk_literal t"
  shows "list_all (\<lambda>c. \<not> needs_expansion c \<and> \<not> is_word_terminator c) (token_text (lx_source lx) t) \<and>
    lex_all Word_interior (lexer_at (token_text (lx_source lx) t) 0) = [token_of 0 (whole Seg_literal (tk_length t))]"
proof -
  let ?s = "lx_source lx"
  note shape = next_token_shape [OF assms(1,2)]
  define p where "p = skip_blanks ?s (lx_position lx)"
  have p: "tk_offset t = p" "p < length ?s" using shape(6,7) assms(3) by (auto simp: interior_def p_def split: if_splits)
  then have step: "(t, lx1) = lexed_token lx p (p \<noteq> lx_position lx) (lex_outside_word ?s Command p)"
    using assms(2) by (simp add: next_token_def interior_def p_def)
  then have "lex_outside_word ?s Command p = word_loop ?s True p True"
    using assms(3,4) by (intro outside_literal) (simp_all add: lexed_token_def token_of_def)
  then have lit: "ld_literal (word_loop ?s True p True)" "ld_end (word_loop ?s True p True) = end_offset t"
    using step assms(4) shape(3) by (simp_all add: lexed_token_def token_of_def)
  have len: "length (token_text ?s t) = tk_length t" using shape(3,4) by (simp add: token_text_def substr_def end_offset_def)
  have "list_all (\<lambda>c. \<not> needs_expansion c \<and> \<not> is_word_terminator c) (token_text ?s t)"
    unfolding list_all_length
  proof (intro allI impI)
    fix i assume i: "i < length (token_text ?s t)"
    then have "token_text ?s t ! i = ?s ! (p + i)" "p + i < end_offset t" "p + i < length ?s"
      using len p(1) shape(3,4) by (simp_all add: token_text_def substr_def end_offset_def)
    then show "\<not> needs_expansion (token_text ?s t ! i) \<and> \<not> is_word_terminator (token_text ?s t ! i)"
      using word_loop_literal [OF lit(1)] lit(2) by simp
  qed
  moreover have "token_text ?s t \<noteq> []" using len shape(7) p by auto
  ultimately show ?thesis using plain_word_segments [of "token_text ?s t"] len by (simp add: list_all_iff)
qed

subsection \<open>Quote removal of a here-document delimiter\<close>

lemma eat_iff: "eat v line = Some l \<longleftrightarrow> line = v @ l"
  by (auto simp: eat_def starts_with_iff)

lemma eat_None: "eat v line = None \<longleftrightarrow> \<not> (\<exists>l. line = v @ l)"
  by (auto simp: eat_def starts_with_iff)

text \<open>The value a spelled delimiter has: quoted parts answer the value and what is left, \<open>None\<close> when they are
  not closed.  A decoded NUL ends the whole value.\<close>

definition single_value :: "string \<Rightarrow> (string \<times> string) option" where
  "single_value raw =
     (if single_quote \<in> set raw
      then Some (takeWhile (\<lambda>c. c \<noteq> single_quote) raw, tl (dropWhile (\<lambda>c. c \<noteq> single_quote) raw)) else None)"

function double_value :: "string \<Rightarrow> (string \<times> string) option" where
  "double_value raw =
    (if raw = [] then None
     else if hd raw = double_quote then Some ([], tl raw)
     else if double_quote_escapes raw then map_option (apfst (Cons (raw ! 1))) (double_value (drop 2 raw))
     else map_option (apfst (Cons (hd raw))) (double_value (tl raw)))"
  by pat_completeness auto

termination
proof (relation "measure length", goal_cases)
  case (2 raw)
  then show ?case by (cases raw) auto
qed auto

declare double_value.simps [simp del]

function ansi_value :: "string \<Rightarrow> (string \<times> string option) option" where
  "ansi_value raw =
    (if raw = [] then None
     else if hd raw = single_quote then Some ([], Some (tl raw))
     else if ac_truncates (decode_ansi_c_escape raw 0) then Some ([], None)
     else map_option (apfst (append (map char_of (ac_bytes (decode_ansi_c_escape raw 0)))))
            (ansi_value (drop (ac_consumed (decode_ansi_c_escape raw 0)) raw)))"
  by pat_completeness auto

termination
  using decode_step_progress(1) [of 0] by (relation "measure length") auto

declare ansi_value.simps [simp del]

lemma match_single_value:
  "match_single raw line =
    (case single_value raw of None \<Rightarrow> None | Some (v, r) \<Rightarrow> map_option (\<lambda>l. (r, l)) (eat v line))"
proof (induction raw line rule: match_single.induct)
  case (2 c raw line)
  show ?case
  proof (cases "c = single_quote")
    case True
    then show ?thesis by (simp add: single_value_def eat_def)
  next
    case False
    then have v: "single_value (c # raw) = map_option (apfst (Cons c)) (single_value raw)"
      by (simp add: single_value_def)
    show ?thesis
    proof (cases "\<exists>l. line = c # l")
      case True
      then obtain l where l: "line = c # l" by blast
      have "eat [c] line = Some l" by (simp add: eat_iff l)
      moreover have "eat (c # u) line = eat u l" for u by (simp add: eat_def l)
      ultimately show ?thesis using False 2 [OF False, of l] by (auto simp: v split: option.splits)
    next
      case no: False
      then have "eat (c # u) line = None" for u by (auto simp: eat_None)
      then show ?thesis using False by (auto simp: v split: option.splits)
    qed
  qed
qed (simp add: single_value_def)

lemma match_double_value:
  "match_double raw line =
    (case double_value raw of None \<Rightarrow> None | Some (v, r) \<Rightarrow> map_option (\<lambda>l. (r, l)) (eat v line))"
proof (induction raw line rule: match_double.induct)
  case (1 raw line)
  have cons: "eat (c # u) line = (case eat [c] line of None \<Rightarrow> None | Some l \<Rightarrow> eat u l)" for c u
    by (cases line) (auto simp: eat_def)
  show ?case
  proof (cases "raw = [] \<or> hd raw = double_quote")
    case True
    then show ?thesis by (subst match_double.simps, subst double_value.simps) (auto simp: eat_def)
  next
    case False
    show ?thesis
    proof (cases "double_quote_escapes raw")
      case True
      have v: "double_value raw = map_option (apfst (Cons (raw ! 1))) (double_value (drop 2 raw))"
        by (subst double_value.simps) (use False True in auto)
      have m: "match_double raw line = (case eat [raw ! 1] line of None \<Rightarrow> None | Some left \<Rightarrow> match_double (drop 2 raw) left)"
        by (subst match_double.simps) (use False True in auto)
      show ?thesis
      proof (cases "double_value (drop 2 raw)")
        case None
        then show ?thesis unfolding m v using 1(1) [OF _ _ True] False by (auto split: option.split)
      next
        case (Some w)
        then show ?thesis unfolding m v using 1(1) [OF _ _ True] False
          by (auto simp: cons [of "raw ! 1" "fst w"] case_prod_beta split: option.split)
      qed
    next
      case plain: False
      have v: "double_value raw = map_option (apfst (Cons (hd raw))) (double_value (tl raw))"
        by (subst double_value.simps) (use False plain in auto)
      have m: "match_double raw line = (case eat [hd raw] line of None \<Rightarrow> None | Some left \<Rightarrow> match_double (tl raw) left)"
        by (subst match_double.simps) (use False plain in auto)
      show ?thesis
      proof (cases "double_value (tl raw)")
        case None
        then show ?thesis unfolding m v using 1(2) [OF _ _ plain] False by (auto split: option.split)
      next
        case (Some w)
        then show ?thesis unfolding m v using 1(2) [OF _ _ plain] False
          by (auto simp: cons [of "hd raw" "fst w"] case_prod_beta split: option.split)
      qed
    qed
  qed
qed

lemma eat_append: "eat (a @ b) line = (case eat a line of None \<Rightarrow> None | Some l \<Rightarrow> eat b l)"
proof (cases "eat a line")
  case None
  then have "eat (a @ b) line = None" by (auto simp: eat_None)
  then show ?thesis using None by simp
next
  case (Some l)
  then show ?thesis by (simp add: eat_iff) (simp add: eat_def starts_with_iff)
qed

lemma match_ansi_value:
  "match_ansi raw line =
    (case ansi_value raw of None \<Rightarrow> Inl False
     | Some (v, None) \<Rightarrow> Inl (line = v)
     | Some (v, Some r) \<Rightarrow> (case eat v line of None \<Rightarrow> Inl False | Some l \<Rightarrow> Inr (r, l)))"
proof (induction raw line rule: match_ansi.induct)
  case (1 raw line)
  let ?d = "decode_ansi_c_escape raw 0"
  show ?case
  proof (cases "raw = [] \<or> hd raw = single_quote \<or> ac_truncates ?d")
    case True
    then show ?thesis by (subst match_ansi.simps, subst ansi_value.simps) (auto simp: eat_def)
  next
    case False
    let ?b = "map char_of (ac_bytes ?d) :: string"
    have v: "ansi_value raw = map_option (apfst (append ?b)) (ansi_value (drop (ac_consumed ?d) raw))"
      by (subst ansi_value.simps) (use False in auto)
    have m: "match_ansi raw line = (case eat ?b line of None \<Rightarrow> Inl False | Some left \<Rightarrow> match_ansi (drop (ac_consumed ?d) raw) left)"
      by (subst match_ansi.simps) (use False in auto)
    show ?thesis
    proof (cases "eat ?b line")
      case None
      then have "line \<noteq> ?b @ u" for u by (auto simp: eat_None)
      then show ?thesis unfolding m v by (auto simp: None eat_append split: option.split)
    next
      case (Some l)
      have "match_ansi (drop (ac_consumed ?d) raw) l = (case ansi_value (drop (ac_consumed ?d) raw) of None \<Rightarrow> Inl False
          | Some (v, None) \<Rightarrow> Inl (l = v)
          | Some (v, Some r) \<Rightarrow> (case eat v l of None \<Rightarrow> Inl False | Some k \<Rightarrow> Inr (r, k)))"
        by (rule 1(1)) (use False Some in auto)
      moreover have "line = ?b @ u \<longleftrightarrow> l = u" for u using Some by (simp add: eat_iff)
      ultimately show ?thesis unfolding m v Some by (auto simp: Some eat_append split: option.split)
    qed
  qed
qed

lemma eat_self: "eat v v = Some []"
  by (simp add: eat_iff)

lemma single_value_shorter: "single_value raw = Some (v, r) \<Longrightarrow> length r < length raw"
  using match_single_value [of raw v] by (intro match_single_shorter [of raw v r "[]"]) (simp add: eat_self)

lemma double_value_shorter: "double_value raw = Some (v, r) \<Longrightarrow> length r < length raw"
  using match_double_value [of raw v] by (intro match_double_shorter [of raw v r "[]"]) (simp add: eat_self)

lemma ansi_value_shorter: "ansi_value raw = Some (v, Some r) \<Longrightarrow> length r < length raw"
  using match_ansi_value [of raw v] by (intro match_ansi_shorter [of raw v r "[]"]) (simp add: eat_self)

function delimiter_value :: "string \<Rightarrow> string option" where
  "delimiter_value raw =
    (case raw of
       [] \<Rightarrow> Some []
     | c # rest \<Rightarrow>
       if c = backslash \<and> rest \<noteq> [] \<and> hd rest = newline then delimiter_value (tl rest)
       else if c = CHR ''$'' \<and> rest \<noteq> [] \<and> hd rest = single_quote then
         (case ansi_value (tl rest) of
            None \<Rightarrow> None
          | Some (v, None) \<Rightarrow> Some v
          | Some (v, Some r) \<Rightarrow> map_option (append v) (delimiter_value r))
       else if c = single_quote then
         (case single_value rest of None \<Rightarrow> None | Some (v, r) \<Rightarrow> map_option (append v) (delimiter_value r))
       else if c = double_quote then
         (case double_value rest of None \<Rightarrow> None | Some (v, r) \<Rightarrow> map_option (append v) (delimiter_value r))
       else if c = backslash then
         (if rest = [] then None else map_option (Cons (hd rest)) (delimiter_value (tl rest)))
       else map_option (Cons c) (delimiter_value rest))"
  by pat_completeness auto

termination
proof (relation "measure length", goal_cases)
  case (2 raw c rest)
  then show ?case by (cases rest) auto
next
  case (3 raw c rest a v b r)
  then show ?case using ansi_value_shorter [of "tl rest" v r] by (cases rest) auto
next
  case (4 raw c rest a v r)
  then show ?case using single_value_shorter [of rest v r] by auto
next
  case (5 raw c rest a v r)
  then show ?case using double_value_shorter [of rest v r] by auto
next
  case (6 raw c rest)
  then show ?case by (cases rest) auto
qed auto

declare delimiter_value.simps [simp del]

text \<open>One part of a delimiter, then the rest of it.\<close>

lemma part_matches:
  assumes "\<And>l. eat v line = Some l \<Longrightarrow> here_doc_delimiter_matches r l \<longleftrightarrow> delimiter_value r = Some l"
  shows "(case eat v line of None \<Rightarrow> False | Some l \<Rightarrow> here_doc_delimiter_matches r l) \<longleftrightarrow>
    map_option (append v) (delimiter_value r) = Some line"
proof (cases "eat v line")
  case None
  then have "line \<noteq> v @ u" for u by (auto simp: eat_None)
  then show ?thesis by (auto simp: None)
next
  case (Some l)
  then have "line = v @ l" by (simp add: eat_iff)
  then show ?thesis unfolding Some option.case using assms [OF Some] by auto
qed

lemma byte_matches:
  assumes "\<And>l. eat [c] line = Some l \<Longrightarrow> here_doc_delimiter_matches r l \<longleftrightarrow> delimiter_value r = Some l"
  shows "(case eat [c] line of None \<Rightarrow> False | Some l \<Rightarrow> here_doc_delimiter_matches r l) \<longleftrightarrow>
    map_option (Cons c) (delimiter_value r) = Some line"
proof -
  have "append [c] = Cons c" by (rule ext) simp
  then show ?thesis using part_matches [of "[c]" line r, OF assms] by simp
qed

lemma quoted_matches:
  assumes "\<And>v r l. val = Some (v, r) \<Longrightarrow> eat v line = Some l \<Longrightarrow> here_doc_delimiter_matches r l \<longleftrightarrow> delimiter_value r = Some l"
  shows "(case (case val of None \<Rightarrow> None | Some (v, r) \<Rightarrow> map_option (\<lambda>l. (r, l)) (eat v line)) of
        None \<Rightarrow> False | Some (r, l) \<Rightarrow> here_doc_delimiter_matches r l) \<longleftrightarrow>
    (case val of None \<Rightarrow> None | Some (v, r) \<Rightarrow> map_option (append v) (delimiter_value r)) = Some line"
proof (cases val)
  case (Some w)
  obtain v r where w: "w = (v, r)" by (cases w)
  from part_matches [of v line r] assms Some w show ?thesis by (simp split: option.splits)
qed simp

lemma ansi_matches:
  assumes "\<And>v r l. val = Some (v, Some r) \<Longrightarrow> eat v line = Some l \<Longrightarrow> here_doc_delimiter_matches r l \<longleftrightarrow> delimiter_value r = Some l"
  shows "(case (case val of None \<Rightarrow> Inl False | Some (v, None) \<Rightarrow> Inl (line = v)
          | Some (v, Some r) \<Rightarrow> (case eat v line of None \<Rightarrow> Inl False | Some l \<Rightarrow> Inr (r, l))) of
        Inl answer \<Rightarrow> answer | Inr (r, l) \<Rightarrow> here_doc_delimiter_matches r l) \<longleftrightarrow>
    (case val of None \<Rightarrow> None | Some (v, None) \<Rightarrow> Some v
     | Some (v, Some r) \<Rightarrow> map_option (append v) (delimiter_value r)) = Some line"
proof (cases val)
  case (Some w)
  obtain v q where w: "w = (v, q)" by (cases w)
  show ?thesis
  proof (cases q)
    case None
    then show ?thesis using Some w by auto
  next
    case (Some r)
    from part_matches [of v line r] assms \<open>val = Some w\<close> w Some show ?thesis by (simp split: option.splits)
  qed
qed simp

text \<open>C21: a here-document ends at the line its delimiter's quote removal spells. The comparison, which never
  builds the value, agrees with removing the quotes and comparing, for every spelling, the unclosed ones, which
  match no line, and the decoded NUL that ends the value included.\<close>

theorem delimiter_is_quote_removal:
  "here_doc_delimiter_matches raw line \<longleftrightarrow> delimiter_value raw = Some line"
proof (induction raw line rule: here_doc_delimiter_matches.induct)
  case (1 raw line)
  show ?case
  proof (cases raw)
    case Nil
    then show ?thesis by (simp add: here_doc_delimiter_matches.simps [of "[]"] delimiter_value.simps [of "[]"] eq_commute)
  next
    case (Cons c rest)
    note unfold = here_doc_delimiter_matches.simps [of raw line, unfolded Cons list.case]
      delimiter_value.simps [of raw, unfolded Cons list.case]
    consider (continuation) "c = backslash \<and> rest \<noteq> [] \<and> hd rest = newline"
      | (ansi) "c = CHR ''$'' \<and> rest \<noteq> [] \<and> hd rest = single_quote"
      | (single) "\<not> (c = CHR ''$'' \<and> rest \<noteq> [] \<and> hd rest = single_quote)" "c = single_quote"
      | (double) "c = double_quote"
      | (escape) "\<not> (c = backslash \<and> rest \<noteq> [] \<and> hd rest = newline)" "c = backslash"
      | (plain) "\<not> (c = CHR ''$'' \<and> rest \<noteq> [] \<and> hd rest = single_quote)" "c \<noteq> single_quote" "c \<noteq> double_quote" "c \<noteq> backslash"
      by blast
    then show ?thesis
    proof cases
      case continuation
      show ?thesis unfolding Cons unfold using continuation 1(1) [OF Cons continuation] by (simp only: if_True simp_thms)
    next
      case ansi
      then have guards: "\<not> (c = backslash \<and> rest \<noteq> [] \<and> hd rest = newline)" by auto
      have "here_doc_delimiter_matches r l \<longleftrightarrow> delimiter_value r = Some l"
        if "ansi_value (tl rest) = Some (v, Some r)" "eat v line = Some l" for v r l
        by (rule 1(2) [OF Cons guards ansi, of "(r, l)"]) (use that in \<open>simp_all add: match_ansi_value\<close>)
      then show ?thesis
        unfolding Cons unfold match_ansi_value using ansi_matches [of "ansi_value (tl rest)" line] guards ansi by (simp only: if_True if_False simp_thms)
    next
      case single
      then have guards: "\<not> (c = backslash \<and> rest \<noteq> [] \<and> hd rest = newline)" by auto
      have "here_doc_delimiter_matches r l \<longleftrightarrow> delimiter_value r = Some l"
        if "single_value rest = Some (v, r)" "eat v line = Some l" for v r l
        by (rule 1(3) [OF Cons guards single, of "(r, l)"]) (use that in \<open>simp_all add: match_single_value\<close>)
      then show ?thesis
        unfolding Cons unfold match_single_value using quoted_matches [of "single_value rest" line] guards single by (simp only: if_True if_False simp_thms)
    next
      case double
      then have guards: "\<not> (c = backslash \<and> rest \<noteq> [] \<and> hd rest = newline)"
        "\<not> (c = CHR ''$'' \<and> rest \<noteq> [] \<and> hd rest = single_quote)" "c \<noteq> single_quote" by auto
      have "here_doc_delimiter_matches r l \<longleftrightarrow> delimiter_value r = Some l"
        if "double_value rest = Some (v, r)" "eat v line = Some l" for v r l
        by (rule 1(4) [OF Cons guards double, of "(r, l)"]) (use that in \<open>simp_all add: match_double_value\<close>)
      then show ?thesis
        unfolding Cons unfold match_double_value using quoted_matches [of "double_value rest" line] guards double by (simp only: if_True if_False simp_thms)
    next
      case escape
      have guards: "\<not> (c = CHR ''$'' \<and> rest \<noteq> [] \<and> hd rest = single_quote)" "c \<noteq> single_quote" "c \<noteq> double_quote"
        using escape(2) by auto
      show ?thesis
      proof (cases "rest = []")
        case False
        show ?thesis
          unfolding Cons unfold
          using byte_matches [of "hd rest" line, OF 1(5) [OF Cons escape(1) guards escape(2) False]] escape guards False
          by (simp only: if_True if_False simp_thms)
      next
        case True
        then show ?thesis unfolding Cons unfold using escape guards by (simp add: True)
      qed
    next
      case plain
      then have guards: "\<not> (c = backslash \<and> rest \<noteq> [] \<and> hd rest = newline)" by auto
      show ?thesis
        unfolding Cons unfold using byte_matches [of c line, OF 1(6) [OF Cons guards plain]] guards plain
        by (simp only: if_True if_False simp_thms)
    qed
  qed
qed

end
