(* ===== verification/Expander.thy ===== *)
theory Expander
  imports LexerProps Pattern Glob ShellVars Ast
begin

text \<open>
  Word expansion (\<open>src/runtime/expander.cpp\<close>): parameter, command, arithmetic and tilde expansion,
  quote removal, field splitting and pathname expansion.  The expander reads the shell through
  ports, modelled as records of functions over the state \<open>'s\<close> of whoever supplies them, so every
  function here takes the ports and threads that state.
\<close>

declare One_nat_def [simp del]

subsection \<open>Reading a parameter expansion\<close>

definition is_length_target :: "string \<Rightarrow> bool" where
  "is_length_target name \<longleftrightarrow>
     name \<noteq> [] \<and>
     (length name = 1 \<and> hd name \<in> set ''*@?$!-#'' \<or>
      list_all is_digit_char name \<or>
      is_valid_var_name_first_char (hd name) \<and> list_all is_valid_var_name_non_first_char (tl name))"

definition is_assignable_name :: "string \<Rightarrow> bool" where
  "is_assignable_name name \<longleftrightarrow>
     name \<noteq> [] \<and> is_valid_var_name_first_char (hd name) \<and> list_all is_valid_var_name_non_first_char (tl name)"

definition rfind :: "char \<Rightarrow> string \<Rightarrow> nat option" where
  "rfind c s = (if c \<in> set s then Some (length s - 1 - length (takeWhile (\<lambda>b. b \<noteq> c) (rev s))) else None)"

definition parameter_body :: "string \<Rightarrow> string" where
  "parameter_body segment =
     (case past_continuations segment 1 of q \<Rightarrow>
      if q < length segment \<and> segment ! q = CHR ''{'' then
        (case rfind (CHR ''}'') segment of
           None \<Rightarrow> drop (q + 1) segment
         | Some close \<Rightarrow>
             if close < q + 1 then drop (q + 1) segment else substr segment (q + 1) (close - q - 1))
      else drop q segment)"

datatype param_op =
    Op_none | Op_length | Use_default | Assign_default | Error_if_unset | Use_alternate
  | Trim_prefix_short | Trim_prefix_long | Trim_suffix_short | Trim_suffix_long

record parsed_parameter =
  pp_name :: string
  pp_op :: param_op
  pp_argument :: string
  pp_colon :: bool

definition parsed_parameter_init :: parsed_parameter where
  "parsed_parameter_init = \<lparr>pp_name = [], pp_op = Op_none, pp_argument = [], pp_colon = False\<rparr>"

definition is_operator_byte :: "char \<Rightarrow> bool" where
  "is_operator_byte c \<longleftrightarrow> c \<in> set '':-=?+#%''"

definition op_of :: "char \<Rightarrow> bool \<Rightarrow> param_op option" where
  "op_of c doubled =
     (if c = CHR ''-'' then Some Use_default
      else if c = CHR ''='' then Some Assign_default
      else if c = CHR ''?'' then Some Error_if_unset
      else if c = CHR ''+'' then Some Use_alternate
      else if c = CHR ''#'' then Some (if doubled then Trim_prefix_long else Trim_prefix_short)
      else if c = CHR ''%'' then Some (if doubled then Trim_suffix_long else Trim_suffix_short)
      else None)"

text \<open>From the operator on: \<open>rest\<close> is the body from \<open>at\<close>.\<close>

definition parse_operator :: "string \<Rightarrow> bool \<Rightarrow> string \<Rightarrow> parsed_parameter" where
  "parse_operator name colon rest =
     (case hd rest of op \<Rightarrow>
      (case (op = CHR ''#'' \<or> op = CHR ''%'') \<and> tl rest \<noteq> [] \<and> hd (tl rest) = op of doubled \<Rightarrow>
       (case op_of op doubled of
          None \<Rightarrow> parsed_parameter_init\<lparr>pp_name := name, pp_colon := colon\<rparr>
        | Some kind \<Rightarrow>
            \<lparr>pp_name = name, pp_op = kind, pp_argument = drop (if doubled then 2 else 1) rest, pp_colon = colon\<rparr>)))"

definition parse_parameter :: "string \<Rightarrow> parsed_parameter" where
  "parse_parameter body =
     (if body = [] then parsed_parameter_init
      else if length body = 1 \<and> (hd body \<in> set ''?#$!@*-'' \<or> is_digit_char (hd body)) then
        parsed_parameter_init\<lparr>pp_name := body\<rparr>
      else if hd body = CHR ''#'' \<and> 1 < length body \<and> is_length_target (tl body) then
        parsed_parameter_init\<lparr>pp_op := Op_length, pp_name := tl body\<rparr>
      else (case seek body is_operator_byte (if hd body = CHR ''#'' then 1 else 0) of q \<Rightarrow>
        if length body \<le> q then parsed_parameter_init\<lparr>pp_name := take q body\<rparr>
        else if body ! q = CHR '':'' \<and> q + 1 < length body then parse_operator (take q body) True (drop (q + 1) body)
        else parse_operator (take q body) False (drop q body)))"

definition substitution_body :: "string \<Rightarrow> string" where
  "substitution_body segment =
     (if 2 \<le> length segment \<and> segment ! 0 = backquote then substr segment 1 (length segment - 2)
      else if 3 \<le> length segment then substr segment 2 (length segment - 3)
      else [])"

fun continuation_loop :: "bool \<Rightarrow> string \<Rightarrow> string" where
  "continuation_loop quoted [] = []"
| "continuation_loop quoted (c # cs) =
    (if \<not> (quoted \<noteq> (c = single_quote)) \<and> c = backslash \<and> cs \<noteq> [] \<and> hd cs = newline
     then continuation_loop (quoted \<noteq> (c = single_quote)) (tl cs)
     else c # continuation_loop (quoted \<noteq> (c = single_quote)) cs)"

definition without_continuations :: "string \<Rightarrow> string" where
  "without_continuations body = (if backslash \<in> set body then continuation_loop False body else body)"

fun unescape_loop :: "bool \<Rightarrow> string \<Rightarrow> string" where
  "unescape_loop in_double_quotes [] = []"
| "unescape_loop in_double_quotes (c # cs) =
    (if c = backslash \<and> cs \<noteq> [] \<and>
        (hd cs = CHR ''$'' \<or> hd cs = backquote \<or> hd cs = backslash \<or> in_double_quotes \<and> hd cs = double_quote)
     then hd cs # unescape_loop in_double_quotes (tl cs)
     else c # unescape_loop in_double_quotes cs)"

definition unescape_backquotes :: "string \<Rightarrow> bool \<Rightarrow> string" where
  "unescape_backquotes code in_double_quotes =
     (if backslash \<in> set code then unescape_loop in_double_quotes code else code)"

definition is_unterminated_substitution :: "token_error \<Rightarrow> bool" where
  "is_unterminated_substitution e \<longleftrightarrow>
     e = Unterminated_command_sub \<or> e = Unterminated_backquote \<or> e = Unterminated_arithmetic \<or>
     e = Unterminated_parameter_expansion"

subsection \<open>The ports and the expander\<close>

datatype substitution_result = Sub_ok | Sub_unavailable | Sub_malformed

datatype value_context = In_assignment | In_redirection | In_here_document

datatype expansion_status =
    Exp_ok | Command_substitution_unavailable | Unsupported_construct | Parameter_unset
  | Malformed_expansion | Expansion_error

text \<open>What the expander needs from the shell.  Asking for a user's home fills a cache, so it threads the state.\<close>

record 's parameter_source =
  ps_lookup :: "'s \<Rightarrow> string \<Rightarrow> string option"
  ps_home :: "'s \<Rightarrow> string"
  ps_home_of :: "'s \<Rightarrow> string \<Rightarrow> string option \<times> 's"
  ps_ifs :: "'s \<Rightarrow> string"
  ps_status :: "'s \<Rightarrow> int"
  ps_process_id :: "'s \<Rightarrow> int"
  ps_positional_count :: "'s \<Rightarrow> nat"
  ps_positional_at :: "'s \<Rightarrow> nat \<Rightarrow> string option"
  ps_script_name :: "'s \<Rightarrow> string"
  ps_option_flags :: "'s \<Rightarrow> string"

text \<open>The ports an expander is built with; the three optional ones may be absent, as they are in completion.\<close>

record 's expander =
  xp_params :: "'s parameter_source"
  xp_runner :: "('s \<Rightarrow> string \<Rightarrow> substitution_result \<times> string \<times> 's) option"
  xp_glob_enabled :: bool
  xp_vars :: "'s arithmetic_variables option"
  xp_assign :: "('s \<Rightarrow> string \<Rightarrow> string \<Rightarrow> bool \<times> 's) option"
  xp_unset_is_error :: bool
  xp_files :: "'s \<Rightarrow> filesystem"

record expand_context =
  ec_split :: bool
  ec_fields :: bool
  ec_double_quoted :: bool
  ec_substituted :: bool
  ec_pattern :: bool
  ec_in_braces :: bool
  ec_mode :: lex_mode

definition expand_context_init :: expand_context where
  "expand_context_init =
     \<lparr>ec_split = True, ec_fields = True, ec_double_quoted = False, ec_substituted = False, ec_pattern = False,
      ec_in_braces = False, ec_mode = Word_interior\<rparr>"

definition escapes :: "expand_context \<Rightarrow> char \<Rightarrow> bool" where
  "escapes ctx c \<longleftrightarrow>
     \<not> ec_double_quoted ctx \<or>
     c = CHR ''$'' \<or> c = backquote \<or> c = backslash \<or> c = newline \<or>
     c = CHR ''}'' \<and> ec_in_braces ctx \<or>
     c = double_quote \<and> ec_mode ctx \<noteq> Here_doc_body"

definition brace_ctx :: "expand_context \<Rightarrow> expand_context" where
  "brace_ctx ctx = ctx\<lparr>ec_in_braces := True\<rparr>"

datatype split_run = Run_none | Run_white | Run_delimited

text \<open>
  The members of the expander that change, with the field list \<open>out\<close> of the call and the state
  behind the ports.  A null \<open>_pattern\<close> or \<open>_pattern_fields\<close> is \<open>None\<close>.  The reported messages are
  kept without the position \<open>report\<close> prints before them.  Two fields are no members:
  \<open>es_asserted\<close> records a failed \<open>LESH_ASSERT\<close>, and \<open>es_stale\<close> that a view into a variable's
  storage was read after the variable had changed.
\<close>

record 's expansion =
  es_current :: string
  es_started :: bool
  es_globbable :: bool
  es_pattern :: "string option"
  es_pattern_fields :: "string list option"
  es_escaped :: bool
  es_run :: split_run
  es_run_closed :: bool
  es_saw_empty_at :: bool
  es_saw_other :: bool
  es_fatal :: bool
  es_reports :: "string list"
  es_out :: "string list"
  es_host :: 's
  es_asserted :: bool
  es_stale :: bool

definition expansion_init :: "'s \<Rightarrow> 's expansion" where
  "expansion_init s =
     \<lparr>es_current = [], es_started = False, es_globbable = False, es_pattern = None, es_pattern_fields = None,
      es_escaped = False, es_run = Run_none, es_run_closed = False, es_saw_empty_at = False, es_saw_other = False,
      es_fatal = False, es_reports = [], es_out = [], es_host = s, es_asserted = False, es_stale = False\<rparr>"

subsection \<open>The field under construction\<close>

definition to_pattern :: "string \<Rightarrow> 's expansion \<Rightarrow> 's expansion" where
  "to_pattern bytes st = st\<lparr>es_pattern := map_option (\<lambda>p. p @ bytes) (es_pattern st)\<rparr>"

definition append_bytes :: "string \<Rightarrow> 's expansion \<Rightarrow> 's expansion" where
  "append_bytes bytes st =
     (if es_escaped st then to_pattern bytes st else st)
       \<lparr>es_current := es_current st @ bytes, es_run := Run_none, es_run_closed := False, es_started := True\<rparr>"

definition push_byte :: "char \<Rightarrow> 's expansion \<Rightarrow> 's expansion" where
  "push_byte c st =
     (if es_escaped st then to_pattern [c] st else st)
       \<lparr>es_current := es_current st @ [c], es_run := Run_none, es_run_closed := False, es_started := True\<rparr>"

definition escape_in_pattern :: "'s expansion \<Rightarrow> 's expansion" where
  "escape_in_pattern st =
     to_pattern [backslash] (if es_escaped st then st else (to_pattern (es_current st) st)\<lparr>es_escaped := True\<rparr>)"

definition finish_field :: "bool \<Rightarrow> 's expansion \<Rightarrow> bool \<times> 's expansion" where
  "finish_field even_if_empty st0 =
     (case st0\<lparr>es_run := Run_none, es_run_closed := False\<rparr> of st \<Rightarrow>
      if \<not> es_started st \<and> \<not> even_if_empty then (False, st)
      else (True, st\<lparr>
        es_out := es_out st @ [es_current st],
        es_current := [],
        es_started := False,
        es_pattern_fields := map_option (\<lambda>emitted. emitted @
          [if es_escaped st then (case es_pattern st of Some p \<Rightarrow> p | None \<Rightarrow> []) else es_current st])
          (es_pattern_fields st),
        es_pattern := (if es_pattern_fields st \<noteq> None \<and> es_escaped st then map_option (\<lambda>p. []) (es_pattern st)
          else es_pattern st),
        es_escaped := False\<rparr>))"

definition is_ifs :: "char \<Rightarrow> string \<Rightarrow> bool" where
  "is_ifs c separators \<longleftrightarrow> c \<in> set separators"

definition is_ifs_whitespace :: "char \<Rightarrow> string \<Rightarrow> bool" where
  "is_ifs_whitespace c separators \<longleftrightarrow> (c = CHR '' '' \<or> c = tab \<or> c = newline) \<and> is_ifs c separators"

definition split_byte :: "string \<Rightarrow> char \<Rightarrow> 's expansion \<Rightarrow> 's expansion" where
  "split_byte separators c st =
     (if \<not> is_ifs c separators then push_byte c st
      else (case is_ifs_whitespace c separators of white \<Rightarrow>
        if es_run st = Run_none then
          (case finish_field (\<not> white) st of (closed, st1) \<Rightarrow>
             st1\<lparr>es_run := (if white then Run_white else Run_delimited), es_run_closed := closed\<rparr>)
        else if white then st
        else if es_run st = Run_white \<and> es_run_closed st then st\<lparr>es_run := Run_delimited\<rparr>
        else (snd (finish_field True st))\<lparr>es_run := Run_delimited, es_run_closed := True\<rparr>))"

definition append_split :: "'s expander \<Rightarrow> string \<Rightarrow> 's expansion \<Rightarrow> 's expansion" where
  "append_split x bytes st = fold (split_byte (ps_ifs (xp_params x) (es_host st))) bytes st"

definition quoted_byte :: "bool \<Rightarrow> char \<Rightarrow> 's expansion \<Rightarrow> 's expansion" where
  "quoted_byte pattern_role c st =
     push_byte c
       (if is_pattern_syntax c then
          (if pattern_role then st\<lparr>es_current := es_current st @ [backslash]\<rparr> else escape_in_pattern st)
        else st)"

definition append_quoted :: "string \<Rightarrow> expand_context \<Rightarrow> 's expansion \<Rightarrow> 's expansion" where
  "append_quoted bytes ctx st =
     (if \<not> ec_pattern ctx then
        (if es_pattern st = None \<or> bytes = [] then append_bytes bytes st
         else fold (quoted_byte False) bytes st)
      else (fold (quoted_byte True) bytes (st\<lparr>es_asserted := es_asserted st \<or> es_pattern st \<noteq> None\<rparr>))
             \<lparr>es_started := True\<rparr>)"

definition append_value :: "string \<Rightarrow> expand_context \<Rightarrow> 's expansion \<Rightarrow> 's expansion" where
  "append_value bytes ctx st =
     (if ec_double_quoted ctx then append_quoted bytes ctx st else append_bytes bytes st)"

text \<open>How every expansion's result reaches the field: split where splitting applies, as a value otherwise.\<close>

definition substitute :: "'s expander \<Rightarrow> expand_context \<Rightarrow> string \<Rightarrow> 's expansion \<Rightarrow> 's expansion" where
  "substitute x ctx bytes st =
     (if ec_split ctx then append_split x bytes st else append_value bytes ctx st)"

definition globbable_if :: "bool \<Rightarrow> 's expansion \<Rightarrow> 's expansion" where
  "globbable_if b st = (if b then st\<lparr>es_globbable := True\<rparr> else st)"

definition report :: "string \<Rightarrow> 's expansion \<Rightarrow> 's expansion" where
  "report message st = st\<lparr>es_reports := es_reports st @ [message]\<rparr>"

definition fatal :: "'s expansion \<Rightarrow> 's expansion" where
  "fatal st = st\<lparr>es_fatal := True\<rparr>"

subsection \<open>Parameters\<close>

definition int_to_scratch :: "int \<Rightarrow> string" where
  "int_to_scratch value_read = to_decimal value_read"

definition joined_positional :: "'s parameter_source \<Rightarrow> 's \<Rightarrow> string" where
  "joined_positional ps s =
     concat (map (\<lambda>i. case ps_positional_at ps s i of
         None \<Rightarrow> []
       | Some arg \<Rightarrow> (if 1 < i then take 1 (ps_ifs ps s) else []) @ arg)
       [1..<ps_positional_count ps s + 1])"

definition lookup_parameter :: "'s parameter_source \<Rightarrow> 's \<Rightarrow> string \<Rightarrow> string option" where
  "lookup_parameter ps s name =
     (if name = [] then None
      else if name = ''?'' then Some (int_to_scratch (ps_status ps s))
      else if name = ''#'' then Some (int_to_scratch (sint (word_of_nat (ps_positional_count ps s) :: 32 word)))
      else if name = ''$'' then Some (int_to_scratch (ps_process_id ps s))
      else if name = ''0'' then Some (ps_script_name ps s)
      else if name = ''-'' then Some (ps_option_flags ps s)
      else if name = ''@'' \<or> name = ''*'' then Some (joined_positional ps s)
      else if is_digit_char (hd name) \<and> hd name \<noteq> CHR ''0'' then
        (case parse_integer name Positional_parameter_index of parsed \<Rightarrow>
         if nr_status parsed = Not_a_number then ps_lookup ps s name
         else ps_positional_at ps s (unat (nr_value parsed)))
      else ps_lookup ps s name)"

definition report_unset :: "'s expander \<Rightarrow> string \<Rightarrow> 's expansion \<Rightarrow> bool \<times> 's expansion" where
  "report_unset x name st =
     (if xp_unset_is_error x then (True, fatal (report (name @ '': parameter not set'') st)) else (False, st))"

definition report_malformed :: "token_error \<Rightarrow> 's expansion \<Rightarrow> 's expansion" where
  "report_malformed e st =
     fatal (report (''syntax error: '' @ (case error_phrase e of Some phrase \<Rightarrow> phrase | None \<Rightarrow> ''malformed expansion'')) st)"

definition report_arithmetic :: "string option \<Rightarrow> string \<Rightarrow> 's expansion \<Rightarrow> 's expansion" where
  "report_arithmetic why expression st =
     fatal (report (''arithmetic expression: '' @ (case why of Some w \<Rightarrow> w | None \<Rightarrow> ''invalid expression'') @ '': '' @
       [double_quote] @ expression @ [double_quote]) st)"

subsection \<open>Segments\<close>

text \<open>\<open>rec\<close> is \<open>expand_text\<close> one level deeper.\<close>

type_synonym 's text_expansion = "expand_context \<Rightarrow> string \<Rightarrow> 's expansion \<Rightarrow> expansion_status \<times> 's expansion"

text \<open>A value is built in an accumulator of its own; the field around it is put aside and put back.\<close>

definition value_start :: "'s expansion \<Rightarrow> 's expansion" where
  "value_start st =
     st\<lparr>es_current := [], es_started := False, es_globbable := False, es_pattern := None, es_pattern_fields := None,
        es_escaped := False, es_run := Run_none, es_run_closed := False, es_out := []\<rparr>"

definition put_back :: "'s expansion \<Rightarrow> 's expansion \<Rightarrow> 's expansion" where
  "put_back st inner =
     inner\<lparr>es_current := es_current st, es_started := es_started st, es_globbable := es_globbable st,
       es_pattern := es_pattern st, es_pattern_fields := es_pattern_fields st, es_escaped := es_escaped st,
       es_run := es_run st, es_run_closed := es_run_closed st, es_out := es_out st\<rparr>"

definition expand_to_value ::
  "'s text_expansion \<Rightarrow> expand_context \<Rightarrow> string \<Rightarrow> 's expansion \<Rightarrow> string \<times> 's expansion" where
  "expand_to_value rec ctx body st =
     (case snd (rec (ctx\<lparr>ec_split := False, ec_fields := False\<rparr>) body (value_start st)) of inner \<Rightarrow>
      (es_current inner, put_back st inner))"

definition literal_byte :: "'s expander \<Rightarrow> expand_context \<Rightarrow> char \<Rightarrow> 's expansion \<Rightarrow> 's expansion" where
  "literal_byte x ctx c st =
     (if ec_double_quoted ctx \<and> (ec_pattern ctx \<or> es_pattern st \<noteq> None) then append_quoted [c] ctx st
      else if ec_split ctx \<and> ec_substituted ctx then append_split x [c] st
      else push_byte c st)"

fun literal_loop :: "'s expander \<Rightarrow> expand_context \<Rightarrow> string \<Rightarrow> 's expansion \<Rightarrow> 's expansion" where
  "literal_loop x ctx [] st = st"
| "literal_loop x ctx (c # cs) st =
    (if c = backslash \<and> cs \<noteq> [] \<and> hd cs = newline then literal_loop x ctx (tl cs) st
     else if c = backslash \<and> cs \<noteq> [] \<and> escapes ctx (hd cs) then
       literal_loop x ctx (tl cs) (append_quoted [hd cs] ctx st)
     else literal_loop x ctx cs (literal_byte x ctx c st))"

definition expand_literal :: "'s expander \<Rightarrow> expand_context \<Rightarrow> string \<Rightarrow> 's expansion \<Rightarrow> 's expansion" where
  "expand_literal x ctx body st =
     literal_loop x ctx body (globbable_if (ec_split ctx \<and> has_pattern_characters body) st)"

definition expand_single_quoted :: "expand_context \<Rightarrow> string \<Rightarrow> 's expansion \<Rightarrow> 's expansion" where
  "expand_single_quoted ctx body st =
     (if 2 \<le> length body then append_quoted (substr body 1 (length body - 2)) ctx st else st)\<lparr>es_started := True\<rparr>"

function ansi_loop :: "expand_context \<Rightarrow> string \<Rightarrow> nat \<Rightarrow> 's expansion \<Rightarrow> 's expansion" where
  "ansi_loop ctx inner i st =
    (if i < length inner \<and> \<not> ac_truncates (decode_ansi_c_escape inner i) then
       ansi_loop ctx inner (i + ac_consumed (decode_ansi_c_escape inner i))
         (fold (\<lambda>b. append_quoted [char_of b] ctx) (ac_bytes (decode_ansi_c_escape inner i)) st)
     else st)"
  by pat_completeness auto

termination
proof (relation "measure (\<lambda>(ctx, inner, i, st). length inner - i)", goal_cases)
  case (2 ctx inner i st)
  then show ?case using decode_step_progress [of i inner] by (simp add: diff_less_mono2)
qed simp

declare ansi_loop.simps [simp del]

definition expand_ansi_quoted :: "expand_context \<Rightarrow> string \<Rightarrow> 's expansion \<Rightarrow> 's expansion" where
  "expand_ansi_quoted ctx body st =
     (if 3 \<le> length body then ansi_loop ctx (substr body 2 (length body - 3)) 0 st else st)\<lparr>es_started := True\<rparr>"

definition double_quoted_ctx :: "expand_context \<Rightarrow> expand_context" where
  "double_quoted_ctx ctx =
     expand_context_init\<lparr>ec_split := False, ec_fields := ec_fields ctx, ec_double_quoted := True,
       ec_pattern := ec_pattern ctx, ec_mode := Double_quote_interior\<rparr>"

definition expand_double_quoted ::
  "'s text_expansion \<Rightarrow> expand_context \<Rightarrow> string \<Rightarrow> 's expansion \<Rightarrow> expansion_status \<times> bool \<times> 's expansion" where
  "expand_double_quoted rec ctx body st =
     (case (case st\<lparr>es_saw_empty_at := False, es_saw_other := False\<rparr> of fresh \<Rightarrow>
         if 2 \<le> length body then rec (double_quoted_ctx ctx) (substr body 1 (length body - 2)) fresh
         else (Exp_ok, fresh)) of
      (status, inner) \<Rightarrow>
        (case inner\<lparr>es_saw_empty_at := es_saw_empty_at st, es_saw_other := es_saw_other st\<rparr> of restored \<Rightarrow>
         if es_saw_empty_at inner \<and> \<not> es_saw_other inner then (status, False, restored)
         else (status, True, restored\<lparr>es_started := True\<rparr>)))"

text \<open>\<open>$@\<close> and \<open>$*\<close>: what is done with each positional parameter, and with the boundaries between them.\<close>

definition each_positional ::
  "'s parameter_source \<Rightarrow> (nat \<Rightarrow> string \<Rightarrow> 's expansion \<Rightarrow> 's expansion) \<Rightarrow> 's expansion \<Rightarrow> 's expansion" where
  "each_positional ps f st =
     fold (\<lambda>i st1. case ps_positional_at ps (es_host st) i of None \<Rightarrow> st1 | Some arg \<Rightarrow> f i arg st1)
       [1..<ps_positional_count ps (es_host st) + 1] st"

definition boundary :: "nat \<Rightarrow> 's expansion \<Rightarrow> 's expansion" where
  "boundary i st = (if 1 < i then snd (finish_field False st) else st)"

definition expand_positional ::
  "'s expander \<Rightarrow> expand_context \<Rightarrow> string \<Rightarrow> 's expansion \<Rightarrow> expansion_status \<times> bool \<times> 's expansion" where
  "expand_positional x ctx name st =
     (case xp_params x of ps \<Rightarrow>
      if ec_double_quoted ctx \<and> ec_fields ctx \<and> name = ''@'' then
        (if ps_positional_count ps (es_host st) = 0 then (Exp_ok, False, st\<lparr>es_saw_empty_at := True\<rparr>)
         else (Exp_ok, True, each_positional ps (\<lambda>i arg st1. append_bytes arg (boundary i st1)) st))
      else if \<not> ec_split ctx then
        (case (case ps_ifs ps (es_host st) of [] \<Rightarrow> CHR 0x00 | c # cs \<Rightarrow> c) of joiner \<Rightarrow>
         (Exp_ok, True,
          (each_positional ps (\<lambda>i arg st1. append_bytes arg
             (if 1 < i \<and> joiner \<noteq> CHR 0x00 then append_bytes [joiner] st1 else st1)) st)\<lparr>es_started := True\<rparr>))
      else (Exp_ok, True, each_positional ps (\<lambda>i arg st1. append_split x arg (boundary i st1)) st))"

definition substitute_value ::
  "'s expander \<Rightarrow> expand_context \<Rightarrow> string \<Rightarrow> string option \<Rightarrow> 's expansion \<Rightarrow> expansion_status \<times> 's expansion" where
  "substitute_value x ctx name found st =
     (case found of
        None \<Rightarrow> (case report_unset x name st of (fired, st1) \<Rightarrow> (if fired then Parameter_unset else Exp_ok, st1))
      | Some v \<Rightarrow> (Exp_ok, substitute x ctx v (globbable_if (ec_split ctx \<and> has_pattern_characters v) st)))"

definition expand_length ::
  "'s expander \<Rightarrow> string \<Rightarrow> string option \<Rightarrow> 's expansion \<Rightarrow> expansion_status \<times> 's expansion" where
  "expand_length x name found st =
     (if name = ''@'' \<or> name = ''*'' then
        (Exp_ok, append_bytes (nat_decimal (ps_positional_count (xp_params x) (es_host st))) st)
      else (case found of
          Some v \<Rightarrow> (Exp_ok, append_bytes (nat_decimal (length v)) st)
        | None \<Rightarrow> (case report_unset x name st of (fired, st1) \<Rightarrow>
            if fired then (Parameter_unset, st1) else (Exp_ok, append_bytes (nat_decimal 0) st1))))"

definition argument_ctx :: "expand_context \<Rightarrow> expand_context" where
  "argument_ctx ctx = ctx\<lparr>ec_substituted := True, ec_in_braces := True\<rparr>"

definition expand_assign_default ::
  "'s expander \<Rightarrow> 's text_expansion \<Rightarrow> expand_context \<Rightarrow> parsed_parameter \<Rightarrow> 's expansion \<Rightarrow>
    expansion_status \<times> 's expansion" where
  "expand_assign_default x rec ctx p st =
     (if \<not> is_assignable_name (pp_name p) then
        (Expansion_error, fatal (report (pp_name p @ '': bad variable name'') st))
      else (case expand_to_value rec (brace_ctx ctx) (pp_argument p) st of (d, st1) \<Rightarrow>
        (case (case xp_assign x of
            None \<Rightarrow> st1
          | Some assign \<Rightarrow> (case assign (es_host st1) (pp_name p) d of (accepted, s) \<Rightarrow>
              if accepted then st1\<lparr>es_host := s\<rparr> else fatal (st1\<lparr>es_host := s\<rparr>))) of st2 \<Rightarrow>
         (Exp_ok, if ec_split ctx then append_split x d st2 else append_bytes d st2))))"

definition expand_error_if_unset ::
  "'s text_expansion \<Rightarrow> expand_context \<Rightarrow> parsed_parameter \<Rightarrow> 's expansion \<Rightarrow> expansion_status \<times> 's expansion" where
  "expand_error_if_unset rec ctx p st =
     (case (if pp_argument p = [] then
          (if pp_colon p then ''parameter not set or null'' else ''parameter not set'', st)
        else expand_to_value rec (brace_ctx ctx) (pp_argument p) st) of
      (message, st1) \<Rightarrow> (Parameter_unset, fatal (report (pp_name p @ '': '' @ message) st1)))"

definition pattern_ctx :: expand_context where
  "pattern_ctx = expand_context_init\<lparr>ec_split := False, ec_fields := False, ec_pattern := True\<rparr>"

definition trimmed :: "param_op \<Rightarrow> string \<Rightarrow> string \<Rightarrow> string" where
  "trimmed op pat v =
     (if op = Trim_prefix_short \<or> op = Trim_prefix_long then
        (case match_prefix pat v (op = Trim_prefix_long) of None \<Rightarrow> v | Some n \<Rightarrow> drop n v)
      else (case match_suffix pat v (op = Trim_suffix_long) of None \<Rightarrow> v | Some n \<Rightarrow> take (length v - n) v))"

definition expand_trim ::
  "'s expander \<Rightarrow> 's text_expansion \<Rightarrow> expand_context \<Rightarrow> parsed_parameter \<Rightarrow> string option \<Rightarrow> 's expansion \<Rightarrow>
    expansion_status \<times> 's expansion" where
  "expand_trim x rec ctx p found st =
     (case found of
        None \<Rightarrow> (case report_unset x (pp_name p) st of (fired, st1) \<Rightarrow> (if fired then Parameter_unset else Exp_ok, st1))
      | Some v \<Rightarrow>
          (case expand_to_value rec pattern_ctx (pp_argument p) st of (pat, st1) \<Rightarrow>
           (Exp_ok, substitute x ctx (trimmed (pp_op p) pat v)
             (st1\<lparr>es_stale := es_stale st1 \<or>
                ps_lookup (xp_params x) (es_host st1) (pp_name p) \<noteq>
                ps_lookup (xp_params x) (es_host st) (pp_name p)\<rparr>))))"

definition expand_operation ::
  "'s expander \<Rightarrow> 's text_expansion \<Rightarrow> expand_context \<Rightarrow> parsed_parameter \<Rightarrow> string option \<Rightarrow> 's expansion \<Rightarrow>
    expansion_status \<times> 's expansion" where
  "expand_operation x rec ctx p found st =
     (case found = None \<or> pp_colon p \<and> found = Some [] of absent \<Rightarrow>
      (case pp_op p of
         Op_none \<Rightarrow> substitute_value x ctx (pp_name p) found st
       | Op_length \<Rightarrow> expand_length x (pp_name p) found st
       | Use_default \<Rightarrow>
           if absent then rec (argument_ctx ctx) (pp_argument p) st else substitute_value x ctx (pp_name p) found st
       | Assign_default \<Rightarrow>
           if absent then expand_assign_default x rec ctx p st else substitute_value x ctx (pp_name p) found st
       | Use_alternate \<Rightarrow> if absent then (Exp_ok, st) else rec (argument_ctx ctx) (pp_argument p) st
       | Error_if_unset \<Rightarrow>
           if absent then expand_error_if_unset rec ctx p st else substitute_value x ctx (pp_name p) found st
       | Trim_prefix_short \<Rightarrow> expand_trim x rec ctx p found st
       | Trim_prefix_long \<Rightarrow> expand_trim x rec ctx p found st
       | Trim_suffix_short \<Rightarrow> expand_trim x rec ctx p found st
       | Trim_suffix_long \<Rightarrow> expand_trim x rec ctx p found st))"

definition expand_parameter ::
  "'s expander \<Rightarrow> 's text_expansion \<Rightarrow> expand_context \<Rightarrow> string \<Rightarrow> 's expansion \<Rightarrow>
    expansion_status \<times> bool \<times> 's expansion" where
  "expand_parameter x rec ctx body st =
     (case parse_parameter (parameter_body (without_continuations body)) of p \<Rightarrow>
      if pp_op p = Op_none \<and> (pp_name p = ''@'' \<or> pp_name p = ''*'') then expand_positional x ctx (pp_name p) st
      else (case expand_operation x rec ctx p (lookup_parameter (xp_params x) (es_host st) (pp_name p)) st of
        (status, st1) \<Rightarrow> (status, True, st1)))"

definition expand_tilde :: "'s expander \<Rightarrow> string \<Rightarrow> 's expansion \<Rightarrow> 's expansion" where
  "expand_tilde x body st =
     (if body = ''~'' then append_bytes (ps_home (xp_params x) (es_host st)) st
      else (case ps_home_of (xp_params x) (es_host st) (tl body) of (found, s) \<Rightarrow>
        append_bytes (case found of Some home \<Rightarrow> home | None \<Rightarrow> body) (st\<lparr>es_host := s\<rparr>)))"

definition command_code :: "string \<Rightarrow> bool \<Rightarrow> string" where
  "command_code body in_double_quotes =
     (case substitution_body (without_continuations body) of code \<Rightarrow>
      if body \<noteq> [] \<and> hd body = backquote then unescape_backquotes code in_double_quotes else code)"

definition without_trailing_newlines :: "string \<Rightarrow> string" where
  "without_trailing_newlines s = rev (dropWhile (\<lambda>c. c = newline) (rev s))"

definition expand_command_sub ::
  "'s expander \<Rightarrow> expand_context \<Rightarrow> string \<Rightarrow> 's expansion \<Rightarrow> expansion_status \<times> 's expansion" where
  "expand_command_sub x ctx body st =
     (case xp_runner x of
        None \<Rightarrow> (Command_substitution_unavailable, st)
      | Some run_and_capture \<Rightarrow>
          (case run_and_capture (es_host st) (command_code body (ec_double_quoted ctx)) of (r, captured, s) \<Rightarrow>
           (case st\<lparr>es_host := s\<rparr> of st1 \<Rightarrow>
            (case r of
               Sub_malformed \<Rightarrow> (Malformed_expansion, fatal st1)
             | Sub_unavailable \<Rightarrow> (Expansion_error, fatal st1)
             | Sub_ok \<Rightarrow>
                 (case without_trailing_newlines captured of result \<Rightarrow>
                  (Exp_ok, substitute x ctx result
                    (globbable_if (ec_split ctx \<and> has_pattern_characters result) st1)))))))"

definition arithmetic_ctx :: expand_context where
  "arithmetic_ctx = expand_context_init\<lparr>ec_split := False, ec_fields := False, ec_double_quoted := True\<rparr>"

definition arithmetic_body :: "string \<Rightarrow> string" where
  "arithmetic_body body =
     (case without_continuations body of inner \<Rightarrow>
      if 5 \<le> length inner then substr inner 3 (length inner - 5) else inner)"

definition expand_arithmetic ::
  "'s expander \<Rightarrow> 's text_expansion \<Rightarrow> expand_context \<Rightarrow> string \<Rightarrow> 's expansion \<Rightarrow> expansion_status \<times> 's expansion" where
  "expand_arithmetic x rec ctx body st =
     (case expand_to_value rec arithmetic_ctx (arithmetic_body body) st of (resolved, st1) \<Rightarrow>
      (case xp_vars x of
         None \<Rightarrow> (Unsupported_construct, st1)
       | Some vars \<Rightarrow>
           (case evaluate resolved vars (es_host st1) of
              None \<Rightarrow> (Exp_ok, st1)
            | Some (r, s) \<Rightarrow>
                (case st1\<lparr>es_host := s\<rparr> of st2 \<Rightarrow>
                 if \<not> ar_ok r then
                   (Expansion_error, if ar_assignment_refused r then fatal st2 else report_arithmetic (ar_error r) resolved st2)
                 else (case (if ar_unset_name r \<noteq> [] then report_unset x (ar_unset_name r) st2 else (False, st2)) of
                   (fired, st3) \<Rightarrow>
                     if fired then (Parameter_unset, st3)
                     else (Exp_ok, substitute x ctx (to_decimal (sint (ar_value r))) st3))))))"

definition expand_segment ::
  "'s expander \<Rightarrow> 's text_expansion \<Rightarrow> expand_context \<Rightarrow> token_kind \<Rightarrow> string \<Rightarrow> 's expansion \<Rightarrow>
    expansion_status \<times> bool \<times> 's expansion" where
  "expand_segment x rec ctx kind body st =
     (if kind = Seg_literal then (Exp_ok, True, expand_literal x ctx body st)
      else if kind = Seg_single_quoted then (Exp_ok, True, expand_single_quoted ctx body st)
      else if kind = Seg_dollar_single_quoted then (Exp_ok, True, expand_ansi_quoted ctx body st)
      else if kind = Seg_double_quoted then expand_double_quoted rec ctx body st
      else if kind = Seg_parameter then expand_parameter x rec ctx body st
      else if kind = Seg_tilde then (Exp_ok, True, expand_tilde x body st)
      else if kind = Seg_command_sub then
        (case expand_command_sub x ctx body st of (status, st1) \<Rightarrow> (status, True, st1))
      else if kind = Seg_arithmetic then
        (case expand_arithmetic x rec ctx body st of (status, st1) \<Rightarrow> (status, True, st1))
      else (Exp_ok, True, append_bytes body st))"

subsection \<open>Texts\<close>

text \<open>The loop over the segments of a text, which the lexer cuts in the mode of the context.\<close>

fun expand_segments ::
  "'s expander \<Rightarrow> 's text_expansion \<Rightarrow> expand_context \<Rightarrow> (token_kind \<times> token_error \<times> string) list \<Rightarrow>
    expansion_status \<Rightarrow> 's expansion \<Rightarrow> expansion_status \<times> 's expansion" where
  "expand_segments x rec ctx [] status st = (status, st)"
| "expand_segments x rec ctx ((kind, e, body) # segs) status st =
    (if is_unterminated_substitution e then (Malformed_expansion, report_malformed e st)
     else (case expand_segment x rec ctx kind body st of (inner, content, st1) \<Rightarrow>
       expand_segments x rec ctx segs (if inner = Exp_ok then status else inner)
         (if content then st1\<lparr>es_saw_other := True\<rparr> else st1)))"

definition segments_of :: "lex_mode \<Rightarrow> string \<Rightarrow> (token_kind \<times> token_error \<times> string) list" where
  "segments_of mode body =
     map (\<lambda>t. (tk_kind t, tk_error t, token_text body t)) (lex_all mode (lexer_at body 0))"

definition kMaxExpansionDepth :: nat where "kMaxExpansionDepth = 256"

text \<open>\<open>expand_text\<close>, by recursion on the levels left: \<open>kMaxExpansionDepth - _depth\<close> of the code.\<close>

fun expand_text :: "'s expander \<Rightarrow> nat \<Rightarrow> 's text_expansion" where
  "expand_text x 0 ctx body st = (Malformed_expansion, fatal (report ''expansion nested too deeply'' st))"
| "expand_text x (Suc n) ctx body st =
     expand_segments x (expand_text x n) ctx (segments_of (ec_mode ctx) body) Exp_ok st"

subsection \<open>Words and values\<close>

definition glob_fields :: "filesystem \<Rightarrow> string list \<Rightarrow> string list \<Rightarrow> string list" where
  "glob_fields fs patterns emitted =
     concat (map2 (\<lambda>p field. case expand_pathnames fs p field of None \<Rightarrow> [field] | Some paths \<Rightarrow> paths) patterns emitted)"

definition one_value_role :: "word_role \<Rightarrow> bool" where
  "one_value_role role \<longleftrightarrow> role = Role_pattern \<or> role = Role_case_subject \<or> role = Role_redirect_target"

definition word_ctx :: "word_role \<Rightarrow> expand_context" where
  "word_ctx role =
     (if one_value_role role then
        expand_context_init\<lparr>ec_split := False, ec_fields := False, ec_pattern := (role = Role_pattern)\<rparr>
      else expand_context_init)"

definition glob_word :: "'s expander \<Rightarrow> nat \<Rightarrow> 's expansion \<Rightarrow> 's expansion" where
  "glob_word x before_fields st =
     (case (case es_pattern_fields st of Some ps \<Rightarrow> ps | None \<Rightarrow> []) of patterns \<Rightarrow>
      st\<lparr>es_asserted := es_asserted st \<or> length patterns \<noteq> length (es_out st) - before_fields,
         es_out := take before_fields (es_out st) @
           glob_fields (xp_files x (es_host st)) patterns (drop before_fields (es_out st))\<rparr>)"

definition word_start :: "bool \<Rightarrow> 's expansion \<Rightarrow> 's expansion" where
  "word_start build_pattern st =
     st\<lparr>es_current := [], es_started := False, es_pattern := (if build_pattern then Some [] else es_pattern st),
        es_pattern_fields := (if build_pattern then Some [] else es_pattern_fields st),
        es_escaped := False, es_run := Run_none, es_run_closed := False, es_globbable := False\<rparr>"

text \<open>The path through the expander proper, for a word that is not marked literal.\<close>

definition expand_scanned_word ::
  "'s expander \<Rightarrow> word_role \<Rightarrow> string \<Rightarrow> 's expansion \<Rightarrow> expansion_status \<times> 's expansion" where
  "expand_scanned_word x role word st =
     (case xp_glob_enabled x \<and> \<not> one_value_role role of build_pattern \<Rightarrow>
      (case expand_text x kMaxExpansionDepth (word_ctx role) word
          (word_start build_pattern st) of
       (status, st1) \<Rightarrow>
         (case snd (finish_field (one_value_role role) st1) of st2 \<Rightarrow>
          (status,
           (if build_pattern \<and> es_globbable st2 then glob_word x (length (es_out st)) st2 else st2)
             \<lparr>es_current := [], es_pattern := None, es_pattern_fields := None\<rparr>))))"

definition expand_word ::
  "'s expander \<Rightarrow> word_role \<Rightarrow> bool \<Rightarrow> string \<Rightarrow> 's expansion \<Rightarrow> expansion_status \<times> 's expansion" where
  "expand_word x role literal word st =
     (if literal then (Exp_ok, st\<lparr>es_out := es_out st @ [word]\<rparr>) else expand_scanned_word x role word st)"

definition value_ctx :: "value_context \<Rightarrow> expand_context" where
  "value_ctx context =
     (case expand_context_init\<lparr>ec_split := False, ec_fields := False\<rparr> of ctx \<Rightarrow>
      (case context of
         In_assignment \<Rightarrow> ctx\<lparr>ec_mode := Assignment_interior\<rparr>
       | In_redirection \<Rightarrow> ctx\<lparr>ec_mode := Word_interior\<rparr>
       | In_here_document \<Rightarrow> ctx\<lparr>ec_double_quoted := True, ec_mode := Here_doc_body\<rparr>))"

definition expand_value :: "'s expander \<Rightarrow> value_context \<Rightarrow> string \<Rightarrow> 's expansion \<Rightarrow> string \<times> 's expansion" where
  "expand_value x context body st = expand_to_value (expand_text x kMaxExpansionDepth) (value_ctx context) body st"

subsection \<open>Declaration utilities\<close>

datatype declaration_state = Searching | Declaring | Other_utility

record declaration_scan =
  dc_state :: declaration_state
  dc_after_command :: bool

definition declaration_scan_init :: declaration_scan where
  "declaration_scan_init = \<lparr>dc_state = Searching, dc_after_command = False\<rparr>"

definition operand_is_assignment :: "declaration_scan \<Rightarrow> string \<Rightarrow> bool" where
  "operand_is_assignment d word \<longleftrightarrow>
     dc_state d = Declaring \<and> CHR ''='' \<in> set word \<and> is_assignable_name (takeWhile (\<lambda>c. c \<noteq> CHR ''='') word)"

definition note_expanded_word :: "string \<Rightarrow> declaration_scan \<Rightarrow> declaration_scan" where
  "note_expanded_word field d =
     (if dc_state d \<noteq> Searching then d
      else if field = ''export'' \<or> field = ''readonly'' then d\<lparr>dc_state := Declaring\<rparr>
      else if field = ''command'' then d\<lparr>dc_after_command := True\<rparr>
      else if dc_after_command d \<and> field \<noteq> [] \<and> hd field = CHR ''-'' then d
      else d\<lparr>dc_state := Other_utility\<rparr>)"

end
