(* ===== verification/ExpanderProps.thy ===== *)
theory ExpanderProps
  imports Expander "HOL-Library.Sublist"
begin

text \<open>
  Properties of word expansion: what every expansion keeps of the expander's state, that every
  error it answers is recorded as fatal, and what a value context can do to the fields around it.
\<close>

subsection \<open>What an expansion keeps\<close>

text \<open>
  The pattern form of a field is only written where one is being built, and no assertion of the
  code has failed.
\<close>

definition sound_state :: "'s expansion \<Rightarrow> bool" where
  "sound_state st \<longleftrightarrow> (es_escaped st \<longrightarrow> es_pattern st \<noteq> None) \<and> \<not> es_asserted st"

text \<open>A pattern context never meets a pattern form under construction.\<close>

definition fits :: "expand_context \<Rightarrow> 's expansion \<Rightarrow> bool" where
  "fits ctx st \<longleftrightarrow> (ec_pattern ctx \<longrightarrow> es_pattern st = None)"

definition lead :: "'s expansion \<Rightarrow> int" where
  "lead st = int (length (the (es_pattern_fields st))) - int (length (es_out st))"

text \<open>
  From one state to a later one: the pattern form stays built or unbuilt, finished fields are kept
  and their pattern forms keep pace with them, a context for one value finishes none, and neither
  a report nor the fatal mark is taken back.
\<close>

definition advances :: "bool \<Rightarrow> 's expansion \<Rightarrow> 's expansion \<Rightarrow> bool" where
  "advances emits st st1 \<longleftrightarrow>
     (es_pattern st1 = None \<longleftrightarrow> es_pattern st = None) \<and>
     (es_pattern_fields st1 = None \<longleftrightarrow> es_pattern_fields st = None) \<and>
     prefix (es_out st) (es_out st1) \<and>
     (es_pattern_fields st \<noteq> None \<longrightarrow> lead st1 = lead st) \<and>
     (\<not> emits \<longrightarrow> es_out st1 = es_out st \<and> es_pattern_fields st1 = es_pattern_fields st) \<and>
     prefix (es_reports st) (es_reports st1) \<and>
     (es_fatal st \<longrightarrow> es_fatal st1)"

definition emits :: "expand_context \<Rightarrow> bool" where
  "emits ctx \<longleftrightarrow> ec_split ctx \<or> ec_fields ctx"

definition fatal_status :: "expansion_status \<Rightarrow> bool" where
  "fatal_status status \<longleftrightarrow> status = Parameter_unset \<or> status = Malformed_expansion \<or> status = Expansion_error"

text \<open>What every operation of the expander promises in a context.\<close>

definition behaves :: "expand_context \<Rightarrow> 's expansion \<Rightarrow> expansion_status \<Rightarrow> 's expansion \<Rightarrow> bool" where
  "behaves ctx st status st1 \<longleftrightarrow>
     (sound_state st \<longrightarrow> sound_state st1) \<and> advances (emits ctx) st st1 \<and> (fatal_status status \<longrightarrow> es_fatal st1)"

lemma advances_refl [simp]: "advances b st st"
  by (simp add: advances_def)

lemma advances_trans:
  assumes "advances b st st1" "advances b st1 st2"
  shows "advances b st st2"
proof -
  have "prefix (es_out st) (es_out st2)" "prefix (es_reports st) (es_reports st2)"
    using assms prefix_order.trans unfolding advances_def by blast+
  moreover have "es_pattern_fields st \<noteq> None \<longrightarrow> lead st2 = lead st"
    using assms unfolding advances_def by metis
  ultimately show ?thesis using assms unfolding advances_def by metis
qed

lemma advances_fatal: "advances b st st1 \<Longrightarrow> es_fatal st \<longrightarrow> es_fatal st1"
  by (simp add: advances_def)

lemma behaves_refl [simp]: "behaves ctx st Exp_ok st"
  by (simp add: behaves_def fatal_status_def)

lemma behaves_trans [trans]:
  assumes "behaves ctx st Exp_ok st1" "behaves ctx st1 status st2"
  shows "behaves ctx st status st2"
  using assms advances_trans unfolding behaves_def by blast

lemma behaves_then:
  assumes "behaves ctx st s1 st1" "behaves ctx st1 s2 st2" "s3 = s1 \<or> s3 = s2 \<or> s3 = Exp_ok"
  shows "behaves ctx st s3 st2"
proof -
  have "sound_state st \<longrightarrow> sound_state st2" "advances (emits ctx) st st2"
    "es_fatal st1 \<longrightarrow> es_fatal st2" "fatal_status s1 \<longrightarrow> es_fatal st1" "fatal_status s2 \<longrightarrow> es_fatal st2"
    using assms(1,2) advances_trans advances_fatal unfolding behaves_def by blast+
  moreover have "\<not> fatal_status Exp_ok" by (simp add: fatal_status_def)
  ultimately show ?thesis unfolding behaves_def using assms(3) by blast
qed

lemma fits_advances: "advances b st st1 \<Longrightarrow> fits ctx st1 \<longleftrightarrow> fits ctx st"
  by (simp add: advances_def fits_def)

lemma fits_behaves: "behaves ctx st s st1 \<Longrightarrow> fits ctx1 st1 \<longleftrightarrow> fits ctx1 st"
  unfolding behaves_def using fits_advances by blast

subsection \<open>The primitives\<close>

lemma to_pattern_fields [simp]:
  "es_current (to_pattern b st) = es_current st" "es_started (to_pattern b st) = es_started st"
  "es_out (to_pattern b st) = es_out st" "es_pattern_fields (to_pattern b st) = es_pattern_fields st"
  "es_escaped (to_pattern b st) = es_escaped st" "es_fatal (to_pattern b st) = es_fatal st"
  "es_reports (to_pattern b st) = es_reports st" "es_asserted (to_pattern b st) = es_asserted st"
  "es_host (to_pattern b st) = es_host st" "es_globbable (to_pattern b st) = es_globbable st"
  "es_pattern (to_pattern b st) = map_option (\<lambda>p. p @ b) (es_pattern st)"
  "es_run (to_pattern b st) = es_run st" "es_run_closed (to_pattern b st) = es_run_closed st"
  "es_saw_empty_at (to_pattern b st) = es_saw_empty_at st" "es_saw_other (to_pattern b st) = es_saw_other st"
  by (simp_all add: to_pattern_def)

lemma append_bytes_behaves: "behaves ctx st Exp_ok (append_bytes b st)"
  by (simp add: behaves_def sound_state_def advances_def lead_def append_bytes_def fatal_status_def)

lemma push_byte_behaves: "behaves ctx st Exp_ok (push_byte c st)"
  by (simp add: behaves_def sound_state_def advances_def lead_def push_byte_def fatal_status_def)

lemma escape_in_pattern_behaves: "es_pattern st \<noteq> None \<Longrightarrow> behaves ctx st Exp_ok (escape_in_pattern st)"
  by (simp add: behaves_def sound_state_def advances_def lead_def escape_in_pattern_def fatal_status_def)

lemma finish_field_behaves: "emits ctx \<Longrightarrow> behaves ctx st Exp_ok (snd (finish_field even_if_empty st))"
  by (auto simp: behaves_def sound_state_def advances_def lead_def finish_field_def fatal_status_def)

lemma behaves_update:
  "behaves ctx st Exp_ok (st\<lparr>es_started := b\<rparr>)" "behaves ctx st Exp_ok (st\<lparr>es_saw_other := b\<rparr>)"
  "behaves ctx st Exp_ok (st\<lparr>es_saw_empty_at := b\<rparr>)" "behaves ctx st Exp_ok (st\<lparr>es_globbable := b\<rparr>)"
  "behaves ctx st Exp_ok (st\<lparr>es_current := c\<rparr>)" "behaves ctx st Exp_ok (st\<lparr>es_host := s\<rparr>)"
  "behaves ctx st Exp_ok (st\<lparr>es_run := r\<rparr>)" "behaves ctx st Exp_ok (st\<lparr>es_run_closed := b\<rparr>)"
  "behaves ctx st Exp_ok (st\<lparr>es_stale := b\<rparr>)"
  by (simp_all add: behaves_def sound_state_def advances_def lead_def fatal_status_def)

lemma behaves_after_update:
  assumes "behaves ctx st status st1"
  shows "behaves ctx st status (st1\<lparr>es_started := b\<rparr>)" "behaves ctx st status (st1\<lparr>es_saw_other := b\<rparr>)"
    "behaves ctx st status (st1\<lparr>es_saw_empty_at := b\<rparr>)" "behaves ctx st status (st1\<lparr>es_host := h\<rparr>)"
    "behaves ctx st status (st1\<lparr>es_run := r\<rparr>)" "behaves ctx st status (st1\<lparr>es_run_closed := b\<rparr>)"
    "behaves ctx st status (st1\<lparr>es_stale := b\<rparr>)"
  by (rule behaves_then [OF assms], rule behaves_update, simp)+

lemma fold_behaves:
  assumes "\<And>a st. behaves ctx st Exp_ok (f a st)"
  shows "behaves ctx st Exp_ok (fold f as st)"
proof (induction as arbitrary: st)
  case (Cons a as)
  show ?case using behaves_trans [OF assms Cons.IH] by simp
qed simp

lemma split_byte_behaves:
  assumes "emits ctx"
  shows "behaves ctx st Exp_ok (split_byte separators c st)"
proof -
  have finish: "behaves ctx st Exp_ok st1" if "finish_field b st = (r, st1)" for b r st1
    using finish_field_behaves [OF assms, of st b] that by simp
  show ?thesis
    by (auto simp: split_byte_def push_byte_behaves behaves_update finish split: prod.split
        intro!: behaves_after_update(5,6) finish_field_behaves assms)
qed

lemma append_split_behaves: "emits ctx \<Longrightarrow> behaves ctx st Exp_ok (append_split x bytes st)"
  unfolding append_split_def by (intro fold_behaves split_byte_behaves)

lemma quoted_byte_behaves:
  assumes "es_pattern st \<noteq> None \<or> role"
  shows "behaves ctx st Exp_ok (quoted_byte role c st)"
  unfolding quoted_byte_def
  by (rule behaves_trans [OF _ push_byte_behaves]) (use assms escape_in_pattern_behaves in \<open>auto simp: behaves_update\<close>)

lemma fold_quoted_behaves:
  assumes "es_pattern st \<noteq> None \<or> role"
  shows "behaves ctx st Exp_ok (fold (quoted_byte role) bytes st)"
  using assms
proof (induction bytes arbitrary: st)
  case (Cons c bytes)
  note first = quoted_byte_behaves [OF Cons.prems, of ctx c]
  then have "es_pattern (quoted_byte role c st) \<noteq> None \<or> role"
    using Cons.prems by (simp add: behaves_def advances_def)
  then show ?case using behaves_trans [OF first] Cons.IH by simp
qed simp

lemma append_quoted_behaves:
  assumes "fits ctx st" "ec_pattern ctx1 \<longrightarrow> ec_pattern ctx"
  shows "behaves ctx st Exp_ok (append_quoted bytes ctx1 st)"
proof (cases "ec_pattern ctx1")
  case True
  then have "es_pattern st = None" using assms by (simp add: fits_def)
  then have "st\<lparr>es_asserted := es_asserted st \<or> es_pattern st \<noteq> None\<rparr> = st" by simp
  then show ?thesis using True fold_quoted_behaves [of st True]
    by (simp add: append_quoted_def behaves_after_update)
next
  case False
  then show ?thesis by (simp add: append_quoted_def append_bytes_behaves fold_quoted_behaves)
qed

lemma append_value_behaves: "fits ctx st \<Longrightarrow> behaves ctx st Exp_ok (append_value bytes ctx st)"
  by (simp add: append_value_def append_bytes_behaves append_quoted_behaves)

lemma substitute_behaves: "fits ctx st \<Longrightarrow> behaves ctx st Exp_ok (substitute x ctx bytes st)"
  by (simp add: substitute_def append_value_behaves append_split_behaves emits_def)

lemma globbable_behaves: "behaves ctx st Exp_ok (globbable_if b st)"
  by (simp add: globbable_if_def behaves_update)

lemma fatal_behaves: "behaves ctx st status (fatal (report m st))" "behaves ctx st status (fatal st)"
  by (simp_all add: behaves_def sound_state_def advances_def lead_def fatal_def report_def)

lemma report_unset_behaves: "report_unset x name st = (fired, st1) \<Longrightarrow> behaves ctx st (if fired then Parameter_unset else Exp_ok) st1"
  by (auto simp: report_unset_def fatal_behaves split: if_splits)

subsection \<open>The segments\<close>

definition rec_behaves :: "'s text_expansion \<Rightarrow> bool" where
  "rec_behaves rec \<longleftrightarrow>
     (\<forall>ctx body st. fits ctx st \<longrightarrow> behaves ctx st (fst (rec ctx body st)) (snd (rec ctx body st)))"

lemma rec_behavesD:
  "rec_behaves rec \<Longrightarrow> fits ctx st \<Longrightarrow> rec ctx body st = (status, st1) \<Longrightarrow> behaves ctx st status st1"
  by (metis fst_conv rec_behaves_def snd_conv)

lemma behaves_wider: "behaves ctx1 st status st1 \<Longrightarrow> emits ctx1 \<longrightarrow> emits ctx \<Longrightarrow> behaves ctx st status st1"
  by (auto simp: behaves_def advances_def)

text \<open>A value is built beside the field under construction: afterwards that field and the fields before it are as they were.\<close>

definition same_field :: "'s expansion \<Rightarrow> 's expansion \<Rightarrow> bool" where
  "same_field st st1 \<longleftrightarrow>
     es_current st1 = es_current st \<and> es_started st1 = es_started st \<and> es_globbable st1 = es_globbable st \<and>
     es_pattern st1 = es_pattern st \<and> es_pattern_fields st1 = es_pattern_fields st \<and>
     es_escaped st1 = es_escaped st \<and> es_run st1 = es_run st \<and> es_run_closed st1 = es_run_closed st \<and>
     es_out st1 = es_out st"

lemma expand_to_value_field: "expand_to_value rec ctx body st = (v, st1) \<Longrightarrow> same_field st st1"
  by (auto simp: expand_to_value_def put_back_def same_field_def)

lemma expand_to_value_behaves:
  assumes "rec_behaves rec" "expand_to_value rec ctx body st = (v, st1)"
  shows "behaves ctx1 st Exp_ok st1"
proof -
  define fresh where "fresh = value_start st"
  define ctx2 where "ctx2 = ctx\<lparr>ec_split := False, ec_fields := False\<rparr>"
  obtain status inner where r: "rec ctx2 body fresh = (status, inner)" by fastforce
  have "fits ctx2 fresh" by (simp add: fits_def fresh_def value_start_def)
  from rec_behavesD [OF assms(1) this r] have b: "behaves ctx2 fresh status inner" .
  have "sound_state st \<longrightarrow> sound_state fresh" by (simp add: sound_state_def fresh_def value_start_def)
  then have "sound_state st \<longrightarrow> \<not> es_asserted inner" using b by (simp add: behaves_def sound_state_def)
  moreover have "prefix (es_reports st) (es_reports inner)" "es_fatal st \<longrightarrow> es_fatal inner"
    using b by (simp_all add: behaves_def advances_def fresh_def value_start_def)
  moreover have "st1 = put_back st inner"
    using assms(2) r by (simp add: expand_to_value_def ctx2_def [symmetric] fresh_def [symmetric])
  ultimately show ?thesis by (simp add: put_back_def behaves_def sound_state_def advances_def lead_def fatal_status_def)
qed

lemma literal_byte_behaves: "fits ctx st \<Longrightarrow> behaves ctx st Exp_ok (literal_byte x ctx c st)"
  by (simp add: literal_byte_def append_quoted_behaves append_split_behaves push_byte_behaves emits_def)

lemma literal_loop_behaves: "fits ctx st \<Longrightarrow> behaves ctx st Exp_ok (literal_loop x ctx body st)"
proof (induction x ctx body st rule: literal_loop.induct)
  case (2 x ctx c cs st)
  have q: "behaves ctx st Exp_ok (append_quoted [hd cs] ctx st)" using 2(4) by (simp add: append_quoted_behaves)
  have l: "behaves ctx st Exp_ok (literal_byte x ctx c st)" using 2(4) by (rule literal_byte_behaves)
  show ?case
    using 2 behaves_trans [OF q] behaves_trans [OF l] fits_behaves [OF q] fits_behaves [OF l] by simp
qed simp

lemma expand_literal_behaves: "fits ctx st \<Longrightarrow> behaves ctx st Exp_ok (expand_literal x ctx body st)"
  unfolding expand_literal_def by (metis behaves_trans fits_behaves globbable_behaves literal_loop_behaves)

lemma single_quoted_behaves: "fits ctx st \<Longrightarrow> behaves ctx st Exp_ok (expand_single_quoted ctx body st)"
  by (auto simp: expand_single_quoted_def intro!: behaves_after_update append_quoted_behaves behaves_update)

lemma fold_fits_behaves:
  assumes "fits ctx st" "\<And>a st. fits ctx st \<Longrightarrow> behaves ctx st Exp_ok (f a st)"
  shows "behaves ctx st Exp_ok (fold f as st)"
  using assms(1)
proof (induction as arbitrary: st)
  case (Cons a as)
  note first = assms(2) [OF Cons.prems, of a]
  show ?case using behaves_trans [OF first Cons.IH] Cons.prems fits_behaves [OF first] by simp
qed simp

lemma ansi_loop_behaves: "fits ctx st \<Longrightarrow> behaves ctx st Exp_ok (ansi_loop ctx inner i st)"
proof (induction ctx inner i st rule: ansi_loop.induct)
  case (1 ctx inner i st)
  let ?st = "fold (\<lambda>b. append_quoted [char_of b] ctx) (ac_bytes (decode_ansi_c_escape inner i)) st"
  have step: "behaves ctx st Exp_ok ?st" using 1(2) by (intro fold_fits_behaves) (simp_all add: append_quoted_behaves)
  then show ?case
    using 1 behaves_trans [OF step] fits_behaves [OF step] by (subst ansi_loop.simps) simp
qed

lemma ansi_quoted_behaves: "fits ctx st \<Longrightarrow> behaves ctx st Exp_ok (expand_ansi_quoted ctx body st)"
  by (auto simp: expand_ansi_quoted_def intro!: behaves_after_update ansi_loop_behaves behaves_update)

lemma double_quoted_behaves:
  assumes "rec_behaves rec" "fits ctx st" "expand_double_quoted rec ctx body st = (status, content, st1)"
  shows "behaves ctx st status st1"
proof -
  define fresh where "fresh = st\<lparr>es_saw_empty_at := False, es_saw_other := False\<rparr>"
  have f: "behaves ctx st Exp_ok fresh"
    unfolding fresh_def by (rule behaves_trans [OF behaves_update(3) behaves_update(2)])
  obtain inner where i: "(if 2 \<le> length body then rec (double_quoted_ctx ctx) (substr body 1 (length body - 2)) fresh
      else (Exp_ok, fresh)) = (status, inner)"
    using assms(3) by (auto simp: expand_double_quoted_def fresh_def [symmetric] split: prod.splits if_splits)
  have "behaves ctx fresh status inner"
  proof (cases "2 \<le> length body")
    case True
    have "fits (double_quoted_ctx ctx) fresh"
      using assms(2) by (simp add: fits_def double_quoted_ctx_def expand_context_init_def fresh_def)
    with True i have "behaves (double_quoted_ctx ctx) fresh status inner" using rec_behavesD [OF assms(1)] by simp
    then show ?thesis
      by (rule behaves_wider) (simp add: emits_def double_quoted_ctx_def expand_context_init_def)
  qed (use i in simp)
  then have "behaves ctx st status inner" by (rule behaves_trans [OF f])
  moreover have "\<exists>a b c. st1 = inner\<lparr>es_saw_empty_at := a, es_saw_other := b\<rparr> \<or>
      st1 = inner\<lparr>es_saw_empty_at := a, es_saw_other := b\<rparr>\<lparr>es_started := c\<rparr>"
    using assms(3) i by (auto simp: expand_double_quoted_def fresh_def [symmetric] split: prod.splits if_splits)
  ultimately show ?thesis by (auto intro!: behaves_after_update)
qed

lemma each_positional_behaves:
  assumes "fits ctx st" "\<And>i arg st. fits ctx st \<Longrightarrow> behaves ctx st Exp_ok (f i arg st)"
  shows "behaves ctx st Exp_ok (each_positional ps f st)"
  unfolding each_positional_def
  by (rule fold_fits_behaves [OF assms(1)]) (auto split: option.split intro: assms(2))

lemma boundary_behaves: "emits ctx \<Longrightarrow> behaves ctx st Exp_ok (boundary i st)"
  by (simp add: boundary_def finish_field_behaves)

lemma positional_behaves:
  assumes "fits ctx st" "expand_positional x ctx name st = (status, content, st1)"
  shows "behaves ctx st status st1"
proof -
  have "emits ctx \<Longrightarrow> behaves ctx s Exp_ok (append_bytes arg (boundary i s))" for i arg s
    by (rule behaves_trans [OF boundary_behaves append_bytes_behaves])
  moreover have "emits ctx \<Longrightarrow> behaves ctx s Exp_ok (append_split x arg (boundary i s))" for i arg s
    by (rule behaves_trans [OF boundary_behaves append_split_behaves])
  moreover have "behaves ctx s Exp_ok (append_bytes arg (if b then append_bytes j s else s))" for b j arg s
    by (rule behaves_trans [OF _ append_bytes_behaves]) (simp add: append_bytes_behaves)
  ultimately show ?thesis using assms
    by (auto simp: expand_positional_def Let_def emits_def behaves_update split: if_splits
        intro!: each_positional_behaves behaves_after_update)
qed

lemma globbed_substitute_behaves:
  assumes "fits ctx st"
  shows "behaves ctx st Exp_ok (substitute x ctx v (globbable_if b st))"
  using assms behaves_trans fits_behaves globbable_behaves substitute_behaves by metis

lemma substitute_value_behaves:
  assumes "fits ctx st" "substitute_value x ctx name found st = (status, st1)"
  shows "behaves ctx st status st1"
  using assms
  by (auto simp: substitute_value_def globbed_substitute_behaves split: option.splits prod.splits
      dest: report_unset_behaves)

lemma expand_length_behaves:
  assumes "expand_length x name found st = (status, st1)"
  shows "behaves ctx st status st1"
proof -
  have unset: "behaves ctx st Exp_ok (append_bytes b st2)" if "report_unset x name st = (False, st2)" for b st2
    by (rule behaves_trans [OF report_unset_behaves [OF that, simplified] append_bytes_behaves])
  show ?thesis using assms unset
    by (auto simp: expand_length_def append_bytes_behaves split: if_splits option.splits prod.splits
        dest: report_unset_behaves)
qed

lemma assign_default_behaves:
  assumes "rec_behaves rec" "fits ctx st" "expand_assign_default x rec ctx p st = (status, st1)"
  shows "behaves ctx st status st1"
proof (cases "is_assignable_name (pp_name p)")
  case False
  then show ?thesis using assms(3) by (auto simp: expand_assign_default_def fatal_behaves)
next
  case True
  obtain d st2 where d: "expand_to_value rec (brace_ctx ctx) (pp_argument p) st = (d, st2)" by fastforce
  have v: "behaves ctx st Exp_ok st2" by (rule expand_to_value_behaves [OF assms(1) d])
  define st3 where "st3 = (case xp_assign x of None \<Rightarrow> st2 | Some assign \<Rightarrow>
      (case assign (es_host st2) (pp_name p) d of (accepted, s) \<Rightarrow>
        if accepted then st2\<lparr>es_host := s\<rparr> else fatal (st2\<lparr>es_host := s\<rparr>)))"
  have "behaves ctx st2 Exp_ok st3"
    unfolding st3_def
    by (auto simp: behaves_update split: option.split prod.split intro: behaves_trans [OF behaves_update(6) fatal_behaves(2)])
  from behaves_trans [OF v this] have w: "behaves ctx st Exp_ok st3" .
  have "status = Exp_ok" "st1 = (if ec_split ctx then append_split x d st3 else append_bytes d st3)"
    using assms(3) True d unfolding expand_assign_default_def st3_def by auto
  then show ?thesis
    using behaves_trans [OF w append_bytes_behaves] behaves_trans [OF w append_split_behaves] by (simp add: emits_def)
qed

lemma error_if_unset_behaves:
  assumes "rec_behaves rec" "expand_error_if_unset rec ctx p st = (status, st1)"
  shows "behaves ctx st status st1"
proof -
  obtain m st2 where m: "(if pp_argument p = [] then
      (if pp_colon p then ''parameter not set or null'' else ''parameter not set'', st)
      else expand_to_value rec (brace_ctx ctx) (pp_argument p) st) = (m, st2)" by fastforce
  then have "behaves ctx st Exp_ok st2"
    using expand_to_value_behaves [OF assms(1)] by (auto split: if_splits)
  moreover have "status = Parameter_unset" "st1 = fatal (report (pp_name p @ '': '' @ m) st2)"
    using assms(2) m by (simp_all add: expand_error_if_unset_def)
  ultimately show ?thesis using behaves_trans fatal_behaves(1) by metis
qed

lemma expand_trim_behaves:
  assumes "rec_behaves rec" "fits ctx st" "expand_trim x rec ctx p found st = (status, st1)"
  shows "behaves ctx st status st1"
proof (cases found)
  case None
  then show ?thesis using assms(3)
    by (auto simp: expand_trim_def split: prod.splits dest: report_unset_behaves)
next
  case (Some v)
  obtain pat st2 where p: "expand_to_value rec pattern_ctx (pp_argument p) st = (pat, st2)" by fastforce
  have w: "behaves ctx st Exp_ok (st2\<lparr>es_stale := b\<rparr>)" for b
    by (rule behaves_trans [OF expand_to_value_behaves [OF assms(1) p] behaves_update(9)])
  then have "behaves ctx st Exp_ok (substitute x ctx v1 (st2\<lparr>es_stale := b\<rparr>))" for b v1
    using assms(2) behaves_trans substitute_behaves fits_behaves by metis
  then show ?thesis using assms(3) Some p by (auto simp: expand_trim_def)
qed

lemma argument_behaves:
  assumes "rec_behaves rec" "fits ctx st" "rec (argument_ctx ctx) body st = (status, st1)"
  shows "behaves ctx st status st1"
proof -
  have "fits (argument_ctx ctx) st" using assms(2) by (simp add: fits_def argument_ctx_def)
  from rec_behavesD [OF assms(1) this assms(3)] show ?thesis
    by (rule behaves_wider) (simp add: emits_def argument_ctx_def)
qed

lemma expand_operation_behaves:
  assumes "rec_behaves rec" "fits ctx st" "expand_operation x rec ctx p found st = (status, st1)"
  shows "behaves ctx st status st1"
  using assms(3) unfolding expand_operation_def
  by (auto split: param_op.splits if_splits intro: substitute_value_behaves [OF assms(2)] expand_length_behaves
      assign_default_behaves [OF assms(1,2)] error_if_unset_behaves [OF assms(1)] expand_trim_behaves [OF assms(1,2)]
      argument_behaves [OF assms(1,2)])

lemma expand_parameter_behaves:
  assumes "rec_behaves rec" "fits ctx st" "expand_parameter x rec ctx body st = (status, content, st1)"
  shows "behaves ctx st status st1"
  using assms(3) positional_behaves [OF assms(2)] expand_operation_behaves [OF assms(1,2)]
  by (auto simp: expand_parameter_def Let_def split: if_splits prod.splits)

lemma expand_tilde_behaves: "behaves ctx st Exp_ok (expand_tilde x body st)"
  by (auto simp: expand_tilde_def append_bytes_behaves split: prod.split
      intro: behaves_trans [OF behaves_update(6) append_bytes_behaves])

lemma command_sub_behaves:
  assumes "fits ctx st" "expand_command_sub x ctx body st = (status, st1)"
  shows "behaves ctx st status st1"
proof -
  have s: "behaves ctx st Exp_ok (st\<lparr>es_host := s\<rparr>)" for s by (rule behaves_update)
  have "behaves ctx st Exp_ok (substitute x ctx v (globbable_if b (st\<lparr>es_host := s\<rparr>)))" for v b s
    by (rule behaves_trans [OF s globbed_substitute_behaves]) (use assms(1) in \<open>simp add: fits_def\<close>)
  then show ?thesis using assms(2) behaves_trans [OF s fatal_behaves(2)]
    by (auto simp: expand_command_sub_def fatal_status_def behaves_def split: option.splits prod.splits
        substitution_result.splits)
qed

lemma expand_arithmetic_behaves:
  assumes "rec_behaves rec" "fits ctx st" "expand_arithmetic x rec ctx body st = (status, st1)"
  shows "behaves ctx st status st1"
proof -
  obtain resolved st2 where r: "expand_to_value rec arithmetic_ctx (arithmetic_body body) st = (resolved, st2)" by fastforce
  have v: "behaves ctx st Exp_ok st2" by (rule expand_to_value_behaves [OF assms(1) r])
  have s: "behaves ctx st Exp_ok (st2\<lparr>es_host := s\<rparr>)" for s by (rule behaves_after_update(4) [OF v])
  have f: "behaves ctx st Expansion_error (fatal (st2\<lparr>es_host := s\<rparr>))" for s
    by (rule behaves_trans [OF s fatal_behaves(2)])
  have m: "behaves ctx st Expansion_error (report_arithmetic why e (st2\<lparr>es_host := s\<rparr>))" for why e s
    unfolding report_arithmetic_def by (rule behaves_trans [OF s fatal_behaves(1)])
  have u: "behaves ctx st (if fired then Parameter_unset else Exp_ok) st3"
    if "report_unset x name (st2\<lparr>es_host := s\<rparr>) = (fired, st3)" for name s fired st3
    by (rule behaves_trans [OF s report_unset_behaves [OF that]])
  have w: "behaves ctx st Exp_ok (substitute x ctx d st3)" if "behaves ctx st Exp_ok st3" for d st3
    using that behaves_trans substitute_behaves fits_behaves assms(2) by metis
  show ?thesis using assms(3) r v s f m u [of _ _ True, simplified] w w [OF u [of _ _ False, simplified]]
    by (auto simp: expand_arithmetic_def fatal_status_def behaves_def split: option.splits prod.splits if_splits)
qed

subsection \<open>Texts and words\<close>

lemma expand_segment_behaves:
  assumes "rec_behaves rec" "fits ctx st" "expand_segment x rec ctx kind body st = (status, content, st1)"
  shows "behaves ctx st status st1"
  using assms(3)
  by (auto simp: expand_segment_def expand_literal_behaves single_quoted_behaves ansi_quoted_behaves expand_tilde_behaves
      append_bytes_behaves assms(2) split: if_splits prod.splits
      intro: double_quoted_behaves [OF assms(1,2)] expand_parameter_behaves [OF assms(1,2)] command_sub_behaves [OF assms(2)]
        expand_arithmetic_behaves [OF assms(1,2)])

lemma report_malformed_behaves: "behaves ctx st status (report_malformed e st)"
  by (simp add: report_malformed_def fatal_behaves)

lemma expand_segments_behaves:
  assumes "rec_behaves rec" "fits ctx st" "expand_segments x rec ctx segs status st = (status1, st1)"
    "fatal_status status \<longrightarrow> es_fatal st"
  shows "behaves ctx st status1 st1"
  using assms(2-)
proof (induction segs arbitrary: status st)
  case Nil
  then show ?case by (simp add: behaves_def)
next
  case (Cons seg segs)
  obtain kind e body where seg: "seg = (kind, e, body)" by (cases seg)
  obtain inner content st2 where h: "expand_segment x rec ctx kind body st = (inner, content, st2)"
    by (cases "expand_segment x rec ctx kind body st") auto
  note first = expand_segment_behaves [OF assms(1) Cons.prems(1) h]
  define st3 where "st3 = (if content then st2\<lparr>es_saw_other := True\<rparr> else st2)"
  have second: "behaves ctx st inner st3" using behaves_after_update(2) [OF first] first by (simp add: st3_def)
  show ?case
  proof (cases "is_unterminated_substitution e")
    case True
    then show ?thesis using Cons.prems(2) by (auto simp: seg report_malformed_behaves)
  next
    case False
    then have rest: "expand_segments x rec ctx segs (if inner = Exp_ok then status else inner) st3 = (status1, st1)"
      using Cons.prems(2) by (simp add: seg h st3_def)
    have "es_fatal st \<longrightarrow> es_fatal st3" using second by (simp add: behaves_def advances_def)
    then have "fatal_status (if inner = Exp_ok then status else inner) \<longrightarrow> es_fatal st3"
      using second Cons.prems(3) by (auto simp: behaves_def)
    from Cons.IH [OF _ rest this] have "behaves ctx st3 status1 st1"
      using Cons.prems(1) fits_behaves [OF second] by simp
    then show ?thesis using behaves_then [OF second] by blast
  qed
qed

lemma expand_text_behaves: "rec_behaves (expand_text x n)"
proof (induction n)
  case 0
  show ?case by (simp add: rec_behaves_def fatal_behaves)
next
  case (Suc n)
  show ?case unfolding rec_behaves_def
  proof (intro allI impI)
    fix ctx body st assume f: "fits ctx (st :: 'a expansion)"
    obtain status st1 where r: "expand_segments x (expand_text x n) ctx (segments_of (ec_mode ctx) body) Exp_ok st = (status, st1)"
      by fastforce
    from expand_segments_behaves [OF Suc.IH f r]
    show "behaves ctx st (fst (expand_text x (Suc n) ctx body st)) (snd (expand_text x (Suc n) ctx body st))"
      using r by (simp add: fatal_status_def)
  qed
qed

text \<open>Between two words the expander holds no pattern form, and no assertion has failed.\<close>

definition idle :: "'s expansion \<Rightarrow> bool" where
  "idle st \<longleftrightarrow> es_pattern st = None \<and> es_pattern_fields st = None \<and> \<not> es_asserted st"

lemma idle_init: "idle (expansion_init s)"
  by (simp add: idle_def expansion_init_def)

lemma finish_field_lead:
  "es_pattern_fields st \<noteq> None \<Longrightarrow> lead (snd (finish_field b st)) = lead st"
  by (auto simp: finish_field_def lead_def)

lemma finish_field_keeps [simp]:
  "es_asserted (snd (finish_field b st)) = es_asserted st" "es_fatal (snd (finish_field b st)) = es_fatal st"
  "es_reports (snd (finish_field b st)) = es_reports st" "es_host (snd (finish_field b st)) = es_host st"
  "es_pattern_fields (snd (finish_field b st)) = None \<longleftrightarrow> es_pattern_fields st = None"
  "es_pattern (snd (finish_field b st)) = None \<longleftrightarrow> es_pattern st = None"
  "es_globbable (snd (finish_field b st)) = es_globbable st"
  by (auto simp: finish_field_def)

lemma finish_field_prefix: "prefix (es_out st) (es_out (snd (finish_field b st)))"
  by (auto simp: finish_field_def)

lemma scanned_word_keeps:
  assumes "idle st" "expand_scanned_word x role word st = (status, st1)"
  shows "idle st1 \<and> prefix (es_out st) (es_out st1) \<and> prefix (es_reports st) (es_reports st1) \<and>
    (es_fatal st \<longrightarrow> es_fatal st1) \<and> (fatal_status status \<longrightarrow> es_fatal st1) \<and>
    (one_value_role role \<longrightarrow> (\<exists>v. es_out st1 = es_out st @ [v]))"
proof -
  define build where "build = (xp_glob_enabled x \<and> \<not> one_value_role role)"
  obtain st2 where t: "expand_text x kMaxExpansionDepth (word_ctx role) word (word_start build st) = (status, st2)"
    using assms(2) by (auto simp: expand_scanned_word_def build_def split: prod.splits)
  define st3 where "st3 = snd (finish_field (one_value_role role) st2)"
  have st1: "st1 = (if build \<and> es_globbable st3 then glob_word x (length (es_out st)) st3 else st3)
      \<lparr>es_current := [], es_pattern := None, es_pattern_fields := None\<rparr>"
    using assms(2) t unfolding expand_scanned_word_def build_def [symmetric] st3_def by auto
  have "fits (word_ctx role) (word_start build st)"
    using assms(1) by (auto simp: fits_def word_ctx_def expand_context_init_def word_start_def build_def idle_def)
  from rec_behavesD [OF expand_text_behaves this t] have b: "behaves (word_ctx role) (word_start build st) status st2" .
  have "sound_state (word_start build st)" using assms(1) by (simp add: sound_state_def word_start_def idle_def)
  then have na: "\<not> es_asserted st3" using b by (simp add: behaves_def sound_state_def st3_def)
  have adv: "prefix (es_out st) (es_out st2)" "prefix (es_reports st) (es_reports st3)" "es_fatal st \<longrightarrow> es_fatal st3"
    "fatal_status status \<longrightarrow> es_fatal st3"
    using b by (simp_all add: behaves_def advances_def word_start_def st3_def)
  have out: "prefix (es_out st) (es_out st3)"
    unfolding st3_def using adv(1) finish_field_prefix by (rule prefix_order.trans)
  have one: "es_out st3 = es_out st @ [es_current st2]" if "one_value_role role"
  proof -
    have "\<not> emits (word_ctx role)" using that by (simp add: emits_def word_ctx_def expand_context_init_def)
    then have "es_out st2 = es_out st" using b by (simp add: behaves_def advances_def word_start_def)
    then show ?thesis using that by (simp add: st3_def finish_field_def)
  qed
  have lock: "length (the (es_pattern_fields st3)) = length (es_out st3) - length (es_out st)"
    "es_pattern_fields st3 \<noteq> None" if build
  proof -
    have "es_pattern_fields st2 \<noteq> None" "lead st2 = - int (length (es_out st))"
      using b that by (simp_all add: behaves_def advances_def word_start_def lead_def)
    then show "es_pattern_fields st3 \<noteq> None" "length (the (es_pattern_fields st3)) = length (es_out st3) - length (es_out st)"
      using finish_field_lead [of st2 "one_value_role role"] by (simp_all add: st3_def lead_def)
  qed
  obtain rest where rest: "es_out st3 = es_out st @ rest" using out by (auto simp: prefix_def)
  show ?thesis
  proof (cases "build \<and> es_globbable st3")
    case True
    then have "\<not> one_value_role role" by (simp add: build_def)
    then show ?thesis using True st1 na adv lock rest by (auto simp: idle_def glob_word_def split: option.split)
  next
    case False
    then show ?thesis using st1 na adv out one by (auto simp: idle_def)
  qed
qed

text \<open>A host with one variable and two positional parameters, for the examples.\<close>

definition demo_ports :: "unit expander" where
  "demo_ports =
     \<lparr>xp_params = \<lparr>ps_lookup = (\<lambda>s n. if n = ''x'' then Some ''a b'' else None), ps_home = (\<lambda>s. ''/''),
        ps_home_of = (\<lambda>s user. (None, s)), ps_ifs = (\<lambda>s. '' ''), ps_status = (\<lambda>s. 0), ps_process_id = (\<lambda>s. 1),
        ps_positional_count = (\<lambda>s. 2), ps_positional_at = (\<lambda>s i. if i = 1 then Some ''p q'' else if i = 2 then Some [] else None),
        ps_script_name = (\<lambda>s. ''lesh''), ps_option_flags = (\<lambda>s. [])\<rparr>,
      xp_runner = None, xp_glob_enabled = True, xp_vars = None, xp_assign = None, xp_unset_is_error = True,
      xp_files = (\<lambda>s. \<lparr>fs_list = (\<lambda>dir. None), fs_lstat = (\<lambda>path. False)\<rparr>)\<rparr>"

text \<open>C23: the expander stays well formed from word to word.  Expanding a word from an idle expander leaves it idle: no
  assertion of the code fails on the way (the pattern forms stay in step with the fields, and a pattern context never
  meets one), earlier fields are kept, and a word in a one-value role yields exactly one field.\<close>

theorem expand_word_keeps_expander:
  assumes "idle st" "expand_word x role literal word st = (status, st1)"
  shows "idle st1 \<and> prefix (es_out st) (es_out st1) \<and>
    (one_value_role role \<longrightarrow> length (es_out st1) = length (es_out st) + 1)"
proof (cases literal)
  case True
  then show ?thesis using assms by (auto simp: expand_word_def idle_def One_nat_def)
next
  case False
  then show ?thesis using assms scanned_word_keeps [of st x role word status st1] by (auto simp: expand_word_def One_nat_def)
qed

theorem expand_word_keeps_expander_witness:
  "idle (snd (expand_word demo_ports Role_pattern False ''${x#a}'' (expansion_init ()))) \<and>
   length (es_out (snd (expand_word demo_ports Role_pattern False ''${x#a}'' (expansion_init ())))) = 1"
  using expand_word_keeps_expander [OF idle_init, of demo_ports Role_pattern False "''${x#a}''" "()"
      "fst (expand_word demo_ports Role_pattern False ''${x#a}'' (expansion_init ()))"
      "snd (expand_word demo_ports Role_pattern False ''${x#a}'' (expansion_init ()))"]
  by (simp add: one_value_role_def expansion_init_def)

text \<open>C24: no error is lost.  Whenever expanding a word answers an unset parameter, a malformed expansion or an
  expansion error, the fatal mark the executor acts on is set; and neither a mark nor a message is ever taken back.\<close>

theorem expansion_errors_are_fatal:
  assumes "idle st" "expand_word x role literal word st = (status, st1)"
  shows "(status \<in> {Parameter_unset, Malformed_expansion, Expansion_error} \<longrightarrow> es_fatal st1) \<and>
    (es_fatal st \<longrightarrow> es_fatal st1) \<and> prefix (es_reports st) (es_reports st1)"
proof (cases literal)
  case True
  then show ?thesis using assms by (auto simp: expand_word_def)
next
  case False
  then show ?thesis using assms scanned_word_keeps [of st x role word status st1]
    by (auto simp: expand_word_def fatal_status_def)
qed

theorem expansion_errors_are_fatal_witness:
  "es_fatal (snd (expand_word demo_ports Role_ordinary False ''a${u?}'' (expansion_init ())))"
proof -
  have "fst (expand_word demo_ports Role_ordinary False ''a${u?}'' (expansion_init ())) = Parameter_unset" by code_simp
  with expansion_errors_are_fatal [OF idle_init, of demo_ports Role_ordinary False "''a${u?}''" "()"
      "fst (expand_word demo_ports Role_ordinary False ''a${u?}'' (expansion_init ()))"
      "snd (expand_word demo_ports Role_ordinary False ''a${u?}'' (expansion_init ()))"]
  show ?thesis by (simp add: prod_eq_iff)
qed

text \<open>C25: expanding a value in the middle of a word, whatever it holds, leaves the word being built exactly as it
  was, and finishes no field of its own, so the list the code throws away is always empty.\<close>

theorem values_leave_the_word_alone:
  assumes "expand_value x context body st = (v, st1)"
  shows "same_field st st1 \<and>
    es_out (snd (expand_text x kMaxExpansionDepth (value_ctx context) body (value_start st))) = []"
proof -
  have "same_field st st1" using assms unfolding expand_value_def by (rule expand_to_value_field)
  moreover obtain status inner where r: "expand_text x kMaxExpansionDepth (value_ctx context) body (value_start st) = (status, inner)"
    by fastforce
  have "fits (value_ctx context) (value_start st)" by (simp add: fits_def value_start_def)
  from rec_behavesD [OF expand_text_behaves this r] have "behaves (value_ctx context) (value_start st) status inner" .
  moreover have "\<not> emits (value_ctx context)"
    by (simp add: emits_def value_ctx_def expand_context_init_def split: value_context.split)
  ultimately show ?thesis using r by (simp add: behaves_def advances_def value_start_def)
qed

theorem values_leave_the_word_alone_witness:
  "same_field (append_bytes ''w'' (expansion_init ())) (snd (expand_value demo_ports In_assignment ''$x$@'' (append_bytes ''w'' (expansion_init ()))))"
  using values_leave_the_word_alone [of demo_ports In_assignment "''$x$@''" "append_bytes ''w'' (expansion_init ())"
      "fst (expand_value demo_ports In_assignment ''$x$@'' (append_bytes ''w'' (expansion_init ())))"
      "snd (expand_value demo_ports In_assignment ''$x$@'' (append_bytes ''w'' (expansion_init ())))"]
  by simp

end
