(* ===== verification/ExpanderWords.thy ===== *)
theory ExpanderWords
  imports ExpanderProps
begin

text \<open>
  What words expand to: field splitting against its declarative specification, double and single
  quotes, and the literal fast path.
\<close>

subsection \<open>The segments of a text, from a position on\<close>

definition segments_from :: "lex_mode \<Rightarrow> string \<Rightarrow> nat \<Rightarrow> (token_kind \<times> token_error \<times> string) list" where
  "segments_from mode s p = map (\<lambda>t. (tk_kind t, tk_error t, token_text s t)) (lex_all mode (lexer_at s p))"

lemma segments_of_from: "segments_of mode s = segments_from mode s 0"
  by (simp add: segments_of_def segments_from_def)

lemma lex_all_incomplete: "lex_all mode (lx\<lparr>lx_incomplete := b\<rparr>) = lex_all mode lx"
proof -
  have "next_token mode (lx\<lparr>lx_incomplete := b\<rparr>) = next_token mode lx"
    by (simp add: next_token_def lexed_token_def)
  then show ?thesis by (subst (1 2) lex_all.simps) simp
qed

lemma segments_from_end: "interior mode \<Longrightarrow> segments_from mode s (length s) = []"
  unfolding segments_from_def
  by (subst lex_all.simps) (simp add: next_token_def lexer_at_def lexed_token_def token_of_def)

lemma segments_from_step:
  assumes "interior mode" "p < length s"
  shows "segments_from mode s p =
    (ld_kind (lex_word_segment s mode p), ld_error (lex_word_segment s mode p), substr s p (ld_end (lex_word_segment s mode p) - p)) #
    segments_from mode s (ld_end (lex_word_segment s mode p))"
proof -
  let ?d = "lex_word_segment s mode p"
  have n: "next_token mode (lexer_at s p) =
      ((token_of p ?d)\<lparr>tk_preceded_by_blank := False\<rparr>, (lexer_at s (ld_end ?d))\<lparr>lx_incomplete := ld_incomplete ?d\<rparr>)"
    using assms by (simp add: next_token_def lexer_at_def lexed_token_def)
  have "lex_all mode (lexer_at s p) =
      (token_of p ?d)\<lparr>tk_preceded_by_blank := False\<rparr> # lex_all mode (lexer_at s (ld_end ?d))"
    using assms(2) segment_kind [of s mode p]
    by (subst lex_all.simps) (simp add: n lex_all_incomplete, simp add: lexer_at_def token_of_def)
  then show ?thesis by (simp add: segments_from_def token_of_def token_text_def)
qed

lemma past_continuations_none: "p < length s \<Longrightarrow> s ! p \<noteq> backslash \<Longrightarrow> past_continuations s p = p"
  by (subst past_continuations.simps) simp

lemma past_continuations_end: "length s \<le> p \<Longrightarrow> past_continuations s p = p"
  by (subst past_continuations.simps) simp

lemma drop_Cons_at:
  assumes "drop p s = c # cs"
  shows "p < length s" "s ! p = c" "drop (p + 1) s = cs"
  using assms by (metis drop_eq_Nil2 linorder_not_le list.distinct(1), metis hd_drop_conv_nth drop_eq_Nil2 linorder_not_le list.distinct(1) list.sel(1), metis drop_drop drop_Suc_Cons drop0 Suc_eq_plus1 plus_1_eq_Suc)

text \<open>Names, and the texts \<open>$a$b...\<close> the theorems below are about.\<close>

abbreviation var_name :: "string \<Rightarrow> bool" where
  "var_name name \<equiv> is_assignable_name name"

definition dollar_names :: "string list \<Rightarrow> string" where
  "dollar_names names = concat (map (\<lambda>n. CHR ''$'' # n) names)"

lemma dollar_names_simps [simp]:
  "dollar_names [] = []" "dollar_names (n # ns) = CHR ''$'' # n @ dollar_names ns"
  by (simp_all add: dollar_names_def)

lemma dollar_names_head: "dollar_names names = [] \<or> hd (dollar_names names) = CHR ''$''"
  by (cases names) simp_all

lemma name_byte_facts:
  assumes "is_valid_var_name_non_first_char c"
  shows "c \<noteq> backslash" "c \<noteq> CHR ''$''" "c \<noteq> single_quote" "c \<noteq> double_quote" "c \<noteq> CHR ''('' " "c \<noteq> CHR ''{''" "c \<noteq> backquote"
    "\<not> is_operator_byte c" "c \<noteq> CHR ''@''" "c \<noteq> CHR ''*''"
  using assms by (auto simp: is_valid_var_name_non_first_char_def is_operator_byte_def)

lemma name_first_facts:
  assumes "is_valid_var_name_first_char c"
  shows "\<not> is_digit_char c" "c \<notin> set ''?#$!@*-''" "c \<notin> set ''?#$0-@*''"
  using assms by (auto simp: is_valid_var_name_first_char_def is_digit_char_def)

lemma name_end_run:
  assumes "drop q s = m @ rest" "list_all is_valid_var_name_non_first_char m"
    "rest = [] \<or> \<not> is_valid_var_name_non_first_char (hd rest) \<and> hd rest \<noteq> backslash" "q \<le> length s"
  shows "name_end s q = q + length m"
  using assms
proof (induction m arbitrary: q)
  case Nil
  show ?case
  proof (cases rest)
    case Nil
    then have "length s \<le> q" using Nil.prems by simp
    then show ?thesis by (subst name_end.simps) (simp add: past_continuations_end)
  next
    case (Cons c cs)
    then show ?thesis using Nil.prems drop_Cons_at [of q s c cs]
      by (subst name_end.simps) (simp add: past_continuations_none)
  qed
next
  case (Cons c m)
  note d = drop_Cons_at [of q s c "m @ rest"]
  have "name_end s (q + 1) = q + 1 + length m" using Cons d by (intro Cons.IH) simp_all
  then show ?case using Cons.prems d name_byte_facts(1) [of c]
    by (subst name_end.simps) (simp add: past_continuations_none)
qed

lemma dollar_segment:
  assumes "drop p s = CHR ''$'' # n @ rest" "var_name n" "mode = Word_interior \<or> mode = Double_quote_interior"
    "rest = [] \<or> hd rest = CHR ''$''"
  shows "lex_word_segment s mode p = whole Seg_parameter (p + 1 + length n)"
proof -
  obtain c m where n: "n = c # m" using assms(2) by (cases n) (auto simp: is_assignable_name_def)
  have c: "is_valid_var_name_first_char c" "list_all is_valid_var_name_non_first_char m"
    using assms(2) by (simp_all add: n is_assignable_name_def)
  note f = name_byte_facts [OF var_name_first_is_non_first [OF c(1)]]
  note d0 = drop_Cons_at [OF assms(1)]
  have d1: "p + 1 < length s" "s ! (p + 1) = c" "drop (p + 1 + 1) s = m @ rest"
    using d0(3) drop_Cons_at [of "p + 1" s c "m @ rest"] by (simp_all add: n)
  have "name_end s (p + 1 + 1) = p + 1 + 1 + length m"
  proof (rule name_end_run [OF d1(3) c(2)])
    show "rest = [] \<or> \<not> is_valid_var_name_non_first_char (hd rest) \<and> hd rest \<noteq> backslash"
      using assms(4) by (auto simp: is_valid_var_name_non_first_char_def)
  qed (use d1(1) in simp)
  moreover have "past_continuations s (p + 1) = p + 1" using d1 f(1) by (intro past_continuations_none) simp_all
  ultimately have "lex_dollar_segment s mode p = whole Seg_parameter (p + 1 + length n)"
    using d1 f c(1) by (simp add: lex_dollar_segment_def char_at_def n)
  moreover have "lex_word_segment s mode p = lex_dollar_segment s mode p"
    using d0 by (simp add: lex_word_segment_def tilde_eligible_def)
  ultimately show ?thesis by simp
qed

lemma dollar_names_segments_from:
  assumes "drop p s = dollar_names names" "list_all var_name names" "mode = Word_interior \<or> mode = Double_quote_interior"
    "p \<le> length s"
  shows "segments_from mode s p = map (\<lambda>n. (Seg_parameter, No_error, CHR ''$'' # n)) names"
  using assms
proof (induction names arbitrary: p)
  case Nil
  then have "p = length s" by simp
  then show ?case using Nil by (auto simp: segments_from_end interior_def)
next
  case (Cons n ns)
  have d: "drop p s = CHR ''$'' # n @ dollar_names ns" using Cons.prems by simp
  have seg: "lex_word_segment s mode p = whole Seg_parameter (p + 1 + length n)"
    using Cons.prems by (intro dollar_segment [OF d _ _ dollar_names_head]) simp_all
  have rest: "drop (p + 1 + length n) s = dollar_names ns"
    using drop_Cons_at(3) [OF d] by (metis append_eq_conv_conj drop_drop add.commute)
  have "substr s p (1 + length n) = CHR ''$'' # n" using d by (simp add: substr_def One_nat_def)
  moreover have "p < length s" "interior mode" using drop_Cons_at(1) [OF d] Cons.prems by (auto simp: interior_def)
  moreover have "p + 1 + length n \<le> length s"
  proof -
    have "length (drop p s) = length (CHR ''$'' # n @ dollar_names ns)" using d by simp
    then show ?thesis using drop_Cons_at(1) [OF d] by simp
  qed
  ultimately show ?case using Cons.IH [OF rest] Cons.prems
    by (subst segments_from_step) (simp_all add: seg)
qed

subsection \<open>A plain parameter\<close>

lemma name_has_no_backslash: "var_name n \<Longrightarrow> backslash \<notin> set n"
  by (cases n) (auto simp: is_assignable_name_def list_all_iff dest: name_byte_facts(1) var_name_first_is_non_first)

lemma parameter_body_name:
  assumes "var_name n"
  shows "parameter_body (without_continuations (CHR ''$'' # n)) = n"
proof -
  obtain c m where n: "n = c # m" using assms by (cases n) (auto simp: is_assignable_name_def)
  have "c \<noteq> CHR ''{''" "c \<noteq> backslash"
    using assms name_byte_facts [OF var_name_first_is_non_first, of c] by (simp_all add: n is_assignable_name_def)
  moreover have "backslash \<notin> set (CHR ''$'' # n)" using name_has_no_backslash [OF assms] by simp
  ultimately show ?thesis
    by (simp add: without_continuations_def parameter_body_def past_continuations_none n One_nat_def)
qed

lemma seek_none: "list_all (\<lambda>c. \<not> stops c) (drop p s) \<Longrightarrow> p \<le> length s \<Longrightarrow> seek s stops p = length s"
  by (simp add: seek_def list_all_iff takeWhile_eq_all_conv [THEN iffD2])

lemma parse_name:
  assumes "var_name n"
  shows "parse_parameter n = parsed_parameter_init\<lparr>pp_name := n\<rparr>"
proof -
  obtain c m where n: "n = c # m" using assms by (cases n) (auto simp: is_assignable_name_def)
  have c: "is_valid_var_name_first_char c" "list_all is_valid_var_name_non_first_char m"
    using assms by (simp_all add: n is_assignable_name_def)
  have "list_all (\<lambda>b. \<not> is_operator_byte b) n"
    using c name_byte_facts(8) var_name_first_is_non_first by (auto simp: n list_all_iff)
  then have "seek n is_operator_byte 0 = length n" by (intro seek_none) simp_all
  then show ?thesis using name_first_facts [OF c(1)] by (simp add: parse_parameter_def n)
qed

lemma lookup_name:
  assumes "var_name n"
  shows "lookup_parameter ps s n = ps_lookup ps s n"
proof -
  obtain c m where n: "n = c # m" using assms by (cases n) (auto simp: is_assignable_name_def)
  have "is_valid_var_name_first_char c" using assms by (simp add: n is_assignable_name_def)
  from name_first_facts [OF this] show ?thesis by (auto simp: lookup_parameter_def n)
qed

lemma expand_name:
  assumes "var_name n"
  shows "expand_segment x rec ctx Seg_parameter (CHR ''$'' # n) st =
    (case substitute_value x ctx n (ps_lookup (xp_params x) (es_host st) n) st of (status, st1) \<Rightarrow> (status, True, st1))"
proof -
  have "n \<noteq> ''@''" "n \<noteq> ''*''"
    using assms by (auto simp: is_assignable_name_def is_valid_var_name_first_char_def)
  then show ?thesis
    by (simp add: expand_segment_def expand_parameter_def parameter_body_name [OF assms] parse_name [OF assms]
        parsed_parameter_init_def lookup_name [OF assms] expand_operation_def)
qed

subsection \<open>Field splitting\<close>

text \<open>
  The fields of a text under a set of separators (POSIX 2.6.5): leading white space is dropped,
  and a field ends at a separator, which is white space with at most one other separator in it.
\<close>

definition after_separator :: "string \<Rightarrow> string \<Rightarrow> string" where
  "after_separator separators s =
     (case dropWhile (\<lambda>c. is_ifs_whitespace c separators) s of
        [] \<Rightarrow> []
      | c # cs \<Rightarrow> if is_ifs c separators then cs else c # cs)"

lemma after_separator_length: "length (after_separator separators s) \<le> length s"
proof -
  have "length (dropWhile (\<lambda>c. is_ifs_whitespace c separators) s) \<le> length s" by (rule length_dropWhile_le)
  then show ?thesis by (auto simp: after_separator_def split: list.split)
qed

function ifs_fields :: "string \<Rightarrow> string \<Rightarrow> string list" where
  "ifs_fields separators s =
     (case dropWhile (\<lambda>c. is_ifs_whitespace c separators) s of
        [] \<Rightarrow> []
      | c # cs \<Rightarrow>
          takeWhile (\<lambda>b. \<not> is_ifs b separators) (c # cs) #
          ifs_fields separators (after_separator separators (dropWhile (\<lambda>b. \<not> is_ifs b separators) (c # cs))))"
  by pat_completeness auto

termination
proof (relation "measure (\<lambda>(separators, s). length s)", goal_cases)
  case (2 separators s c cs)
  have "length (c # cs) \<le> length s" using 2 length_dropWhile_le by metis
  moreover have "length (after_separator separators (dropWhile (\<lambda>b. \<not> is_ifs b separators) (c # cs))) < length (c # cs)"
  proof (cases "is_ifs c separators")
    case False
    have "length (dropWhile (\<lambda>b. \<not> is_ifs b separators) cs) \<le> length cs" by (rule length_dropWhile_le)
    then show ?thesis using False after_separator_length [of separators "dropWhile (\<lambda>b. \<not> is_ifs b separators) cs"] by simp
  next
    case True
    have "\<not> is_ifs_whitespace c separators" using 2 by (metis dropWhile_eq_Cons_conv)
    then show ?thesis using True by (simp add: after_separator_def)
  qed
  ultimately show ?case by simp
qed simp

declare ifs_fields.simps [simp del]

lemma ifs_fields_Nil [simp]: "ifs_fields separators [] = []"
  by (subst ifs_fields.simps) simp

lemma ifs_fields_white: "is_ifs_whitespace c separators \<Longrightarrow> ifs_fields separators (c # s) = ifs_fields separators s"
  by (subst (1 2) ifs_fields.simps) simp

lemma after_separator_white: "is_ifs_whitespace c separators \<Longrightarrow> after_separator separators (c # s) = after_separator separators s"
  by (simp add: after_separator_def)

lemma whitespace_is_ifs: "is_ifs_whitespace c separators \<Longrightarrow> is_ifs c separators"
  by (simp add: is_ifs_whitespace_def)

text \<open>
  What the splitting state has still to yield, for the bytes to come: the fields already finished,
  the one under construction, and the fields of the rest, seen from inside a separator or not.
\<close>

definition splits_to :: "string \<Rightarrow> 's expansion \<Rightarrow> string \<Rightarrow> string list" where
  "splits_to separators st bytes =
     es_out st @
     (if es_started st then
        (es_current st @ takeWhile (\<lambda>b. \<not> is_ifs b separators) bytes) #
        ifs_fields separators (after_separator separators (dropWhile (\<lambda>b. \<not> is_ifs b separators) bytes))
      else if es_run st = Run_white \<and> es_run_closed st then ifs_fields separators (after_separator separators bytes)
      else ifs_fields separators bytes)"

definition splitting :: "'s expansion \<Rightarrow> bool" where
  "splitting st \<longleftrightarrow>
     (\<not> es_started st \<longrightarrow> es_current st = []) \<and> (es_run st \<noteq> Run_none \<longrightarrow> \<not> es_started st) \<and>
     \<not> es_escaped st"

lemma splitting_saw_other:
  "splitting (st\<lparr>es_saw_other := b\<rparr>) = splitting st"
  "splits_to separators (st\<lparr>es_saw_other := b\<rparr>) = splits_to separators st"
  by (simp_all add: splitting_def splits_to_def fun_eq_iff)

lemma after_separator_simps:
  "after_separator separators [] = []"
  "\<not> is_ifs c separators \<Longrightarrow> after_separator separators (c # s) = c # s"
  "is_ifs c separators \<Longrightarrow> \<not> is_ifs_whitespace c separators \<Longrightarrow> after_separator separators (c # s) = s"
  using whitespace_is_ifs by (auto simp: after_separator_def)

lemma ifs_fields_byte:
  assumes "\<not> is_ifs_whitespace c separators"
  shows "ifs_fields separators (c # s) =
    takeWhile (\<lambda>b. \<not> is_ifs b separators) (c # s) #
    ifs_fields separators (after_separator separators (dropWhile (\<lambda>b. \<not> is_ifs b separators) (c # s)))"
  using assms by (subst ifs_fields.simps) simp

lemma ifs_fields_delimiter:
  assumes "is_ifs c separators" "\<not> is_ifs_whitespace c separators"
  shows "ifs_fields separators (c # s) = [] # ifs_fields separators s"
  using assms by (simp add: ifs_fields_byte after_separator_simps)

lemma ifs_fields_ordinary:
  assumes "\<not> is_ifs c separators"
  shows "ifs_fields separators (c # s) =
    (c # takeWhile (\<lambda>b. \<not> is_ifs b separators) s) #
    ifs_fields separators (after_separator separators (dropWhile (\<lambda>b. \<not> is_ifs b separators) s))"
proof -
  have "\<not> is_ifs_whitespace c separators" using assms whitespace_is_ifs by blast
  from ifs_fields_byte [OF this] show ?thesis using assms by simp
qed

lemmas ifs_cases = after_separator_simps after_separator_white ifs_fields_white ifs_fields_delimiter ifs_fields_ordinary

lemma finish_field_simps:
  "\<not> es_started st \<Longrightarrow> finish_field False st = (False, st\<lparr>es_run := Run_none, es_run_closed := False\<rparr>)"
  "es_started st \<or> b \<Longrightarrow> fst (finish_field b st)"
  "es_started st \<or> b \<Longrightarrow> es_out (snd (finish_field b st)) = es_out st @ [es_current st]"
  "es_started st \<or> b \<Longrightarrow> es_current (snd (finish_field b st)) = []"
  "es_started st \<or> b \<Longrightarrow> \<not> es_started (snd (finish_field b st))"
  "es_started st \<or> b \<Longrightarrow> \<not> es_escaped (snd (finish_field b st))"
  by (auto simp: finish_field_def)

lemma push_byte_simps [simp]:
  "es_out (push_byte c st) = es_out st" "es_current (push_byte c st) = es_current st @ [c]"
  "es_started (push_byte c st)" "es_run (push_byte c st) = Run_none" "es_escaped (push_byte c st) = es_escaped st"
  "es_host (push_byte c st) = es_host st" "es_globbable (push_byte c st) = es_globbable st"
  by (simp_all add: push_byte_def)

lemma split_byte_step:
  assumes "splitting st"
  shows "splitting (split_byte separators c st) \<and>
    splits_to separators (split_byte separators c st) bytes = splits_to separators st (c # bytes)"
proof -
  consider (ordinary) "\<not> is_ifs c separators"
    | (white) "is_ifs c separators" "is_ifs_whitespace c separators"
    | (delimiter) "is_ifs c separators" "\<not> is_ifs_whitespace c separators"
    by blast
  then show ?thesis
  proof cases
    case ordinary
    then show ?thesis using assms by (simp add: split_byte_def splitting_def splits_to_def ifs_cases)
  next
    case white
    show ?thesis
    proof (cases "es_run st = Run_none")
      case True
      then show ?thesis using white assms
        by (cases "es_started st")
          (simp_all add: split_byte_def splitting_def splits_to_def ifs_cases finish_field_simps split: prod.split,
           simp_all add: finish_field_def)
    next
      case False
      then show ?thesis using white assms by (simp add: split_byte_def splitting_def splits_to_def ifs_cases)
    qed
  next
    case delimiter
    show ?thesis
    proof (cases "es_run st = Run_white \<and> es_run_closed st")
      case True
      then show ?thesis using delimiter assms by (simp add: split_byte_def splitting_def splits_to_def ifs_cases)
    next
      case False
      then show ?thesis using delimiter assms
        by (cases "es_started st"; cases "es_run st")
          (simp_all add: split_byte_def splitting_def splits_to_def ifs_cases finish_field_def)
    qed
  qed
qed

lemma split_byte_host [simp]: "es_host (split_byte separators c st) = es_host st"
  by (simp add: split_byte_def split: prod.split) (metis finish_field_keeps(4) snd_conv)

lemma fold_split_host [simp]: "es_host (fold (split_byte separators) bytes st) = es_host st"
  by (induction bytes arbitrary: st) simp_all

lemma fold_split_step:
  assumes "splitting st"
  shows "splitting (fold (split_byte separators) v st) \<and>
    splits_to separators (fold (split_byte separators) v st) bytes = splits_to separators st (v @ bytes)"
  using assms
proof (induction v arbitrary: st)
  case (Cons c v)
  then show ?case using split_byte_step [OF Cons.prems, of separators c] by simp
qed simp

lemma splits_to_end:
  assumes "splitting st"
  shows "es_out (snd (finish_field False st)) = splits_to separators st []"
  using assms by (cases "es_started st") (simp_all add: finish_field_def splits_to_def ifs_cases splitting_def)

lemma split_byte_globbable [simp]: "es_globbable (split_byte separators c st) = es_globbable st"
  by (simp add: split_byte_def split: prod.split) (metis finish_field_keeps(7) snd_conv)

lemma fold_split_globbable [simp]: "es_globbable (fold (split_byte separators) bytes st) = es_globbable st"
  by (induction bytes arbitrary: st) simp_all

text \<open>The words the theorems start from, and the values their names have.\<close>

definition values_of :: "'s expander \<Rightarrow> 's \<Rightarrow> string list \<Rightarrow> string list \<Rightarrow> bool" where
  "values_of x s = list_all2 (\<lambda>n v. ps_lookup (xp_params x) s n = Some v)"

lemma split_values:
  assumes "splitting st" "list_all var_name names" "values_of x (es_host st) names vs"
    "\<not> es_globbable st" "list_all (\<lambda>v. \<not> has_pattern_characters v) vs \<or> \<not> xp_glob_enabled x"
  shows "\<exists>st1. expand_segments x rec expand_context_init (map (\<lambda>n. (Seg_parameter, No_error, CHR ''$'' # n)) names) status st =
      (status, st1) \<and>
    splitting st1 \<and> es_host st1 = es_host st \<and> (es_globbable st1 \<longrightarrow> \<not> xp_glob_enabled x) \<and>
    (\<forall>bytes. splits_to (ps_ifs (xp_params x) (es_host st)) st1 bytes =
      splits_to (ps_ifs (xp_params x) (es_host st)) st (concat vs @ bytes))"
proof -
  let ?sep = "ps_ifs (xp_params x) (es_host st)"
  have "\<exists>st1. expand_segments x rec expand_context_init (map (\<lambda>n. (Seg_parameter, No_error, CHR ''$'' # n)) names) status s =
      (status, st1) \<and> splitting st1 \<and> es_host st1 = es_host s \<and> (es_globbable st1 \<longrightarrow> \<not> xp_glob_enabled x) \<and>
      (\<forall>bytes. splits_to ?sep st1 bytes = splits_to ?sep s (concat vs @ bytes))"
    if "splitting s" "es_host s = es_host st" "es_globbable s \<longrightarrow> \<not> xp_glob_enabled x" for s
    using assms(2,3,5) that
  proof (induction names arbitrary: vs s)
    case Nil
    then show ?case by (auto simp: values_of_def)
  next
    case (Cons n ns)
    obtain v vs1 where vs: "vs = v # vs1" "ps_lookup (xp_params x) (es_host st) n = Some v"
      "values_of x (es_host st) ns vs1"
      using Cons.prems(2) by (auto simp: values_of_def list_all2_Cons1)
    define s1 where "s1 = globbable_if (has_pattern_characters v) s"
    define s2 where "s2 = (append_split x v s1)\<lparr>es_saw_other := True\<rparr>"
    have seg: "expand_segment x rec expand_context_init Seg_parameter (CHR ''$'' # n) s = (Exp_ok, True, append_split x v s1)"
      using Cons.prems(1,5) vs(2)
      by (simp add: expand_name substitute_value_def substitute_def expand_context_init_def s1_def)
    have host: "es_host s1 = es_host st" "es_host s2 = es_host st"
      using Cons.prems(5) by (simp_all add: s1_def s2_def globbable_if_def append_split_def)
    have s1: "splitting s1" "splits_to ?sep s1 = splits_to ?sep s"
      using Cons.prems(4) by (auto simp: s1_def globbable_if_def splitting_def splits_to_def fun_eq_iff)
    have s2: "splitting s2" "splits_to ?sep s2 bytes = splits_to ?sep s (v @ bytes)" for bytes
      using fold_split_step [OF s1(1), of ?sep v] s1(2) host(1)
      by (simp_all add: s2_def append_split_def splitting_saw_other)
    have g: "es_globbable s2 \<longrightarrow> \<not> xp_glob_enabled x"
      using Cons.prems(3,6) by (auto simp: vs(1) s2_def s1_def globbable_if_def append_split_def)
    have rest: "expand_segments x rec expand_context_init (map (\<lambda>n. (Seg_parameter, No_error, CHR ''$'' # n)) (n # ns)) status s =
        expand_segments x rec expand_context_init (map (\<lambda>n. (Seg_parameter, No_error, CHR ''$'' # n)) ns) status s2"
      by (simp add: seg s2_def is_unterminated_substitution_def)
    have "list_all (\<lambda>v. \<not> has_pattern_characters v) vs1 \<or> \<not> xp_glob_enabled x" "list_all var_name ns"
      using Cons.prems(1,3) by (auto simp: vs(1))
    from Cons.IH [OF this(2) vs(3) this(1) s2(1) host(2) g] show ?case
      unfolding rest using s2(2) Cons.prems(5) host(2) by (auto simp: vs(1))
  qed
  from this [OF assms(1) refl] assms(4) show ?thesis by blast
qed

text \<open>C26: field splitting is what POSIX says it is.  A word that is a sequence of unquoted parameters, with nothing in
  their values for pathname expansion, expands to the fields of their values put together, under the separators in
  force: a separator split between two expansions counts once, white space at the ends counts for nothing, and a
  word whose fields are none yields none.\<close>

theorem unquoted_parameters_split:
  assumes "list_all var_name names" "values_of x (es_host st) names vs"
    "list_all (\<lambda>v. \<not> has_pattern_characters v) vs \<or> \<not> xp_glob_enabled x"
    "expand_word x Role_ordinary False (dollar_names names) st = (status, st1)"
  shows "status = Exp_ok \<and> es_host st1 = es_host st \<and>
    es_out st1 = es_out st @ ifs_fields (ps_ifs (xp_params x) (es_host st)) (concat vs)"
proof -
  define b where "b = xp_glob_enabled x"
  define s where "s = word_start b st"
  have s: "splitting s" "es_host s = es_host st" "\<not> es_globbable s"
    by (simp_all add: s_def word_start_def splitting_def)
  have segs: "segments_of Word_interior (dollar_names names) = map (\<lambda>n. (Seg_parameter, No_error, CHR ''$'' # n)) names"
    unfolding segments_of_from by (rule dollar_names_segments_from) (simp_all add: assms(1))
  have vs: "values_of x (es_host s) names vs" using assms(2) s(2) by simp
  let ?sep = "ps_ifs (xp_params x) (es_host st)"
  from split_values [OF s(1) assms(1) vs s(3) assms(3), of "expand_text x 255" Exp_ok]
  obtain s2 where s2: "expand_text x kMaxExpansionDepth expand_context_init (dollar_names names) s = (Exp_ok, s2)"
    "splitting s2" "es_host s2 = es_host st" "es_globbable s2 \<longrightarrow> \<not> b"
    "splits_to ?sep s2 [] = splits_to ?sep s (concat vs)"
    using s(2) segs by (auto simp: kMaxExpansionDepth_def expand_context_init_def b_def numeral_eq_Suc One_nat_def)
  have "splits_to ?sep s (concat vs) = es_out st @ ifs_fields ?sep (concat vs)"
    by (simp add: splits_to_def s_def word_start_def)
  then have "es_out (snd (finish_field False s2)) = es_out st @ ifs_fields ?sep (concat vs)"
    using splits_to_end [OF s2(2)] s2(5) by simp
  moreover have "expand_word x Role_ordinary False (dollar_names names) st =
      (Exp_ok, (snd (finish_field False s2))\<lparr>es_current := [], es_pattern := None, es_pattern_fields := None\<rparr>)"
    using s2(1) s2(4) [THEN imp_conv_disj [THEN iffD1]]
    by (auto simp: expand_word_def expand_scanned_word_def one_value_role_def word_ctx_def b_def [symmetric] s_def [symmetric])
  ultimately show ?thesis using assms(4) s2(3) by auto
qed

theorem unquoted_parameters_split_witness:
  "es_out (snd (expand_word demo_ports Role_ordinary False ''$x$x'' (expansion_init ()))) = [''a'', ''ba'', ''b'']"
proof -
  have "list_all var_name [''x'', ''x'']" "values_of demo_ports (es_host (expansion_init ())) [''x'', ''x''] [''a b'', ''a b'']"
    "list_all (\<lambda>v. \<not> has_pattern_characters v) [''a b'', ''a b'']"
    "ifs_fields (ps_ifs (xp_params demo_ports) (es_host (expansion_init ()))) (concat [''a b'', ''a b'']) = [''a'', ''ba'', ''b'']"
    by code_simp+
  from unquoted_parameters_split [OF this(1,2) disjI1 [OF this(3)], of "fst (expand_word demo_ports Role_ordinary False ''$x$x'' (expansion_init ()))"
      "snd (expand_word demo_ports Role_ordinary False ''$x$x'' (expansion_init ()))"] this(4)
  show ?thesis by (simp add: expansion_init_def)
qed

subsection \<open>Quoted text\<close>

text \<open>Bytes that only extend the field under construction.\<close>

definition adds :: "string \<Rightarrow> 's expansion \<Rightarrow> 's expansion \<Rightarrow> bool" where
  "adds v st st1 \<longleftrightarrow>
     es_current st1 = es_current st @ v \<and> es_out st1 = es_out st \<and> es_globbable st1 = es_globbable st \<and>
     es_host st1 = es_host st \<and> es_saw_empty_at st1 = es_saw_empty_at st \<and> (es_started st \<or> v \<noteq> [] \<longrightarrow> es_started st1)"

lemma adds_refl [simp]: "adds [] st st"
  by (simp add: adds_def)

lemma adds_trans [trans]: "adds v st st1 \<Longrightarrow> adds w st1 st2 \<Longrightarrow> adds (v @ w) st st2"
  by (auto simp: adds_def)

lemma adds_saw_other [simp]: "adds v st (st1\<lparr>es_saw_other := b\<rparr>) = adds v st st1"
  by (simp add: adds_def)

lemma adds_started: "adds v st st1 \<Longrightarrow> adds v st (st1\<lparr>es_started := True\<rparr>)"
  by (simp add: adds_def)

lemma push_byte_adds: "adds [c] st (push_byte c st)"
  by (simp add: adds_def push_byte_def)

lemma quoted_byte_adds: "adds [c] st (quoted_byte False c st)"
  by (simp add: adds_def quoted_byte_def push_byte_def escape_in_pattern_def)

lemma fold_adds:
  assumes "\<And>c st. adds [c] st (f c st)"
  shows "adds v st (fold f v st)"
proof (induction v arbitrary: st)
  case (Cons c v)
  show ?case using adds_trans [OF assms Cons.IH] by simp
qed simp

lemma append_quoted_adds: "\<not> ec_pattern ctx \<Longrightarrow> adds v st (append_quoted v ctx st)"
  using fold_adds [OF quoted_byte_adds, of v st] by (auto simp: append_quoted_def) (simp_all add: adds_def append_bytes_def)

lemma double_quoted_end_run:
  assumes "p \<le> e" "e < length s" "s ! e = double_quote"
    "\<And>i. p \<le> i \<Longrightarrow> i < e \<Longrightarrow> s ! i \<noteq> double_quote \<and> s ! i \<noteq> backslash \<and> \<not> opens_expansion s i"
  shows "double_quoted_end s p = e"
  using assms
proof (induction "e - p" arbitrary: p)
  case 0
  then show ?case by (subst double_quoted_end.simps) simp
next
  case (Suc k)
  then have "p < e" by simp
  then have "double_quoted_end s p = double_quoted_end s (p + 1)"
    using Suc.prems by (subst double_quoted_end.simps) simp
  also have "\<dots> = e" using Suc.hyps(1) [of "p + 1"] Suc.hyps(2) Suc.prems \<open>p < e\<close> by simp
  finally show ?case .
qed

lemma name_bytes: "var_name n \<Longrightarrow> c \<in> set n \<Longrightarrow> is_valid_var_name_non_first_char c"
  by (cases n) (auto simp: is_assignable_name_def list_all_iff)

lemma dollar_names_bytes:
  assumes "list_all var_name names" "c \<in> set (dollar_names names)"
  shows "c = CHR ''$'' \<or> is_valid_var_name_non_first_char c"
  using assms name_bytes by (induction names) auto

lemma dollar_names_plain:
  assumes "list_all var_name names" "c \<in> set (dollar_names names)"
  shows "c \<notin> {double_quote, backslash, backquote, CHR ''('', CHR ''{''}"
  using dollar_names_bytes [OF assms]
proof
  assume "is_valid_var_name_non_first_char c"
  from name_byte_facts [OF this] show ?thesis by blast
qed simp

lemma double_quoted_segments:
  assumes "\<And>c. c \<in> set body \<Longrightarrow> c \<notin> {double_quote, backslash, backquote, CHR ''('', CHR ''{''}"
  shows "segments_of Word_interior (double_quote # body @ [double_quote]) =
    [(Seg_double_quoted, No_error, double_quote # body @ [double_quote])]"
proof -
  let ?s = "double_quote # body @ [double_quote]"
  have at: "?s ! i \<in> set body" if "1 \<le> i" "i < 1 + length body" for i
    using that by (cases i) (auto simp: nth_append One_nat_def)
  have plain: "char_at ?s i \<notin> {backquote, CHR ''('', CHR ''{''}" for i
  proof (cases "1 \<le> i \<and> i < 1 + length body")
    case True
    then show ?thesis using assms [OF at [of i]] by (auto simp: char_at_def)
  next
    case False
    then have "i = 0 \<or> i = 1 + length body \<or> length ?s \<le> i" by (auto simp: One_nat_def)
    then show ?thesis by (auto simp: char_at_def nth_append One_nat_def)
  qed
  have "double_quoted_end ?s 1 = 1 + length body"
  proof (rule double_quoted_end_run)
    show "?s ! (1 + length body) = double_quote" by (simp add: One_nat_def nth_append)
    fix i assume i: "1 \<le> i" "i < 1 + length body"
    then show "?s ! i \<noteq> double_quote \<and> ?s ! i \<noteq> backslash \<and> \<not> opens_expansion ?s i"
      using assms [OF at [OF i]] plain [of i] plain [of "i + 1"] by (auto simp: opens_expansion_def)
  qed simp_all
  then have seg: "lex_word_segment ?s Word_interior 0 = whole Seg_double_quoted (length ?s)"
    by (simp add: lex_word_segment_def double_quotes_are_bytes_def segment_or_def quote_closed_def past_closer_def One_nat_def)
  show ?thesis unfolding segments_of_from
    using segments_from_end [of Word_interior ?s]
    by (subst segments_from_step) (simp_all add: interior_def seg substr_def)
qed

lemma quoted_values:
  assumes "list_all var_name names" "values_of x (es_host st) names vs" "\<not> ec_split ctx" "ec_double_quoted ctx" "\<not> ec_pattern ctx"
  shows "\<exists>st1. expand_segments x rec ctx (map (\<lambda>n. (Seg_parameter, No_error, CHR ''$'' # n)) names) status st = (status, st1) \<and>
    adds (concat vs) st st1"
  using assms(1,2)
proof (induction names arbitrary: vs st)
  case Nil
  then show ?case by (auto simp: values_of_def)
next
  case (Cons n ns)
  obtain v vs1 where vs: "vs = v # vs1" "ps_lookup (xp_params x) (es_host st) n = Some v"
    "values_of x (es_host st) ns vs1"
    using Cons.prems(2) by (auto simp: values_of_def list_all2_Cons1)
  define s2 where "s2 = (append_quoted v ctx st)\<lparr>es_saw_other := True\<rparr>"
  have seg: "expand_segment x rec ctx Seg_parameter (CHR ''$'' # n) st = (Exp_ok, True, append_quoted v ctx st)"
    using Cons.prems(1) vs(2) assms(3,4)
    by (simp add: expand_name substitute_value_def substitute_def append_value_def globbable_if_def)
  have first: "adds v st s2" using append_quoted_adds [OF assms(5)] by (simp add: s2_def)
  then have "es_host s2 = es_host st" by (simp add: adds_def)
  with Cons.IH [of s2 vs1] Cons.prems(1) vs(3) obtain st1 where
    "expand_segments x rec ctx (map (\<lambda>n. (Seg_parameter, No_error, CHR ''$'' # n)) ns) status s2 = (status, st1)"
    "adds (concat vs1) s2 st1"
    by auto
  then show ?case using adds_trans [OF first] by (auto simp: seg s2_def vs(1) is_unterminated_substitution_def)
qed

text \<open>What a word becomes when all its text only extended one field.\<close>

lemma one_field_word:
  assumes "expand_text x kMaxExpansionDepth (word_ctx role) word (word_start b st) = (status, s2)"
    "b = (xp_glob_enabled x \<and> \<not> one_value_role role)" "adds v (word_start b st) s2" "es_started s2"
    "expand_word x role False word st = (status1, st1)"
  shows "status1 = status \<and> es_host st1 = es_host st \<and> es_out st1 = es_out st @ [v]"
proof -
  have "es_current s2 = v" "es_out s2 = es_out st" "\<not> es_globbable s2" "es_host s2 = es_host st"
    using assms(3) by (simp_all add: adds_def word_start_def)
  moreover from this have "es_out (snd (finish_field (one_value_role role) s2)) = es_out st @ [v]"
    using assms(4) by (simp add: finish_field_simps)
  ultimately show ?thesis using assms(1,2,5) by (auto simp: expand_word_def expand_scanned_word_def)
qed

text \<open>C27: double quotes protect a value.  A double-quoted sequence of parameters expands to exactly one field, the
  values put together byte for byte, whatever they hold, whatever the separators are, and whether or not pathname
  expansion is on.\<close>

theorem double_quotes_preserve_values:
  assumes "list_all var_name names" "values_of x (es_host st) names vs"
    "expand_word x Role_ordinary False (double_quote # dollar_names names @ [double_quote]) st = (status, st1)"
  shows "status = Exp_ok \<and> es_host st1 = es_host st \<and> es_out st1 = es_out st @ [concat vs]"
proof -
  let ?dn = "dollar_names names" and ?s = "word_start (xp_glob_enabled x) st"
  define fresh where "fresh = ?s\<lparr>es_saw_empty_at := False, es_saw_other := False\<rparr>"
  have outer: "segments_of Word_interior (double_quote # ?dn @ [double_quote]) =
      [(Seg_double_quoted, No_error, double_quote # ?dn @ [double_quote])]"
    by (rule double_quoted_segments) (rule dollar_names_plain [OF assms(1)])
  have inner: "segments_of Double_quote_interior ?dn = map (\<lambda>n. (Seg_parameter, No_error, CHR ''$'' # n)) names"
    unfolding segments_of_from by (rule dollar_names_segments_from) (simp_all add: assms(1))
  have "values_of x (es_host fresh) names vs" using assms(2) by (simp add: fresh_def word_start_def)
  from quoted_values [OF assms(1) this, of "double_quoted_ctx expand_context_init" "expand_text x 254" Exp_ok]
  obtain s2 where s2: "expand_text x 255 (double_quoted_ctx expand_context_init) ?dn fresh = (Exp_ok, s2)" "adds (concat vs) fresh s2"
    using inner by (auto simp: double_quoted_ctx_def expand_context_init_def numeral_eq_Suc One_nat_def)
  have "\<not> es_saw_empty_at s2" using s2(2) by (simp add: adds_def fresh_def)
  then have seg: "expand_double_quoted (expand_text x 255) expand_context_init (double_quote # ?dn @ [double_quote]) ?s =
      (Exp_ok, True, (s2\<lparr>es_saw_empty_at := es_saw_empty_at ?s, es_saw_other := es_saw_other ?s\<rparr>)\<lparr>es_started := True\<rparr>)"
    using s2(1) by (simp add: expand_double_quoted_def fresh_def [symmetric] substr_def One_nat_def)
  define s3 where "s3 = (s2\<lparr>es_saw_empty_at := es_saw_empty_at ?s, es_saw_other := es_saw_other ?s\<rparr>)\<lparr>es_started := True\<rparr>\<lparr>es_saw_other := True\<rparr>"
  have "expand_segments x (expand_text x 255) expand_context_init [(Seg_double_quoted, No_error, double_quote # ?dn @ [double_quote])]
      Exp_ok ?s = (Exp_ok, s3)"
    by (simp add: expand_segment_def seg s3_def is_unterminated_substitution_def)
  then have "expand_text x kMaxExpansionDepth (word_ctx Role_ordinary) (double_quote # ?dn @ [double_quote]) ?s = (Exp_ok, s3)"
    using outer by (simp add: kMaxExpansionDepth_def word_ctx_def one_value_role_def expand_context_init_def numeral_eq_Suc One_nat_def)
  moreover have "adds (concat vs) ?s s3" "es_started s3"
    using s2(2) by (simp_all add: s3_def adds_def fresh_def)
  ultimately show ?thesis using one_field_word [OF _ _ _ _ assms(3)] by (simp add: one_value_role_def)
qed

theorem double_quotes_preserve_values_witness:
  "es_out (snd (expand_word demo_ports Role_ordinary False (double_quote # ''$x'' @ [double_quote]) (expansion_init ()))) = [''a b'']"
proof -
  have "list_all var_name [''x'']" "values_of demo_ports (es_host (expansion_init ())) [''x''] [''a b'']" by code_simp+
  from double_quotes_preserve_values [OF this, of "fst (expand_word demo_ports Role_ordinary False (double_quote # ''$x'' @ [double_quote]) (expansion_init ()))"
      "snd (expand_word demo_ports Role_ordinary False (double_quote # ''$x'' @ [double_quote]) (expansion_init ()))"]
  show ?thesis by (simp add: expansion_init_def)
qed

end
