(* ===== verification/ExpanderText.thy ===== *)
theory ExpanderText
  imports ExpanderWords
begin

text \<open>
  More of what the expander promises: the literal fast path, the parser of \<open>${...}\<close>, the scan for
  declaration utilities, unset parameters, and defaults that are assigned.
\<close>

subsection \<open>The literal fast path\<close>

lemma plain_bytes:
  assumes "list_all (\<lambda>c. \<not> needs_expansion c) w"
  shows "backslash \<notin> set w" "\<not> has_pattern_characters w"
proof -
  show "backslash \<notin> set w" using assms by (auto simp: list_all_iff needs_expansion_def)
  show "\<not> has_pattern_characters w" using assms by (induction w) (auto simp: needs_expansion_def)
qed

lemma plain_literal_adds:
  assumes "backslash \<notin> set w" "\<not> ec_double_quoted ctx" "\<not> ec_substituted ctx"
  shows "adds w st (literal_loop x ctx w st)"
  using assms(1)
proof (induction w arbitrary: st)
  case (Cons c w)
  have "adds ([c] @ w) st (literal_loop x ctx w (push_byte c st))"
    by (rule adds_trans [OF push_byte_adds]) (use Cons in simp)
  then show ?case using Cons.prems assms(2,3) by (auto simp: literal_byte_def)
qed simp

lemma plain_word_expands:
  assumes "w \<noteq> []" "list_all (\<lambda>c. \<not> needs_expansion c) w" "expand_word x role False w st = (status, st1)"
  shows "status = Exp_ok \<and> es_host st1 = es_host st \<and> es_out st1 = es_out st @ [w]"
proof -
  define b where "b = (xp_glob_enabled x \<and> \<not> one_value_role role)"
  have "segments_of Word_interior w = [(Seg_literal, No_error, w)]"
    by (simp add: segments_of_def plain_word_segments [OF assms(1,2)] token_of_def token_text_def whole_def substr_def)
  moreover have "ec_mode (word_ctx role) = Word_interior" by (simp add: word_ctx_def expand_context_init_def)
  ultimately have "expand_text x kMaxExpansionDepth (word_ctx role) w (word_start b st) =
      (Exp_ok, (literal_loop x (word_ctx role) w (word_start b st))\<lparr>es_saw_other := True\<rparr>)"
    using plain_bytes(2) [OF assms(2)]
    by (simp add: kMaxExpansionDepth_def numeral_eq_Suc One_nat_def is_unterminated_substitution_def expand_segment_def
        expand_literal_def globbable_if_def)
  moreover have a: "adds w (word_start b st) ((literal_loop x (word_ctx role) w (word_start b st))\<lparr>es_saw_other := True\<rparr>)"
    unfolding adds_saw_other
    by (rule plain_literal_adds [OF plain_bytes(1) [OF assms(2)]]) (simp_all add: word_ctx_def expand_context_init_def)
  moreover from a have "es_started ((literal_loop x (word_ctx role) w (word_start b st))\<lparr>es_saw_other := True\<rparr>)"
    using assms(1) by (simp add: adds_def)
  ultimately show ?thesis using one_field_word [OF _ b_def _ _ assms(3)] by blast
qed

text \<open>The fast path for literal words changes nothing.  A word the lexer marks literal is passed through untouched;
  expanding it the long way, in whatever role, gives the same single field, status and shell state.\<close>

theorem literal_fast_path_agrees:
  assumes "lx_position lx \<le> length (lx_source lx)" "next_token Command lx = (t, lx1)" "tk_kind t = T_word" "tk_literal t"
    "expand_word x role (tk_literal t) (token_text (lx_source lx) t) st = (s1, fast)"
    "expand_word x role False (token_text (lx_source lx) t) st = (s2, slow)"
  shows "s1 = s2 \<and> es_out fast = es_out slow \<and> es_host fast = es_host slow"
proof -
  let ?w = "token_text (lx_source lx) t"
  have w: "list_all (\<lambda>c. \<not> needs_expansion c) ?w"
    using literal_word_plain [OF assms(1-4)] by (simp add: list_all_iff)
  have "?w \<noteq> []"
    using next_token_shape [OF assms(1,2)] assms(3) by (auto simp: token_text_def substr_def split: if_splits)
  from plain_word_expands [OF this w assms(6)] show ?thesis using assms(4,5) by (auto simp: expand_word_def)
qed

theorem literal_fast_path_agrees_witness:
  "es_out (snd (expand_word demo_ports Role_ordinary True ''ab'' (expansion_init ()))) =
   es_out (snd (expand_word demo_ports Role_ordinary False ''ab'' (expansion_init ())))"
proof -
  let ?r = "next_token Command (lexer_at ''ab c'' 0)"
  have r: "tk_kind (fst ?r) = T_word" "tk_literal (fst ?r)" "token_text ''ab c'' (fst ?r) = ''ab''" by code_simp+
  have "lx_position (lexer_at ''ab c'' 0) \<le> length (lx_source (lexer_at ''ab c'' 0))" by (simp add: lexer_at_def)
  from literal_fast_path_agrees [OF this, of "fst ?r" "snd ?r" demo_ports Role_ordinary "expansion_init ()"] r show ?thesis
    by (simp add: lexer_at_def prod_eq_iff)
qed

subsection \<open>Reading \<open>${...}\<close>\<close>

fun op_text :: "param_op \<Rightarrow> string" where
  "op_text Use_default = ''-''"
| "op_text Assign_default = ''=''"
| "op_text Error_if_unset = ''?''"
| "op_text Use_alternate = ''+''"
| "op_text Trim_prefix_short = ''#''"
| "op_text Trim_prefix_long = ''##''"
| "op_text Trim_suffix_short = ''%''"
| "op_text Trim_suffix_long = ''%%''"
| "op_text _ = []"

lemma parse_operator_reads:
  assumes "op \<noteq> Op_none" "op \<noteq> Op_length"
    "op = Trim_prefix_short \<or> op = Trim_suffix_short \<longrightarrow> arg = [] \<or> hd arg \<noteq> hd (op_text op)"
  shows "parse_operator name colon (op_text op @ arg) =
    \<lparr>pp_name = name, pp_op = op, pp_argument = arg, pp_colon = colon\<rparr>"
  using assms by (cases op) (auto simp: parse_operator_def op_of_def One_nat_def)

text \<open>C29: the forms of \<open>${...}\<close> read back.  A name, an optional colon, an operator and an argument, written out, are
  parsed into exactly these parts, when the argument of a short trim does not begin with the byte that would double
  its operator: no byte of the argument is lost and none is taken for an operator.\<close>

theorem parameter_forms_read_back:
  assumes "name \<noteq> []" "list_all (\<lambda>c. \<not> is_operator_byte c) name" "op \<noteq> Op_none" "op \<noteq> Op_length"
    "op = Trim_prefix_short \<or> op = Trim_suffix_short \<longrightarrow> arg = [] \<or> hd arg \<noteq> hd (op_text op)"
  shows "parse_parameter (name @ (if colon then '':'' else []) @ op_text op @ arg) =
    \<lparr>pp_name = name, pp_op = op, pp_argument = arg, pp_colon = colon\<rparr>"
proof -
  let ?rest = "(if colon then '':'' else []) @ op_text op @ arg"
  let ?b = "name @ ?rest"
  have op: "op_text op \<noteq> []" "is_operator_byte (hd (op_text op))" "hd (op_text op) \<noteq> CHR '':''"
    using assms(3,4) by (cases op; simp add: is_operator_byte_def)+
  have h: "hd ?b \<noteq> CHR ''#''"
    using assms(1,2) by (cases name) (auto simp: is_operator_byte_def)
  obtain r rs where r: "?rest = r # rs" "is_operator_byte r"
    using op by (cases colon; cases "op_text op") (auto simp: is_operator_byte_def)
  have two: "\<not> length ?b = 1" "?b \<noteq> []" using assms(1) r(1) by (cases name; simp add: One_nat_def)+
  have "seek ?b is_operator_byte 0 = length name"
    unfolding r(1) using assms(2) r(2) by (simp add: seek_def takeWhile_append2 list_all_iff)
  moreover have "\<not> length ?b \<le> length name" by (simp add: r(1) del: append.simps)
  moreover have "?b ! length name = r" by (simp add: r(1) nth_append)
  moreover have "drop (length name) ?b = ?rest" "take (length name) ?b = name" by simp_all
  ultimately have p: "parse_parameter ?b =
      (if r = CHR '':'' \<and> length name + 1 < length ?b then parse_operator name True (drop (length name + 1) ?b)
       else parse_operator name False ?rest)"
    using h two by (simp only: parse_parameter_def if_False simp_thms)
  show ?thesis
  proof (cases colon)
    case True
    then have "r = CHR '':''" "drop (length name + 1) ?b = op_text op @ arg" "length name + 1 < length ?b"
      using r(1) op(1) by (auto simp: One_nat_def)
    then show ?thesis using p True parse_operator_reads [OF assms(3,4,5)] by simp
  next
    case False
    then have "r = hd (op_text op)" using r(1) op(1) by (cases "op_text op") simp_all
    then show ?thesis using p False op(3) parse_operator_reads [OF assms(3,4,5)] by simp
  qed
qed

theorem parameter_forms_read_back_witness:
  "parse_parameter ''v:=a:b'' = \<lparr>pp_name = ''v'', pp_op = Assign_default, pp_argument = ''a:b'', pp_colon = True\<rparr>"
  using parameter_forms_read_back [of "''v''" Assign_default "''a:b''" True] by (simp add: is_operator_byte_def)

subsection \<open>Declaration utilities\<close>

fun command_prefix :: "bool \<Rightarrow> string list \<Rightarrow> bool" where
  "command_prefix after [] \<longleftrightarrow> True"
| "command_prefix after (w # ws) \<longleftrightarrow>
     w = ''command'' \<and> command_prefix True ws \<or>
     w \<noteq> ''command'' \<and> after \<and> w \<noteq> [] \<and> hd w = CHR ''-'' \<and> command_prefix after ws"

definition declares :: "string \<Rightarrow> bool" where
  "declares w \<longleftrightarrow> w = ''export'' \<or> w = ''readonly''"

definition names_declaration :: "bool \<Rightarrow> string list \<Rightarrow> bool" where
  "names_declaration after ws \<longleftrightarrow> (\<exists>pre u post. ws = pre @ u # post \<and> declares u \<and> command_prefix after pre)"

lemma names_declaration_Nil [simp]: "\<not> names_declaration after []"
  by (simp add: names_declaration_def)

lemma names_declaration_Cons:
  "names_declaration after (w # ws) \<longleftrightarrow> declares w \<or>
     (\<exists>pre u post. ws = pre @ u # post \<and> declares u \<and> command_prefix after (w # pre))"
proof
  assume "names_declaration after (w # ws)"
  then obtain pre u post where *: "w # ws = pre @ u # post" "declares u" "command_prefix after pre"
    unfolding names_declaration_def by blast
  then show "declares w \<or> (\<exists>pre u post. ws = pre @ u # post \<and> declares u \<and> command_prefix after (w # pre))"
    by (cases pre) (simp, metis append_Cons list.inject)
next
  assume "declares w \<or> (\<exists>pre u post. ws = pre @ u # post \<and> declares u \<and> command_prefix after (w # pre))"
  then show "names_declaration after (w # ws)"
    unfolding names_declaration_def by (metis append_Cons append_Nil command_prefix.simps(1))
qed

lemma fold_noted: "dc_state d \<noteq> Searching \<Longrightarrow> fold note_expanded_word ws d = d"
  by (induction ws) (simp_all add: note_expanded_word_def)

lemma noted_declaring:
  assumes "dc_state d = Searching"
  shows "dc_state (fold note_expanded_word ws d) = Declaring \<longleftrightarrow> names_declaration (dc_after_command d) ws"
  using assms
proof (induction ws arbitrary: d)
  case (Cons w ws)
  consider (named) "declares w" | (command) "\<not> declares w" "w = ''command''"
    | (option) "\<not> declares w" "w \<noteq> ''command''" "dc_after_command d" "w \<noteq> []" "hd w = CHR ''-''"
    | (other) "\<not> declares w" "w \<noteq> ''command''" "\<not> (dc_after_command d \<and> w \<noteq> [] \<and> hd w = CHR ''-'')"
    by blast
  then show ?case
  proof cases
    case named
    then have "note_expanded_word w d = d\<lparr>dc_state := Declaring\<rparr>"
      using Cons.prems by (simp add: note_expanded_word_def declares_def)
    then show ?thesis using named by (simp add: names_declaration_Cons fold_noted)
  next
    case command
    then have "note_expanded_word w d = d\<lparr>dc_after_command := True\<rparr>"
      using Cons.prems by (simp add: note_expanded_word_def declares_def)
    then show ?thesis using command Cons.IH [of "d\<lparr>dc_after_command := True\<rparr>"] Cons.prems
      unfolding names_declaration_Cons by (simp add: names_declaration_def)
  next
    case option
    then have "note_expanded_word w d = d"
      using Cons.prems by (simp add: note_expanded_word_def declares_def)
    then show ?thesis using option Cons.IH [of d] Cons.prems
      unfolding names_declaration_Cons by (simp add: names_declaration_def)
  next
    case other
    then have "note_expanded_word w d = d\<lparr>dc_state := Other_utility\<rparr>"
      using Cons.prems by (simp add: note_expanded_word_def declares_def)
    moreover have "\<not> command_prefix (dc_after_command d) (w # pre)" for pre
      unfolding command_prefix.simps using other(2,3) by blast
    ultimately show ?thesis using other(1) by (simp only: names_declaration_Cons fold.simps o_apply) (simp add: fold_noted)
  qed
qed simp

text \<open>The scan for declaration utilities decides as its rule says.  After any list of expanded words, an operand is
  taken as an assignment exactly when it is written as one and the words name \<open>export\<close> or \<open>readonly\<close>, preceded only
  by \<open>command\<close> and its options; later words never take that back.\<close>

theorem declaration_scan_correct:
  "operand_is_assignment (fold note_expanded_word ws declaration_scan_init) word \<longleftrightarrow>
    (\<exists>pre u post. ws = pre @ u # post \<and> (u = ''export'' \<or> u = ''readonly'') \<and> command_prefix False pre) \<and>
    CHR ''='' \<in> set word \<and> is_assignable_name (takeWhile (\<lambda>c. c \<noteq> CHR ''='') word)"
  using noted_declaring [of declaration_scan_init ws]
  by (simp add: operand_is_assignment_def declaration_scan_init_def names_declaration_def declares_def)

subsection \<open>Unset parameters\<close>

lemma ordinary_ctx: "word_ctx Role_ordinary = expand_context_init"
  by (simp add: word_ctx_def one_value_role_def)

lemma ordinary_mode [simp]: "ec_mode expand_context_init = Word_interior" "ec_split expand_context_init"
  "ec_fields expand_context_init" "\<not> ec_double_quoted expand_context_init"
  by (simp_all add: expand_context_init_def)

text \<open>What a word becomes when it was split: the field under construction is closed, and nothing is globbed.\<close>

lemma split_word:
  assumes "expand_text x kMaxExpansionDepth expand_context_init word (word_start (xp_glob_enabled x) st) = (status, s2)"
    "\<not> es_globbable s2" "expand_word x Role_ordinary False word st = (status1, st1)"
  shows "status1 = status \<and> es_host st1 = es_host s2 \<and> es_fatal st1 = es_fatal s2 \<and> es_reports st1 = es_reports s2 \<and>
    es_out st1 = es_out (snd (finish_field False s2))"
  using assms by (auto simp: expand_word_def expand_scanned_word_def ordinary_ctx one_value_role_def)

text \<open>C30: \<open>set -u\<close> is honoured.  An unset parameter expands to no field at all; when unset parameters are errors it
  also answers so, names the parameter and sets the fatal mark, and otherwise it reports nothing.\<close>

theorem unset_parameters:
  assumes "var_name n" "ps_lookup (xp_params x) (es_host st) n = None"
    "expand_word x Role_ordinary False (CHR ''$'' # n) st = (status, st1)"
  shows "es_out st1 = es_out st \<and> es_host st1 = es_host st \<and>
    (if xp_unset_is_error x
     then status = Parameter_unset \<and> es_fatal st1 \<and> es_reports st1 = es_reports st @ [n @ '': parameter not set'']
     else status = Exp_ok \<and> es_fatal st1 = es_fatal st \<and> es_reports st1 = es_reports st)"
proof -
  let ?s = "word_start (xp_glob_enabled x) st"
  have "segments_of Word_interior (dollar_names [n]) = map (\<lambda>n. (Seg_parameter, No_error, CHR ''$'' # n)) [n]"
    unfolding segments_of_from by (rule dollar_names_segments_from) (simp_all add: assms(1))
  moreover have "ps_lookup (xp_params x) (es_host ?s) n = None" using assms(2) by (simp add: word_start_def)
  ultimately have t: "expand_text x kMaxExpansionDepth expand_context_init (CHR ''$'' # n) ?s =
      (if xp_unset_is_error x then (Parameter_unset, (fatal (report (n @ '': parameter not set'') ?s))\<lparr>es_saw_other := True\<rparr>)
       else (Exp_ok, ?s\<lparr>es_saw_other := True\<rparr>))"
    by (simp add: kMaxExpansionDepth_def numeral_eq_Suc One_nat_def is_unterminated_substitution_def expand_name [OF assms(1)]
        substitute_value_def report_unset_def)
  define s2 where "s2 = snd (if xp_unset_is_error x then (Parameter_unset, (fatal (report (n @ '': parameter not set'') ?s))\<lparr>es_saw_other := True\<rparr>)
       else (Exp_ok, ?s\<lparr>es_saw_other := True\<rparr>))"
  have "expand_text x kMaxExpansionDepth expand_context_init (CHR ''$'' # n) ?s =
      (if xp_unset_is_error x then Parameter_unset else Exp_ok, s2)" "\<not> es_globbable s2"
    using t by (simp_all add: s2_def fatal_def report_def word_start_def)
  from split_word [OF this assms(3)] show ?thesis
    by (simp add: s2_def fatal_def report_def word_start_def finish_field_def)
qed

theorem unset_parameters_witness:
  "fst (expand_word demo_ports Role_ordinary False ''$u'' (expansion_init ())) = Parameter_unset"
proof -
  have "var_name ''u''" "ps_lookup (xp_params demo_ports) (es_host (expansion_init ())) ''u'' = None" "xp_unset_is_error demo_ports"
    by code_simp+
  with unset_parameters [OF this(1,2), of "fst (expand_word demo_ports Role_ordinary False ''$u'' (expansion_init ()))"
      "snd (expand_word demo_ports Role_ordinary False ''$u'' (expansion_init ()))"]
  show ?thesis by simp
qed

subsection \<open>The positional parameters\<close>

definition has_arguments :: "'s expander \<Rightarrow> 's \<Rightarrow> string list \<Rightarrow> bool" where
  "has_arguments x s args \<longleftrightarrow>
     ps_positional_count (xp_params x) s = length args \<and>
     (\<forall>i < length args. ps_positional_at (xp_params x) s (i + 1) = Some (args ! i))"

lemma upt_first: "[a..<a + length (x # xs)] = a # [Suc a..<Suc a + length xs]"
  by (simp add: upt_conv_Cons del: upt_Suc)

lemma fold_arguments:
  assumes "\<forall>i < length args. at_index (a + i) = Some (args ! i)"
  shows "fold (\<lambda>i st1. case at_index i of None \<Rightarrow> st1 | Some arg \<Rightarrow> f i arg st1) [a..<a + length args] st =
    fold (\<lambda>(i, arg). f i arg) (zip [a..<a + length args] args) st"
  using assms
proof (induction args arbitrary: a st)
  case (Cons arg args)
  have "\<forall>i < length args. at_index (Suc a + i) = Some (args ! i)"
  proof (intro allI impI)
    fix i assume "i < length args"
    then show "at_index (Suc a + i) = Some (args ! i)" using spec [OF Cons.prems, of "Suc i"] by simp
  qed
  from Cons.IH [OF this] show ?case
    unfolding upt_first using spec [OF Cons.prems, of 0] by (simp del: upt_Suc)
qed simp

lemma each_positional_zip:
  assumes "has_arguments x (es_host st) args"
  shows "each_positional (xp_params x) f st = fold (\<lambda>(i, arg). f i arg) (zip [1..<1 + length args] args) st"
proof -
  have "\<forall>i < length args. ps_positional_at (xp_params x) (es_host st) (1 + i) = Some (args ! i)"
    using assms by (simp add: has_arguments_def add.commute)
  from fold_arguments [OF this] show ?thesis
    using assms by (simp only: each_positional_def has_arguments_def add.commute)
qed

text \<open>Quoted: between two parameters the field is closed, so each is a field of its own.\<close>

lemma append_bytes_simps [simp]:
  "es_out (append_bytes b st) = es_out st" "es_current (append_bytes b st) = es_current st @ b" "es_started (append_bytes b st)"
  "es_globbable (append_bytes b st) = es_globbable st" "es_host (append_bytes b st) = es_host st"
  "es_saw_empty_at (append_bytes b st) = es_saw_empty_at st"
  by (simp_all add: append_bytes_def)

lemma finish_field_saw [simp]: "es_saw_empty_at (snd (finish_field b st)) = es_saw_empty_at st"
  by (auto simp: finish_field_def)

lemma fold_quoted_arguments:
  assumes "1 < i" "es_started st"
  shows "\<exists>st1. fold (\<lambda>(i, arg). \<lambda>st1. append_bytes arg (boundary i st1)) (zip [i..<i + length args] args) st = st1 \<and>
    es_started st1 \<and> es_out st1 @ [es_current st1] = es_out st @ es_current st # args \<and>
    es_globbable st1 = es_globbable st \<and> es_host st1 = es_host st \<and> es_saw_empty_at st1 = es_saw_empty_at st"
  using assms
proof (induction args arbitrary: i st)
  case (Cons arg args)
  define s1 where "s1 = append_bytes arg (boundary i st)"
  have s1: "es_started s1" "es_out s1 = es_out st @ [es_current st]" "es_current s1 = arg"
    "es_globbable s1 = es_globbable st" "es_host s1 = es_host st" "es_saw_empty_at s1 = es_saw_empty_at st"
    using Cons.prems by (simp_all add: s1_def boundary_def finish_field_simps)
  have "1 < Suc i" using Cons.prems(1) by simp
  from Cons.IH [OF this s1(1)] show ?case unfolding upt_first using s1 by (simp add: s1_def [symmetric] del: upt_Suc)
qed simp

lemma quoted_at_segments:
  "segments_of Word_interior [double_quote, CHR ''$'', CHR ''@'', double_quote] =
    [(Seg_double_quoted, No_error, [double_quote, CHR ''$'', CHR ''@'', double_quote])]"
  "segments_of Double_quote_interior ''$@'' = [(Seg_parameter, No_error, ''$@'')]"
  "segments_of Word_interior ''$@'' = [(Seg_parameter, No_error, ''$@'')]"
  "segments_of Word_interior ''$*'' = [(Seg_parameter, No_error, ''$*'')]"
  by code_simp+

lemma at_parameter:
  "parse_parameter (parameter_body (without_continuations ''$@'')) = parsed_parameter_init\<lparr>pp_name := ''@''\<rparr>"
  "parse_parameter (parameter_body (without_continuations ''$*'')) = parsed_parameter_init\<lparr>pp_name := ''*''\<rparr>"
  by code_simp+

lemma expand_at:
  "expand_segment x rec ctx Seg_parameter ''$@'' st = expand_positional x ctx ''@'' st"
  "expand_segment x rec ctx Seg_parameter ''$*'' st = expand_positional x ctx ''*'' st"
  by (simp_all add: expand_segment_def expand_parameter_def at_parameter parsed_parameter_init_def)

text \<open>\<open>"$@"\<close> is the arguments, exactly.  It expands to one field per positional parameter, each byte for byte,
  empty ones included, and to no field at all, not even an empty one, when there are none.\<close>

theorem quoted_at_is_the_arguments:
  assumes "has_arguments x (es_host st) args"
    "expand_word x Role_ordinary False [double_quote, CHR ''$'', CHR ''@'', double_quote] st = (status, st1)"
  shows "status = Exp_ok \<and> es_host st1 = es_host st \<and> es_out st1 = es_out st @ args"
proof -
  let ?s = "word_start (xp_glob_enabled x) st" and ?w = "[double_quote, CHR ''$'', CHR ''@'', double_quote]"
  let ?ctx = "double_quoted_ctx expand_context_init"
  define fresh where "fresh = ?s\<lparr>es_saw_empty_at := False, es_saw_other := False\<rparr>"
  have fresh: "es_current fresh = []" "es_out fresh = es_out st" "\<not> es_started fresh" "\<not> es_globbable fresh"
    "es_host fresh = es_host st" "\<not> es_saw_empty_at fresh"
    by (simp_all add: fresh_def word_start_def)
  have ctx: "ec_double_quoted ?ctx" "ec_fields ?ctx" "ec_mode ?ctx = Double_quote_interior"
    by (simp_all add: double_quoted_ctx_def expand_context_init_def)
  have count: "ps_positional_count (xp_params x) (es_host fresh) = length args"
    using assms(1) fresh(5) by (simp add: has_arguments_def)
  have "\<exists>s2. expand_text x 255 ?ctx ''$@'' fresh = (Exp_ok, s2) \<and> es_host s2 = es_host st \<and> \<not> es_globbable s2 \<and>
      (if args = [] then es_saw_empty_at s2 \<and> \<not> es_saw_other s2 \<and> \<not> es_started s2 \<and> es_out s2 = es_out st
       else \<not> es_saw_empty_at s2 \<and> es_out s2 @ [es_current s2] = es_out st @ args)"
  proof (cases args)
    case Nil
    then have "expand_positional x ?ctx ''@'' fresh = (Exp_ok, False, fresh\<lparr>es_saw_empty_at := True\<rparr>)"
      using count ctx by (simp add: expand_positional_def)
    then show ?thesis using Nil fresh ctx(3)
      by (simp add: numeral_eq_Suc One_nat_def quoted_at_segments expand_at is_unterminated_substitution_def fresh_def)
  next
    case (Cons arg rest)
    define s1 where "s1 = append_bytes arg fresh"
    have "has_arguments x (es_host fresh) args" using assms(1) fresh(5) by simp
    from each_positional_zip [OF this, of "\<lambda>i arg st1. append_bytes arg (boundary i st1)"]
    have each: "each_positional (xp_params x) (\<lambda>i arg st1. append_bytes arg (boundary i st1)) fresh =
        fold (\<lambda>(i, arg). \<lambda>st1. append_bytes arg (boundary i st1)) (zip [Suc 1..<Suc 1 + length rest] rest) s1"
      unfolding Cons upt_first by (simp add: s1_def boundary_def del: upt_Suc)
    have "es_started s1" "1 < Suc 1" by (simp_all add: s1_def)
    from fold_quoted_arguments [OF this(2,1), of rest] each obtain s2 where s2:
      "each_positional (xp_params x) (\<lambda>i arg st1. append_bytes arg (boundary i st1)) fresh = s2"
      "es_out s2 @ [es_current s2] = es_out s1 @ es_current s1 # rest" "es_globbable s2 = es_globbable s1"
      "es_host s2 = es_host s1" "es_saw_empty_at s2 = es_saw_empty_at s1"
      by metis
    have "expand_positional x ?ctx ''@'' fresh = (Exp_ok, True, s2)"
      using count ctx s2(1) Cons by (simp add: expand_positional_def)
    then have "expand_text x 255 ?ctx ''$@'' fresh = (Exp_ok, s2\<lparr>es_saw_other := True\<rparr>)"
      using ctx(3) by (simp add: numeral_eq_Suc One_nat_def quoted_at_segments expand_at is_unterminated_substitution_def)
    then show ?thesis using s2 fresh Cons by (simp add: s1_def)
  qed
  then obtain s2 where s2: "expand_text x 255 ?ctx ''$@'' fresh = (Exp_ok, s2)" "es_host s2 = es_host st" "\<not> es_globbable s2"
    "if args = [] then es_saw_empty_at s2 \<and> \<not> es_saw_other s2 \<and> \<not> es_started s2 \<and> es_out s2 = es_out st
     else \<not> es_saw_empty_at s2 \<and> es_out s2 @ [es_current s2] = es_out st @ args"
    by blast
  have two: "substr ?w 1 (length ?w - 2) = ''$@''" by (simp add: substr_def One_nat_def)
  obtain content s3 where s3: "expand_double_quoted (expand_text x 255) expand_context_init ?w ?s = (Exp_ok, content, s3)"
    "es_host s3 = es_host st" "\<not> es_globbable s3" "es_out s3 = es_out s2" "es_current s3 = es_current s2"
    "es_started s3 \<longleftrightarrow> args \<noteq> []"
    using s2 two by (cases "args = []") (auto simp: expand_double_quoted_def fresh_def [symmetric])
  define s4 where "s4 = (if content then s3\<lparr>es_saw_other := True\<rparr> else s3)"
  have "expand_text x kMaxExpansionDepth expand_context_init ?w ?s = (Exp_ok, s4)"
    using s3(1) by (simp add: kMaxExpansionDepth_def numeral_eq_Suc One_nat_def quoted_at_segments expand_segment_def
        is_unterminated_substitution_def s4_def)
  moreover have "\<not> es_globbable s4" using s3 by (simp add: s4_def)
  ultimately have r: "status = Exp_ok \<and> es_host st1 = es_host s4 \<and> es_out st1 = es_out (snd (finish_field False s4))"
    using split_word [OF _ _ assms(2)] by blast
  have "es_out (snd (finish_field False s4)) = es_out st @ args"
    using s2(4) s3 by (cases "args = []") (simp_all add: s4_def finish_field_simps)
  then show ?thesis using r s3(2) by (simp add: s4_def)
qed

theorem quoted_at_is_the_arguments_witness:
  "es_out (snd (expand_word demo_ports Role_ordinary False [double_quote, CHR ''$'', CHR ''@'', double_quote] (expansion_init ()))) = [''p q'', []]"
proof -
  have args: "has_arguments demo_ports (es_host (expansion_init ())) [''p q'', []]"
    by (auto simp: has_arguments_def demo_ports_def less_Suc_eq numeral_2_eq_2 One_nat_def)
  from quoted_at_is_the_arguments [OF args, of "fst (expand_word demo_ports Role_ordinary False [double_quote, CHR ''$'', CHR ''@'', double_quote] (expansion_init ()))"
      "snd (expand_word demo_ports Role_ordinary False [double_quote, CHR ''$'', CHR ''@'', double_quote] (expansion_init ()))"]
  show ?thesis by (simp add: expansion_init_def)
qed




end
