(* ===== verification/ExpanderShell.thy ===== *)
theory ExpanderShell
  imports ExpanderText
begin

text \<open>
  The expander over the shell's own state: the ports as \<open>shell_state\<close> implements them, the expander
  the executor builds, and what assigning a default does.
\<close>

subsection \<open>The shell behind the ports\<close>

text \<open>What lies outside the program: the password database, the process, the runner and the file system.\<close>

record surroundings =
  sr_getpwnam :: "string \<Rightarrow> string option"
  sr_process_id :: int
  sr_run_and_capture :: "shell_state \<Rightarrow> string \<Rightarrow> substitution_result \<times> string \<times> shell_state"
  sr_files :: "shell_state \<Rightarrow> filesystem"

definition shell_source :: "surroundings \<Rightarrow> shell_state parameter_source" where
  "shell_source around =
     \<lparr>ps_lookup = lookup, ps_home = home_directory, ps_home_of = home_directory_of (sr_getpwnam around), ps_ifs = ifs,
      ps_status = sh_last_status, ps_process_id = (\<lambda>st. sr_process_id around),
      ps_positional_count = (\<lambda>st. length (sh_positional st)), ps_positional_at = positional_at,
      ps_script_name = sh_script_name, ps_option_flags = option_flags\<rparr>"

text \<open>The two options are read when the expander is built.\<close>

definition make_expander_with :: "surroundings \<Rightarrow> shell_state \<Rightarrow> bool \<Rightarrow> shell_state expander" where
  "make_expander_with around st glob_enabled =
     \<lparr>xp_params = shell_source around, xp_runner = Some (sr_run_and_capture around), xp_glob_enabled = glob_enabled,
      xp_vars = Some shell_port, xp_assign = Some assign_parameter,
      xp_unset_is_error = error_on_unset (sh_options st), xp_files = sr_files around\<rparr>"

definition make_expander :: "surroundings \<Rightarrow> shell_state \<Rightarrow> shell_state expander" where
  "make_expander around st = make_expander_with around st (\<not> no_glob (sh_options st))"

lemma shell_has_arguments: "has_arguments (make_expander around st) st (sh_positional st)"
  by (simp add: has_arguments_def make_expander_def make_expander_with_def shell_source_def positional_at_def)

subsection \<open>The contract of assignment\<close>

text \<open>
  What the expander relies on when it assigns a default: an assignment that is accepted is what the
  parameter then holds, no other parameter changes, and one that is refused changes nothing.
\<close>

locale assignment_port =
  fixes find :: "'s \<Rightarrow> string \<Rightarrow> string option"
    and assign :: "'s \<Rightarrow> string \<Rightarrow> string \<Rightarrow> bool \<times> 's"
  assumes assigned: "assign s n v = (True, t) \<Longrightarrow> find t n = Some v"
    and others: "assign s n v = (True, t) \<Longrightarrow> m \<noteq> n \<Longrightarrow> find t m = find s m"
    and refusal: "assign s n v = (False, t) \<Longrightarrow> t = s"
begin

lemma default_assigned:
  assumes "xp_assign x = Some assign" "is_assignable_name (pp_name p)"
    "expand_to_value rec (brace_ctx ctx) (pp_argument p) st = (d, st2)"
    "expand_assign_default x rec ctx p st = (status, st1)"
  shows "status = Exp_ok \<and>
    (if fst (assign (es_host st2) (pp_name p) d) then find (es_host st1) (pp_name p) = Some d
     else es_fatal st1 \<and> es_host st1 = es_host st2) \<and>
    (\<forall>m. m \<noteq> pp_name p \<longrightarrow> find (es_host st1) m = find (es_host st2) m)"
proof -
  obtain accepted t where t: "assign (es_host st2) (pp_name p) d = (accepted, t)" by fastforce
  define st3 where "st3 = (if accepted then st2\<lparr>es_host := t\<rparr> else fatal (st2\<lparr>es_host := t\<rparr>))"
  have r: "status = Exp_ok" "st1 = (if ec_split ctx then append_split x d st3 else append_bytes d st3)"
    using assms t by (auto simp: expand_assign_default_def st3_def)
  have "es_host (append_split x d st3) = es_host st3" by (simp add: append_split_def)
  then have host: "es_host st1 = es_host st3" using r(2) by simp
  have "es_fatal st3 \<longrightarrow> es_fatal (append_split x d st3)"
    using append_split_behaves [of expand_context_init st3 x d] by (simp add: behaves_def advances_def emits_def)
  then have keep: "es_fatal st3 \<longrightarrow> es_fatal st1" using r(2) by (simp add: append_bytes_def)
  show ?thesis
  proof (cases accepted)
    case True
    then show ?thesis using r(1) host t assigned others by (simp add: st3_def)
  next
    case False
    then show ?thesis using r(1) host keep t refusal [of "es_host st2" "pp_name p" d t] by (simp add: st3_def fatal_def)
  qed
qed

end

interpretation shell_assignment: assignment_port lookup assign_parameter
proof (unfold_locales, goal_cases)
  case (1 s n v t)
  then show ?case using lookup_set_var [of s n v t n] by (simp add: assign_parameter_def)
next
  case (2 s n v t m)
  then show ?case using lookup_set_var [of s n v t m] by (simp add: assign_parameter_def)
next
  case (3 s n v t)
  then show ?case using set_var_refused [of s n v t] by (simp add: assign_parameter_def)
qed

subsection \<open>Defaults\<close>

lemma braces_end_run:
  assumes "p \<le> e" "e < length s" "s ! e = CHR ''}''"
    "\<And>i. p \<le> i \<Longrightarrow> i < e \<Longrightarrow> s ! i \<notin> {CHR ''{'', CHR ''}'', backslash} \<and> \<not> opens_quoted s i"
  shows "braces_end s inside p 1 = (e + 1, 0)"
  using assms
proof (induction "e - p" arbitrary: p)
  case 0
  then have "p = e" by simp
  have "\<not> opens_quoted s e" using assms(2,3) by (simp add: opens_quoted_def opens_expansion_def char_at_def)
  then show ?case using 0 \<open>p = e\<close> by (subst braces_end.simps) (simp, subst braces_end.simps, simp)
next
  case (Suc k)
  then have "p < e" by simp
  then have "braces_end s inside p 1 = braces_end s inside (p + 1) 1"
    using Suc.prems by (subst braces_end.simps) simp
  also have "\<dots> = (e + 1, 0)" using Suc.hyps(1) [of "p + 1"] Suc.hyps(2) Suc.prems \<open>p < e\<close> by simp
  finally show ?case .
qed

definition brace_free :: "string \<Rightarrow> bool" where
  "brace_free w \<longleftrightarrow> list_all (\<lambda>c. \<not> needs_expansion c \<and> c \<noteq> CHR ''{'' \<and> c \<noteq> CHR ''}'') w"

definition in_braces :: "string \<Rightarrow> string" where
  "in_braces body = ''${'' @ body @ ''}''"

lemma braces_segments:
  assumes "list_all (\<lambda>c. c \<notin> {CHR ''{'', CHR ''}'', backslash, single_quote, double_quote, backquote, CHR ''$''}) body"
  shows "segments_of Word_interior (in_braces body) = [(Seg_parameter, No_error, in_braces body)]"
proof -
  let ?s = "in_braces body"
  have len: "length ?s = length body + 3" by (simp add: in_braces_def)
  have at: "?s ! i \<in> set body" if "2 \<le> i" "i < 2 + length body" for i
  proof -
    define j where "j = i - 2"
    have j: "i = 2 + j" using that(1) by (simp add: j_def)
    then have "j < length body" using that(2) by simp
    then have "?s ! i = body ! j" by (simp add: j in_braces_def nth_append)
    then show ?thesis using \<open>j < length body\<close> by simp
  qed
  have plain: "?s ! i \<notin> {CHR ''{'', CHR ''}'', backslash, single_quote, double_quote, backquote, CHR ''$''}"
    if "2 \<le> i" "i < 2 + length body" for i
    using at [OF that] assms unfolding list_all_iff by blast
  have closing: "?s ! (2 + length body) = CHR ''}''" by (simp add: in_braces_def nth_append)
  have "braces_end ?s False 2 1 = (2 + length body + 1, 0)"
  proof (rule braces_end_run)
    fix i assume i: "2 \<le> i" "i < 2 + length body"
    then show "?s ! i \<notin> {CHR ''{'', CHR ''}'', backslash} \<and> \<not> opens_quoted ?s i"
      using plain [OF i] len by (simp add: opens_quoted_def opens_expansion_def char_at_def)
  qed (use len closing in simp_all)
  moreover have "past_continuations ?s 1 = 1" by (rule past_continuations_none) (simp_all add: in_braces_def One_nat_def)
  moreover have "char_at ?s 1 = CHR ''{''" by (simp add: char_at_def in_braces_def One_nat_def)
  ultimately have "lex_dollar_segment ?s Word_interior 0 = whole Seg_parameter (length ?s)"
    using len by (simp add: lex_dollar_segment_def segment_or_def quotes_are_bytes_def eval_nat_numeral)
  moreover have "?s ! 0 = CHR ''$''" by (simp add: in_braces_def)
  ultimately have seg: "lex_word_segment ?s Word_interior 0 = whole Seg_parameter (length ?s)"
    by (simp add: lex_word_segment_def tilde_eligible_def)
  show ?thesis unfolding segments_of_from
    using segments_from_end [of Word_interior ?s] len
    by (subst segments_from_step) (simp_all add: interior_def seg substr_def)
qed

lemma rfind_last: "c \<notin> set b \<Longrightarrow> rfind c (a @ c # b) = Some (length a)"
proof -
  assume "c \<notin> set b"
  then have "takeWhile (\<lambda>b. b \<noteq> c) (rev b @ c # rev a) = rev b" by (subst takeWhile_append2) auto
  then show ?thesis by (simp add: rfind_def)
qed

lemma in_braces_body:
  assumes "backslash \<notin> set body"
  shows "parameter_body (without_continuations (in_braces body)) = body"
proof -
  have "backslash \<notin> set (in_braces body)" using assms by (simp add: in_braces_def)
  then have w: "without_continuations (in_braces body) = in_braces body" by (simp add: without_continuations_def)
  have "past_continuations (in_braces body) 1 = 1" by (rule past_continuations_none) (simp_all add: in_braces_def One_nat_def)
  moreover have "rfind (CHR ''}'') (in_braces body) = Some (2 + length body)"
    using rfind_last [of "CHR ''}''" "[]" "''${'' @ body"] by (simp add: in_braces_def)
  moreover have "1 < length (in_braces body)" "in_braces body ! 1 = CHR ''{''" "substr (in_braces body) 2 (length body) = body"
    by (simp_all add: in_braces_def substr_def One_nat_def)
  moreover have "2 + length body - 1 - 1 = length body" "\<not> 2 + length body < 1 + 1" "1 + 1 = (2 :: nat)" by simp_all
  ultimately show ?thesis by (simp only: w parameter_body_def if_True if_False simp_thms option.case)
qed

lemma default_form:
  assumes "var_name n"
  shows "parse_parameter (n @ ''='' @ w) = \<lparr>pp_name = n, pp_op = Assign_default, pp_argument = w, pp_colon = False\<rparr>"
proof -
  obtain c m where n: "n = c # m" using assms by (cases n) (auto simp: is_assignable_name_def)
  have c: "is_valid_var_name_first_char c" using assms by (simp add: n is_assignable_name_def)
  have "list_all (\<lambda>b. \<not> is_operator_byte b) n"
    using name_bytes [OF assms] name_byte_facts(8) by (auto simp: list_all_iff)
  then have "seek (n @ ''='' @ w) is_operator_byte 0 = length n"
    by (simp add: seek_def takeWhile_append2 list_all_iff is_operator_byte_def)
  moreover have "c \<noteq> CHR ''#''" using name_first_facts(2) [OF c] by auto
  ultimately show ?thesis
    by (simp add: n parse_parameter_def nth_append parse_operator_def op_of_def One_nat_def)
qed

text \<open>The plain text of a default, as a value.\<close>

lemma plain_value:
  assumes "w \<noteq> []" "list_all (\<lambda>c. \<not> needs_expansion c) w"
  shows "\<exists>st1. expand_to_value (expand_text x (Suc n)) (brace_ctx expand_context_init) w st = (w, st1) \<and> es_host st1 = es_host st \<and>
    same_field st st1"
proof -
  define ctx where "ctx = (brace_ctx expand_context_init)\<lparr>ec_split := False, ec_fields := False\<rparr>"
  have ctx: "ec_mode ctx = Word_interior" "\<not> ec_double_quoted ctx" "\<not> ec_substituted ctx" "\<not> ec_split ctx"
    by (simp_all add: ctx_def brace_ctx_def expand_context_init_def)
  have "segments_of Word_interior w = [(Seg_literal, No_error, w)]"
    by (simp add: segments_of_def plain_word_segments [OF assms] token_of_def token_text_def whole_def substr_def)
  then have t: "expand_text x (Suc n) ctx w (value_start st) = (Exp_ok, (literal_loop x ctx w (value_start st))\<lparr>es_saw_other := True\<rparr>)"
    using ctx by (simp add: is_unterminated_substitution_def expand_segment_def expand_literal_def globbable_if_def)
  have "adds w (value_start st) (literal_loop x ctx w (value_start st))"
    by (rule plain_literal_adds [OF plain_bytes(1) [OF assms(2)] ctx(2,3)])
  then have "es_current (literal_loop x ctx w (value_start st)) = w" "es_host (literal_loop x ctx w (value_start st)) = es_host st"
    by (simp_all add: adds_def value_start_def)
  then show ?thesis using t by (simp add: expand_to_value_def ctx_def [symmetric] put_back_def same_field_def)
qed

text \<open>C32: a default is assigned once and then read back.  Expanding \<open>${n=word}\<close> in the shell, with \<open>n\<close> unset, gives the
  variable the word as its value when the shell accepts the assignment, and leaves every other parameter alone; when
  the variable is readonly nothing changes and the fatal mark is set, so the command does not run.\<close>

theorem default_is_assigned:
  assumes "var_name n" "lookup (es_host st) n = None" "w \<noteq> []" "brace_free w"
    "expand_word (make_expander around sh) Role_ordinary False (in_braces (n @ ''='' @ w)) st = (status, st1)"
  shows "status = Exp_ok \<and>
    (if is_readonly (es_host st) n then es_fatal st1 \<and> es_host st1 = es_host st
     else \<forall>m. lookup (es_host st1) m = (if m = n then Some w else lookup (es_host st) m))"
proof -
  let ?x = "make_expander around sh" and ?rec = "expand_text (make_expander around sh) 255"
  let ?s = "word_start (xp_glob_enabled (make_expander around sh)) st"
  define body where "body = n @ ''='' @ w"
  define p where "p = \<lparr>pp_name = n, pp_op = Assign_default, pp_argument = w, pp_colon = False\<rparr>"
  have plain: "list_all (\<lambda>c. \<not> needs_expansion c) w" using assms(4) by (simp add: brace_free_def list_all_iff)
  have bytes: "c \<notin> {CHR ''{'', CHR ''}'', backslash, single_quote, double_quote, backquote, CHR ''$''}" if "c \<in> set body" for c
  proof -
    consider "c \<in> set n" | "c = CHR ''=''" | "c \<in> set w" using \<open>c \<in> set body\<close> by (auto simp: body_def)
    then show ?thesis
    proof cases
      case 1
      from name_bytes [OF assms(1) this] show ?thesis by (auto simp: is_valid_var_name_non_first_char_def)
    next
      case 3
      then show ?thesis using assms(4) by (auto simp: brace_free_def list_all_iff needs_expansion_def)
    qed simp
  qed
  then have segs: "segments_of Word_interior (in_braces body) = [(Seg_parameter, No_error, in_braces body)]"
    by (intro braces_segments) (unfold list_all_iff, blast)
  have "backslash \<notin> set body" using bytes by blast
  then have p: "parse_parameter (parameter_body (without_continuations (in_braces body))) = p"
    unfolding p_def by (subst in_braces_body) (assumption, simp only: body_def default_form [OF assms(1)])
  have port: "xp_assign ?x = Some assign_parameter" "ps_lookup (xp_params ?x) = lookup"
    by (simp_all add: make_expander_def make_expander_with_def shell_source_def)
  have s: "es_host ?s = es_host st" by (simp add: word_start_def)
  obtain st2 where v: "expand_to_value ?rec (brace_ctx expand_context_init) w ?s = (w, st2)" "es_host st2 = es_host st" "same_field ?s st2"
    using plain_value [OF assms(3) plain, of ?x 254 ?s] s by (auto simp: numeral_eq_Suc)
  obtain status1 st3 where d: "expand_assign_default ?x ?rec expand_context_init p ?s = (status1, st3)" by fastforce
  have "is_assignable_name (pp_name p)" "pp_argument p = w" "pp_name p = n" using assms(1) by (simp_all add: p_def)
  from shell_assignment.default_assigned [OF port(1) this(1) _ d, of w st2] v(1,2) this(2,3)
  have r: "status1 = Exp_ok" "if fst (assign_parameter (es_host st) n w) then lookup (es_host st3) n = Some w
      else es_fatal st3 \<and> es_host st3 = es_host st" "\<forall>m. m \<noteq> n \<longrightarrow> lookup (es_host st3) m = lookup (es_host st) m"
    by (simp_all split: if_splits)
  have "expand_segment ?x ?rec expand_context_init Seg_parameter (in_braces body) ?s = (status1, True, st3)"
    using assms(1,2) d by (simp add: expand_segment_def expand_parameter_def p) 
      (simp add: p_def lookup_name port s expand_operation_def)
  then have "expand_text ?x kMaxExpansionDepth expand_context_init (in_braces body) ?s = (Exp_ok, st3\<lparr>es_saw_other := True\<rparr>)"
    using segs r(1) by (simp add: kMaxExpansionDepth_def numeral_eq_Suc One_nat_def is_unterminated_substitution_def)
  moreover have "es_globbable st3 = es_globbable st2"
    using d v(1) port(1) assms(1) by (auto simp: expand_assign_default_def append_split_def append_bytes_def fatal_def p_def split: prod.splits if_splits)
  then have "\<not> es_globbable (st3\<lparr>es_saw_other := True\<rparr>)"
    using v(3) by (simp add: same_field_def word_start_def)
  ultimately have w: "status = Exp_ok" "es_host st1 = es_host st3" "es_fatal st1 = es_fatal st3"
    using split_word [OF _ _ assms(5) [folded body_def]] by auto
  have "fst (assign_parameter (es_host st) n w) \<longleftrightarrow> \<not> is_readonly (es_host st) n"
    by (simp add: assign_parameter_def set_var_ok_iff)
  then show ?thesis using w r(2,3) by auto
qed

theorem default_is_assigned_witness:
  "lookup (es_host (snd (expand_word (make_expander \<lparr>sr_getpwnam = (\<lambda>user. None), sr_process_id = 1,
       sr_run_and_capture = (\<lambda>s code. (Sub_unavailable, [], s)), sr_files = (\<lambda>s. \<lparr>fs_list = (\<lambda>dir. None), fs_lstat = (\<lambda>path. False)\<rparr>)\<rparr>
       (shell_state_init [] 1 (\<lambda>path. False) ''/'')) Role_ordinary False (in_braces (''v'' @ ''='' @ ''w''))
     (expansion_init (shell_state_init [] 1 (\<lambda>path. False) ''/''))))) ''v'' = Some ''w''"
proof -
  let ?sh = "shell_state_init [] 1 (\<lambda>path. False) ''/''" and ?around = "\<lparr>sr_getpwnam = (\<lambda>user. None), sr_process_id = 1,
       sr_run_and_capture = (\<lambda>s code. (Sub_unavailable, [], s)), sr_files = (\<lambda>s. \<lparr>fs_list = (\<lambda>dir. None), fs_lstat = (\<lambda>path. False)\<rparr>)\<rparr>"
  have "var_name ''v''" "lookup (es_host (expansion_init ?sh)) ''v'' = None" "brace_free ''w''"
    "\<not> is_readonly (es_host (expansion_init ?sh)) ''v''"
    by code_simp+
  with default_is_assigned [OF this(1,2) _ this(3), of ?around ?sh
      "fst (expand_word (make_expander ?around ?sh) Role_ordinary False (in_braces (''v'' @ ''='' @ ''w'')) (expansion_init ?sh))"
      "snd (expand_word (make_expander ?around ?sh) Role_ordinary False (in_braces (''v'' @ ''='' @ ''w'')) (expansion_init ?sh))"]
  show ?thesis by simp
qed

end
