(* ===== verification/Partial.thy ===== *)
theory Partial
  imports Main "HOL-Library.Monad_Syntax"
begin

text \<open>
  Code whose loops and recursion have no bound in sight returns an \<open>option\<close>, \<open>None\<close> being the run that never
  ends.  This theory holds the loop of such code, the rules that make it usable inside \<open>partial_function\<close>, and
  total correctness: \<open>succeeds m Q\<close> says that \<open>m\<close> returns and that \<open>Q\<close> holds of what it returns.
\<close>

partial_function (option) loop :: "('s \<Rightarrow> ('s + 'r) option) \<Rightarrow> 's \<Rightarrow> 'r option" where
  "loop body s = Option.bind (body s) (\<lambda>r. case r of Inl s1 \<Rightarrow> loop body s1 | Inr x \<Rightarrow> Some x)"

definition succeeds :: "'a option \<Rightarrow> ('a \<Rightarrow> bool) \<Rightarrow> bool" where
  "succeeds m Q \<longleftrightarrow> (\<exists>x. m = Some x \<and> Q x)"

lemma succeedsI: "m = Some x \<Longrightarrow> Q x \<Longrightarrow> succeeds m Q"
  by (simp add: succeeds_def)

lemma succeedsE: "succeeds m Q \<Longrightarrow> (\<And>x. m = Some x \<Longrightarrow> Q x \<Longrightarrow> thesis) \<Longrightarrow> thesis"
  by (auto simp: succeeds_def)

lemma succeeds_Some [simp]: "succeeds (Some x) Q \<longleftrightarrow> Q x"
  by (simp add: succeeds_def)

lemma succeeds_bind: "succeeds m (\<lambda>x. succeeds (f x) Q) \<Longrightarrow> succeeds (Option.bind m f) Q"
  by (auto simp: succeeds_def)

lemma succeeds_mono: "succeeds m P \<Longrightarrow> (\<And>x. P x \<Longrightarrow> Q x) \<Longrightarrow> succeeds m Q"
  by (auto simp: succeeds_def)

lemma succeeds_then:
  "succeeds m P \<Longrightarrow> (\<And>x. P x \<Longrightarrow> succeeds (f x) Q) \<Longrightarrow> succeeds (Option.bind m f) Q"
  by (auto simp: succeeds_def)

text \<open>A loop returns when something it preserves comes with a well-founded relation that falls.\<close>

lemma succeeds_loop_wf:
  assumes "wf R" "I s"
    and step: "\<And>s. I s \<Longrightarrow> succeeds (body s) (\<lambda>r. case r of Inl s1 \<Rightarrow> I s1 \<and> (s1, s) \<in> R | Inr x \<Rightarrow> Q x)"
  shows "succeeds (loop body s) Q"
  using assms(1,2)
proof (induction s rule: wf_induct_rule)
  case (less s)
  obtain r where r: "body s = Some r" "case r of Inl s1 \<Rightarrow> I s1 \<and> (s1, s) \<in> R | Inr x \<Rightarrow> Q x"
    using step [OF less.prems] by (auto elim: succeedsE)
  show ?case
  proof (cases r)
    case (Inl s1)
    with r less.IH [of s1] show ?thesis by (simp add: loop.simps [of body s])
  next
    case (Inr x)
    with r show ?thesis by (simp add: loop.simps [of body s])
  qed
qed

lemma succeeds_loop:
  fixes f :: "'s \<Rightarrow> nat"
  assumes "I s"
    and step: "\<And>s. I s \<Longrightarrow> succeeds (body s) (\<lambda>r. case r of Inl s1 \<Rightarrow> I s1 \<and> f s1 < f s | Inr x \<Rightarrow> Q x)"
  shows "succeeds (loop body s) Q"
proof (rule succeeds_loop_wf [where I = I and R = "measure f"])
  show "succeeds (body s) (\<lambda>r. case r of Inl s1 \<Rightarrow> I s1 \<and> (s1, s) \<in> measure f | Inr x \<Rightarrow> Q x)" if "I s" for s
    by (rule succeeds_mono [OF step [OF that]]) (auto split: sum.splits)
qed (simp_all add: assms(1))

subsection \<open>Monotonicity\<close>

lemma option_ord_iff: "option_ord a b \<longleftrightarrow> (\<forall>x. a = Some x \<longrightarrow> b = Some x)"
  by (cases a) (auto simp: flat_ord_def)

lemma mono_option_iff:
  "mono_option B \<longleftrightarrow> (\<forall>f g. fun_ord option_ord f g \<longrightarrow> (\<forall>x. B f = Some x \<longrightarrow> B g = Some x))"
  by (simp add: monotone_def option_ord_iff)

lemma loop_le:
  assumes "loop b s = Some x" "\<And>s r. b s = Some r \<Longrightarrow> b1 s = Some r"
  shows "loop b1 s = Some x"
proof -
  define le where "le b \<longleftrightarrow> (\<forall>s r. b s = Some r \<longrightarrow> b1 s = Some r)" for b
  have "le b \<longrightarrow> loop b1 s = Some x"
  proof (rule loop.raw_induct [where P = "\<lambda>b s x. le b \<longrightarrow> loop b1 s = Some x", OF _ assms(1)], rule impI)
    fix lp b s x
    assume IH: "\<And>b s x. lp b s = Some x \<Longrightarrow> le b \<longrightarrow> loop b1 s = Some x" and "le b"
      and run: "Option.bind (b s) (\<lambda>r. case r of Inl s1 \<Rightarrow> lp b s1 | Inr x \<Rightarrow> Some x) = Some x"
    from run obtain r where r: "b s = Some r" "(case r of Inl s1 \<Rightarrow> lp b s1 | Inr x \<Rightarrow> Some x) = Some x"
      by (auto simp: bind_eq_Some_conv)
    with \<open>le b\<close> have "b1 s = Some r" by (simp add: le_def)
    with r IH [of b] \<open>le b\<close> show "loop b1 s = Some x"
      by (simp add: loop.simps [of b1 s] split: sum.splits)
  qed
  then show ?thesis using assms(2) by (simp add: le_def)
qed

lemma loop_mono [partial_function_mono]:
  assumes "\<And>s. mono_option (\<lambda>f. B f s)"
  shows "mono_option (\<lambda>f. loop (B f) s)"
  using assms by (fastforce simp: mono_option_iff intro: loop_le)

lemma case_prod_mono [partial_function_mono]:
  "(\<And>a b. mono_option (\<lambda>f. B f a b)) \<Longrightarrow> mono_option (\<lambda>f. case p of (a, b) \<Rightarrow> B f a b)"
  by (cases p) simp

lemma case_option_mono [partial_function_mono]:
  "mono_option (\<lambda>f. A f) \<Longrightarrow> (\<And>a. mono_option (\<lambda>f. B f a)) \<Longrightarrow>
   mono_option (\<lambda>f. case p of None \<Rightarrow> A f | Some a \<Rightarrow> B f a)"
  by (cases p) simp_all

end
