(* ===== verification/Parser.thy ===== *)
theory Parser
  imports Ast LexerProps Partial
begin

text \<open>
  The shell parser (\<^verbatim>\<open>src/syntax/parser.cpp\<close>): recursive descent over the lexer with one token of lookahead,
  alias substitution at read time by a stack of lexers, here-document bodies collected when the line that opened
  them ends, and the interiors of command substitutions parsed afterwards.  The parser is a record; every member
  function takes it and returns it, inside an \<open>option\<close> whose \<open>None\<close> is a run that does not end: an alias table
  can be cyclic, so that parsing returns is a theorem (\<open>ParserTotal\<close>).  The three functions the grammar recurs
  through are the nonterminals of one \<open>partial_function\<close>; the others take it as an argument.
\<close>

unbundle bit_operations_syntax

declare One_nat_def [simp del]

subsection \<open>Words the grammar reads by their spelling\<close>

fun assignment_tail :: "string \<Rightarrow> bool" where
  "assignment_tail [] = False"
| "assignment_tail (c # cs) =
     (if c = backslash \<and> cs \<noteq> [] \<and> hd cs = newline then assignment_tail (tl cs)
      else if c = CHR ''='' then True
      else if \<not> is_valid_var_name_non_first_char c then False
      else assignment_tail cs)"

definition looks_like_assignment :: "string \<Rightarrow> bool" where
  "looks_like_assignment s \<longleftrightarrow> s \<noteq> [] \<and> is_valid_var_name_first_char (hd s) \<and> assignment_tail (tl s)"

fun delimiter_is_quoted :: "string \<Rightarrow> bool" where
  "delimiter_is_quoted [] = False"
| "delimiter_is_quoted (c # cs) =
     (if c = backslash then (if cs \<noteq> [] \<and> hd cs = newline then delimiter_is_quoted (tl cs) else True)
      else c = single_quote \<or> c = double_quote \<or> delimiter_is_quoted cs)"

datatype reserved =
    Kw_none | Kw_if | Kw_then | Kw_elif | Kw_else | Kw_fi | Kw_while | Kw_until | Kw_do | Kw_done
  | Kw_for | Kw_in | Kw_case | Kw_esac | Kw_lbrace | Kw_rbrace | Kw_bang

definition reserved_of :: "string \<Rightarrow> reserved" where
  "reserved_of s =
     (if s = ''if'' then Kw_if else if s = ''then'' then Kw_then else if s = ''elif'' then Kw_elif
      else if s = ''else'' then Kw_else else if s = ''fi'' then Kw_fi else if s = ''while'' then Kw_while
      else if s = ''until'' then Kw_until else if s = ''do'' then Kw_do else if s = ''done'' then Kw_done
      else if s = ''for'' then Kw_for else if s = ''in'' then Kw_in else if s = ''case'' then Kw_case
      else if s = ''esac'' then Kw_esac else if s = ''{'' then Kw_lbrace else if s = ''}'' then Kw_rbrace
      else if s = ''!'' then Kw_bang else Kw_none)"

definition is_reserved_word :: "string \<Rightarrow> bool" where
  "is_reserved_word s \<longleftrightarrow> reserved_of s \<noteq> Kw_none"

definition is_redirect_operator :: "token_kind \<Rightarrow> bool" where
  "is_redirect_operator k \<longleftrightarrow>
     k \<in> {T_less, T_great, T_dless, T_dgreat, T_dless_dash, T_less_and, T_great_and, T_less_great, T_clobber}"

definition ends_command :: "token_kind \<Rightarrow> bool" where
  "ends_command k \<longleftrightarrow>
     k \<in> {T_end, T_newline, T_semi, T_amp, T_pipe, T_and_if, T_or_if, T_dsemi, T_rparen, T_semi_and}"

definition is_separator :: "token_kind \<Rightarrow> bool" where
  "is_separator k \<longleftrightarrow> k = T_newline \<or> k = T_semi \<or> k = T_amp"

definition is_error :: "token \<Rightarrow> bool" where
  "is_error t \<longleftrightarrow> tk_error t \<noteq> No_error"

text \<open>A word with its line continuations removed: the bytes that are left, and whether any were; none at all
  when one of the bytes is not allowed.\<close>

fun joined_bytes :: "(char \<Rightarrow> bool) \<Rightarrow> string \<Rightarrow> (string \<times> bool) option" where
  "joined_bytes allowed [] = Some ([], False)"
| "joined_bytes allowed (c # cs) =
     (if c = backslash \<and> cs \<noteq> [] \<and> hd cs = newline
      then map_option (\<lambda>(s, any). (s, True)) (joined_bytes allowed (tl cs))
      else if allowed c then map_option (\<lambda>(s, any). (c # s, any)) (joined_bytes allowed cs)
      else None)"

definition across_line_continuations :: "(char \<Rightarrow> bool) \<Rightarrow> nat \<Rightarrow> string \<Rightarrow> string option" where
  "across_line_continuations allowed capacity s =
     (case joined_bytes allowed s of
        None \<Rightarrow> None
      | Some (out, any) \<Rightarrow> if length out \<le> capacity \<and> any then Some out else None)"

definition reserved_byte :: "char \<Rightarrow> bool" where
  "reserved_byte c \<longleftrightarrow> ascii_lower c \<or> c = CHR ''{'' \<or> c = CHR ''}'' \<or> c = CHR ''!''"

definition alias_name_byte :: "char \<Rightarrow> bool" where
  "alias_name_byte c \<longleftrightarrow> ascii_lower c \<or> ascii_upper c \<or> ascii_digit c \<or> c \<in> set ''_!%,@''"

subsection \<open>The parser\<close>

type_synonym alias_source = "(string \<times> string) list"

record alias_frame =
  af_lexer :: lexer
  af_text :: string
  af_base :: nat
  af_trailing_blank :: bool

text \<open>The stack of alias bodies has the innermost first.  A pending here-document is its node and its delimiter
  token.\<close>

record parser =
  pa_lexer :: lexer
  pa_tree :: tree
  pa_scratch :: "nat list"
  pa_pending :: "(nat \<times> nat) list"
  pa_stack :: "alias_frame list"
  pa_aliases :: "alias_source option"
  pa_plain_word :: bool
  pa_index :: nat
  pa_cursor :: nat
  pa_in_sub_parse :: bool
  pa_sub_depth :: nat

definition kMaxAliasDepth :: nat where "kMaxAliasDepth = 16"

definition peek :: "parser \<Rightarrow> token" where
  "peek st = tr_tokens (pa_tree st) ! pa_index st"

abbreviation peek_kind :: "parser \<Rightarrow> token_kind" where
  "peek_kind st \<equiv> tk_kind (peek st)"

definition token_at :: "parser \<Rightarrow> nat \<Rightarrow> token" where
  "token_at st i = tr_tokens (pa_tree st) ! i"

definition token_text_at :: "parser \<Rightarrow> nat \<Rightarrow> string" where
  "token_text_at st i = text_of_token (pa_tree st) (token_at st i)"

definition word_reserved :: "token \<Rightarrow> string \<Rightarrow> reserved" where
  "word_reserved t bytes =
     (if tk_kind t \<noteq> T_word \<or> is_error t then Kw_none
      else if tk_literal t then reserved_of bytes
      else (case across_line_continuations reserved_byte 8 bytes of None \<Rightarrow> Kw_none | Some s \<Rightarrow> reserved_of s))"

definition peek_reserved :: "parser \<Rightarrow> reserved" where
  "peek_reserved st = word_reserved (peek st) (token_text_at st (pa_index st))"

definition at_list_terminator :: "parser \<Rightarrow> bool" where
  "at_list_terminator st \<longleftrightarrow>
     peek_reserved st \<in> {Kw_then, Kw_elif, Kw_else, Kw_fi, Kw_do, Kw_done, Kw_esac, Kw_rbrace}"

definition mark_incomplete :: "parser \<Rightarrow> parser" where
  "mark_incomplete st =
     (if pa_in_sub_parse st then st else st\<lparr>pa_tree := (pa_tree st)\<lparr>tr_incomplete := True\<rparr>\<rparr>)"

subsection \<open>Collecting here-documents\<close>

text \<open>The lines of one body: whether the delimiter was found, where the body ends, where reading goes on.\<close>

definition strip_leading_tabs :: "string \<Rightarrow> string" where
  "strip_leading_tabs line = dropWhile (\<lambda>c. c = tab) line"

function collect_lines :: "string \<Rightarrow> string \<Rightarrow> bool \<Rightarrow> nat \<Rightarrow> nat \<Rightarrow> bool \<times> nat \<times> nat" where
  "collect_lines s raw strip_tabs at body_stop =
     (if length s < at then (False, body_stop, at)
      else (case takeWhile (\<lambda>c. c \<noteq> newline) (drop at s) of line \<Rightarrow>
       (case at + length line of nl \<Rightarrow>
        if here_doc_delimiter_matches raw (if strip_tabs then strip_leading_tabs line else line) then
          (True, body_stop, (if nl = length s then length s else nl + 1))
        else if nl = length s then (False, length s, length s)
        else collect_lines s raw strip_tabs (nl + 1) (nl + 1))))"
  by pat_completeness auto

termination
proof (relation "measure (\<lambda>(s, raw, strip_tabs, at, body_stop). Suc (length s) - at)", goal_cases)
  case 2
  then show ?case by auto
qed simp

declare collect_lines.simps [simp del]

definition collect_one :: "string \<Rightarrow> nat \<Rightarrow> nat \<times> nat \<Rightarrow> nat \<times> parser \<Rightarrow> nat \<times> parser" where
  "collect_one s base entry run =
     (case entry of (n, delimiter) \<Rightarrow> case run of (at, st) \<Rightarrow>
      (case nd_aux (tr_nodes (pa_tree st) ! n) of slot \<Rightarrow>
       (case tr_here_docs (pa_tree st) ! slot of placeholder \<Rightarrow>
        (case collect_lines s (token_text_at st delimiter) (hb_strip_tabs placeholder) at at of
           (terminated, body_stop, after) \<Rightarrow>
           (case (if terminated then st else mark_incomplete st) of st1 \<Rightarrow>
             (after, st1\<lparr>pa_tree := (pa_tree st1)\<lparr>tr_here_docs := (tr_here_docs (pa_tree st1))[slot :=
                \<lparr>hb_offset = base + at,
                 hb_length = (if at < body_stop then body_stop - at else 0),
                 hb_expand = \<not> (\<not> tk_literal (token_at st delimiter) \<and>
                                delimiter_is_quoted (token_text_at st delimiter)),
                 hb_strip_tabs = hb_strip_tabs placeholder,
                 hb_fd = hb_fd placeholder\<rparr>]\<rparr>\<rparr>))))))"

definition collect_here_doc_bodies :: "string \<Rightarrow> nat \<Rightarrow> nat \<Rightarrow> parser \<Rightarrow> nat \<times> parser" where
  "collect_here_doc_bodies s base start st =
     (case fold (collect_one s base) (pa_pending st) (start - base, st) of (at, st1) \<Rightarrow>
        (base + at, st1\<lparr>pa_pending := []\<rparr>))"

subsection \<open>Drawing a token\<close>

text \<open>The next token the grammar sees, with the comments before it and the position it was drawn from.\<close>

function next_past_comments :: "lexer \<Rightarrow> token list \<times> token \<times> nat \<times> lexer" where
  "next_past_comments lx =
     (case next_token Command lx of (t, lx1) \<Rightarrow>
        if tk_kind t = T_comment \<and> lx_position lx \<le> length (lx_source lx) then
          (case next_past_comments lx1 of (comments, rest) \<Rightarrow> (t # comments, rest))
        else ([], t, lx_position lx, lx1))"
  by pat_completeness auto

termination
proof (relation "measure (\<lambda>lx. length (lx_source lx) - lx_position lx)", goal_cases)
  case (2 lx t lx1)
  then have n: "next_token Command lx = (t, lx1)" and k: "tk_kind t = T_comment"
    and le: "lx_position lx \<le> length (lx_source lx)" by simp_all
  note shape = next_token_shape [OF le n]
  show ?case using shape(1,2,3,4,7) k by (auto simp: end_offset_def split: if_splits)
qed simp

declare next_past_comments.simps [simp del]

definition add_comments :: "nat \<Rightarrow> token list \<Rightarrow> tree \<Rightarrow> tree" where
  "add_comments base comments tr =
     fold (\<lambda>t. add_comment \<lparr>sp_offset = tk_offset t + base, sp_length = tk_length t\<rparr>) comments tr"

text \<open>Drawing from the alias bodies: those that have run out are dropped, and one of them that ended in a blank
  makes the word drawn eligible for substitution.\<close>

fun draw_alias :: "bool \<Rightarrow> tree \<Rightarrow> alias_frame list \<Rightarrow> bool \<times> tree \<times> alias_frame list \<times> token option" where
  "draw_alias eligible tr [] = (eligible, tr, [], None)"
| "draw_alias eligible tr (f # fs) =
     (case next_past_comments (af_lexer f) of (comments, t, before, lx) \<Rightarrow>
      (case add_comments (af_base f) comments tr of tr1 \<Rightarrow>
        if tk_kind t \<noteq> T_end then
          (eligible, tr1, f\<lparr>af_lexer := lx\<rparr> # fs,
           Some (t\<lparr>tk_offset := tk_offset t + af_base f,
                   tk_error_offset := (if is_error t then tk_error_offset t + af_base f else tk_error_offset t)\<rparr>))
        else draw_alias (eligible \<or> af_trailing_blank f) tr1 fs))"

definition took_token :: "token \<Rightarrow> parser \<Rightarrow> parser" where
  "took_token t st =
     (case add_token t (pa_tree st) of (i, tr) \<Rightarrow> st\<lparr>pa_tree := tr, pa_index := i\<rparr>)"

definition seek_lexer :: "nat \<Rightarrow> lexer \<Rightarrow> lexer" where
  "seek_lexer p lx = lx\<lparr>lx_position := p\<rparr>"

definition after_alias_token :: "parser \<Rightarrow> parser" where
  "after_alias_token st =
     (case pa_stack st of
        [] \<Rightarrow> st
      | f # fs \<Rightarrow>
          if pa_pending st \<noteq> [] \<and> peek_kind st = T_newline then
            (case collect_here_doc_bodies (af_text f) (af_base f) (end_offset (peek st)) st of (resume, st1) \<Rightarrow>
               st1\<lparr>pa_stack := f\<lparr>af_lexer := seek_lexer (resume - af_base f) (af_lexer f)\<rparr> # fs\<rparr>)
          else st)"

definition draw_input :: "parser \<Rightarrow> parser" where
  "draw_input st =
     (case next_past_comments (pa_lexer st) of (comments, t, before, lx) \<Rightarrow>
        took_token t (st\<lparr>pa_tree := add_comments 0 comments (pa_tree st), pa_cursor := before, pa_lexer := lx\<rparr>))"

definition after_input_token :: "parser \<Rightarrow> parser" where
  "after_input_token st0 =
     (case (if lx_incomplete (pa_lexer st0) then mark_incomplete st0 else st0) of st \<Rightarrow>
        if pa_pending st \<noteq> [] \<and> peek_kind st = T_newline then
          (if end_offset (peek st) \<le> length (lx_source (pa_lexer st)) then
             (case collect_here_doc_bodies (lx_source (pa_lexer st)) 0 (end_offset (peek st)) st of (resume, st1) \<Rightarrow>
                st1\<lparr>pa_lexer := seek_lexer resume (pa_lexer st1)\<rparr>)
           else mark_incomplete (st\<lparr>pa_pending := []\<rparr>))
        else st)"

definition draw :: "parser \<Rightarrow> bool \<times> parser" where
  "draw st =
     (case draw_alias False (pa_tree st) (pa_stack st) of (eligible, tr, fs, drawn) \<Rightarrow>
      (case st\<lparr>pa_tree := tr, pa_stack := fs\<rparr> of st1 \<Rightarrow>
        (eligible,
         case drawn of
           Some t \<Rightarrow> after_alias_token (took_token t st1)
         | None \<Rightarrow> after_input_token (draw_input st1))))"

subsection \<open>Alias substitution\<close>

definition alias_name_of :: "token \<Rightarrow> string \<Rightarrow> string option" where
  "alias_name_of t bytes =
     (if tk_literal t then Some bytes else across_line_continuations alias_name_byte 64 bytes)"

text \<open>What the word being looked at is to be replaced by, if anything.\<close>

definition replacement :: "parser \<Rightarrow> string option" where
  "replacement st =
     (case pa_aliases st of
        None \<Rightarrow> None
      | Some aliases \<Rightarrow>
          if peek_kind st \<noteq> T_word \<or> is_error (peek st) then None
          else if \<not> pa_plain_word st \<and> peek_reserved st \<noteq> Kw_none then None
          else (case alias_name_of (peek st) (token_text_at st (pa_index st)) of
              None \<Rightarrow> None
            | Some name \<Rightarrow>
                (case map_of aliases name of
                   None \<Rightarrow> None
                 | Some val \<Rightarrow> if val \<in> af_text ` set (pa_stack st) then None else Some val)))"

definition ends_in_blank :: "string \<Rightarrow> bool" where
  "ends_in_blank s \<longleftrightarrow> s \<noteq> [] \<and> (last s = CHR '' '' \<or> last s = tab)"

definition push_alias :: "string \<Rightarrow> parser \<Rightarrow> parser" where
  "push_alias val st =
     (case add_text_region val (token_text_at st (pa_index st)) (tk_offset (peek st)) (pa_tree st) of (base, tr) \<Rightarrow>
        st\<lparr>pa_tree := tr,
           pa_stack := \<lparr>af_lexer = lexer_at val 0, af_text = val, af_base = base,
                        af_trailing_blank = ends_in_blank val\<rparr> # pa_stack st\<rparr>)"

fun substitute_loop :: "(parser \<Rightarrow> parser option) \<Rightarrow> nat \<Rightarrow> parser \<Rightarrow> parser option" where
  "substitute_loop refill 0 st = Some st"
| "substitute_loop refill (Suc n) st =
     (case replacement st of
        None \<Rightarrow> Some st
      | Some val \<Rightarrow> do { st1 \<leftarrow> refill (push_alias val st); substitute_loop refill n st1 })"

lemma substitute_loop_mono [partial_function_mono]:
  "mono_option (\<lambda>refill. substitute_loop refill n st)"
proof (induction n arbitrary: st)
  case (Suc n)
  then show ?case by (cases "replacement st") (auto intro!: partial_function_mono)
qed (simp add: mono_option_iff)

partial_function (option) fill :: "parser \<Rightarrow> parser option" where
  "fill st = (case draw st of (eligible, st1) \<Rightarrow>
     if eligible \<and> pa_aliases st1 \<noteq> None then substitute_loop fill kMaxAliasDepth st1 else Some st1)"

definition substitute_word :: "parser \<Rightarrow> parser option" where
  "substitute_word st = (if pa_aliases st \<noteq> None then substitute_loop fill kMaxAliasDepth st else Some st)"

definition advance :: "parser \<Rightarrow> (nat \<times> parser) option" where
  "advance st =
     (if peek_kind st \<noteq> T_end then do { st1 \<leftarrow> fill st; Some (pa_index st, st1) } else Some (pa_index st, st))"


subsection \<open>Looking further ahead\<close>

record probe_frame =
  pf_text :: string
  pf_at :: nat
  pf_trailing_blank :: bool

definition probe_alias_value :: "alias_source option \<Rightarrow> token \<Rightarrow> string \<Rightarrow> string option" where
  "probe_alias_value aliases t source =
     (case aliases of
        None \<Rightarrow> None
      | Some table \<Rightarrow>
          if tk_kind t \<noteq> T_word \<or> is_error t \<or> length source < tk_offset t + tk_length t then None
          else (case alias_name_of t (substr source (tk_offset t) (tk_length t)) of
              None \<Rightarrow> None
            | Some name \<Rightarrow> if reserved_of name \<noteq> Kw_none then None else map_of table name))"

text \<open>One probed token.  The frames are the alias bodies, innermost first, and then the input; a round drops a
  body that has run out, or enters one, or answers the token.\<close>

fun probe_one :: "alias_source option \<Rightarrow> string list \<Rightarrow> nat \<Rightarrow> bool \<Rightarrow> token \<Rightarrow> probe_frame list \<Rightarrow> probe_frame \<Rightarrow>
    token \<times> probe_frame list \<times> probe_frame" where
  "probe_one aliases active 0 eligible drawn bodies input = (drawn, bodies, input)"
| "probe_one aliases active (Suc n) eligible drawn bodies input =
     (case (case bodies of [] \<Rightarrow> input | f # fs \<Rightarrow> f) of source \<Rightarrow>
      (case next_past_comments (lexer_at (pf_text source) (pf_at source)) of (comments, t, before, lx) \<Rightarrow>
        if tk_kind t = T_end \<and> bodies \<noteq> [] then
          probe_one aliases active n (eligible \<or> pf_trailing_blank source) t (tl bodies) input
        else (case source\<lparr>pf_at := lx_position lx\<rparr> of moved \<Rightarrow>
         (case (case bodies of [] \<Rightarrow> ([], moved) | f # fs \<Rightarrow> (moved # fs, input)) of (bodies1, input1) \<Rightarrow>
           if \<not> eligible then (t, bodies1, input1)
           else (case probe_alias_value aliases t (pf_text source) of
               None \<Rightarrow> (t, bodies1, input1)
             | Some val \<Rightarrow>
                 if length bodies1 = kMaxAliasDepth \<or> val \<in> pf_text ` set bodies1 \<or> val \<in> set active then
                   (t, bodies1, input1)
                 else probe_one aliases active n eligible t
                   (\<lparr>pf_text = val, pf_at = 0, pf_trailing_blank = ends_in_blank val\<rparr> # bodies1) input1)))))"

fun probe_ahead_loop :: "alias_source option \<Rightarrow> string list \<Rightarrow> nat \<Rightarrow> probe_frame list \<Rightarrow> probe_frame \<Rightarrow> token list" where
  "probe_ahead_loop aliases active 0 bodies input = []"
| "probe_ahead_loop aliases active (Suc n) bodies input =
     (case probe_one aliases active (kMaxAliasDepth + 1) False (token_of 0 (whole T_end 0)) bodies input of
        (t, bodies1, input1) \<Rightarrow> t # probe_ahead_loop aliases active n bodies1 input1)"

definition probe_frame_of :: "alias_frame \<Rightarrow> probe_frame" where
  "probe_frame_of f =
     \<lparr>pf_text = lx_source (af_lexer f), pf_at = lx_position (af_lexer f), pf_trailing_blank = af_trailing_blank f\<rparr>"

text \<open>The outermost \<open>kMaxAliasDepth\<close> bodies are probed, as the code copies them from the outside in.\<close>

definition probe_ahead :: "parser \<Rightarrow> nat \<Rightarrow> token list" where
  "probe_ahead st count =
     probe_ahead_loop (pa_aliases st) (map af_text (pa_stack st)) count
       (rev (take kMaxAliasDepth (rev (map probe_frame_of (pa_stack st)))))
       \<lparr>pf_text = lx_source (pa_lexer st), pf_at = lx_position (pa_lexer st), pf_trailing_blank = False\<rparr>"

definition at_function_definition :: "parser \<Rightarrow> bool" where
  "at_function_definition st \<longleftrightarrow>
     peek_kind st = T_word \<and> peek_reserved st = Kw_none \<and>
     map tk_kind (probe_ahead st 2) = [T_lparen, T_rparen]"

subsection \<open>Consuming\<close>

definition advance_while :: "(token_kind \<Rightarrow> bool) \<Rightarrow> parser \<Rightarrow> parser option" where
  "advance_while p =
     loop (\<lambda>st. if p (peek_kind st) then do { r \<leftarrow> advance st; Some (Inl (snd r)) } else Some (Inr st))"

definition skip_newlines :: "parser \<Rightarrow> parser option" where
  "skip_newlines = advance_while (\<lambda>k. k = T_newline)"

definition skip_separators :: "parser \<Rightarrow> parser option" where
  "skip_separators = advance_while is_separator"

definition skip_linebreak :: "parser \<Rightarrow> parser option" where
  "skip_linebreak =
     loop (\<lambda>st. do {
       st1 \<leftarrow> skip_newlines st;
       st2 \<leftarrow> substitute_word st1;
       Some (if pa_index st2 = pa_index st1 then Inr st2 else Inl st2) })"

definition accept_keyword :: "parser \<Rightarrow> (nat \<times> parser) option" where
  "accept_keyword st = advance (st\<lparr>pa_tree := mark_keyword (pa_index st) (pa_tree st)\<rparr>)"

definition accept :: "reserved \<Rightarrow> parser \<Rightarrow> (bool \<times> parser) option" where
  "accept want st =
     (if peek_reserved st \<noteq> want then Some (False, st) else do { r \<leftarrow> accept_keyword st; Some (True, snd r) })"

definition record_missing :: "parse_error \<Rightarrow> parse_error \<Rightarrow> parser \<Rightarrow> parse_error \<times> parser" where
  "record_missing why defect st =
     (if defect = No_defect then why else defect, if peek_kind st = T_end then mark_incomplete st else st)"

definition require_word :: "reserved \<Rightarrow> parse_error \<Rightarrow> parser \<Rightarrow> (bool \<times> parse_error \<times> parser) option" where
  "require_word want defect st = do {
     (taken, st1) \<leftarrow> accept want st;
     Some (if taken then (True, defect, st1) else (False, record_missing Missing_terminator defect st1)) }"

definition require_token :: "token_kind \<Rightarrow> parse_error \<Rightarrow> parser \<Rightarrow> (bool \<times> parse_error \<times> parser) option" where
  "require_token want defect st =
     (if peek_kind st \<noteq> want then Some (False, record_missing Missing_terminator defect st)
      else do { r \<leftarrow> advance st; Some (True, defect, snd r) })"

definition require_list :: "nat \<Rightarrow> parse_error \<Rightarrow> parser \<Rightarrow> parse_error \<times> parser" where
  "require_list n defect st =
     (if nd_count (tr_nodes (pa_tree st) ! n) = 0 then record_missing Missing_operand defect st else (defect, st))"

subsection \<open>Making nodes\<close>

definition push :: "nat \<Rightarrow> parser \<Rightarrow> parser" where
  "push n st = st\<lparr>pa_scratch := pa_scratch st @ [n]\<rparr>"

definition mark_scratch :: "parser \<Rightarrow> nat" where
  "mark_scratch st = length (pa_scratch st)"

definition new_node :: "node \<Rightarrow> parser \<Rightarrow> nat \<times> parser" where
  "new_node n st = (case add_node n (pa_tree st) of (i, tr) \<Rightarrow> (i, st\<lparr>pa_tree := tr\<rparr>))"

definition commit_children :: "node \<Rightarrow> nat \<Rightarrow> parser \<Rightarrow> node \<times> parser" where
  "commit_children n mark st =
     (case add_children (drop mark (pa_scratch st)) (pa_tree st) of (start, tr) \<Rightarrow>
        (n\<lparr>nd_start := start, nd_count := length (pa_scratch st) - mark\<rparr>,
         st\<lparr>pa_tree := tr, pa_scratch := take mark (pa_scratch st)\<rparr>))"

text \<open>What every rule ends with: the children since the mark are committed and the node added.\<close>

definition finish_node :: "node \<Rightarrow> nat \<Rightarrow> parser \<Rightarrow> nat \<times> parser" where
  "finish_node n mark st = (case commit_children n mark st of (n1, st1) \<Rightarrow> new_node n1 st1)"

text \<open>The last token consumed, for a rule that began at \<open>first\<close>.\<close>

definition last_consumed :: "nat \<Rightarrow> parser \<Rightarrow> nat" where
  "last_consumed first st = (if first < pa_index st then pa_index st - 1 else first)"

definition error_node :: "nat \<Rightarrow> parse_error \<Rightarrow> parser \<Rightarrow> nat \<times> parser" where
  "error_node i why st = new_node ((node_over Error_node i i)\<lparr>nd_error := why\<rparr>) st"

text \<open>A token that cannot begin what is wanted becomes an error node of its own.\<close>

definition advance_as_error :: "parser \<Rightarrow> (nat \<times> parser) option" where
  "advance_as_error st = do { (i, st1) \<leftarrow> advance st; Some (error_node i Unexpected_operator st1) }"

text \<open>The command substitutions written in a word, and inside its double quotes: the first argument is how
  many levels of quotes are still followed, \<open>max_quote_nesting\<close> at the word itself.\<close>

definition max_quote_nesting :: nat where "max_quote_nesting = 9"

definition found_interior :: "nat \<Rightarrow> nat \<Rightarrow> token \<Rightarrow> tree \<Rightarrow> tree" where
  "found_interior word_token depth segment tr =
     (case command_sub_interior (tr_source tr) segment of
        None \<Rightarrow> tr
      | Some (opened, closed) \<Rightarrow>
          add_sub_parse \<lparr>sub_word_token = word_token,
            sub_interior = \<lparr>sp_offset = opened, sp_length = closed - opened\<rparr>, sub_root = None,
            sub_depth = depth, sub_node_begin = 0, sub_node_end = 0\<rparr> tr)"

fun scan_for_interiors :: "nat \<Rightarrow> nat \<Rightarrow> nat \<Rightarrow> nat \<Rightarrow> nat \<Rightarrow> lex_mode \<Rightarrow> tree \<Rightarrow> tree" where
  "scan_for_interiors 0 word_token depth start stop mode tr = tr"
| "scan_for_interiors (Suc n) word_token depth start stop mode tr =
     (if stop \<le> start then tr
      else fold (\<lambda>segment tr.
             if tk_kind segment = Seg_command_sub then found_interior word_token depth segment tr
             else if tk_kind segment = Seg_double_quoted then
               scan_for_interiors n word_token depth (tk_offset segment + 1)
                 (if tk_error segment = No_error then end_offset segment - 1 else end_offset segment)
                 Double_quote_interior tr
             else tr)
           (lex_all mode (lexer_at (take stop (tr_source tr)) start)) tr)"

definition queue_sub_parses :: "nat \<Rightarrow> parser \<Rightarrow> parser" where
  "queue_sub_parses word_token st =
     (case token_at st word_token of w \<Rightarrow>
      (case length (tr_source (pa_tree st)) of input_end \<Rightarrow>
        if kMaxSubParseDepth \<le> pa_sub_depth st \<or> tk_literal w \<or> tk_length w = 0 \<or> input_end \<le> tk_offset w then st
        else st\<lparr>pa_tree := scan_for_interiors max_quote_nesting word_token (pa_sub_depth st) (tk_offset w)
               (min (end_offset w) input_end) Word_interior (pa_tree st)\<rparr>))"

definition word_node :: "nat \<Rightarrow> node_kind \<Rightarrow> word_role \<Rightarrow> parser \<Rightarrow> nat \<times> parser" where
  "word_node i kind role st =
     new_node ((node_over kind i i)\<lparr>nd_aux := role_code role,
         nd_error := (if is_error (token_at st i) then Unterminated_word else No_defect)\<rparr>)
       (queue_sub_parses i st)"

text \<open>Consuming a word and pushing its node.\<close>

definition push_word :: "word_role \<Rightarrow> parser \<Rightarrow> parser option" where
  "push_word role st = do {
     (i, st1) \<leftarrow> advance st;
     Some (case word_node i Word_node role st1 of (w, st2) \<Rightarrow> push w st2) }"

subsection \<open>Redirections\<close>

fun io_number_loop :: "string \<Rightarrow> u64 \<Rightarrow> u64" where
  "io_number_loop [] acc = acc"
| "io_number_loop (c # cs) acc =
     (if c = backslash \<and> cs \<noteq> [] \<and> hd cs = newline then io_number_loop (tl cs) acc
      else io_number_loop cs
        (snd (accumulate_digit acc (word_of_int (sbyte c - 48)) 10 (np_high (policy_for Redirection_word_fd)))))"

definition unspecified_fd :: nat where "unspecified_fd = 0xFFFFFFFF"

definition io_number_fd :: "string \<Rightarrow> nat" where
  "io_number_fd digits = unat (io_number_loop digits 0) mod 2 ^ 32"

definition missing_target :: "nat \<Rightarrow> parser \<Rightarrow> node" where
  "missing_target first st = (node_over Error_node first (last_consumed first st))\<lparr>nd_error := Missing_operand\<rparr>"

definition operand_defect :: "parser \<Rightarrow> nat \<Rightarrow> parse_error" where
  "operand_defect st i = (if is_error (token_at st i) then Unterminated_word else No_defect)"

text \<open>The node and the pending record of a here-document are made before the delimiter is consumed, because the
  token after it may be the newline that collects the bodies.\<close>

definition parse_here_doc :: "nat \<Rightarrow> nat \<Rightarrow> token_kind \<Rightarrow> parser \<Rightarrow> (nat \<times> parser) option" where
  "parse_here_doc first fd oper st =
     (if peek_kind st \<noteq> T_word then Some (new_node (missing_target first st) st)
      else (case pa_index st of delimiter \<Rightarrow>
       (case add_here_doc \<lparr>hb_offset = 0, hb_length = 0, hb_expand = True, hb_strip_tabs = (oper = T_dless_dash),
               hb_fd = (if fd = unspecified_fd then 0 else fd)\<rparr> (pa_tree st) of (slot, tr) \<Rightarrow>
        (case new_node ((node_over Here_doc first delimiter)\<lparr>nd_error := operand_defect st delimiter, nd_aux := slot\<rparr>)
                (st\<lparr>pa_tree := tr\<rparr>) of (n, st1) \<Rightarrow>
          do { r \<leftarrow> advance (st1\<lparr>pa_pending := pa_pending st1 @ [(n, delimiter)]\<rparr>); Some (n, snd r) }))))"

definition parse_redirect :: "parser \<Rightarrow> (nat \<times> parser) option" where
  "parse_redirect st0 =
     (case pa_index st0 of first \<Rightarrow> do {
        (fd, st) \<leftarrow> (if peek_kind st0 = T_io_number then
            do { r \<leftarrow> advance st0; Some (io_number_fd (token_text_at st0 (pa_index st0)), snd r) }
          else Some (unspecified_fd, st0));
        if \<not> is_redirect_operator (peek_kind st) then advance_as_error st
        else do {
          (i, st1) \<leftarrow> advance st;
          if peek_kind st = T_dless \<or> peek_kind st = T_dless_dash then parse_here_doc first fd (peek_kind st) st1
          else if peek_kind st1 \<noteq> T_word then Some (new_node ((missing_target first st1)\<lparr>nd_aux := fd\<rparr>) st1)
          else do {
            (target, st2) \<leftarrow> advance st1;
            Some (case word_node target Word_node Role_redirect_target st2 of (w, st3) \<Rightarrow>
              finish_node ((node_over Redirect first target)\<lparr>nd_error := operand_defect st3 target, nd_aux := fd\<rparr>)
                (mark_scratch st2) (push w st3)) } } })"

definition starts_redirect :: "token_kind \<Rightarrow> bool" where
  "starts_redirect k \<longleftrightarrow> is_redirect_operator k \<or> k = T_io_number"

definition attach_trailing_redirects :: "nat \<times> parser \<Rightarrow> (nat \<times> parser) option" where
  "attach_trailing_redirects r =
     (case r of (compound, st) \<Rightarrow>
      if \<not> starts_redirect (peek_kind st) then Some (compound, st)
      else do {
        st1 \<leftarrow> loop (\<lambda>st. if starts_redirect (peek_kind st)
                 then do { (n, st1) \<leftarrow> parse_redirect st; Some (Inl (push n st1)) } else Some (Inr st)) (push compound st);
        (case nd_first (tr_nodes (pa_tree st1) ! compound) of first \<Rightarrow>
          Some (finish_node (node_over Brace_group first (last_consumed first st1)) (mark_scratch st) st1)) })"

end
