(* ===== verification/Grammar.thy ===== *)
theory Grammar
  imports Parser
begin

text \<open>
  The grammar rules of the parser (\<^verbatim>\<open>src/syntax/parser.cpp\<close>), one function per member function.  Lists,
  pipelines and commands are what the rules recur through: each rule takes \<open>rec\<close>, which parses them, and
  \<open>parse_nt\<close> is the least function that is its own \<open>rec\<close>.
\<close>

unbundle bit_operations_syntax

declare One_nat_def [simp del]

datatype rule_name = N_list | N_pipeline | N_command

type_synonym descent = "rule_name \<Rightarrow> parser \<Rightarrow> (nat \<times> parser) option"

subsection \<open>Simple commands\<close>

text \<open>One round of the loop over the words and redirections of a command: the flag says whether the word naming
  the command was seen.\<close>

definition command_word :: "nat \<Rightarrow> bool \<Rightarrow> parser \<Rightarrow> ((bool \<times> parser) + parser) option" where
  "command_word mark seen st = do {
     st1 \<leftarrow> (if \<not> seen \<and> mark < mark_scratch st \<and> \<not> looks_like_assignment (token_text_at st (pa_index st))
            then substitute_word st else Some st);
     if pa_index st1 \<noteq> pa_index st then Some (Inl (seen, st1))
     else do {
       (i, st2) \<leftarrow> advance st1;
       Some (if \<not> seen \<and> looks_like_assignment (token_text_at st2 i) then
               (case word_node i Assignment_node Role_ordinary st2 of (w, st3) \<Rightarrow> Inl (seen, push w st3))
             else (case word_node i Word_node (if seen then Role_ordinary else Role_command_name) st2 of
                 (w, st3) \<Rightarrow> Inl (True, push w st3))) } }"

definition command_step :: "nat \<Rightarrow> bool \<times> parser \<Rightarrow> ((bool \<times> parser) + parser) option" where
  "command_step mark run =
     (case run of (seen, st) \<Rightarrow>
      if ends_command (peek_kind st) \<or> mark_scratch st = mark \<and> at_list_terminator st then Some (Inr st)
      else if starts_redirect (peek_kind st) then do { (n, st1) \<leftarrow> parse_redirect st; Some (Inl (seen, push n st1)) }
      else if peek_kind st = T_word then command_word mark seen st
      else do { (n, st1) \<leftarrow> advance_as_error st; Some (Inl (seen, push n st1)) })"

definition parse_command :: "parser \<Rightarrow> (nat \<times> parser) option" where
  "parse_command st = do {
     st1 \<leftarrow> loop (command_step (mark_scratch st)) (False, st);
     Some (finish_node (node_over Simple_command (pa_index st) (last_consumed (pa_index st) st1)) (mark_scratch st) st1) }"

subsection \<open>Compound commands\<close>

text \<open>A list where the grammar requires at least one command, pushed as a child.\<close>

definition push_required_list :: "descent \<Rightarrow> parse_error \<Rightarrow> parser \<Rightarrow> (parse_error \<times> parser) option" where
  "push_required_list rec defect st = do {
     (l, st1) \<leftarrow> rec N_list st;
     Some (case require_list l defect st1 of (defect1, st2) \<Rightarrow> (defect1, push l st2)) }"

text \<open>A keyword and, if it was there, the list it introduces.\<close>

definition body_after :: "descent \<Rightarrow> reserved \<Rightarrow> parse_error \<Rightarrow> parser \<Rightarrow> (parse_error \<times> parser) option" where
  "body_after rec want defect st = do {
     (taken, defect1, st1) \<leftarrow> require_word want defect st;
     if taken then push_required_list rec defect1 st1 else Some (defect1, st1) }"

definition closed_node :: "node_kind \<Rightarrow> nat \<Rightarrow> nat \<Rightarrow> parse_error \<Rightarrow> nat \<Rightarrow> parser \<Rightarrow> nat \<times> parser" where
  "closed_node kind first aux defect mark st =
     finish_node ((node_over kind first (last_consumed first st))\<lparr>nd_error := defect, nd_aux := aux\<rparr>) mark st"

definition if_step :: "descent \<Rightarrow> nat \<times> parse_error \<times> parser \<Rightarrow>
    ((nat \<times> parse_error \<times> parser) + (nat \<times> parse_error \<times> parser)) option" where
  "if_step rec run =
     (case run of (pairs, defect, st) \<Rightarrow> do {
        (defect1, st1) \<leftarrow> push_required_list rec defect st;
        (taken, defect2, st2) \<leftarrow> require_word Kw_then defect1 st1;
        if \<not> taken then Some (Inr (pairs, defect2, st2))
        else do {
          (defect3, st3) \<leftarrow> push_required_list rec defect2 st2;
          (again, st4) \<leftarrow> accept Kw_elif st3;
          Some (if again then Inl (pairs + 1, defect3, st4) else Inr (pairs + 1, defect3, st4)) } })"

definition parse_if :: "descent \<Rightarrow> parser \<Rightarrow> (nat \<times> parser) option" where
  "parse_if rec st0 = do {
     (first, st) \<leftarrow> accept_keyword st0;
     (pairs, defect, st1) \<leftarrow> loop (if_step rec) (0, No_defect, st);
     (otherwise, st2) \<leftarrow> accept Kw_else st1;
     (defect1, st3) \<leftarrow> (if otherwise then push_required_list rec defect st2 else Some (defect, st2));
     (closed, defect2, st4) \<leftarrow> require_word Kw_fi defect1 st3;
     Some (closed_node If_clause first pairs defect2 (mark_scratch st0) st4) }"

definition parse_while_or_until :: "bool \<Rightarrow> descent \<Rightarrow> parser \<Rightarrow> (nat \<times> parser) option" where
  "parse_while_or_until is_until rec st0 = do {
     (first, st) \<leftarrow> accept_keyword st0;
     (defect, st1) \<leftarrow> push_required_list rec No_defect st;
     (defect1, st2) \<leftarrow> body_after rec Kw_do defect st1;
     (closed, defect2, st3) \<leftarrow> require_word Kw_done defect1 st2;
     Some (closed_node (if is_until then Until_loop else While_loop) first 0 defect2 (mark_scratch st0) st3) }"

definition top_bit :: nat where "top_bit = 0x80000000"

text \<open>The words of a \<open>for\<close> list are words, whatever they spell.\<close>

definition push_words :: "parser \<Rightarrow> parser option" where
  "push_words =
     loop (\<lambda>st. if peek_kind st = T_word then do { st1 \<leftarrow> push_word Role_ordinary st; Some (Inl st1) }
       else Some (Inr st))"

definition for_name :: "parser \<Rightarrow> (nat \<times> parse_error \<times> parser) option" where
  "for_name st =
     (if peek_kind st = T_word then do { (i, st1) \<leftarrow> advance st; Some (i, No_defect, st1) }
      else Some (pa_index st, record_missing Missing_operand No_defect st))"

definition parse_for :: "descent \<Rightarrow> parser \<Rightarrow> (nat \<times> parser) option" where
  "parse_for rec st0 = do {
     (first, st) \<leftarrow> accept_keyword (st0\<lparr>pa_plain_word := True\<rparr>);
     (name_token, defect, st1) \<leftarrow> for_name (st\<lparr>pa_plain_word := False\<rparr>);
     st2 \<leftarrow> skip_newlines st1;
     (has_in, st3) \<leftarrow> accept Kw_in st2;
     st4 \<leftarrow> (if has_in then push_words st3 else Some st3);
     st5 \<leftarrow> skip_separators st4;
     (defect1, st6) \<leftarrow> body_after rec Kw_do defect st5;
     (closed, defect2, st7) \<leftarrow> require_word Kw_done defect1 st6;
     Some (closed_node For_loop first (name_token OR (if has_in then top_bit else 0)) defect2 (mark_scratch st0) st7) }"

definition push_patterns :: "parser \<Rightarrow> (nat \<times> parser) option" where
  "push_patterns st =
     loop (\<lambda>(patterns, st). if peek_kind st \<noteq> T_word then Some (Inr (patterns, st))
       else do {
         st1 \<leftarrow> push_word Role_pattern st;
         if peek_kind st1 \<noteq> T_pipe then Some (Inr (patterns + 1, st1))
         else do { r \<leftarrow> advance st1; Some (Inl (patterns + 1, snd r)) } }) (0, st)"

definition parse_case_item :: "descent \<Rightarrow> parser \<Rightarrow> (nat \<times> parser) option" where
  "parse_case_item rec st0 = do {
     st \<leftarrow> (if peek_kind st0 = T_lparen then do { r \<leftarrow> advance st0; Some (snd r) } else Some st0);
     (patterns, st1) \<leftarrow> push_patterns st;
     (closed, defect, st2) \<leftarrow> require_token T_rparen No_defect st1;
     (l, st3) \<leftarrow> rec N_list st2;
     Some (closed_node Case_item (pa_index st0)
       (patterns OR (if peek_kind st3 = T_semi_and then top_bit else 0)) defect (mark_scratch st0) (push l st3)) }"

definition case_step :: "descent \<Rightarrow> parser \<Rightarrow> (parser + parser) option" where
  "case_step rec st =
     (if peek_kind st = T_end \<or> peek_reserved st = Kw_esac then Some (Inr st)
      else do {
        (item, st1) \<leftarrow> parse_case_item rec st;
        st2 \<leftarrow> (if peek_kind st1 = T_dsemi \<or> peek_kind st1 = T_semi_and
               then do { r \<leftarrow> advance (push item st1); Some (snd r) } else Some (push item st1));
        st3 \<leftarrow> skip_separators st2;
        Some (if pa_index st3 = pa_index st then Inr st3 else Inl st3) })"

definition parse_case :: "descent \<Rightarrow> parser \<Rightarrow> (nat \<times> parser) option" where
  "parse_case rec st0 = do {
     (first, st) \<leftarrow> accept_keyword st0;
     st1 \<leftarrow> (if peek_kind st = T_word then push_word Role_case_subject st else Some st);
     st2 \<leftarrow> skip_newlines st1;
     (taken, defect, st3) \<leftarrow> require_word Kw_in No_defect st2;
     st4 \<leftarrow> skip_separators st3;
     st5 \<leftarrow> loop (case_step rec) st4;
     (closed, defect1, st6) \<leftarrow> require_word Kw_esac defect st5;
     Some (closed_node Case_clause first 0 defect1 (mark_scratch st0) st6) }"

definition parse_brace_group :: "descent \<Rightarrow> parser \<Rightarrow> (nat \<times> parser) option" where
  "parse_brace_group rec st0 = do {
     (first, st) \<leftarrow> accept_keyword st0;
     (defect, st1) \<leftarrow> push_required_list rec No_defect st;
     (closed, defect1, st2) \<leftarrow> require_word Kw_rbrace defect st1;
     Some (closed_node Brace_group first 0 defect1 (mark_scratch st0) st2) }"

definition parse_subshell :: "descent \<Rightarrow> parser \<Rightarrow> (nat \<times> parser) option" where
  "parse_subshell rec st0 = do {
     (first, st) \<leftarrow> advance st0;
     (defect, st1) \<leftarrow> push_required_list rec No_defect st;
     (closed, defect1, st2) \<leftarrow> require_token T_rparen defect st1;
     Some (closed_node Subshell first 0 defect1 (mark_scratch st0) st2) }"

definition parse_function_definition :: "descent \<Rightarrow> parser \<Rightarrow> (nat \<times> parser) option" where
  "parse_function_definition rec st0 = do {
     (name_token, st) \<leftarrow> advance st0;
     (opened, st1) \<leftarrow> advance st;
     (closed, st2) \<leftarrow> advance st1;
     st3 \<leftarrow> skip_separators st2;
     (body, st4) \<leftarrow> rec N_command st3;
     Some (closed_node Function_definition (pa_index st0) name_token No_defect (mark_scratch st3) (push body st4)) }"

definition parse_command_or_compound :: "descent \<Rightarrow> parser \<Rightarrow> (nat \<times> parser) option" where
  "parse_command_or_compound rec st0 = do {
     st \<leftarrow> substitute_word st0;
     if peek_kind st = T_lparen then do { r \<leftarrow> parse_subshell rec st; attach_trailing_redirects r }
     else if at_function_definition st then parse_function_definition rec st
     else if peek_reserved st = Kw_if then do { r \<leftarrow> parse_if rec st; attach_trailing_redirects r }
     else if peek_reserved st = Kw_while then do { r \<leftarrow> parse_while_or_until False rec st; attach_trailing_redirects r }
     else if peek_reserved st = Kw_until then do { r \<leftarrow> parse_while_or_until True rec st; attach_trailing_redirects r }
     else if peek_reserved st = Kw_for then do { r \<leftarrow> parse_for rec st; attach_trailing_redirects r }
     else if peek_reserved st = Kw_case then do { r \<leftarrow> parse_case rec st; attach_trailing_redirects r }
     else if peek_reserved st = Kw_lbrace then do { r \<leftarrow> parse_brace_group rec st; attach_trailing_redirects r }
     else parse_command st }"

subsection \<open>Pipelines and lists\<close>

definition parse_pipeline :: "descent \<Rightarrow> parser \<Rightarrow> (nat \<times> parser) option" where
  "parse_pipeline rec st0 = do {
     st \<leftarrow> substitute_word st0;
     (negated, st1) \<leftarrow> accept Kw_bang st;
     if negated then do {
       (inner, st2) \<leftarrow> rec N_pipeline st1;
       Some (closed_node Negation (pa_index st0) 0 No_defect (mark_scratch st1) (push inner st2)) }
     else do {
       (first_command, st2) \<leftarrow> rec N_command st1;
       st3 \<leftarrow> loop (\<lambda>st. if peek_kind st \<noteq> T_pipe then Some (Inr st)
         else do {
           r \<leftarrow> advance st;
           st1 \<leftarrow> skip_linebreak (snd r);
           (n, st2) \<leftarrow> rec N_command st1;
           Some (Inl (push n st2)) }) (push first_command st2);
       Some (if mark_scratch st3 - mark_scratch st1 = 1 then
               (pa_scratch st3 ! mark_scratch st1, st3\<lparr>pa_scratch := take (mark_scratch st1) (pa_scratch st3)\<rparr>)
             else closed_node Pipeline (pa_index st0) 0 No_defect (mark_scratch st1) st3) } }"

definition join_and_or :: "nat \<Rightarrow> nat \<Rightarrow> nat \<Rightarrow> parser \<Rightarrow> nat \<times> parser" where
  "join_and_or oper left right st =
     (case add_children [left, right] (pa_tree st) of (start, tr) \<Rightarrow>
        new_node ((node_over And_or (nd_first (tr_nodes tr ! left)) (nd_last (tr_nodes tr ! right)))
            \<lparr>nd_start := start, nd_count := 2, nd_aux := oper\<rparr>)
          (st\<lparr>pa_tree := tr\<rparr>))"

definition parse_and_or :: "descent \<Rightarrow> parser \<Rightarrow> (nat \<times> parser) option" where
  "parse_and_or rec st0 = do {
     r \<leftarrow> rec N_pipeline st0;
     loop (\<lambda>(left, st). if peek_kind st \<noteq> T_and_if \<and> peek_kind st \<noteq> T_or_if then Some (Inr (left, st))
       else do {
         (oper, st1) \<leftarrow> advance st;
         st2 \<leftarrow> skip_linebreak st1;
         (right, st3) \<leftarrow> rec N_pipeline st2;
         Some (Inl (join_and_or oper left right st3)) }) r }"

definition parse_list_item :: "descent \<Rightarrow> parser \<Rightarrow> (nat \<times> parser) option" where
  "parse_list_item rec st0 = do {
     (item, st) \<leftarrow> parse_and_or rec st0;
     if peek_kind st \<noteq> T_amp then Some (item, st)
     else do {
       (amp, st1) \<leftarrow> advance st;
       Some (finish_node (node_over Async_list (nd_first (tr_nodes (pa_tree st1) ! item))
           (if 0 < pa_index st1 then pa_index st1 - 1 else 0)) (mark_scratch st1) (push item st1)) } }"

text \<open>An item of a list, and the token no item can begin with as an error node after it.\<close>

definition push_list_item :: "descent \<Rightarrow> parser \<Rightarrow> parser option" where
  "push_list_item rec st = do {
     (item, st1) \<leftarrow> parse_list_item rec st;
     if pa_index st1 \<noteq> pa_index st then Some (push item st1)
     else do { (n, st2) \<leftarrow> advance_as_error (push item st1); Some (push n st2) } }"

definition list_step :: "descent \<Rightarrow> parser \<Rightarrow> (parser + parser) option" where
  "list_step rec st0 =
     (if is_separator (peek_kind st0) then do { r \<leftarrow> advance st0; Some (Inl (snd r)) }
      else do {
        st \<leftarrow> substitute_word st0;
        if is_separator (peek_kind st) then Some (Inl st)
        else if peek_kind st \<in> {T_end, T_rparen, T_dsemi, T_semi_and} \<or> at_list_terminator st then Some (Inr st)
        else do { st1 \<leftarrow> push_list_item rec st; Some (Inl st1) } })"

definition parse_compound_list :: "descent \<Rightarrow> parser \<Rightarrow> (nat \<times> parser) option" where
  "parse_compound_list rec st0 = do {
     st \<leftarrow> loop (list_step rec) st0;
     Some (closed_node Compound_list (pa_index st0) 0 No_defect (mark_scratch st0) st) }"

definition parse_rule :: "descent \<Rightarrow> descent" where
  "parse_rule rec nt =
     (case nt of N_list \<Rightarrow> parse_compound_list rec | N_pipeline \<Rightarrow> parse_pipeline rec
      | N_command \<Rightarrow> parse_command_or_compound rec)"

subsection \<open>Tying the knot\<close>

text \<open>Every rule is monotone in \<open>rec\<close>: it can only return more when \<open>rec\<close> does.\<close>

lemma push_required_list_mono [partial_function_mono]:
  "(\<And>nt st. mono_option (\<lambda>f. rec f nt st)) \<Longrightarrow> mono_option (\<lambda>f. push_required_list (rec f) defect st)"
  unfolding push_required_list_def by (intro partial_function_mono)

lemma body_after_mono [partial_function_mono]:
  "(\<And>nt st. mono_option (\<lambda>f. rec f nt st)) \<Longrightarrow> mono_option (\<lambda>f. body_after (rec f) want defect st)"
  unfolding body_after_def by (intro partial_function_mono)

lemma if_step_mono [partial_function_mono]:
  "(\<And>nt st. mono_option (\<lambda>f. rec f nt st)) \<Longrightarrow> mono_option (\<lambda>f. if_step (rec f) run)"
  unfolding if_step_def by (intro partial_function_mono)

lemma parse_if_mono [partial_function_mono]:
  "(\<And>nt st. mono_option (\<lambda>f. rec f nt st)) \<Longrightarrow> mono_option (\<lambda>f. parse_if (rec f) st)"
  unfolding parse_if_def by (intro partial_function_mono)

lemma parse_while_or_until_mono [partial_function_mono]:
  "(\<And>nt st. mono_option (\<lambda>f. rec f nt st)) \<Longrightarrow> mono_option (\<lambda>f. parse_while_or_until u (rec f) st)"
  unfolding parse_while_or_until_def by (intro partial_function_mono)

lemma parse_for_mono [partial_function_mono]:
  "(\<And>nt st. mono_option (\<lambda>f. rec f nt st)) \<Longrightarrow> mono_option (\<lambda>f. parse_for (rec f) st)"
  unfolding parse_for_def by (intro partial_function_mono)

lemma parse_case_item_mono [partial_function_mono]:
  "(\<And>nt st. mono_option (\<lambda>f. rec f nt st)) \<Longrightarrow> mono_option (\<lambda>f. parse_case_item (rec f) st)"
  unfolding parse_case_item_def by (intro partial_function_mono)

lemma case_step_mono [partial_function_mono]:
  "(\<And>nt st. mono_option (\<lambda>f. rec f nt st)) \<Longrightarrow> mono_option (\<lambda>f. case_step (rec f) st)"
  unfolding case_step_def by (intro partial_function_mono)

lemma parse_case_mono [partial_function_mono]:
  "(\<And>nt st. mono_option (\<lambda>f. rec f nt st)) \<Longrightarrow> mono_option (\<lambda>f. parse_case (rec f) st)"
  unfolding parse_case_def by (intro partial_function_mono)

lemma parse_brace_group_mono [partial_function_mono]:
  "(\<And>nt st. mono_option (\<lambda>f. rec f nt st)) \<Longrightarrow> mono_option (\<lambda>f. parse_brace_group (rec f) st)"
  unfolding parse_brace_group_def by (intro partial_function_mono)

lemma parse_subshell_mono [partial_function_mono]:
  "(\<And>nt st. mono_option (\<lambda>f. rec f nt st)) \<Longrightarrow> mono_option (\<lambda>f. parse_subshell (rec f) st)"
  unfolding parse_subshell_def by (intro partial_function_mono)

lemma parse_function_definition_mono [partial_function_mono]:
  "(\<And>nt st. mono_option (\<lambda>f. rec f nt st)) \<Longrightarrow> mono_option (\<lambda>f. parse_function_definition (rec f) st)"
  unfolding parse_function_definition_def by (intro partial_function_mono)

lemma parse_command_or_compound_mono [partial_function_mono]:
  "(\<And>nt st. mono_option (\<lambda>f. rec f nt st)) \<Longrightarrow> mono_option (\<lambda>f. parse_command_or_compound (rec f) st)"
  unfolding parse_command_or_compound_def by (intro partial_function_mono)

lemma parse_pipeline_mono [partial_function_mono]:
  "(\<And>nt st. mono_option (\<lambda>f. rec f nt st)) \<Longrightarrow> mono_option (\<lambda>f. parse_pipeline (rec f) st)"
  unfolding parse_pipeline_def by (intro partial_function_mono)

lemma parse_and_or_mono [partial_function_mono]:
  "(\<And>nt st. mono_option (\<lambda>f. rec f nt st)) \<Longrightarrow> mono_option (\<lambda>f. parse_and_or (rec f) st)"
  unfolding parse_and_or_def by (intro partial_function_mono)

lemma parse_list_item_mono [partial_function_mono]:
  "(\<And>nt st. mono_option (\<lambda>f. rec f nt st)) \<Longrightarrow> mono_option (\<lambda>f. parse_list_item (rec f) st)"
  unfolding parse_list_item_def by (intro partial_function_mono)

lemma push_list_item_mono [partial_function_mono]:
  "(\<And>nt st. mono_option (\<lambda>f. rec f nt st)) \<Longrightarrow> mono_option (\<lambda>f. push_list_item (rec f) st)"
  unfolding push_list_item_def by (intro partial_function_mono)

lemma list_step_mono [partial_function_mono]:
  "(\<And>nt st. mono_option (\<lambda>f. rec f nt st)) \<Longrightarrow> mono_option (\<lambda>f. list_step (rec f) st)"
  unfolding list_step_def by (intro partial_function_mono)

lemma parse_compound_list_mono [partial_function_mono]:
  "(\<And>nt st. mono_option (\<lambda>f. rec f nt st)) \<Longrightarrow> mono_option (\<lambda>f. parse_compound_list (rec f) st)"
  unfolding parse_compound_list_def by (intro partial_function_mono)

lemma parse_rule_mono [partial_function_mono]:
  "(\<And>nt st. mono_option (\<lambda>f. rec f nt st)) \<Longrightarrow> mono_option (\<lambda>f. parse_rule (rec f) nt st)"
  by (cases nt) (simp_all add: parse_rule_def partial_function_mono)

partial_function (option) parse_nt :: descent where
  "parse_nt nt st = parse_rule parse_nt nt st"


subsection \<open>Programs\<close>

definition body_step :: "bool \<Rightarrow> parser \<Rightarrow> (parser + parser) option" where
  "body_step one_command st =
     (if peek_kind st = T_end then Some (Inr st)
      else if is_separator (peek_kind st) then do {
        r \<leftarrow> advance st;
        Some (if one_command \<and> pa_stack st = [] \<and> peek_kind st = T_newline then Inr (snd r) else Inl (snd r)) }
      else do { st1 \<leftarrow> push_list_item parse_nt st; Some (Inl st1) })"

definition parse_body :: "bool \<Rightarrow> parser \<Rightarrow> (nat \<times> parser) option" where
  "parse_body one_command st0 = do {
     st \<leftarrow> loop (body_step one_command) st0;
     (case (if peek_kind st = T_end then st\<lparr>pa_cursor := length (tr_source (pa_tree st))\<rparr> else st) of st1 \<Rightarrow>
        Some (finish_node (node_over Program (pa_index st0) (pa_index st1)) (mark_scratch st0) st1)) }"

definition set_root :: "nat \<times> parser \<Rightarrow> parser" where
  "set_root r = (snd r)\<lparr>pa_tree := (pa_tree (snd r))\<lparr>tr_root := Some (fst r)\<rparr>\<rparr>"

text \<open>One interior: the lexer is handed the source cut off where the interior ends.\<close>

definition parse_interior :: "nat \<Rightarrow> parser \<Rightarrow> parser option" where
  "parse_interior i st =
     (case tr_sub_parses (pa_tree st) ! i of entry \<Rightarrow> do {
        st1 \<leftarrow> fill (st\<lparr>pa_sub_depth := sub_depth entry + 1,
                 pa_lexer := lexer_at (take (span_end (sub_interior entry)) (tr_source (pa_tree st)))
                   (sp_offset (sub_interior entry)),
                 pa_index := 0\<rparr>);
        (root, st2) \<leftarrow> parse_body False st1;
        Some (st2\<lparr>pa_tree := set_sub_parse_result i root (length (tr_nodes (pa_tree st1)))
                   (length (tr_nodes (pa_tree st2))) (pa_tree st2),
                 pa_pending := []\<rparr>) })"

definition interior_step :: "nat \<times> parser \<Rightarrow> ((nat \<times> parser) + parser) option" where
  "interior_step run =
     (case run of (i, st) \<Rightarrow>
      if length (tr_sub_parses (pa_tree st)) \<le> i then Some (Inr st)
      else do { st1 \<leftarrow> parse_interior i st; Some (Inl (i + 1, st1)) })"

definition parse_sub_interiors :: "parser \<Rightarrow> parser option" where
  "parse_sub_interiors st0 =
     (case st0\<lparr>pa_tree := seal_top_level (pa_tree st0)\<rparr> of st \<Rightarrow>
        if tr_sub_parses (pa_tree st) = [] then Some st
        else do {
          st1 \<leftarrow> loop interior_step
            (0, st\<lparr>pa_aliases := None, pa_in_sub_parse := True, pa_stack := [], pa_pending := []\<rparr>);
          Some (st1\<lparr>pa_in_sub_parse := False, pa_aliases := pa_aliases st0, pa_cursor := pa_cursor st0\<rparr>) })"

definition new_parser :: "string \<Rightarrow> alias_source option \<Rightarrow> nat \<Rightarrow> parser option" where
  "new_parser source aliases start =
     fill \<lparr>pa_lexer = lexer_at source start, pa_tree = tree_init source, pa_scratch = [], pa_pending = [],
           pa_stack = [], pa_aliases = aliases, pa_plain_word = False, pa_index = 0, pa_cursor = start,
           pa_in_sub_parse = False, pa_sub_depth = 0\<rparr>"

definition parse :: "string \<Rightarrow> alias_source option \<Rightarrow> tree option" where
  "parse source aliases = do {
     st \<leftarrow> new_parser source aliases 0;
     r \<leftarrow> parse_body False st;
     st1 \<leftarrow> parse_sub_interiors (set_root r);
     Some (pa_tree st1) }"

definition parse_next_command :: "string \<Rightarrow> nat \<Rightarrow> alias_source option \<Rightarrow> (tree \<times> nat) option" where
  "parse_next_command source position aliases = do {
     st \<leftarrow> new_parser source aliases position;
     r \<leftarrow> parse_body True st;
     st1 \<leftarrow> parse_sub_interiors (set_root r);
     Some (pa_tree st1, pa_cursor st1) }"

end
