(* ===== verification/TreeShape.thy ===== *)
theory TreeShape
  imports Grammar "HOL-Library.Sublist"
begin

text \<open>
  The shape of a parse tree: what the comments on \<open>node_kind\<close> in \<^verbatim>\<open>src/syntax/ast.h\<close> promise of the children,
  the tokens and the \<open>aux\<close> of each kind of node, as one predicate on a node of a tree.
\<close>

unbundle bit_operations_syntax

declare One_nat_def [simp del]

subsection \<open>The levels of the grammar\<close>

definition compound_kinds :: "node_kind set" where
  "compound_kinds = {If_clause, While_loop, Until_loop, For_loop, Case_clause, Subshell, Brace_group}"

definition command_kinds :: "node_kind set" where
  "command_kinds = {Simple_command, Function_definition} \<union> compound_kinds"

definition pipeline_kinds :: "node_kind set" where
  "pipeline_kinds = {Pipeline, Negation} \<union> command_kinds"

definition and_or_kinds :: "node_kind set" where
  "and_or_kinds = insert And_or pipeline_kinds"

definition item_kinds :: "node_kind set" where
  "item_kinds = {Async_list, Error_node} \<union> and_or_kinds"

definition redirect_kinds :: "node_kind set" where
  "redirect_kinds = {Redirect, Here_doc, Error_node}"

lemmas kind_sets = compound_kinds_def command_kinds_def pipeline_kinds_def and_or_kinds_def item_kinds_def
  redirect_kinds_def

lemma kind_levels:
  "compound_kinds \<subseteq> command_kinds" "command_kinds \<subseteq> pipeline_kinds" "pipeline_kinds \<subseteq> and_or_kinds"
  "and_or_kinds \<subseteq> item_kinds" "Error_node \<in> item_kinds" "Async_list \<in> item_kinds"
  by (auto simp: kind_sets)

definition is_word :: "word_role \<Rightarrow> node \<Rightarrow> bool" where
  "is_word role n \<longleftrightarrow> nd_kind n = Word_node \<and> nd_aux n = role_code role"

text \<open>A list that holds at least one command.\<close>

definition is_list :: "node \<Rightarrow> bool" where
  "is_list n \<longleftrightarrow> nd_kind n = Compound_list"

definition is_full_list :: "node \<Rightarrow> bool" where
  "is_full_list n \<longleftrightarrow> nd_kind n = Compound_list \<and> 0 < nd_count n"

text \<open>The parts of a simple command: assignments only before the word that names it, redirections anywhere.\<close>

inductive command_parts :: "bool \<Rightarrow> node list \<Rightarrow> bool" where
  parts_none: "command_parts False []"
| parts_redirect: "command_parts seen ns \<Longrightarrow> nd_kind n \<in> redirect_kinds \<Longrightarrow> command_parts seen (ns @ [n])"
| parts_assignment: "command_parts False ns \<Longrightarrow> nd_kind n = Assignment_node \<Longrightarrow> command_parts False (ns @ [n])"
| parts_name: "command_parts False ns \<Longrightarrow> is_word Role_command_name n \<Longrightarrow> command_parts True (ns @ [n])"
| parts_argument: "command_parts True ns \<Longrightarrow> is_word Role_ordinary n \<Longrightarrow> command_parts True (ns @ [n])"

subsection \<open>The children of a node\<close>

fun well_shaped :: "node_kind \<Rightarrow> bool \<Rightarrow> nat \<Rightarrow> node list \<Rightarrow> bool" where
  "well_shaped Error_node sound aux ns \<longleftrightarrow> ns = []"
| "well_shaped Program sound aux ns \<longleftrightarrow> (\<forall>n \<in> set ns. nd_kind n \<in> item_kinds)"
| "well_shaped Compound_list sound aux ns \<longleftrightarrow> (\<forall>n \<in> set ns. nd_kind n \<in> item_kinds)"
| "well_shaped And_or sound aux ns \<longleftrightarrow> (\<exists>l r. ns = [l, r] \<and> nd_kind l \<in> and_or_kinds \<and> nd_kind r \<in> pipeline_kinds)"
| "well_shaped Pipeline sound aux ns \<longleftrightarrow> 2 \<le> length ns \<and> (\<forall>n \<in> set ns. nd_kind n \<in> command_kinds)"
| "well_shaped Negation sound aux ns \<longleftrightarrow> (\<exists>n. ns = [n] \<and> nd_kind n \<in> pipeline_kinds)"
| "well_shaped Async_list sound aux ns \<longleftrightarrow> (\<exists>n. ns = [n] \<and> nd_kind n \<in> and_or_kinds)"
| "well_shaped Simple_command sound aux ns \<longleftrightarrow> (\<exists>seen. command_parts seen ns)"
| "well_shaped Word_node sound aux ns \<longleftrightarrow> ns = [] \<and> (\<exists>role. aux = role_code role)"
| "well_shaped Assignment_node sound aux ns \<longleftrightarrow> ns = []"
| "well_shaped Redirect sound aux ns \<longleftrightarrow> (\<exists>n. ns = [n] \<and> is_word Role_redirect_target n)"
| "well_shaped Here_doc sound aux ns \<longleftrightarrow> ns = []"
| "well_shaped If_clause sound aux ns \<longleftrightarrow>
     list_all is_list ns \<and>
     (sound \<longrightarrow> list_all is_full_list ns \<and> 1 \<le> aux \<and> (length ns = 2 * aux \<or> length ns = 2 * aux + 1))"
| "well_shaped While_loop sound aux ns \<longleftrightarrow>
     list_all is_list ns \<and> length ns \<le> 2 \<and> (sound \<longrightarrow> list_all is_full_list ns \<and> length ns = 2)"
| "well_shaped Until_loop sound aux ns \<longleftrightarrow>
     list_all is_list ns \<and> length ns \<le> 2 \<and> (sound \<longrightarrow> list_all is_full_list ns \<and> length ns = 2)"
| "well_shaped For_loop sound aux ns \<longleftrightarrow>
     (\<exists>ws ls has_in name. ns = ws @ ls \<and> list_all (is_word Role_ordinary) ws \<and> (\<not> has_in \<longrightarrow> ws = []) \<and>
        list_all is_list ls \<and> length ls \<le> 1 \<and> (sound \<longrightarrow> list_all is_full_list ls \<and> length ls = 1) \<and>
        aux = name OR (if has_in then top_bit else 0))"
| "well_shaped Case_clause sound aux ns \<longleftrightarrow>
     (\<exists>ss items. ns = ss @ items \<and> length ss \<le> 1 \<and> list_all (is_word Role_case_subject) ss \<and>
        list_all (\<lambda>n. nd_kind n = Case_item) items)"
| "well_shaped Case_item sound aux ns \<longleftrightarrow>
     (\<exists>ws l falls_through. ns = ws @ [l] \<and> list_all (is_word Role_pattern) ws \<and> is_list l \<and>
        aux = length ws OR (if falls_through then top_bit else 0))"
| "well_shaped Subshell sound aux ns \<longleftrightarrow> (\<exists>l. ns = [l] \<and> is_list l \<and> (sound \<longrightarrow> is_full_list l))"
| "well_shaped Brace_group sound aux ns \<longleftrightarrow>
     (\<exists>l. ns = [l] \<and> is_list l \<and> (sound \<longrightarrow> is_full_list l)) \<or>
     (\<exists>c rs. ns = c # rs \<and> rs \<noteq> [] \<and> nd_kind c \<in> compound_kinds \<and> (\<forall>r \<in> set rs. nd_kind r \<in> redirect_kinds))"
| "well_shaped Function_definition sound aux ns \<longleftrightarrow> (\<exists>n. ns = [n] \<and> nd_kind n \<in> command_kinds)"

subsection \<open>The tokens of a node\<close>

text \<open>The reserved word a token of the tree spells.\<close>

definition spelled :: "tree \<Rightarrow> nat \<Rightarrow> reserved" where
  "spelled tr k = word_reserved (tr_tokens tr ! k) (text_of_token tr (tr_tokens tr ! k))"

definition within :: "node \<Rightarrow> (nat \<Rightarrow> bool) \<Rightarrow> bool" where
  "within n P \<longleftrightarrow> (\<exists>k. nd_first n < k \<and> k \<le> nd_last n \<and> P k)"

text \<open>A construct begins with the word or the parenthesis it is named after, and one without a defect is closed.\<close>

definition bracketed :: "tree \<Rightarrow> node \<Rightarrow> reserved \<Rightarrow> reserved \<Rightarrow> bool" where
  "bracketed tr n opening closing \<longleftrightarrow>
     spelled tr (nd_first n) = opening \<and>
     (nd_error n = No_defect \<longrightarrow> within n (\<lambda>k. spelled tr k = closing))"

definition children_nodes :: "tree \<Rightarrow> node \<Rightarrow> node list" where
  "children_nodes tr n = map (\<lambda>c. tr_nodes tr ! c) (children_of tr n)"

text \<open>The brace group made of a compound command and its redirections has no words of its own.\<close>

definition carries_redirects :: "node list \<Rightarrow> bool" where
  "carries_redirects ns \<longleftrightarrow> ns \<noteq> [] \<and> nd_kind (hd ns) \<noteq> Compound_list"

definition well_delimited :: "tree \<Rightarrow> node \<Rightarrow> node list \<Rightarrow> bool" where
  "well_delimited tr n ns =
     (case nd_kind n of
        If_clause \<Rightarrow> bracketed tr n Kw_if Kw_fi
      | While_loop \<Rightarrow> bracketed tr n Kw_while Kw_done
      | Until_loop \<Rightarrow> bracketed tr n Kw_until Kw_done
      | For_loop \<Rightarrow> bracketed tr n Kw_for Kw_done
      | Case_clause \<Rightarrow> bracketed tr n Kw_case Kw_esac
      | Brace_group \<Rightarrow> carries_redirects ns \<or> bracketed tr n Kw_lbrace Kw_rbrace
      | Subshell \<Rightarrow> tk_kind (tr_tokens tr ! nd_first n) = T_lparen \<and>
          (nd_error n = No_defect \<longrightarrow> within n (\<lambda>k. tk_kind (tr_tokens tr ! k) = T_rparen))
      | Case_item \<Rightarrow> nd_error n = No_defect \<longrightarrow> 
          (\<exists>k. nd_first n \<le> k \<and> k \<le> nd_last n \<and> tk_kind (tr_tokens tr ! k) = T_rparen)
      | And_or \<Rightarrow> tk_kind (tr_tokens tr ! nd_aux n) \<in> {T_and_if, T_or_if} \<and> nd_aux n < length (tr_tokens tr)
      | Negation \<Rightarrow> spelled tr (nd_first n) = Kw_bang \<or> within n (\<lambda>k. spelled tr k = Kw_bang)
      | Function_definition \<Rightarrow> nd_aux n = nd_first n \<and> tk_kind (tr_tokens tr ! nd_first n) = T_word
      | Word_node \<Rightarrow> tk_kind (tr_tokens tr ! nd_first n) = T_word \<and> nd_last n = nd_first n
      | Assignment_node \<Rightarrow> tk_kind (tr_tokens tr ! nd_first n) = T_word \<and> nd_last n = nd_first n
      | Here_doc \<Rightarrow> nd_aux n < length (tr_here_docs tr)
      | _ \<Rightarrow> True)"

definition well_formed_node :: "tree \<Rightarrow> nat \<Rightarrow> bool" where
  "well_formed_node tr i =
     (case tr_nodes tr ! i of n \<Rightarrow>
        nd_start n + nd_count n \<le> length (tr_children tr) \<and>
        (\<forall>c \<in> set (children_of tr n). c < i \<and> nd_first n \<le> nd_first (tr_nodes tr ! c)) \<and>
        nd_first n \<le> nd_last n \<and> nd_last n < length (tr_tokens tr) \<and>
        well_shaped (nd_kind n) (nd_error n = No_defect) (nd_aux n) (children_nodes tr n) \<and>
        well_delimited tr n (children_nodes tr n))"

subsection \<open>What growing a tree keeps\<close>

text \<open>Every offset below the end of the registered text keeps its bytes when more text is registered.\<close>

definition text_space :: "tree \<Rightarrow> bool" where
  "text_space tr \<longleftrightarrow> tr_region_end tr = length (tr_source tr) + sum_list (map (\<lambda>r. length (rg_text r)) (tr_regions tr))"

definition tokens_placed :: "tree \<Rightarrow> bool" where
  "tokens_placed tr \<longleftrightarrow> (\<forall>t \<in> set (tr_tokens tr). tk_kind t \<noteq> T_end \<longrightarrow> tk_offset t < tr_region_end tr)"

definition extends :: "tree \<Rightarrow> tree \<Rightarrow> bool" where
  "extends tr tr1 \<longleftrightarrow>
     tr_source tr1 = tr_source tr \<and> prefix (tr_tokens tr) (tr_tokens tr1) \<and> prefix (tr_nodes tr) (tr_nodes tr1) \<and>
     prefix (tr_children tr) (tr_children tr1) \<and> prefix (tr_regions tr) (tr_regions tr1) \<and>
     length (tr_here_docs tr) \<le> length (tr_here_docs tr1)"

lemma extends_refl [simp, intro]: "extends tr tr"
  by (simp add: extends_def)

lemma extends_trans: "extends a b \<Longrightarrow> extends b c \<Longrightarrow> extends a c"
  by (auto simp: extends_def intro: prefix_order.trans)

lemma prefix_nth: "prefix xs ys \<Longrightarrow> i < length xs \<Longrightarrow> ys ! i = xs ! i"
  by (auto simp: prefix_def nth_append)

lemma prefix_slice: "prefix xs ys \<Longrightarrow> a + n \<le> length xs \<Longrightarrow> take n (drop a ys) = take n (drop a xs)"
  by (auto simp: prefix_def)

lemma region_at_append:
  "base \<le> offset \<Longrightarrow> offset < base + sum_list (map (\<lambda>r. length (rg_text r)) rs) \<Longrightarrow> region_at (rs @ rest) base offset = region_at rs base offset"
  by (induction rs arbitrary: base) auto

lemma text_at_extends:
  assumes "extends tr tr1" "text_space tr" "offset < tr_region_end tr"
  shows "text_at tr1 offset len = text_at tr offset len"
proof -
  obtain rs where "tr_regions tr1 = tr_regions tr @ rs" "tr_source tr1 = tr_source tr"
    using assms(1) by (auto simp: extends_def prefix_def)
  then show ?thesis using assms(2,3) by (simp add: text_at_def text_space_def region_at_append)
qed

lemma spelled_extends:
  assumes "extends tr tr1" "text_space tr" "tokens_placed tr" "k < length (tr_tokens tr)"
  shows "spelled tr1 k = spelled tr k"
proof -
  have t: "tr_tokens tr1 ! k = tr_tokens tr ! k" using assms by (auto simp: extends_def intro: prefix_nth)
  show ?thesis
  proof (cases "tk_kind (tr_tokens tr ! k) = T_end")
    case False
    then have "tk_offset (tr_tokens tr ! k) < tr_region_end tr" using assms(3,4) by (simp add: tokens_placed_def)
    then show ?thesis using assms by (simp add: spelled_def t text_of_token_def text_at_extends)
  qed (simp add: spelled_def t word_reserved_def)
qed

lemma children_of_extends:
  "extends tr tr1 \<Longrightarrow> nd_start n + nd_count n \<le> length (tr_children tr) \<Longrightarrow> children_of tr1 n = children_of tr n"
  by (simp add: extends_def children_of_def prefix_slice)

lemma well_formed_node_extends:
  assumes "extends tr tr1" "text_space tr" "tokens_placed tr" "i < length (tr_nodes tr)" "well_formed_node tr i"
  shows "well_formed_node tr1 i"
proof -
  let ?n = "tr_nodes tr ! i"
  have tok: "tr_tokens tr1 ! k = tr_tokens tr ! k" if "k < length (tr_tokens tr)" for k
    using assms(1) that by (auto simp: extends_def intro: prefix_nth)
  have node: "tr_nodes tr1 ! k = tr_nodes tr ! k" if "k < length (tr_nodes tr)" for k
    using assms(1) that by (auto simp: extends_def intro: prefix_nth)
  have len: "length (tr_tokens tr) \<le> length (tr_tokens tr1)" "length (tr_children tr) \<le> length (tr_children tr1)"
    "length (tr_here_docs tr) \<le> length (tr_here_docs tr1)"
    using assms(1) by (auto simp: extends_def intro: prefix_length_le)
  have w: "nd_start ?n + nd_count ?n \<le> length (tr_children tr)"
    "\<forall>c \<in> set (children_of tr ?n). c < i \<and> nd_first ?n \<le> nd_first (tr_nodes tr ! c)"
    "nd_first ?n \<le> nd_last ?n" "nd_last ?n < length (tr_tokens tr)"
    "well_shaped (nd_kind ?n) (nd_error ?n = No_defect) (nd_aux ?n) (children_nodes tr ?n)" "well_delimited tr ?n (children_nodes tr ?n)"
    using assms(5) by (simp_all add: well_formed_node_def)
  have kids: "children_of tr1 ?n = children_of tr ?n" by (rule children_of_extends [OF assms(1) w(1)])
  have knodes: "children_nodes tr1 ?n = children_nodes tr ?n"
    unfolding children_nodes_def kids using w(2) assms(4) by (intro map_cong refl node) auto
  have sp: "spelled tr1 k = spelled tr k" if "k \<le> nd_last ?n" for k
    using spelled_extends [OF assms(1,2,3)] that w(4) by simp
  have tk: "tr_tokens tr1 ! k = tr_tokens tr ! k" if "k \<le> nd_last ?n" for k using tok that w(4) by simp
  have br: "bracketed tr1 ?n a b = bracketed tr ?n a b" for a b
    using w(3) by (auto simp: bracketed_def within_def sp)
  have "well_delimited tr1 ?n (children_nodes tr ?n)"
    using w(6) w(3) len tok
    by (cases "nd_kind ?n") (auto simp: well_delimited_def br knodes within_def sp tk)
  then show ?thesis
    using w len assms(4) by (auto simp: well_formed_node_def node kids knodes)
qed

end
