(* ===== verification/ParserReads.thy ===== *)
theory ParserReads
  imports TreeShape
begin

text \<open>
  What drawing tokens does to the parser.  \<open>potential\<close> is the measure of all its loops: the bytes left in the
  input and in the alias bodies, each weighed by how many aliases can still be entered from where it stands, and the
  token being looked at.  An alias body in use is not entered again, so the measure is a number whatever the alias
  table holds, and every token taken lowers it.
\<close>

declare One_nat_def [simp del]

subsection \<open>The measure\<close>

definition alias_values :: "parser \<Rightarrow> string set" where
  "alias_values st = (case pa_aliases st of None \<Rightarrow> {} | Some table \<Rightarrow> set (map snd table))"

definition alias_level :: "string set \<Rightarrow> alias_frame list \<Rightarrow> nat" where
  "alias_level A fs = card (A - af_text ` set fs)"

definition weight :: "string set \<Rightarrow> alias_frame list \<Rightarrow> nat" where
  "weight A fs = Suc (Max (insert 0 (length ` A))) ^ alias_level A fs"

definition remaining :: "lexer \<Rightarrow> nat" where
  "remaining lx = length (lx_source lx) - lx_position lx"

fun bodies_weight :: "string set \<Rightarrow> alias_frame list \<Rightarrow> nat" where
  "bodies_weight A [] = 0"
| "bodies_weight A (f # fs) = remaining (af_lexer f) * weight A (f # fs) + bodies_weight A fs"

definition left_to_read :: "parser \<Rightarrow> nat" where
  "left_to_read st = bodies_weight (alias_values st) (pa_stack st) + remaining (pa_lexer st) * weight (alias_values st) []"

definition potential :: "parser \<Rightarrow> nat" where
  "potential st = (if peek_kind st = T_end then 0 else weight (alias_values st) (pa_stack st)) + left_to_read st"

lemma weight_pos [simp]: "0 < weight A fs"
  by (simp add: weight_def)

lemma finite_alias_values [simp]: "finite (alias_values st)"
  by (simp add: alias_values_def split: option.splits)

text \<open>Entering an alias body costs less than the word it replaces.\<close>

lemma alias_level_push:
  assumes "finite A" "af_text f \<in> A" "af_text f \<notin> af_text ` set fs"
  shows "alias_level A fs = Suc (alias_level A (f # fs))"
proof -
  have "A - af_text ` set fs = insert (af_text f) (A - af_text ` set (f # fs))" using assms by auto
  then have "alias_level A fs = card (insert (af_text f) (A - af_text ` set (f # fs)))" unfolding alias_level_def by (rule arg_cong)
  also have "\<dots> = Suc (alias_level A (f # fs))" unfolding alias_level_def using assms(1) by (subst card_insert_disjoint) auto
  finally show ?thesis .
qed

lemma weight_push:
  assumes "finite A" "af_text f \<in> A" "af_text f \<notin> af_text ` set fs"
  shows "length (af_text f) * weight A (f # fs) < weight A fs"
proof -
  have "length (af_text f) \<le> Max (insert 0 (length ` A))" using assms by (intro Max_ge) auto
  then have "length (af_text f) * weight A (f # fs) < Suc (Max (insert 0 (length ` A))) * weight A (f # fs)"
    using weight_pos [of A "f # fs"] by (intro mult_strict_right_mono) simp_all
  also have "\<dots> = weight A fs" by (simp add: weight_def alias_level_push [OF assms])
  finally show ?thesis .
qed

subsection \<open>Lexers in range\<close>

definition lexer_ok :: "lexer \<Rightarrow> bool" where
  "lexer_ok lx \<longleftrightarrow> lx_position lx \<le> length (lx_source lx)"

lemma next_past_comments_shape:
  assumes "lexer_ok lx" "next_past_comments lx = (comments, t, before, lx1)"
  shows "lx_source lx1 = lx_source lx" "lx_position lx \<le> before" "before \<le> tk_offset t"
    "lx_position lx1 = end_offset t" "lexer_ok lx1" "tk_kind t \<noteq> T_comment"
    "if tk_kind t = T_end then tk_length t = 0 \<and> tk_offset t = length (lx_source lx)
     else 0 < tk_length t \<and> tk_offset t < length (lx_source lx)"
proof -
  have "lx_source lx1 = lx_source lx \<and> lx_position lx \<le> before \<and> before \<le> tk_offset t \<and>
    lx_position lx1 = end_offset t \<and> lexer_ok lx1 \<and> tk_kind t \<noteq> T_comment \<and>
    (if tk_kind t = T_end then tk_length t = 0 \<and> tk_offset t = length (lx_source lx)
     else 0 < tk_length t \<and> tk_offset t < length (lx_source lx))"
    using assms
  proof (induction lx arbitrary: comments rule: next_past_comments.induct)
    case (1 lx)
    obtain u lx2 where n: "next_token Command lx = (u, lx2)" by fastforce
    have le: "lx_position lx \<le> length (lx_source lx)" using 1 by (simp add: lexer_ok_def)
    note shape = next_token_shape [OF le n]
    have "lexer_ok lx2" using shape by (simp add: lexer_ok_def)
    show ?case
    proof (cases "tk_kind u = T_comment")
      case True
      obtain cs where step: "next_past_comments lx2 = (cs, t, before, lx1)"
        using 1(3) le True by (subst (asm) next_past_comments.simps) (simp add: n split: prod.splits)
      have "tk_kind u = T_comment \<and> lx_position lx \<le> length (lx_source lx)" using True le by simp
      then show ?thesis using 1(1) [of u lx2 cs] \<open>lexer_ok lx2\<close> step n le shape
        by (auto simp: end_offset_def split: if_splits)
    next
      case False
      then have "t = u" "before = lx_position lx" "lx1 = lx2"
        using 1(3) by (subst (asm) next_past_comments.simps, simp add: n)+
      then show ?thesis using False shape \<open>lexer_ok lx2\<close> by (auto simp: end_offset_def lexer_ok_def split: if_splits)
    qed
  qed
  then show "lx_source lx1 = lx_source lx" "lx_position lx \<le> before" "before \<le> tk_offset t"
    "lx_position lx1 = end_offset t" "lexer_ok lx1" "tk_kind t \<noteq> T_comment"
    "if tk_kind t = T_end then tk_length t = 0 \<and> tk_offset t = length (lx_source lx)
     else 0 < tk_length t \<and> tk_offset t < length (lx_source lx)" by simp_all
qed

lemma remaining_next:
  assumes "lexer_ok lx" "next_past_comments lx = (comments, t, before, lx1)"
  shows "remaining lx1 \<le> remaining lx" "tk_kind t \<noteq> T_end \<Longrightarrow> remaining lx1 < remaining lx"
  using next_past_comments_shape [OF assms] by (auto simp: remaining_def end_offset_def lexer_ok_def split: if_splits)

lemma collect_lines_bounds:
  "at \<le> length s \<Longrightarrow> collect_lines s raw strip_tabs at b = (terminated, body_stop, after) \<Longrightarrow>
   at \<le> after \<and> after \<le> length s"
proof (induction s raw strip_tabs at b rule: collect_lines.induct)
  case (1 s raw strip_tabs at b)
  let ?line = "takeWhile (\<lambda>c. c \<noteq> newline) (drop at s)"
  have len: "at + length ?line \<le> length s"
    using length_takeWhile_le [of "\<lambda>c. c \<noteq> newline" "drop at s"] 1(2) by simp
  show ?case
    using 1 len by (subst (asm) (2) collect_lines.simps) (auto split: if_splits)
qed

subsection \<open>Parsers in order\<close>

definition frame_ok :: "nat \<Rightarrow> alias_frame \<Rightarrow> bool" where
  "frame_ok limit f \<longleftrightarrow>
     lexer_ok (af_lexer f) \<and> lx_source (af_lexer f) = af_text f \<and> af_base f + length (af_text f) \<le> limit"

definition pending_ok :: "tree \<Rightarrow> nat \<times> nat \<Rightarrow> bool" where
  "pending_ok tr p \<longleftrightarrow> fst p < length (tr_nodes tr) \<and> snd p < length (tr_tokens tr)"

definition ready :: "parser \<Rightarrow> bool" where
  "ready st \<longleftrightarrow>
     lexer_ok (pa_lexer st) \<and> length (lx_source (pa_lexer st)) \<le> length (tr_source (pa_tree st)) \<and>
     (\<forall>f \<in> set (pa_stack st). frame_ok (tr_region_end (pa_tree st)) f) \<and>
     text_space (pa_tree st) \<and> tokens_placed (pa_tree st) \<and>
     (\<forall>i < length (tr_nodes (pa_tree st)). well_formed_node (pa_tree st) i)"

definition looking :: "parser \<Rightarrow> bool" where
  "looking st \<longleftrightarrow> pa_index st < length (tr_tokens (pa_tree st))"

definition cursor_kept :: "parser \<Rightarrow> bool" where
  "cursor_kept st \<longleftrightarrow>
     pa_cursor st \<le> lx_position (pa_lexer st) \<and>
     (pa_stack st = [] \<and> peek_kind st \<noteq> T_end \<longrightarrow> pa_cursor st < lx_position (pa_lexer st))"

text \<open>What drawing leaves alone.\<close>

definition drew :: "parser \<Rightarrow> parser \<Rightarrow> bool" where
  "drew st st1 \<longleftrightarrow>
     extends (pa_tree st) (pa_tree st1) \<and> tr_nodes (pa_tree st1) = tr_nodes (pa_tree st) \<and>
     tr_children (pa_tree st1) = tr_children (pa_tree st) \<and> tr_sub_parses (pa_tree st1) = tr_sub_parses (pa_tree st) \<and>
     tr_root (pa_tree st1) = tr_root (pa_tree st) \<and> tr_top_level_end (pa_tree st1) = tr_top_level_end (pa_tree st) \<and>
     pa_scratch st1 = pa_scratch st \<and> pa_aliases st1 = pa_aliases st \<and> pa_in_sub_parse st1 = pa_in_sub_parse st \<and>
     pa_sub_depth st1 = pa_sub_depth st"

lemma drew_refl [simp, intro]: "drew st st"
  by (simp add: drew_def)

lemma drew_trans: "drew a b \<Longrightarrow> drew b c \<Longrightarrow> drew a c"
  by (auto simp: drew_def intro: extends_trans)

lemma add_comments_tree: "\<exists>cs. add_comments base comments tr = tr\<lparr>tr_comments := cs\<rparr>"
proof (induction comments arbitrary: tr)
  case Nil
  show ?case by (auto simp: add_comments_def intro: exI [of _ "tr_comments tr"])
next
  case (Cons t ts)
  show ?case using Cons.IH [of "add_comment \<lparr>sp_offset = tk_offset t + base, sp_length = tk_length t\<rparr> tr"]
    by (auto simp: add_comments_def add_comment_def)
qed

lemma add_comments_fields [simp]:
  "tr_source (add_comments base cs tr) = tr_source tr" "tr_tokens (add_comments base cs tr) = tr_tokens tr"
  "tr_nodes (add_comments base cs tr) = tr_nodes tr" "tr_children (add_comments base cs tr) = tr_children tr"
  "tr_regions (add_comments base cs tr) = tr_regions tr" "tr_region_end (add_comments base cs tr) = tr_region_end tr"
  "tr_here_docs (add_comments base cs tr) = tr_here_docs tr" "tr_sub_parses (add_comments base cs tr) = tr_sub_parses tr"
  "tr_root (add_comments base cs tr) = tr_root tr" "tr_top_level_end (add_comments base cs tr) = tr_top_level_end tr"
  by (use add_comments_tree [of base cs tr] in auto)

lemma weight_same [simp]: "weight A (f\<lparr>af_lexer := lx\<rparr> # fs) = weight A (f # fs)"
  by (simp add: weight_def alias_level_def)

lemma draw_alias_ok:
  assumes "\<forall>f \<in> set fs. frame_ok limit f" "draw_alias e tr fs = (e1, tr1, fs1, drawn)"
  shows "\<exists>cs. tr1 = tr\<lparr>tr_comments := cs\<rparr>" "\<forall>f \<in> set fs1. frame_ok limit f" "drawn = None \<longleftrightarrow> fs1 = []"
    "\<And>t. drawn = Some t \<Longrightarrow> tk_kind t \<noteq> T_end \<and> tk_offset t < limit \<and>
       end_offset t = af_base (hd fs1) + lx_position (af_lexer (hd fs1)) \<and>
       weight A fs1 + bodies_weight A fs1 \<le> bodies_weight A fs"
    "fs = [] \<Longrightarrow> e1 = e"
proof -
  have "(\<exists>cs. tr1 = tr\<lparr>tr_comments := cs\<rparr>) \<and> (\<forall>f \<in> set fs1. frame_ok limit f) \<and> (drawn = None \<longleftrightarrow> fs1 = []) \<and>
    (\<forall>t. drawn = Some t \<longrightarrow> tk_kind t \<noteq> T_end \<and> tk_offset t < limit \<and>
       end_offset t = af_base (hd fs1) + lx_position (af_lexer (hd fs1)) \<and>
       weight A fs1 + bodies_weight A fs1 \<le> bodies_weight A fs) \<and> (fs = [] \<longrightarrow> e1 = e)"
    using assms
  proof (induction fs arbitrary: e tr)
    case Nil
    then show ?case by (auto intro: exI [of _ "tr_comments tr"])
  next
    case (Cons f fs)
    obtain comments t before lx where n: "next_past_comments (af_lexer f) = (comments, t, before, lx)"
      by (metis prod.exhaust)
    have f: "lexer_ok (af_lexer f)" "lx_source (af_lexer f) = af_text f" "af_base f + length (af_text f) \<le> limit"
      using Cons.prems(1) by (simp_all add: frame_ok_def)
    note shape = next_past_comments_shape [OF f(1) n]
    obtain cs where cs: "add_comments (af_base f) comments tr = tr\<lparr>tr_comments := cs\<rparr>"
      using add_comments_tree by blast
    show ?case
    proof (cases "tk_kind t = T_end")
      case True
      then show ?thesis using Cons.IH [of "e \<or> af_trailing_blank f" "tr\<lparr>tr_comments := cs\<rparr>"] Cons.prems
        by (auto simp: n cs)
    next
      case False
      have "remaining lx < remaining (af_lexer f)" using remaining_next(2) [OF f(1) n False] .
      then have "Suc (remaining lx) * weight A (f # fs) \<le> remaining (af_lexer f) * weight A (f # fs)"
        by (intro mult_right_mono) simp_all
      with False show ?thesis using Cons.prems shape f
        by (auto simp: n cs frame_ok_def end_offset_def)
    qed
  qed
  then show "\<exists>cs. tr1 = tr\<lparr>tr_comments := cs\<rparr>" "\<forall>f \<in> set fs1. frame_ok limit f" "drawn = None \<longleftrightarrow> fs1 = []"
    "\<And>t. drawn = Some t \<Longrightarrow> tk_kind t \<noteq> T_end \<and> tk_offset t < limit \<and>
       end_offset t = af_base (hd fs1) + lx_position (af_lexer (hd fs1)) \<and>
       weight A fs1 + bodies_weight A fs1 \<le> bodies_weight A fs"
    "fs = [] \<Longrightarrow> e1 = e" by auto
qed

text \<open>Marking the input as incomplete and filling in the bodies of here-documents leave the rest of the tree
  alone.\<close>

definition fills_bodies :: "parser \<Rightarrow> parser \<Rightarrow> bool" where
  "fills_bodies st st1 \<longleftrightarrow>
     (\<exists>inc docs pending. length docs = length (tr_here_docs (pa_tree st)) \<and>
        st1 = st\<lparr>pa_tree := (pa_tree st)\<lparr>tr_incomplete := inc, tr_here_docs := docs\<rparr>, pa_pending := pending\<rparr>)"

lemma fills_bodiesI:
  "st1 = st\<lparr>pa_tree := (pa_tree st)\<lparr>tr_incomplete := inc, tr_here_docs := docs\<rparr>, pa_pending := pending\<rparr> \<Longrightarrow>
   length docs = length (tr_here_docs (pa_tree st)) \<Longrightarrow> fills_bodies st st1"
  by (auto simp: fills_bodies_def)

lemma fills_bodies_refl: "fills_bodies st st"
  by (rule fills_bodiesI [where inc = "tr_incomplete (pa_tree st)" and docs = "tr_here_docs (pa_tree st)" and pending = "pa_pending st"]) simp_all

lemma fills_bodies_trans:
  assumes "fills_bodies a b" "fills_bodies b c"
  shows "fills_bodies a c"
proof -
  obtain inc docs pending where
    b: "length docs = length (tr_here_docs (pa_tree a))"
      "b = a\<lparr>pa_tree := (pa_tree a)\<lparr>tr_incomplete := inc, tr_here_docs := docs\<rparr>, pa_pending := pending\<rparr>"
    using assms(1) by (auto simp: fills_bodies_def)
  obtain inc1 docs1 pending1 where
    c: "length docs1 = length (tr_here_docs (pa_tree b))"
      "c = b\<lparr>pa_tree := (pa_tree b)\<lparr>tr_incomplete := inc1, tr_here_docs := docs1\<rparr>, pa_pending := pending1\<rparr>"
    using assms(2) by (auto simp: fills_bodies_def)
  show ?thesis by (rule fills_bodiesI [where inc = inc1 and docs = docs1 and pending = pending1]) (use b c in simp_all)
qed

lemma fills_bodies_incomplete: "fills_bodies st (mark_incomplete st)"
proof (cases "pa_in_sub_parse st")
  case False
  then show ?thesis
    by (intro fills_bodiesI [where inc = True and docs = "tr_here_docs (pa_tree st)" and pending = "pa_pending st"]) (simp_all add: mark_incomplete_def)
qed (simp add: mark_incomplete_def fills_bodies_refl)

lemma collect_one_ok:
  assumes "at \<le> length s" "collect_one s base entry (at, st) = (after, st1)"
  shows "at \<le> after \<and> after \<le> length s \<and> fills_bodies st st1"
proof -
  obtain n delimiter where e: "entry = (n, delimiter)" by fastforce
  define slot where "slot = nd_aux (tr_nodes (pa_tree st) ! n)"
  obtain terminated body_stop a where c:
    "collect_lines s (token_text_at st delimiter) (hb_strip_tabs (tr_here_docs (pa_tree st) ! slot)) at at =
      (terminated, body_stop, a)" by (metis prod.exhaust)
  define st2 where "st2 = (if terminated then st else mark_incomplete st)"
  have f: "fills_bodies st st2" by (simp add: st2_def fills_bodies_refl fills_bodies_incomplete)
  have "after = a \<and> (\<exists>b. st1 = st2\<lparr>pa_tree := (pa_tree st2)\<lparr>tr_here_docs := (tr_here_docs (pa_tree st2))[slot := b]\<rparr>\<rparr>)"
    using assms(2) c by (auto simp: collect_one_def e slot_def st2_def Let_def)
  then obtain b where a: "after = a"
    and st1: "st1 = st2\<lparr>pa_tree := (pa_tree st2)\<lparr>tr_here_docs := (tr_here_docs (pa_tree st2))[slot := b]\<rparr>\<rparr>" by blast
  have "fills_bodies st2 st1"
    by (rule fills_bodiesI [where inc = "tr_incomplete (pa_tree st2)" and docs = "(tr_here_docs (pa_tree st2))[slot := b]" and pending = "pa_pending st2"])
      (simp_all add: st1)
  then show ?thesis using collect_lines_bounds [OF assms(1) c] a f fills_bodies_trans by blast
qed

lemma collect_here_doc_bodies_ok:
  assumes "base \<le> start" "start - base \<le> length s" "collect_here_doc_bodies s base start st = (resume, st1)"
  shows "start \<le> resume" "resume - base \<le> length s" "fills_bodies st st1"
proof -
  have fold: "at \<le> length s \<Longrightarrow> fold (collect_one s base) entries (at, st) = (after, st2) \<Longrightarrow>
      at \<le> after \<and> after \<le> length s \<and> fills_bodies st st2" for entries at after st st2
  proof (induction entries arbitrary: at st)
    case Nil
    then show ?case by (simp add: fills_bodies_refl)
  next
    case (Cons e es)
    obtain m st3 where m: "collect_one s base e (at, st) = (m, st3)" by fastforce
    have "at \<le> m \<and> m \<le> length s \<and> fills_bodies st st3" by (rule collect_one_ok [OF Cons.prems(1) m])
    moreover have "m \<le> after \<and> after \<le> length s \<and> fills_bodies st3 st2"
      by (rule Cons.IH) (use calculation Cons.prems m in simp_all)
    ultimately show ?case using fills_bodies_trans by (metis le_trans)
  qed
  obtain after st2 where f: "fold (collect_one s base) (pa_pending st) (start - base, st) = (after, st2)" by fastforce
  have b: "start - base \<le> after \<and> after \<le> length s \<and> fills_bodies st st2" by (rule fold [OF assms(2) f])
  have r: "resume = base + after" "st1 = st2\<lparr>pa_pending := []\<rparr>"
    using assms(3) by (simp_all add: collect_here_doc_bodies_def f)
  show "start \<le> resume" "resume - base \<le> length s" using b r assms(1) by auto
  have "fills_bodies st2 st1"
    by (rule fills_bodiesI [where inc = "tr_incomplete (pa_tree st2)" and docs = "tr_here_docs (pa_tree st2)" and pending = "[]"]) (simp_all add: r)
  then show "fills_bodies st st1" using b fills_bodies_trans by blast
qed

subsection \<open>Drawing a token\<close>

lemma ready_nodes:
  assumes "ready st" "drew st st1"
  shows "\<forall>i < length (tr_nodes (pa_tree st1)). well_formed_node (pa_tree st1) i"
  using assms well_formed_node_extends [of "pa_tree st" "pa_tree st1"] by (auto simp: ready_def drew_def)

lemma alias_values_drew: "drew st st1 \<Longrightarrow> alias_values st1 = alias_values st"
  by (simp add: drew_def alias_values_def)

lemma fills_bodies_ok:
  assumes "fills_bodies st st1" "ready st"
  shows "ready st1" "drew st st1" "pa_lexer st1 = pa_lexer st" "pa_stack st1 = pa_stack st" "peek st1 = peek st"
    "pa_index st1 = pa_index st" "pa_cursor st1 = pa_cursor st"
    "length (tr_tokens (pa_tree st1)) = length (tr_tokens (pa_tree st))"
proof -
  obtain inc docs pending where st1: "length docs = length (tr_here_docs (pa_tree st))"
      "st1 = st\<lparr>pa_tree := (pa_tree st)\<lparr>tr_incomplete := inc, tr_here_docs := docs\<rparr>, pa_pending := pending\<rparr>"
    using assms(1) by (auto simp: fills_bodies_def)
  show d: "drew st st1" using st1 by (simp add: drew_def extends_def)
  have "text_space (pa_tree st1) = text_space (pa_tree st)" "tokens_placed (pa_tree st1) = tokens_placed (pa_tree st)"
    using st1 by (simp_all add: text_space_def tokens_placed_def)
  then show "ready st1" using assms(2) ready_nodes [OF assms(2) d] st1 by (simp add: ready_def)
  show "pa_lexer st1 = pa_lexer st" "pa_stack st1 = pa_stack st" "peek st1 = peek st"
    "pa_index st1 = pa_index st" "pa_cursor st1 = pa_cursor st"
    "length (tr_tokens (pa_tree st1)) = length (tr_tokens (pa_tree st))"
    using st1 by (simp_all add: peek_def)
qed

text \<open>What a token drawn gives: a parser in order that looks at it.\<close>

definition drawn_ok :: "parser \<Rightarrow> parser \<Rightarrow> bool" where
  "drawn_ok st st1 \<longleftrightarrow>
     ready st1 \<and> looking st1 \<and> drew st st1 \<and> length (tr_tokens (pa_tree st)) \<le> pa_index st1 \<and>
     potential st1 \<le> left_to_read st \<and>
     (pa_cursor st \<le> lx_position (pa_lexer st) \<longrightarrow> pa_cursor st \<le> pa_cursor st1 \<and> cursor_kept st1)"

lemma took_token_ok:
  assumes "ready st" "tk_kind t \<noteq> T_end \<longrightarrow> tk_offset t < tr_region_end (pa_tree st)"
  shows "ready (took_token t st)" "looking (took_token t st)" "drew st (took_token t st)"
    "pa_index (took_token t st) = length (tr_tokens (pa_tree st))" "peek (took_token t st) = t"
    "pa_lexer (took_token t st) = pa_lexer st" "pa_stack (took_token t st) = pa_stack st"
    "pa_cursor (took_token t st) = pa_cursor st"
    "tr_region_end (pa_tree (took_token t st)) = tr_region_end (pa_tree st)"
proof -
  let ?st1 = "took_token t st"
  show d: "drew st ?st1" by (simp add: took_token_def add_token_def drew_def extends_def)
  show "ready ?st1" using assms ready_nodes [OF assms(1) d]
    by (auto simp: ready_def took_token_def add_token_def text_space_def tokens_placed_def)
qed (simp_all add: took_token_def add_token_def looking_def peek_def)

lemma after_alias_token_ok:
  assumes "ready st" "looking st" "pa_stack st = f # fs" "end_offset (peek st) = af_base f + lx_position (af_lexer f)"
  shows "ready (after_alias_token st) \<and> looking (after_alias_token st) \<and> drew st (after_alias_token st) \<and>
    peek (after_alias_token st) = peek st \<and> pa_index (after_alias_token st) = pa_index st \<and>
    pa_lexer (after_alias_token st) = pa_lexer st \<and> pa_cursor (after_alias_token st) = pa_cursor st \<and>
    (\<exists>lx. pa_stack (after_alias_token st) = f\<lparr>af_lexer := lx\<rparr> # fs \<and> remaining lx \<le> remaining (af_lexer f))"
proof (cases "pa_pending st \<noteq> [] \<and> peek_kind st = T_newline")
  case True
  obtain resume st1 where c: "collect_here_doc_bodies (af_text f) (af_base f) (end_offset (peek st)) st = (resume, st1)"
    by fastforce
  have f: "lexer_ok (af_lexer f)" "lx_source (af_lexer f) = af_text f" "af_base f + length (af_text f) \<le> tr_region_end (pa_tree st)"
    using assms(1,3) by (simp_all add: ready_def frame_ok_def)
  have b: "end_offset (peek st) \<le> resume" "resume - af_base f \<le> length (af_text f)" "fills_bodies st st1"
    by (rule collect_here_doc_bodies_ok [OF _ _ c], use assms(4) f in \<open>simp_all add: lexer_ok_def\<close>)+
  let ?st2 = "st1\<lparr>pa_stack := f\<lparr>af_lexer := seek_lexer (resume - af_base f) (af_lexer f)\<rparr> # fs\<rparr>"
  have a: "after_alias_token st = ?st2" using True c by (simp add: after_alias_token_def assms(3))
  note fb = fills_bodies_ok [OF b(3) assms(1)]
  have d: "drew st ?st2" using fb(2) by (simp add: drew_def)
  have re: "tr_region_end (pa_tree st1) = tr_region_end (pa_tree st)"
    using fb(1,2) assms(1) b(3) by (auto simp: fills_bodies_def)
  have "ready ?st2" using fb(1,3,4) ready_nodes [OF assms(1) d] f b assms(1,3)
    by (auto simp: ready_def frame_ok_def seek_lexer_def lexer_ok_def re)
  then show ?thesis using a d fb assms b f
    by (auto simp: looking_def peek_def remaining_def seek_lexer_def)
next
  case False
  then have a: "after_alias_token st = st" by (auto simp: after_alias_token_def assms(3))
  have "pa_stack st = f\<lparr>af_lexer := af_lexer f\<rparr> # fs" using assms(3) by simp
  then show ?thesis unfolding a using assms by blast
qed

lemma after_input_token_ok:
  assumes "ready st" "looking st" "end_offset (peek st) = lx_position (pa_lexer st)"
  shows "ready (after_input_token st) \<and> looking (after_input_token st) \<and> drew st (after_input_token st) \<and>
    peek (after_input_token st) = peek st \<and> pa_index (after_input_token st) = pa_index st \<and>
    pa_stack (after_input_token st) = pa_stack st \<and> pa_cursor (after_input_token st) = pa_cursor st \<and>
    remaining (pa_lexer (after_input_token st)) \<le> remaining (pa_lexer st) \<and>
    lx_position (pa_lexer st) \<le> lx_position (pa_lexer (after_input_token st))"
proof -
  define st1 where "st1 = (if lx_incomplete (pa_lexer st) then mark_incomplete st else st)"
  have "fills_bodies st st1" by (simp add: st1_def fills_bodies_refl fills_bodies_incomplete)
  note fb = fills_bodies_ok [OF this assms(1)]
  have lx: "lexer_ok (pa_lexer st)" using assms(1) by (simp add: ready_def)
  show ?thesis
  proof (cases "pa_pending st1 \<noteq> [] \<and> peek_kind st1 = T_newline")
    case True
    obtain resume st2 where c:
      "collect_here_doc_bodies (lx_source (pa_lexer st1)) 0 (end_offset (peek st1)) st1 = (resume, st2)" by fastforce
    have le: "end_offset (peek st1) \<le> length (lx_source (pa_lexer st1))" using assms(3) fb lx by (simp add: lexer_ok_def)
    have b: "end_offset (peek st1) \<le> resume" "resume - 0 \<le> length (lx_source (pa_lexer st1))" "fills_bodies st1 st2"
      using collect_here_doc_bodies_ok [OF _ _ c] le by simp_all
    note fb2 = fills_bodies_ok [OF b(3) fb(1)]
    let ?st3 = "st2\<lparr>pa_lexer := seek_lexer resume (pa_lexer st2)\<rparr>"
    have a: "after_input_token st = ?st3" using True le c by (simp add: after_input_token_def st1_def [symmetric])
    have d: "drew st ?st3" using drew_trans [OF fb(2) fb2(2)] by (simp add: drew_def)
    have "ready ?st3" using fb2(1,3) ready_nodes [OF assms(1) d] fb(3) b(2)
      by (auto simp: ready_def seek_lexer_def lexer_ok_def)
    then show ?thesis using a d fb fb2 assms b
      by (auto simp: looking_def peek_def remaining_def seek_lexer_def)
  next
    case False
    then have "after_input_token st = st1" by (auto simp: after_input_token_def st1_def [symmetric])
    then show ?thesis using fb assms by (auto simp: looking_def)
  qed
qed

lemma draw_input_ok:
  assumes "ready st"
  shows "ready (draw_input st) \<and> looking (draw_input st) \<and> drew st (draw_input st) \<and>
    pa_index (draw_input st) = length (tr_tokens (pa_tree st)) \<and> pa_stack (draw_input st) = pa_stack st \<and>
    end_offset (peek (draw_input st)) = lx_position (pa_lexer (draw_input st)) \<and>
    lx_position (pa_lexer st) \<le> pa_cursor (draw_input st) \<and>
    pa_cursor (draw_input st) \<le> lx_position (pa_lexer (draw_input st)) \<and>
    remaining (pa_lexer (draw_input st)) \<le> remaining (pa_lexer st) \<and>
    (peek_kind (draw_input st) \<noteq> T_end \<longrightarrow>
       pa_cursor (draw_input st) < lx_position (pa_lexer (draw_input st)) \<and>
       remaining (pa_lexer (draw_input st)) < remaining (pa_lexer st))"
proof -
  obtain comments t before lx where n: "next_past_comments (pa_lexer st) = (comments, t, before, lx)"
    by (metis prod.exhaust)
  have lx0: "lexer_ok (pa_lexer st)" using assms by (simp add: ready_def)
  note shape = next_past_comments_shape [OF lx0 n]
  let ?st1 = "st\<lparr>pa_tree := add_comments 0 comments (pa_tree st), pa_cursor := before, pa_lexer := lx\<rparr>"
  have d: "drew st ?st1" by (simp add: drew_def extends_def)
  have r: "ready ?st1" using assms ready_nodes [OF assms d] shape
    by (auto simp: ready_def text_space_def tokens_placed_def)
  have "tk_kind t \<noteq> T_end \<longrightarrow> tk_offset t < tr_region_end (pa_tree ?st1)"
    using shape assms by (auto simp: ready_def text_space_def)
  note took = took_token_ok [OF r this]
  have di: "draw_input st = took_token t ?st1" by (simp add: draw_input_def n)
  show ?thesis
    using took drew_trans [OF d took(3)] shape remaining_next [OF lx0 n]
    by (auto simp: di end_offset_def split: if_splits)
qed

lemma draw_ok:
  assumes "ready st" "draw st = (e, st1)"
  shows "drawn_ok st st1" "pa_stack st = [] \<Longrightarrow> \<not> e \<and> lx_position (pa_lexer st) \<le> pa_cursor st1"
proof -
  obtain tr fs drawn where da: "draw_alias False (pa_tree st) (pa_stack st) = (e, tr, fs, drawn)"
    using assms(2) by (auto simp: draw_def split: prod.splits)
  have frames: "\<forall>f \<in> set (pa_stack st). frame_ok (tr_region_end (pa_tree st)) f" using assms(1) by (simp add: ready_def)
  note da_ok = draw_alias_ok [OF frames da]
  obtain cs where tr: "tr = (pa_tree st)\<lparr>tr_comments := cs\<rparr>" using da_ok(1) by blast
  let ?st0 = "st\<lparr>pa_tree := tr, pa_stack := fs\<rparr>"
  have d0: "drew st ?st0" by (simp add: tr drew_def extends_def)
  have sp: "text_space tr = text_space (pa_tree st)" "tokens_placed tr = tokens_placed (pa_tree st)"
    "tr_region_end tr = tr_region_end (pa_tree st)"
    by (simp_all add: tr text_space_def tokens_placed_def)
  have r0: "ready ?st0" using assms(1) ready_nodes [OF assms(1) d0] da_ok(2) by (simp add: ready_def sp) (simp add: tr)
  have ne: "\<not> e" if "pa_stack st = []" using da_ok(5) that by simp
  have "drawn_ok st st1 \<and> (pa_stack st = [] \<longrightarrow> lx_position (pa_lexer st) \<le> pa_cursor st1)"
  proof (cases drawn)
    case (Some t)
    note t = da_ok(4) [OF Some]
    obtain f gs where fs: "fs = f # gs" using da_ok(3) Some by (cases fs) auto
    have st1: "st1 = after_alias_token (took_token t ?st0)" using assms(2) by (simp add: draw_def da Some)
    have "tk_kind t \<noteq> T_end \<longrightarrow> tk_offset t < tr_region_end (pa_tree ?st0)" using t sp by simp
    note took = took_token_ok [OF r0 this]
    have "ready st1 \<and> looking st1 \<and> drew (took_token t ?st0) st1 \<and> peek st1 = t \<and>
      pa_index st1 = length (tr_tokens tr) \<and> pa_lexer st1 = pa_lexer st \<and> pa_cursor st1 = pa_cursor st \<and>
      (\<exists>lx. pa_stack st1 = f\<lparr>af_lexer := lx\<rparr> # gs \<and> remaining lx \<le> remaining (af_lexer f))"
      using after_alias_token_ok [of "took_token t ?st0" f gs] took t unfolding st1 by (simp add: fs)
    then obtain lx where s: "ready st1" "looking st1" "drew (took_token t ?st0) st1" "peek st1 = t"
      "pa_index st1 = length (tr_tokens tr)" "pa_lexer st1 = pa_lexer st" "pa_cursor st1 = pa_cursor st"
      "pa_stack st1 = f\<lparr>af_lexer := lx\<rparr> # gs" "remaining lx \<le> remaining (af_lexer f)" by blast
    have d: "drew st st1" using d0 took(3) s(3) drew_trans by blast
    let ?A = "alias_values st"
    have t4: "weight ?A fs + bodies_weight ?A fs \<le> bodies_weight ?A (pa_stack st)" using t by blast
    have lx: "af_lexer (f\<lparr>af_lexer := lx\<rparr>) = lx" by simp
    have "remaining lx * weight ?A (f # gs) \<le> remaining (af_lexer f) * weight ?A (f # gs)"
      using s(9) by (rule mult_right_mono) simp
    then have "weight ?A (pa_stack st1) + bodies_weight ?A (pa_stack st1) \<le> bodies_weight ?A (pa_stack st)"
      using t4 unfolding s(8) fs bodies_weight.simps weight_same lx by linarith
    then have "potential st1 \<le> left_to_read st"
      using t by (simp add: potential_def left_to_read_def alias_values_drew [OF d] s)
    moreover have "pa_stack st \<noteq> []" using da_ok(3) da Some fs by auto
    ultimately show ?thesis using s d by (simp add: drawn_ok_def tr cursor_kept_def)
  next
    case None
    then have fs: "fs = []" using da_ok(3) by simp
    have st1: "st1 = after_input_token (draw_input ?st0)" using assms(2) by (simp add: draw_def da None)
    note di = draw_input_ok [OF r0]
    have ai: "ready st1 \<and> looking st1 \<and> drew (draw_input ?st0) st1 \<and> peek st1 = peek (draw_input ?st0) \<and>
      pa_index st1 = pa_index (draw_input ?st0) \<and> pa_stack st1 = pa_stack (draw_input ?st0) \<and>
      pa_cursor st1 = pa_cursor (draw_input ?st0) \<and>
      remaining (pa_lexer st1) \<le> remaining (pa_lexer (draw_input ?st0)) \<and>
      lx_position (pa_lexer (draw_input ?st0)) \<le> lx_position (pa_lexer st1)"
      unfolding st1 by (rule after_input_token_ok) (use di in blast)+
    have d: "drew st st1" using d0 di ai drew_trans by blast
    have rem: "remaining (pa_lexer st1) \<le> remaining (pa_lexer st)"
      "peek_kind st1 \<noteq> T_end \<Longrightarrow> Suc (remaining (pa_lexer st1)) \<le> remaining (pa_lexer st)"
      using di ai by auto
    let ?W = "weight (alias_values st) []"
    have "pa_stack st1 = []" using ai di fs by simp
    then have u: "left_to_read st1 = remaining (pa_lexer st1) * ?W"
      and p: "potential st1 = (if peek_kind st1 = T_end then 0 else ?W) + left_to_read st1"
      by (simp_all add: left_to_read_def potential_def alias_values_drew [OF d])
    have u0: "remaining (pa_lexer st) * ?W \<le> left_to_read st" by (simp add: left_to_read_def)
    have "potential st1 \<le> left_to_read st"
    proof (cases "peek_kind st1 = T_end")
      case True
      have "remaining (pa_lexer st1) * ?W \<le> remaining (pa_lexer st) * ?W" by (rule mult_right_mono [OF rem(1)]) simp
      then show ?thesis unfolding p if_P [OF True] using u u0 by linarith
    next
      case False
      have "Suc (remaining (pa_lexer st1)) * ?W \<le> remaining (pa_lexer st) * ?W"
        by (rule mult_right_mono [OF rem(2) [OF False]]) simp
      then show ?thesis unfolding p if_not_P [OF False] using u u0 by (simp only: mult_Suc)
    qed
    then show ?thesis using d ai di
      by (auto simp: drawn_ok_def fs cursor_kept_def tr)
  qed
  then show "drawn_ok st st1" "pa_stack st = [] \<Longrightarrow> \<not> e \<and> lx_position (pa_lexer st) \<le> pa_cursor st1"
    using ne by simp_all
qed

text \<open>Entering an alias body.\<close>

lemma replacement_value:
  "replacement st = Some val \<Longrightarrow>
   val \<in> alias_values st \<and> val \<notin> af_text ` set (pa_stack st) \<and> peek_kind st = T_word \<and> pa_aliases st \<noteq> None"
  by (auto simp: replacement_def alias_values_def split: option.splits if_splits dest!: map_of_SomeD) force+

lemma push_alias_ok:
  assumes "ready st" "looking st" "replacement st = Some val"
  shows "ready (push_alias val st)" "drew st (push_alias val st)" "left_to_read (push_alias val st) < potential st"
    "length (tr_tokens (pa_tree (push_alias val st))) = length (tr_tokens (pa_tree st))"
    "pa_cursor (push_alias val st) = pa_cursor st" "pa_lexer (push_alias val st) = pa_lexer st"
proof -
  let ?st1 = "push_alias val st"
  show d: "drew st ?st1" by (simp add: push_alias_def add_text_region_def drew_def extends_def)
  have stack: "pa_stack ?st1 = \<lparr>af_lexer = lexer_at val 0, af_text = val, af_base = tr_region_end (pa_tree st),
      af_trailing_blank = ends_in_blank val\<rparr> # pa_stack st"
    by (simp add: push_alias_def add_text_region_def)
  show "ready ?st1" using assms(1) ready_nodes [OF assms(1) d] unfolding ready_def stack
    by (auto simp: push_alias_def add_text_region_def frame_ok_def text_space_def tokens_placed_def lexer_ok_def
        lexer_at_def intro: trans_less_add1 le_trans)
  have "length val * weight (alias_values st) (pa_stack ?st1) < weight (alias_values st) (pa_stack st)"
    using weight_push [of "alias_values st" "hd (pa_stack ?st1)" "pa_stack st"] replacement_value [OF assms(3)]
    by (simp add: stack)
  then show "left_to_read ?st1 < potential st"
    using replacement_value [OF assms(3)]
    by (simp add: left_to_read_def potential_def alias_values_drew [OF d])
      (simp add: push_alias_def add_text_region_def remaining_def lexer_at_def)
qed (simp_all add: push_alias_def add_text_region_def)

lemma drawn_ok_trans:
  assumes "drawn_ok a b" "drawn_ok c d" "drew b c" "left_to_read c < potential b"
    "length (tr_tokens (pa_tree c)) = length (tr_tokens (pa_tree b))"
    "pa_cursor c = pa_cursor b" "pa_lexer c = pa_lexer b"
  shows "drawn_ok a d" "pa_index b < pa_index d"
  using assms by (auto simp: drawn_ok_def cursor_kept_def looking_def intro: drew_trans)

lemma substitute_loop_ok:
  assumes refill: "\<And>st. ready st \<Longrightarrow> left_to_read st < u \<Longrightarrow> succeeds (refill st) (drawn_ok st)"
    and st: "drawn_ok st0 st" "potential st \<le> u"
  shows "succeeds (substitute_loop refill n st)
    (\<lambda>st1. st1 = st \<or> drawn_ok st0 st1 \<and> pa_index st < pa_index st1 \<and> potential st1 < potential st)"
  using st
proof (induction n arbitrary: st)
  case (Suc n)
  show ?case
  proof (cases "replacement st")
    case (Some val)
    have ok: "ready st" "looking st" using Suc.prems by (simp_all add: drawn_ok_def)
    note p = push_alias_ok [OF ok Some]
    have "succeeds (refill (push_alias val st)) (drawn_ok (push_alias val st))"
      by (rule refill [OF p(1)]) (use p(3) Suc.prems(2) in simp)
    then obtain st1 where st1: "refill (push_alias val st) = Some st1" "drawn_ok (push_alias val st) st1"
      by (rule succeedsE)
    have d: "drawn_ok st0 st1" "pa_index st < pa_index st1"
      using drawn_ok_trans [OF Suc.prems(1) st1(2) p(2,3,4,5,6)] by simp_all
    have less: "potential st1 < potential st" using st1(2) p(3) by (simp add: drawn_ok_def)
    then have "succeeds (substitute_loop refill n st1)
        (\<lambda>st2. st2 = st1 \<or> drawn_ok st0 st2 \<and> pa_index st1 < pa_index st2 \<and> potential st2 < potential st1)"
      using Suc.IH [OF d(1)] Suc.prems(2) by simp
    then show ?thesis using d less
      by (auto simp: Some st1 elim!: succeeds_mono)
  qed simp
qed simp

lemma fill_ok:
  "ready st \<Longrightarrow> succeeds (fill st) (\<lambda>st1. drawn_ok st st1 \<and>
     (pa_stack st = [] \<longrightarrow> lx_position (pa_lexer st) \<le> pa_cursor st1))"
proof (induction "left_to_read st" arbitrary: st rule: less_induct)
  case less
  obtain e st1 where d: "draw st = (e, st1)" by fastforce
  note dr = draw_ok [OF less.prems d]
  show ?case
  proof (cases "e \<and> pa_aliases st1 \<noteq> None")
    case False
    then show ?thesis using dr by (subst fill.simps) (auto simp: d)
  next
    case True
    have "succeeds (substitute_loop fill kMaxAliasDepth st1)
        (\<lambda>st2. st2 = st1 \<or> drawn_ok st st2 \<and> pa_index st1 < pa_index st2 \<and> potential st2 < potential st1)"
    proof (rule substitute_loop_ok [where u = "left_to_read st"])
      show "succeeds (fill s) (drawn_ok s)" if "ready s" "left_to_read s < left_to_read st" for s
        using less.hyps [OF that(2,1)] by (rule succeeds_mono) simp
    qed (use dr in \<open>simp_all add: drawn_ok_def\<close>)
    then show ?thesis using True dr by (subst fill.simps) (auto simp: d elim!: succeeds_mono)
  qed
qed

end
