(* ===== verification/ParserRules.thy ===== *)
theory ParserRules
  imports ParserReads "HOL-Library.Multiset"
begin

text \<open>
  What each grammar rule does: it returns, it consumes, it leaves the scratch stack as it found it, and every node
  it adds is well formed and is handed to exactly one parent.
\<close>

declare One_nat_def [simp del]

subsection \<open>What a rule keeps\<close>

definition ok :: "parser \<Rightarrow> bool" where
  "ok st \<longleftrightarrow> ready st \<and> looking st"

definition finds :: "parser \<Rightarrow> parser \<Rightarrow> bool" where
  "finds st st1 \<longleftrightarrow>
     (\<exists>found. tr_sub_parses (pa_tree st1) = tr_sub_parses (pa_tree st) @ found \<and>
        (\<forall>s \<in> set found. sub_depth s = pa_sub_depth st \<and> pa_sub_depth st < kMaxSubParseDepth \<and>
           sub_root s = None \<and> span_end (sub_interior s) \<le> length (tr_source (pa_tree st))))"

definition keeps :: "parser \<Rightarrow> parser \<Rightarrow> bool" where
  "keeps st st1 \<longleftrightarrow>
     ok st1 \<and> extends (pa_tree st) (pa_tree st1) \<and> tr_root (pa_tree st1) = tr_root (pa_tree st) \<and>
     tr_top_level_end (pa_tree st1) = tr_top_level_end (pa_tree st) \<and> pa_aliases st1 = pa_aliases st \<and>
     pa_in_sub_parse st1 = pa_in_sub_parse st \<and> pa_sub_depth st1 = pa_sub_depth st \<and> finds st st1 \<and>
     pa_index st \<le> pa_index st1 \<and> potential st1 \<le> potential st \<and>
     (pa_index st < pa_index st1 \<longrightarrow> potential st1 < potential st) \<and>
     (cursor_kept st \<longrightarrow> cursor_kept st1 \<and> pa_cursor st \<le> pa_cursor st1)"

definition reads :: "parser \<Rightarrow> parser \<Rightarrow> bool" where
  "reads st st1 \<longleftrightarrow>
     keeps st st1 \<and> tr_nodes (pa_tree st1) = tr_nodes (pa_tree st) \<and>
     tr_children (pa_tree st1) = tr_children (pa_tree st) \<and> pa_scratch st1 = pa_scratch st"

text \<open>\<open>grew st ns st1\<close>: the nodes \<open>ns\<close>, made of the tokens read meanwhile, came onto the scratch stack, and of the
  nodes added since, each is among them or has become the child of one parent.\<close>

definition spans :: "parser \<Rightarrow> parser \<Rightarrow> nat \<Rightarrow> bool" where
  "spans st st1 n \<longleftrightarrow>
     n < length (tr_nodes (pa_tree st1)) \<and> pa_index st \<le> nd_first (tr_nodes (pa_tree st1) ! n) \<and>
     nd_last (tr_nodes (pa_tree st1) ! n) \<le> pa_index st1"

definition grew :: "parser \<Rightarrow> nat list \<Rightarrow> parser \<Rightarrow> bool" where
  "grew st ns st1 \<longleftrightarrow>
     keeps st st1 \<and> pa_scratch st1 = pa_scratch st @ ns \<and> list_all (spans st st1) ns \<and>
     mset (tr_children (pa_tree st1)) + mset ns =
       mset (tr_children (pa_tree st)) + mset [length (tr_nodes (pa_tree st))..<length (tr_nodes (pa_tree st1))]"

lemma finds_refl: "tr_sub_parses (pa_tree st1) = tr_sub_parses (pa_tree st) \<Longrightarrow> finds st st1"
  by (simp add: finds_def)

lemma finds_trans:
  "finds a b \<Longrightarrow> finds b c \<Longrightarrow> pa_sub_depth b = pa_sub_depth a \<Longrightarrow> tr_source (pa_tree b) = tr_source (pa_tree a) \<Longrightarrow>
   finds a c"
  by (fastforce simp: finds_def)

lemma keeps_refl: "ok st \<Longrightarrow> keeps st st"
  by (simp add: keeps_def finds_refl)

lemma keeps_trans:
  assumes "keeps a b" "keeps b c"
  shows "keeps a c"
proof -
  have src: "tr_source (pa_tree b) = tr_source (pa_tree a)" using assms(1) by (simp add: keeps_def extends_def)
  have "extends (pa_tree a) (pa_tree c)" "finds a c"
    using assms extends_trans finds_trans [OF _ _ _ src] unfolding keeps_def by blast+
  moreover have "pa_index a < pa_index c \<longrightarrow> potential c < potential a"
    using assms unfolding keeps_def by (metis le_neq_implies_less order.strict_trans1 order.strict_trans2)
  moreover have "cursor_kept a \<longrightarrow> cursor_kept c \<and> pa_cursor a \<le> pa_cursor c"
    using assms unfolding keeps_def by (meson le_trans)
  ultimately show ?thesis using assms unfolding keeps_def by simp
qed

lemma keeps_ok: "keeps st st1 \<Longrightarrow> ok st1"
  by (simp add: keeps_def)

lemma keeps_nodes: "keeps st st1 \<Longrightarrow> length (tr_nodes (pa_tree st)) \<le> length (tr_nodes (pa_tree st1))"
  by (simp add: keeps_def extends_def prefix_length_le)

lemma reads_refl: "ok st \<Longrightarrow> reads st st"
  by (simp add: reads_def keeps_refl)

lemma reads_trans: "reads a b \<Longrightarrow> reads b c \<Longrightarrow> reads a c"
  by (auto simp: reads_def intro: keeps_trans)

lemma keeps_node:
  "keeps st st1 \<Longrightarrow> i < length (tr_nodes (pa_tree st)) \<Longrightarrow> tr_nodes (pa_tree st1) ! i = tr_nodes (pa_tree st) ! i"
  by (auto simp: keeps_def extends_def intro: prefix_nth)

lemma reads_grew: "reads st st1 \<Longrightarrow> grew st [] st1"
  by (simp add: reads_def grew_def)

lemma spans_later: "spans a b n \<Longrightarrow> keeps b c \<Longrightarrow> spans a c n"
  using keeps_nodes [of b c] keeps_node [of b c n] by (auto simp: spans_def keeps_def)

lemma spans_earlier: "spans b c n \<Longrightarrow> keeps a b \<Longrightarrow> spans a c n"
  by (auto simp: spans_def keeps_def)

lemma grew_trans:
  assumes "grew a ns b" "grew b ms c"
  shows "grew a (ns @ ms) c"
proof -
  have k: "keeps a b" "keeps b c" using assms by (simp_all add: grew_def)
  have "list_all (spans a c) (ns @ ms)"
    using assms spans_later [OF _ k(2)] spans_earlier [OF _ k(1)] by (auto simp: grew_def list_all_iff)
  moreover have "[length (tr_nodes (pa_tree a))..<length (tr_nodes (pa_tree c))] =
      [length (tr_nodes (pa_tree a))..<length (tr_nodes (pa_tree b))] @
      [length (tr_nodes (pa_tree b))..<length (tr_nodes (pa_tree c))]"
    using keeps_nodes [OF k(1)] keeps_nodes [OF k(2)] by (metis le_add_diff_inverse upt_add_eq_append)
  moreover have "pa_scratch c = pa_scratch a @ ns @ ms" using assms by (simp add: grew_def)
  moreover have "mset (tr_children (pa_tree c)) + mset (ns @ ms) = (mset (tr_children (pa_tree c)) + mset ms) + mset ns"
    by simp
  moreover have "\<dots> = (mset (tr_children (pa_tree b)) + mset ns) +
      mset [length (tr_nodes (pa_tree b))..<length (tr_nodes (pa_tree c))]"
    using assms(2) by (simp add: grew_def)
  moreover have "mset (tr_children (pa_tree b)) + mset ns =
      mset (tr_children (pa_tree a)) + mset [length (tr_nodes (pa_tree a))..<length (tr_nodes (pa_tree b))]"
    using assms(1) by (simp add: grew_def)
  ultimately show ?thesis using keeps_trans [OF k] by (simp only: grew_def mset_append add.assoc)
qed

lemma grew_reads: "grew a ns b \<Longrightarrow> reads b c \<Longrightarrow> grew a ns c"
  using grew_trans [of a ns b "[]" c] reads_grew by auto

lemma reads_grew_trans: "reads a b \<Longrightarrow> grew b ns c \<Longrightarrow> grew a ns c"
  using grew_trans [of a "[]" b ns c] reads_grew by auto

lemma grew_keeps: "grew a ns b \<Longrightarrow> keeps a b"
  by (simp add: grew_def)

lemma reads_keeps: "reads a b \<Longrightarrow> keeps a b"
  by (simp add: reads_def)

lemma keeps_step:
  assumes "keeps a b"
  shows "pa_index a \<le> pa_index b" "potential b \<le> potential a" "pa_index b \<noteq> pa_index a \<Longrightarrow> potential b < potential a"
  using assms by (simp_all add: keeps_def)

lemma reads_less: "reads a b \<Longrightarrow> pa_index a < pa_index b \<Longrightarrow> potential b < potential a"
  by (simp add: reads_def keeps_def)

lemma reads_ok: "reads a b \<Longrightarrow> ok b"
  by (simp add: reads_def keeps_def)

lemma grew_ok: "grew a ns b \<Longrightarrow> ok b"
  by (simp add: grew_def keeps_def)

subsection \<open>Consuming tokens\<close>

lemma drawn_reads:
  assumes "ok st" "drawn_ok c st1" "drew st c" "left_to_read c < potential st"
    "length (tr_tokens (pa_tree c)) = length (tr_tokens (pa_tree st))" "pa_cursor c = pa_cursor st" "pa_lexer c = pa_lexer st"
  shows "reads st st1" "pa_index st < pa_index st1"
proof -
  have d: "drew st st1" using assms(2,3) drew_trans by (auto simp: drawn_ok_def)
  then show "reads st st1" "pa_index st < pa_index st1"
    using assms by (auto simp: reads_def keeps_def ok_def drawn_ok_def drew_def looking_def cursor_kept_def intro: finds_refl)
qed

lemma advance_reads:
  assumes "ok st"
  shows "succeeds (advance st) (\<lambda>(i, st1). i = pa_index st \<and> reads st st1 \<and>
    (peek_kind st \<noteq> T_end \<longrightarrow> pa_index st < pa_index st1 \<and>
       (pa_stack st = [] \<longrightarrow> lx_position (pa_lexer st) \<le> pa_cursor st1)))"
proof (cases "peek_kind st = T_end")
  case True
  then show ?thesis using assms by (simp add: advance_def reads_refl)
next
  case False
  have "ready st" using assms by (simp add: ok_def)
  from fill_ok [OF this] obtain st1 where st1: "fill st = Some st1" "drawn_ok st st1"
      "pa_stack st = [] \<longrightarrow> lx_position (pa_lexer st) \<le> pa_cursor st1"
    by (auto elim: succeedsE)
  have "left_to_read st < potential st" using False by (simp add: potential_def)
  from drawn_reads [OF assms st1(2) drew_refl this] show ?thesis
    using False st1 by (simp add: advance_def)
qed

lemma substitute_word_ok:
  assumes "ok st"
  shows "succeeds (substitute_word st) (\<lambda>st1. reads st st1 \<and> (pa_index st1 = pa_index st \<longrightarrow> st1 = st))"
proof (cases "pa_aliases st = None \<or> replacement st = None")
  case True
  then have "substitute_word st = Some st" by (auto simp: substitute_word_def kMaxAliasDepth_def numeral_eq_Suc)
  then show ?thesis using assms by (simp add: reads_refl)
next
  case False
  then obtain val where val: "replacement st = Some val" by auto
  have s: "ready st" "looking st" using assms by (simp_all add: ok_def)
  note p = push_alias_ok [OF s val]
  from fill_ok [OF p(1)] obtain st1 where st1: "fill (push_alias val st) = Some st1" "drawn_ok (push_alias val st) st1"
    by (auto elim: succeedsE)
  have r: "substitute_word st = substitute_loop fill 15 st1"
    using False val st1 by (simp add: substitute_word_def kMaxAliasDepth_def numeral_eq_Suc)
  have "succeeds (substitute_loop fill 15 st1)
      (\<lambda>st2. st2 = st1 \<or> drawn_ok (push_alias val st) st2 \<and> pa_index st1 < pa_index st2 \<and> potential st2 < potential st1)"
  proof (rule substitute_loop_ok [where u = "left_to_read (push_alias val st)"])
    show "succeeds (fill s) (drawn_ok s)" if "ready s" "left_to_read s < left_to_read (push_alias val st)" for s
      using fill_ok [OF that(1)] by (rule succeeds_mono) simp
  qed (use st1 in \<open>simp_all add: drawn_ok_def\<close>)
  then show ?thesis unfolding r
  proof (rule succeeds_mono)
    fix st2
    assume "st2 = st1 \<or> drawn_ok (push_alias val st) st2 \<and> pa_index st1 < pa_index st2 \<and> potential st2 < potential st1"
    then have "drawn_ok (push_alias val st) st2" using st1 by auto
    from drawn_reads [OF assms this p(2,3,4,5,6)] show "reads st st2 \<and> (pa_index st2 = pa_index st \<longrightarrow> st2 = st)"
      by simp
  qed
qed

lemma reads_same:
  assumes "ok st" "drew st st1" "pa_lexer st1 = pa_lexer st" "pa_stack st1 = pa_stack st" "pa_index st1 = pa_index st"
    "pa_cursor st1 = pa_cursor st" "tr_tokens (pa_tree st1) = tr_tokens (pa_tree st)"
    "tr_regions (pa_tree st1) = tr_regions (pa_tree st)" "tr_region_end (pa_tree st1) = tr_region_end (pa_tree st)"
  shows "reads st st1"
proof -
  have src: "tr_source (pa_tree st1) = tr_source (pa_tree st)" using assms(2) by (simp add: drew_def extends_def)
  have "ready st" using assms(1) by (simp add: ok_def)
  have t: "text_space (pa_tree st1) = text_space (pa_tree st)" "tokens_placed (pa_tree st1) = tokens_placed (pa_tree st)"
    using assms src by (simp_all add: text_space_def tokens_placed_def)
  have "ready st1" using \<open>ready st\<close> ready_nodes [OF \<open>ready st\<close> assms(2)] assms src t by (simp add: ready_def)
  moreover have "potential st1 = potential st" using assms
    by (simp add: potential_def left_to_read_def alias_values_drew [OF assms(2)] peek_def)
  moreover have "cursor_kept st1 = cursor_kept st" using assms by (simp add: cursor_kept_def peek_def)
  ultimately show ?thesis using assms
    by (simp add: reads_def keeps_def ok_def looking_def drew_def finds_refl)
qed

lemma reads_mark_incomplete: "ok st \<Longrightarrow> reads st (mark_incomplete st)"
  by (rule reads_same) (simp_all add: mark_incomplete_def drew_def extends_def)

lemma reads_mark_keyword: "ok st \<Longrightarrow> reads st (st\<lparr>pa_tree := mark_keyword i (pa_tree st)\<rparr>)"
  by (rule reads_same) (simp_all add: mark_keyword_def drew_def extends_def)

lemma reads_plain_word: "ok st \<Longrightarrow> reads st (st\<lparr>pa_plain_word := b\<rparr>)"
  by (rule reads_same) (simp_all add: drew_def)

lemma reads_pending: "ok st \<Longrightarrow> reads st (st\<lparr>pa_pending := ps\<rparr>)"
  by (rule reads_same) (simp_all add: drew_def)

lemma peek_reserved_spelled: "peek_reserved st = spelled (pa_tree st) (pa_index st)"
  by (simp add: peek_reserved_def spelled_def peek_def token_text_at_def token_at_def)

lemma peek_reserved_word: "peek_reserved st \<noteq> Kw_none \<Longrightarrow> peek_kind st = T_word"
  by (auto simp: peek_reserved_def word_reserved_def split: if_splits)

text \<open>A token read stays what it is, and so does what it spells.\<close>

lemma keeps_spelled:
  assumes "ok st" "keeps st st1" "k < length (tr_tokens (pa_tree st))"
  shows "spelled (pa_tree st1) k = spelled (pa_tree st) k" "tr_tokens (pa_tree st1) ! k = tr_tokens (pa_tree st) ! k"
proof -
  have e: "extends (pa_tree st) (pa_tree st1)" using assms(2) by (simp add: keeps_def)
  show "spelled (pa_tree st1) k = spelled (pa_tree st) k"
    by (rule spelled_extends [OF e]) (use assms in \<open>simp_all add: ok_def ready_def\<close>)
  show "tr_tokens (pa_tree st1) ! k = tr_tokens (pa_tree st) ! k"
    using e assms(3) by (auto simp: extends_def intro: prefix_nth)
qed

lemma ok_index: "ok st \<Longrightarrow> pa_index st < length (tr_tokens (pa_tree st))"
  by (simp add: ok_def looking_def)

lemma advance_while_ok:
  assumes "ok st" "\<not> p T_end"
  shows "succeeds (advance_while p st) (\<lambda>st1. reads st st1 \<and> \<not> p (peek_kind st1))"
  unfolding advance_while_def
proof (rule succeeds_loop [where I = "reads st" and f = potential])
  fix s assume s: "reads st s"
  then have "ok s" by (rule reads_ok)
  from advance_reads [OF this] obtain s1 where s1: "advance s = Some (pa_index s, s1)" "reads s s1"
    "peek_kind s \<noteq> T_end \<longrightarrow> pa_index s < pa_index s1" by (auto elim: succeedsE)
  show "succeeds (if p (peek_kind s) then do { r \<leftarrow> advance s; Some (Inl (snd r)) } else Some (Inr s))
      (\<lambda>r. case r of Inl s1 \<Rightarrow> reads st s1 \<and> potential s1 < potential s | Inr s1 \<Rightarrow> reads st s1 \<and> \<not> p (peek_kind s1))"
  proof (cases "p (peek_kind s)")
    case True
    then have "peek_kind s \<noteq> T_end" using assms(2) by auto
    then show ?thesis using True s1 reads_trans [OF s s1(2)] reads_less [OF s1(2)] by simp
  qed (use s in simp)
qed (rule reads_refl [OF assms(1)])

lemma skip_newlines_ok: "ok st \<Longrightarrow> succeeds (skip_newlines st) (reads st)"
  unfolding skip_newlines_def by (rule succeeds_mono [OF advance_while_ok]) simp_all

lemma skip_separators_ok: "ok st \<Longrightarrow> succeeds (skip_separators st) (reads st)"
  unfolding skip_separators_def by (rule succeeds_mono [OF advance_while_ok]) (simp_all add: is_separator_def)

lemma skip_linebreak_ok:
  assumes "ok st"
  shows "succeeds (skip_linebreak st) (reads st)"
  unfolding skip_linebreak_def
proof (rule succeeds_loop [where I = "reads st" and f = potential])
  fix s assume s: "reads st s"
  then have "ok s" by (rule reads_ok)
  from skip_newlines_ok [OF this] obtain s1 where s1: "skip_newlines s = Some s1" "reads s s1" by (auto elim: succeedsE)
  have "ok s1" using s1(2) by (rule reads_ok)
  from substitute_word_ok [OF this] obtain s2 where s2: "substitute_word s1 = Some s2" "reads s1 s2"
    by (auto elim: succeedsE)
  have r2: "reads st s2" using s s1(2) s2(2) reads_trans by blast
  have less: "potential s2 < potential s" if "pa_index s2 \<noteq> pa_index s1"
    using keeps_step(3) [OF reads_keeps [OF s2(2)] that] keeps_step(2) [OF reads_keeps [OF s1(2)]]
    by (rule order.strict_trans2)
  show "succeeds (do { st1 \<leftarrow> skip_newlines s; st2 \<leftarrow> substitute_word st1;
        Some (if pa_index st2 = pa_index st1 then Inr st2 else Inl st2) })
      (\<lambda>r. case r of Inl s1 \<Rightarrow> reads st s1 \<and> potential s1 < potential s | Inr s1 \<Rightarrow> reads st s1)"
    using s1 s2 r2 less by simp
qed (rule reads_refl [OF assms])

lemma accept_keyword_ok:
  assumes "ok st" "peek_kind st \<noteq> T_end"
  shows "succeeds (accept_keyword st) (\<lambda>(i, st1). i = pa_index st \<and> reads st st1 \<and> pa_index st < pa_index st1)"
proof -
  let ?st0 = "st\<lparr>pa_tree := mark_keyword (pa_index st) (pa_tree st)\<rparr>"
  have r: "reads st ?st0" by (rule reads_mark_keyword [OF assms(1)])
  then have "ok ?st0" by (rule reads_ok)
  have "peek ?st0 = peek st" by (simp add: peek_def mark_keyword_def)
  then show ?thesis using advance_reads [OF \<open>ok ?st0\<close>] r assms(2)
    by (auto simp: accept_keyword_def elim!: succeeds_mono intro: reads_trans)
qed

lemma accept_ok:
  assumes "ok st" "want \<noteq> Kw_none"
  shows "succeeds (accept want st) (\<lambda>(taken, st1). reads st st1 \<and>
    (if taken then spelled (pa_tree st1) (pa_index st) = want \<and> pa_index st < pa_index st1 else st1 = st))"
proof (cases "peek_reserved st = want")
  case True
  then have "peek_kind st \<noteq> T_end" using assms(2) peek_reserved_word [of st] by auto
  from accept_keyword_ok [OF assms(1) this] obtain st1 where st1: "accept_keyword st = Some (pa_index st, st1)"
      "reads st st1" "pa_index st < pa_index st1"
    by (auto elim: succeedsE)
  then have "spelled (pa_tree st1) (pa_index st) = want"
    using keeps_spelled(1) [OF assms(1) reads_keeps [OF st1(2)] ok_index [OF assms(1)]] True
    by (simp add: peek_reserved_spelled)
  then show ?thesis using st1 True by (simp add: accept_def)
qed (use assms in \<open>simp add: accept_def reads_refl\<close>)

lemma record_missing_ok:
  assumes "ok st" "why \<noteq> No_defect" "record_missing why defect st = (defect1, st1)"
  shows "reads st st1" "defect1 \<noteq> No_defect" "pa_index st1 = pa_index st" "peek st1 = peek st"
  using assms reads_mark_incomplete [OF assms(1)] reads_refl [OF assms(1)]
  by (auto simp: record_missing_def mark_incomplete_def peek_def split: if_splits)

lemma require_word_ok:
  assumes "ok st" "want \<noteq> Kw_none"
  shows "succeeds (require_word want defect st) (\<lambda>(taken, defect1, st1). reads st st1 \<and>
    (if taken then defect1 = defect \<and> spelled (pa_tree st1) (pa_index st) = want \<and> pa_index st < pa_index st1
     else defect1 \<noteq> No_defect \<and> pa_index st1 = pa_index st))"
proof -
  from accept_ok [OF assms] obtain taken st1 where a: "accept want st = Some (taken, st1)" "reads st st1"
      "if taken then spelled (pa_tree st1) (pa_index st) = want \<and> pa_index st < pa_index st1 else st1 = st"
    by (auto elim: succeedsE)
  show ?thesis
  proof (cases taken)
    case False
    obtain defect1 st2 where m: "record_missing Missing_terminator defect st = (defect1, st2)" by fastforce
    from record_missing_ok [OF assms(1) _ m] show ?thesis using a False m by (simp add: require_word_def)
  qed (use a in \<open>simp add: require_word_def\<close>)
qed

lemma require_token_ok:
  assumes "ok st" "want \<noteq> T_end"
  shows "succeeds (require_token want defect st) (\<lambda>(taken, defect1, st1). reads st st1 \<and>
    (if taken then defect1 = defect \<and> tk_kind (tr_tokens (pa_tree st1) ! pa_index st) = want \<and> pa_index st < pa_index st1
     else defect1 \<noteq> No_defect \<and> pa_index st1 = pa_index st))"
proof (cases "peek_kind st = want")
  case True
  from advance_reads [OF assms(1)] obtain st1 where st1: "advance st = Some (pa_index st, st1)" "reads st st1"
      "pa_index st < pa_index st1" using True assms(2) by (auto elim: succeedsE)
  then have "tr_tokens (pa_tree st1) ! pa_index st = peek st"
    using keeps_spelled(2) [OF assms(1) reads_keeps [OF st1(2)] ok_index [OF assms(1)]] by (simp add: peek_def)
  then show ?thesis using st1 True by (simp add: require_token_def)
next
  case False
  obtain defect1 st2 where m: "record_missing Missing_terminator defect st = (defect1, st2)" by fastforce
  from record_missing_ok [OF assms(1) _ m] show ?thesis using False m by (simp add: require_token_def)
qed

lemma require_list_ok:
  assumes "ok st" "require_list n defect st = (defect1, st1)"
  shows "reads st st1" "pa_index st1 = pa_index st"
    "defect1 = No_defect \<Longrightarrow> defect = No_defect \<and> 0 < nd_count (tr_nodes (pa_tree st) ! n)"
  using assms record_missing_ok [OF assms(1), of Missing_operand defect defect1 st1]
  by (auto simp: require_list_def reads_refl split: if_splits)

subsection \<open>Adding nodes\<close>

abbreviation nodes_of :: "parser \<Rightarrow> nat list \<Rightarrow> node list" where
  "nodes_of st ns \<equiv> map (\<lambda>n. tr_nodes (pa_tree st) ! n) ns"

lemma nodes_of_later: "keeps b c \<Longrightarrow> list_all (spans a b) ns \<Longrightarrow> nodes_of c ns = nodes_of b ns"
  by (auto simp: list_all_iff spans_def intro!: keeps_node)

lemma nodes_of_reads: "reads b c \<Longrightarrow> nodes_of c ns = nodes_of b ns"
  by (simp add: reads_def)

text \<open>\<open>made st P (r, st1)\<close>: a rule begun in \<open>st\<close> answers the node \<open>r\<close>, which satisfies \<open>P\<close>.\<close>

definition made :: "parser \<Rightarrow> (node \<Rightarrow> bool) \<Rightarrow> nat \<times> parser \<Rightarrow> bool" where
  "made st P rs \<longleftrightarrow> grew st [fst rs] (push (fst rs) (snd rs)) \<and> P (tr_nodes (pa_tree (snd rs)) ! fst rs)"

lemma push_fields [simp]:
  "pa_tree (push n st) = pa_tree st" "pa_index (push n st) = pa_index st" "peek (push n st) = peek st"
  "pa_stack (push n st) = pa_stack st" "pa_aliases (push n st) = pa_aliases st"
  "pa_scratch (push n st) = pa_scratch st @ [n]" "pa_lexer (push n st) = pa_lexer st"
  "pa_cursor (push n st) = pa_cursor st"
  by (simp_all add: push_def peek_def)

lemma push_ok [simp]: "ok (push n st) = ok st"
  by (simp add: ok_def ready_def looking_def)

lemma potential_push [simp]: "potential (push n st) = potential st"
  by (simp add: potential_def left_to_read_def alias_values_def)

lemma made_ok: "made st P (r, st1) \<Longrightarrow> ok st1"
  using grew_ok [of st "[r]" "push r st1"] by (simp add: made_def)

lemma made_mono: "made st P rs \<Longrightarrow> (\<And>n. P n \<Longrightarrow> Q n) \<Longrightarrow> made st Q rs"
  by (simp add: made_def)

lemma made_grew: "made st P (r, st1) \<Longrightarrow> grew st [r] (push r st1)"
  by (simp add: made_def)

lemma made_after: "keeps a b \<Longrightarrow> reads a b \<Longrightarrow> made b P rs \<Longrightarrow> made a P rs"
  using reads_grew_trans by (auto simp: made_def)

lemma well_delimited_same [simp]:
  "well_delimited tr (n\<lparr>nd_start := a, nd_count := b\<rparr>) ns = well_delimited tr n ns"
  by (simp add: well_delimited_def bracketed_def within_def split: node_kind.split)

text \<open>The node \<open>m\<close> added to the tree, the nodes since the beginning of the rule becoming its children.\<close>

definition with_node :: "parser \<Rightarrow> nat list \<Rightarrow> node \<Rightarrow> parser \<Rightarrow> parser" where
  "with_node st0 ns m st =
     st\<lparr>pa_tree := (pa_tree st)\<lparr>tr_children := tr_children (pa_tree st) @ ns, tr_nodes := tr_nodes (pa_tree st) @ [m]\<rparr>,
        pa_scratch := pa_scratch st0\<rparr>"

lemma with_node_same:
  "pa_index (with_node st0 ns m st) = pa_index st" "peek (with_node st0 ns m st) = peek st"
  "potential (with_node st0 ns m st) = potential st" "cursor_kept (with_node st0 ns m st) = cursor_kept st"
  by (simp_all add: with_node_def peek_def potential_def left_to_read_def alias_values_def cursor_kept_def)

lemma with_node_well_formed:
  assumes g: "grew st0 ns st"
    and kids: "children_of (pa_tree (with_node st0 ns m st)) m = ns"
      "nd_start m + nd_count m \<le> length (tr_children (pa_tree st)) + length ns"
    and first: "list_all (\<lambda>c. nd_first m \<le> nd_first c) (nodes_of st ns)"
    and range: "nd_first m \<le> nd_last m" "nd_last m \<le> pa_index st"
    and shape: "well_shaped (nd_kind m) (nd_error m = No_defect) (nd_aux m) (nodes_of st ns)"
    and delimited: "well_delimited (pa_tree st) m (nodes_of st ns)"
  shows "ready (with_node st0 ns m st)"
proof -
  let ?tr = "pa_tree st" and ?st1 = "with_node st0 ns m st"
  define r where "r = length (tr_nodes ?tr)"
  have rst: "ready st" "looking st" using grew_ok [OF g] by (simp_all add: ok_def)
  have sp: "list_all (spans st0 st) ns" using g by (simp add: grew_def)
  have e: "extends ?tr (pa_tree ?st1)" by (simp add: with_node_def extends_def)
  have space: "text_space (pa_tree ?st1) = text_space ?tr" "tokens_placed (pa_tree ?st1) = tokens_placed ?tr"
    by (simp_all add: with_node_def text_space_def tokens_placed_def)
  have nodes: "children_nodes (pa_tree ?st1) m = nodes_of st ns"
    unfolding children_nodes_def kids using sp by (auto simp: with_node_def list_all_iff spans_def nth_append)
  have node: "tr_nodes (pa_tree ?st1) ! r = m" by (simp add: with_node_def r_def nth_append)
  have "spelled (pa_tree ?st1) k = spelled ?tr k" for k
    by (simp add: spelled_def with_node_def text_of_token_def text_at_def)
  then have "well_delimited (pa_tree ?st1) m (nodes_of st ns)" using delimited
    by (simp add: well_delimited_def bracketed_def within_def with_node_def split: node_kind.splits)
  moreover have "c < r \<and> nd_first m \<le> nd_first (tr_nodes (pa_tree ?st1) ! c)" if "c \<in> set ns" for c
    using that first sp by (auto simp: list_all_iff spans_def r_def with_node_def nth_append)
  moreover have "nd_last m < length (tr_tokens (pa_tree ?st1))"
    "nd_start m + nd_count m \<le> length (tr_children (pa_tree ?st1))"
    using range rst(2) kids by (simp_all add: with_node_def looking_def)
  ultimately have "well_formed_node (pa_tree ?st1) r"
    unfolding well_formed_node_def node nodes kids using range shape by simp
  moreover have "well_formed_node (pa_tree ?st1) i" if "i < r" for i
    by (rule well_formed_node_extends [OF e]) (use rst that in \<open>simp_all add: ready_def r_def\<close>)
  ultimately have "\<forall>i < length (tr_nodes (pa_tree ?st1)). well_formed_node (pa_tree ?st1) i"
    by (auto simp: with_node_def r_def less_Suc_eq)
  then show ?thesis using rst(1) space by (simp add: ready_def) (simp add: with_node_def)
qed

lemma with_node_made:
  assumes g: "grew st0 ns st" and ready: "ready (with_node st0 ns m st)"
    and range: "pa_index st0 \<le> nd_first m" "nd_last m \<le> pa_index st" and P: "P m"
  shows "made st0 P (length (tr_nodes (pa_tree st)), with_node st0 ns m st)"
proof -
  let ?st1 = "with_node st0 ns m st"
  define r where "r = length (tr_nodes (pa_tree st))"
  have node: "tr_nodes (pa_tree ?st1) ! r = m" by (simp add: with_node_def r_def nth_append)
  have "ok ?st1" using ready grew_ok [OF g] by (simp add: ok_def looking_def with_node_same) (simp add: with_node_def)
  then have "keeps st ?st1"
    by (simp add: keeps_def with_node_same) (simp add: with_node_def finds_def extends_def)
  with grew_keeps [OF g] have "keeps st0 ?st1" by (rule keeps_trans)
  then have k: "keeps st0 (push r ?st1)"
    by (simp add: keeps_def cursor_kept_def finds_def) (simp add: push_def)
  have "spans st0 (push r ?st1) r"
    using range by (simp add: spans_def node with_node_same) (simp add: with_node_def r_def)
  moreover have "mset (tr_children (pa_tree ?st1)) + {#r#} =
      mset (tr_children (pa_tree st0)) + mset [length (tr_nodes (pa_tree st0))..<length (tr_nodes (pa_tree ?st1))]"
  proof -
    have "length (tr_nodes (pa_tree st0)) \<le> r" using keeps_nodes [OF grew_keeps [OF g]] by (simp add: r_def)
    then have "[length (tr_nodes (pa_tree st0))..<Suc r] = [length (tr_nodes (pa_tree st0))..<r] @ [r]" by simp
    moreover have "mset (tr_children (pa_tree st)) + mset ns =
        mset (tr_children (pa_tree st0)) + mset [length (tr_nodes (pa_tree st0))..<r]"
      using g by (simp add: grew_def r_def)
    moreover have "length (tr_nodes (pa_tree ?st1)) = Suc r" "tr_children (pa_tree ?st1) = tr_children (pa_tree st) @ ns"
      by (simp_all add: with_node_def r_def)
    ultimately show ?thesis by (simp del: upt_Suc)
  qed
  ultimately have "grew st0 [r] (push r ?st1)" using k by (simp add: grew_def) (simp add: with_node_def)
  then show ?thesis using P by (simp add: made_def node r_def [symmetric])
qed

text \<open>The end of a rule.\<close>

lemma finish_node_ok:
  assumes g: "grew st0 ns st"
    and first: "pa_index st0 \<le> nd_first n" "list_all (\<lambda>c. nd_first n \<le> nd_first c) (nodes_of st ns)"
    and range: "nd_first n \<le> nd_last n" "nd_last n \<le> pa_index st"
    and shape: "well_shaped (nd_kind n) (nd_error n = No_defect) (nd_aux n) (nodes_of st ns)"
    and delimited: "well_delimited (pa_tree st) n (nodes_of st ns)"
    and P: "\<And>start. P (n\<lparr>nd_start := start, nd_count := length ns\<rparr>)"
  shows "made st0 P (finish_node n (mark_scratch st0) st)"
    "pa_index (snd (finish_node n (mark_scratch st0) st)) = pa_index st"
    "peek (snd (finish_node n (mark_scratch st0) st)) = peek st"
    "potential (snd (finish_node n (mark_scratch st0) st)) = potential st"
proof -
  define m where "m = n\<lparr>nd_start := length (tr_children (pa_tree st)), nd_count := length ns\<rparr>"
  have "pa_scratch st = pa_scratch st0 @ ns" using g by (simp add: grew_def)
  then have f: "finish_node n (mark_scratch st0) st = (length (tr_nodes (pa_tree st)), with_node st0 ns m st)"
    by (simp add: finish_node_def commit_children_def add_children_def new_node_def add_node_def mark_scratch_def
        m_def with_node_def)
  have "ready (with_node st0 ns m st)"
    by (rule with_node_well_formed [OF g])
      (use assms in \<open>simp_all add: m_def\<close>, simp add: children_of_def with_node_def)
  from with_node_made [OF g this] show "made st0 P (finish_node n (mark_scratch st0) st)"
    using assms by (simp add: f m_def)
  show "pa_index (snd (finish_node n (mark_scratch st0) st)) = pa_index st"
    "peek (snd (finish_node n (mark_scratch st0) st)) = peek st"
    "potential (snd (finish_node n (mark_scratch st0) st)) = potential st"
    by (simp_all add: f with_node_same)
qed

text \<open>A node without children.\<close>

lemma new_node_ok:
  assumes r: "reads st0 st"
    and n: "nd_start n = 0" "nd_count n = 0"
    and range: "pa_index st0 \<le> nd_first n" "nd_first n \<le> nd_last n" "nd_last n \<le> pa_index st"
    and shape: "well_shaped (nd_kind n) (nd_error n = No_defect) (nd_aux n) []"
    and delimited: "well_delimited (pa_tree st) n []" and P: "P n"
  shows "made st0 P (new_node n st)" "pa_index (snd (new_node n st)) = pa_index st" "peek (snd (new_node n st)) = peek st"
    "potential (snd (new_node n st)) = potential st"
proof -
  have g: "grew st0 [] st" by (rule reads_grew [OF r])
  have f: "new_node n st = (length (tr_nodes (pa_tree st)), with_node st0 [] n st)"
    using r by (simp add: new_node_def add_node_def with_node_def reads_def)
  have "ready (with_node st0 [] n st)"
    by (rule with_node_well_formed [OF g]) (use assms in \<open>simp_all add: children_of_def\<close>)
  from with_node_made [where P = P, OF g this] show "made st0 P (new_node n st)" using assms by (simp add: f)
  show "pa_index (snd (new_node n st)) = pa_index st" "peek (snd (new_node n st)) = peek st"
    "potential (snd (new_node n st)) = potential st"
    by (simp_all add: f with_node_same)
qed

end
