(* ===== verification/GrammarRules.thy ===== *)
theory GrammarRules
  imports ParserRules
begin

text \<open>
  The rules of the grammar, one by one: each returns and makes one well-formed node.
\<close>

unbundle bit_operations_syntax

declare One_nat_def [simp del]

subsection \<open>Words\<close>

lemma command_sub_interior_bounds:
  "command_sub_interior s t = Some (a, b) \<Longrightarrow> a \<le> b \<and> b \<le> length s"
  by (auto simp: command_sub_interior_def Let_def split: if_splits option.splits)

definition found_within :: "nat \<Rightarrow> tree \<Rightarrow> tree \<Rightarrow> bool" where
  "found_within depth tr tr1 \<longleftrightarrow>
     (\<exists>found. tr1 = tr\<lparr>tr_sub_parses := tr_sub_parses tr @ found\<rparr> \<and>
        (\<forall>s \<in> set found. sub_depth s = depth \<and> sub_root s = None \<and> span_end (sub_interior s) \<le> length (tr_source tr)))"

lemma found_within_refl: "found_within depth tr tr"
  by (auto simp: found_within_def intro!: exI [of _ "[]"])

lemma found_within_trans: "found_within depth a b \<Longrightarrow> found_within depth b c \<Longrightarrow> found_within depth a c"
  by (fastforce simp: found_within_def)

lemma found_interior_within: "found_within depth tr (found_interior word_token depth t tr)"
proof (cases "command_sub_interior (tr_source tr) t")
  case None
  then show ?thesis by (simp add: found_interior_def found_within_refl)
next
  case (Some p)
  obtain a b where p: "p = (a, b)" by fastforce
  let ?s = "\<lparr>sub_word_token = word_token, sub_interior = \<lparr>sp_offset = a, sp_length = b - a\<rparr>, sub_root = None,
    sub_depth = depth, sub_node_begin = 0, sub_node_end = 0\<rparr>"
  from command_sub_interior_bounds [OF Some [unfolded p]] show ?thesis unfolding found_within_def
    by (intro exI [of _ "[?s]"]) (simp add: found_interior_def Some p add_sub_parse_def span_end_def)
qed

lemma scan_for_interiors_within: "found_within depth tr (scan_for_interiors n word_token depth start stop mode tr)"
proof (induction n arbitrary: start stop mode tr)
  case 0
  show ?case by (simp add: found_within_refl)
next
  case (Suc n)
  have fold: "found_within depth tr (fold (\<lambda>segment tr.
             if tk_kind segment = Seg_command_sub then found_interior word_token depth segment tr
             else if tk_kind segment = Seg_double_quoted then
               scan_for_interiors n word_token depth (tk_offset segment + 1)
                 (if tk_error segment = No_error then end_offset segment - 1 else end_offset segment)
                 Double_quote_interior tr
             else tr) ts tr)" for ts tr
  proof (induction ts arbitrary: tr)
    case (Cons t ts)
    show ?case
      by (simp add: Suc.IH found_interior_within found_within_trans [OF _ Cons.IH] Cons.IH)
  qed (simp add: found_within_refl)
  show ?case using fold by (simp add: found_within_refl)
qed

lemma queue_sub_parses_ok:
  assumes "ok st"
  shows "reads st (queue_sub_parses i st)" "pa_index (queue_sub_parses i st) = pa_index st"
    "peek (queue_sub_parses i st) = peek st" "tr_tokens (pa_tree (queue_sub_parses i st)) = tr_tokens (pa_tree st)"
proof -
  have "\<exists>found. queue_sub_parses i st = st\<lparr>pa_tree := (pa_tree st)\<lparr>tr_sub_parses := tr_sub_parses (pa_tree st) @ found\<rparr>\<rparr> \<and>
      (\<forall>s \<in> set found. sub_depth s = pa_sub_depth st \<and> pa_sub_depth st < kMaxSubParseDepth \<and>
         sub_root s = None \<and> span_end (sub_interior s) \<le> length (tr_source (pa_tree st)))"
  proof (cases "queue_sub_parses i st = st")
    case False
    let ?w = "token_at st i"
    have lt: "pa_sub_depth st < kMaxSubParseDepth"
      and q: "queue_sub_parses i st = st\<lparr>pa_tree := scan_for_interiors max_quote_nesting i (pa_sub_depth st) (tk_offset ?w)
          (min (end_offset ?w) (length (tr_source (pa_tree st)))) Word_interior (pa_tree st)\<rparr>"
      using False by (auto simp: queue_sub_parses_def split: if_splits)
    from scan_for_interiors_within [of "pa_sub_depth st" "pa_tree st" max_quote_nesting i "tk_offset ?w"
        "min (end_offset ?w) (length (tr_source (pa_tree st)))" Word_interior] lt q
    show ?thesis by (auto simp: found_within_def)
  qed (auto intro!: exI [of _ "[]"])
  then obtain found where
    q: "queue_sub_parses i st = st\<lparr>pa_tree := (pa_tree st)\<lparr>tr_sub_parses := tr_sub_parses (pa_tree st) @ found\<rparr>\<rparr>"
    and found: "\<forall>s \<in> set found. sub_depth s = pa_sub_depth st \<and> pa_sub_depth st < kMaxSubParseDepth \<and>
         sub_root s = None \<and> span_end (sub_interior s) \<le> length (tr_source (pa_tree st))" by blast
  let ?st1 = "queue_sub_parses i st"
  have e: "extends (pa_tree st) (pa_tree ?st1)" by (simp add: q extends_def)
  have sp: "text_space (pa_tree ?st1) = text_space (pa_tree st)" "tokens_placed (pa_tree ?st1) = tokens_placed (pa_tree st)"
    by (simp_all add: q text_space_def tokens_placed_def)
  have "\<forall>j < length (tr_nodes (pa_tree ?st1)). well_formed_node (pa_tree ?st1) j"
    using assms well_formed_node_extends [OF e] by (simp add: ok_def ready_def) (simp add: q)
  then have "ok ?st1" using assms sp by (simp add: ok_def ready_def looking_def) (simp add: q)
  moreover have "finds st ?st1" using found by (simp add: finds_def q)
  ultimately show "reads st ?st1" using e
    by (simp add: reads_def keeps_def) (simp add: q potential_def left_to_read_def alias_values_def peek_def cursor_kept_def)
  show "pa_index ?st1 = pa_index st" "peek ?st1 = peek st" "tr_tokens (pa_tree ?st1) = tr_tokens (pa_tree st)"
    by (simp_all add: q peek_def)
qed

lemma node_over_fields [simp]:
  "nd_kind (node_over kind a b) = kind" "nd_error (node_over kind a b) = No_defect" "nd_first (node_over kind a b) = a"
  "nd_last (node_over kind a b) = b" "nd_start (node_over kind a b) = 0" "nd_count (node_over kind a b) = 0"
  "nd_aux (node_over kind a b) = 0"
  by (simp_all add: node_over_def)

lemma reads_push: "reads b c \<Longrightarrow> reads (push r b) (push r c)"
  by (simp add: reads_def keeps_def finds_def cursor_kept_def) (simp add: push_def)

lemma made_reads: "made a P (r, b) \<Longrightarrow> reads b c \<Longrightarrow> made a P (r, c)"
  using grew_reads [OF _ reads_push] by (auto simp: made_def reads_def)

lemma reads_made: "reads a b \<Longrightarrow> made b P rs \<Longrightarrow> made a P rs"
  using reads_grew_trans by (auto simp: made_def)

lemma reads_index: "reads a b \<Longrightarrow> pa_index a \<le> pa_index b"
  by (simp add: reads_def keeps_def)

lemma reads_peek_token:
  "ok a \<Longrightarrow> reads a b \<Longrightarrow> tr_tokens (pa_tree b) ! pa_index a = peek a"
  using keeps_spelled(2) [OF _ reads_keeps ok_index] by (simp add: peek_def)

lemma word_node_ok:
  assumes r: "reads st0 st" and ok: "ok st0" and word: "peek_kind st0 = T_word" and kind: "kind \<in> {Word_node, Assignment_node}"
    and P: "\<And>n. nd_kind n = kind \<Longrightarrow> nd_aux n = role_code role \<Longrightarrow> P n"
  shows "made st0 P (word_node (pa_index st0) kind role st)"
    "pa_index (snd (word_node (pa_index st0) kind role st)) = pa_index st"
    "peek (snd (word_node (pa_index st0) kind role st)) = peek st"
proof -
  let ?i = "pa_index st0"
  let ?n = "(node_over kind ?i ?i)\<lparr>nd_aux := role_code role,
         nd_error := (if is_error (token_at st ?i) then Unterminated_word else No_defect)\<rparr>"
  note q = queue_sub_parses_ok [OF reads_ok [OF r], of ?i]
  have r1: "reads st0 (queue_sub_parses ?i st)" by (rule reads_trans [OF r q(1)])
  have t: "tk_kind (tr_tokens (pa_tree (queue_sub_parses ?i st)) ! ?i) = T_word"
    using reads_peek_token [OF ok r] word q by simp
  have w: "word_node ?i kind role st = new_node ?n (queue_sub_parses ?i st)" by (simp add: word_node_def)
  have *: "pa_index st0 \<le> pa_index st" by (rule reads_index [OF r])
  have shape: "well_shaped (nd_kind ?n) (nd_error ?n = No_defect) (nd_aux ?n) []"
    "well_delimited (pa_tree (queue_sub_parses ?i st)) ?n []"
    using kind t by (auto simp: well_delimited_def)
  have n: "made st0 P (new_node ?n (queue_sub_parses ?i st))"
    "pa_index (snd (new_node ?n (queue_sub_parses ?i st))) = pa_index (queue_sub_parses ?i st)"
    "peek (snd (new_node ?n (queue_sub_parses ?i st))) = peek (queue_sub_parses ?i st)"
    by (rule new_node_ok [where P = P, OF r1 _ _ _ _ _ shape]; use q * P in simp)+
  show "made st0 P (word_node ?i kind role st)" "pa_index (snd (word_node ?i kind role st)) = pa_index st"
    "peek (snd (word_node ?i kind role st)) = peek st"
    unfolding w using n q by simp_all
qed

lemma push_word_ok:
  assumes "ok st" "peek_kind st = T_word"
  shows "succeeds (push_word role st) (\<lambda>st1. \<exists>w. grew st [w] st1 \<and>
    list_all (is_word role) (nodes_of st1 [w]) \<and> pa_index st < pa_index st1)"
proof -
  from advance_reads [OF assms(1)] obtain st1 where st1: "advance st = Some (pa_index st, st1)" "reads st st1"
    "pa_index st < pa_index st1" using assms(2) by (auto elim: succeedsE)
  obtain w st2 where w: "word_node (pa_index st) Word_node role st1 = (w, st2)" by fastforce
  have "made st (is_word role) (w, st2)" "pa_index st2 = pa_index st1"
    using word_node_ok [where P = "is_word role" and kind = Word_node and role = role, OF st1(2) assms] w
    by (auto simp: is_word_def)
  then show ?thesis using st1 w by (auto simp: push_word_def made_def)
qed

subsection \<open>Redirections\<close>

lemma last_consumed_bounds:
  "first \<le> pa_index st \<Longrightarrow> first \<le> last_consumed first st \<and> last_consumed first st \<le> pa_index st"
  by (auto simp: last_consumed_def)

lemma advance_as_error_ok:
  assumes "ok st" "peek_kind st \<noteq> T_end"
  shows "succeeds (advance_as_error st) (\<lambda>rs. made st (\<lambda>n. nd_kind n = Error_node) rs \<and> pa_index st < pa_index (snd rs))"
proof -
  from advance_reads [OF assms(1)] obtain st1 where st1: "advance st = Some (pa_index st, st1)" "reads st st1"
    "pa_index st < pa_index st1" using assms(2) by (auto elim: succeedsE)
  let ?n = "(node_over Error_node (pa_index st) (pa_index st))\<lparr>nd_error := Unexpected_operator\<rparr>"
  have "made st (\<lambda>n. nd_kind n = Error_node) (new_node ?n st1)" "pa_index (snd (new_node ?n st1)) = pa_index st1"
    using new_node_ok [where P = "\<lambda>n. nd_kind n = Error_node", OF st1(2), of ?n] st1(3) by (auto simp: well_delimited_def)
  then show ?thesis using st1 by (simp add: advance_as_error_def error_node_def)
qed

lemma missing_target_ok:
  assumes "reads st0 st"
  shows "made st0 (\<lambda>n. nd_kind n = Error_node) (new_node ((missing_target (pa_index st0) st)\<lparr>nd_aux := a\<rparr>) st)"
    "pa_index (snd (new_node ((missing_target (pa_index st0) st)\<lparr>nd_aux := a\<rparr>) st)) = pa_index st"
  using new_node_ok [where P = "\<lambda>n. nd_kind n = Error_node", OF assms,
      of "(missing_target (pa_index st0) st)\<lparr>nd_aux := a\<rparr>"]
    last_consumed_bounds [OF reads_index [OF assms]]
  by (auto simp: missing_target_def well_delimited_def)

lemma parse_here_doc_ok:
  assumes r: "reads st0 st"
  shows "succeeds (parse_here_doc (pa_index st0) fd oper st) (\<lambda>rs. made st0 (\<lambda>n. nd_kind n \<in> redirect_kinds) rs \<and>
    pa_index st \<le> pa_index (snd rs))"
proof (cases "peek_kind st = T_word")
  case False
  have "missing_target (pa_index st0) st = (missing_target (pa_index st0) st)\<lparr>nd_aux := 0\<rparr>"
    by (simp add: missing_target_def node_over_def)
  then show ?thesis using False missing_target_ok [OF r, of 0]
    by (auto simp: parse_here_doc_def redirect_kinds_def elim!: made_mono)
next
  case True
  define b where "b = \<lparr>hb_offset = 0, hb_length = 0, hb_expand = True, hb_strip_tabs = (oper = T_dless_dash),
               hb_fd = (if fd = unspecified_fd then 0 else fd)\<rparr>"
  define st1 where "st1 = st\<lparr>pa_tree := snd (add_here_doc b (pa_tree st))\<rparr>"
  define n where "n = (node_over Here_doc (pa_index st0) (pa_index st))\<lparr>nd_error := operand_defect st (pa_index st),
               nd_aux := length (tr_here_docs (pa_tree st))\<rparr>"
  obtain i st2 where nn: "new_node n st1 = (i, st2)" by fastforce
  have "ok st" by (rule reads_ok [OF r])
  then have r1: "reads st st1"
    by (rule reads_same) (simp_all add: st1_def add_here_doc_def drew_def extends_def)
  have le: "pa_index st0 \<le> pa_index st" "pa_index st1 = pa_index st"
    using reads_index [OF r] by (simp_all add: st1_def)
  have m: "made st0 (\<lambda>n. nd_kind n \<in> redirect_kinds) (i, st2)" "pa_index st2 = pa_index st1" "peek st2 = peek st1"
    using new_node_ok [where P = "\<lambda>n. nd_kind n \<in> redirect_kinds", OF reads_trans [OF r r1], of n] le nn
    by (auto simp: n_def well_delimited_def redirect_kinds_def st1_def add_here_doc_def)
  let ?st3 = "st2\<lparr>pa_pending := pa_pending st2 @ [(i, pa_index st)]\<rparr>"
  have r3: "reads st2 ?st3" by (rule reads_pending [OF made_ok [OF m(1)]])
  from advance_reads [OF reads_ok [OF r3]] obtain st4 where st4: "advance ?st3 = Some (pa_index ?st3, st4)" "reads ?st3 st4"
    by (auto elim: succeedsE)
  have r4: "reads st2 st4" by (rule reads_trans [OF r3 st4(2)])
  have "parse_here_doc (pa_index st0) fd oper st = Some (i, st4)"
    using True st4(1) nn by (simp add: parse_here_doc_def b_def st1_def n_def add_here_doc_def)
  then show ?thesis using made_reads [OF m(1) r4] reads_index [OF r4] m(2) le by simp
qed

lemma parse_redirect_ok:
  assumes ok: "ok st0" and start: "starts_redirect (peek_kind st0)"
  shows "succeeds (parse_redirect st0) (\<lambda>rs. made st0 (\<lambda>n. nd_kind n \<in> redirect_kinds) rs \<and> pa_index st0 < pa_index (snd rs))"
proof -
  have not_end: "peek_kind st0 \<noteq> T_end" using start by (auto simp: starts_redirect_def is_redirect_operator_def)
  from advance_reads [OF ok] obtain st' where st': "advance st0 = Some (pa_index st0, st')" "reads st0 st'"
    "pa_index st0 < pa_index st'" using not_end by (auto elim: succeedsE)
  obtain fd st where st: "(if peek_kind st0 = T_io_number then
            do { r \<leftarrow> advance st0; Some (io_number_fd (token_text_at st0 (pa_index st0)), snd r) }
          else Some (unspecified_fd, st0)) = Some (fd, st)"
    and r: "reads st0 st" and moved: "peek_kind st0 = T_io_number \<Longrightarrow> pa_index st0 < pa_index st"
    and same: "peek_kind st0 \<noteq> T_io_number \<Longrightarrow> st = st0"
    using st' reads_refl [OF ok] by (cases "peek_kind st0 = T_io_number") simp_all
  note okst = reads_ok [OF r]
  let ?K = "\<lambda>n. nd_kind n \<in> redirect_kinds"
  show ?thesis
  proof (cases "is_redirect_operator (peek_kind st)")
    case False
    then have io: "peek_kind st0 = T_io_number" using start same by (auto simp: starts_redirect_def)
    have p: "parse_redirect st0 = advance_as_error st" using st False by (simp add: parse_redirect_def)
    show ?thesis
    proof (cases "peek_kind st = T_end")
      case True
      from new_node_ok [where P = ?K, OF r, of "(node_over Error_node (pa_index st) (pa_index st))\<lparr>nd_error := Unexpected_operator\<rparr>"]
      show ?thesis using True moved [OF io] reads_index [OF r]
        by (auto simp: p advance_as_error_def advance_def error_node_def well_delimited_def redirect_kinds_def)
    next
      case False
      show ?thesis unfolding p
        by (rule succeeds_mono [OF advance_as_error_ok [OF okst False]])
          (use moved [OF io] in \<open>auto simp: redirect_kinds_def elim!: made_mono intro: reads_made [OF r]\<close>)
    qed
  next
    case True
    then have ne: "peek_kind st \<noteq> T_end" by (auto simp: is_redirect_operator_def)
    from advance_reads [OF okst] obtain st1 where st1: "advance st = Some (pa_index st, st1)" "reads st st1"
      "pa_index st < pa_index st1" using ne by (auto elim: succeedsE)
    have r1: "reads st0 st1" by (rule reads_trans [OF r st1(2)])
    have lt: "pa_index st0 < pa_index st1" using reads_index [OF r] st1(3) by simp
    show ?thesis
    proof (cases "peek_kind st = T_dless \<or> peek_kind st = T_dless_dash")
      case here: True
      have "parse_redirect st0 = parse_here_doc (pa_index st0) fd (peek_kind st) st1"
        using st st1 True here by (simp add: parse_redirect_def)
      then show ?thesis using succeeds_mono [OF parse_here_doc_ok [OF r1]] lt by fastforce
    next
      case plain: False
      show ?thesis
      proof (cases "peek_kind st1 = T_word")
        case False
        then have "parse_redirect st0 = Some (new_node ((missing_target (pa_index st0) st1)\<lparr>nd_aux := fd\<rparr>) st1)"
          using st st1 True plain by (simp add: parse_redirect_def)
        then show ?thesis using missing_target_ok [OF r1, of fd] lt by (auto simp: redirect_kinds_def elim!: made_mono)
      next
        case word: True
        note ok1 = reads_ok [OF r1]
        from advance_reads [OF ok1] obtain st2 where st2: "advance st1 = Some (pa_index st1, st2)" "reads st1 st2"
          "pa_index st1 < pa_index st2" using word by (auto elim: succeedsE)
        obtain w st3 where w: "word_node (pa_index st1) Word_node Role_redirect_target st2 = (w, st3)" by fastforce
        have m: "made st1 (is_word Role_redirect_target) (w, st3)" "pa_index st3 = pa_index st2"
          using word_node_ok [where P = "is_word Role_redirect_target" and kind = Word_node and role = Role_redirect_target,
              OF st2(2) ok1 word] w by (auto simp: is_word_def)
        have g: "grew st0 [w] (push w st3)" using reads_grew_trans [OF r1] m(1) by (simp add: made_def)
        let ?n = "(node_over Redirect (pa_index st0) (pa_index st1))\<lparr>nd_error := operand_defect st3 (pa_index st1), nd_aux := fd\<rparr>"
        have p: "parse_redirect st0 = Some (finish_node ?n (mark_scratch st0) (push w st3))"
          using st st1 st2 w True plain word r1 reads_trans [OF r1 st2(2)]
          by (simp add: parse_redirect_def mark_scratch_def reads_def)
        have f: "pa_index st0 \<le> nd_first (tr_nodes (pa_tree st3) ! w)" using g by (simp add: grew_def spans_def)
        have "made st0 ?K (finish_node ?n (mark_scratch st0) (push w st3))"
          "pa_index (snd (finish_node ?n (mark_scratch st0) (push w st3))) = pa_index (push w st3)"
          by (rule finish_node_ok [OF g, where P = ?K]; use f lt m st2(3) in
              \<open>simp add: made_def well_delimited_def redirect_kinds_def\<close>)+
        then show ?thesis using p lt m(2) st2(3) by simp
      qed
    qed
  qed
qed

end
