(* ===== verification/GrammarMakes.thy ===== *)
theory GrammarMakes
  imports GrammarRules
begin

text \<open>
  The rules of the grammar that recur through lists, pipelines and commands: given that the recursion returns
  what it should on all smaller input, each rule returns one well-formed node of its kind.
\<close>

unbundle bit_operations_syntax

declare One_nat_def [simp del]

subsection \<open>Nodes gathered so far\<close>

text \<open>\<open>grown st0 Q st\<close>: since \<open>st0\<close> the rule has gathered nodes that satisfy \<open>Q\<close>.\<close>

definition grown :: "parser \<Rightarrow> (node list \<Rightarrow> bool) \<Rightarrow> parser \<Rightarrow> bool" where
  "grown st0 Q st \<longleftrightarrow> (\<exists>ns. grew st0 ns st \<and> Q (nodes_of st ns))"

lemma grown_mono: "grown st0 Q st \<Longrightarrow> (\<And>ns. Q ns \<Longrightarrow> R ns) \<Longrightarrow> grown st0 R st"
  by (auto simp: grown_def)

lemma grown_keeps: "grown st0 Q st \<Longrightarrow> keeps st0 st"
  by (auto simp: grown_def dest: grew_keeps)

lemma grown_ok: "grown st0 Q st \<Longrightarrow> ok st"
  by (rule keeps_ok [OF grown_keeps])

lemma grown_none: "reads st0 st \<Longrightarrow> grown st0 (\<lambda>ns. ns = []) st"
  by (auto simp: grown_def dest: reads_grew)

lemma grown_reads: "grown st0 Q st \<Longrightarrow> reads st st1 \<Longrightarrow> grown st0 Q st1"
  by (auto simp: grown_def nodes_of_reads dest: grew_reads)

lemma reads_grown: "reads st0 st \<Longrightarrow> grown st Q st1 \<Longrightarrow> grown st0 Q st1"
  by (auto simp: grown_def dest: reads_grew_trans)

lemma grown_trans:
  assumes "grown a Q b" "grown b R c"
  shows "grown a (\<lambda>ns. \<exists>xs ys. ns = xs @ ys \<and> Q xs \<and> R ys) c"
proof -
  from assms obtain ns ms where g: "grew a ns b" "grew b ms c" "Q (nodes_of b ns)" "R (nodes_of c ms)"
    by (auto simp: grown_def)
  have "list_all (spans a b) ns" using g(1) by (simp add: grew_def)
  from nodes_of_later [OF grew_keeps [OF g(2)] this] have "nodes_of c (ns @ ms) = nodes_of b ns @ nodes_of c ms"
    by simp
  then show ?thesis using grew_trans [OF g(1,2)] g(3,4) unfolding grown_def by metis
qed

lemma made_grown: "made st P rs \<Longrightarrow> grown st (\<lambda>ns. \<exists>n. ns = [n] \<and> P n) (push (fst rs) (snd rs))"
  by (auto simp: made_def grown_def)

lemma grown_push:
  assumes "grown a Q b" "made b P (r, c)" "\<And>ns n. Q ns \<Longrightarrow> P n \<Longrightarrow> R (ns @ [n])"
  shows "grown a R (push r c)"
  by (rule grown_mono [OF grown_trans [OF assms(1) made_grown [OF assms(2), simplified]]]) (use assms(3) in auto)


lemma grown_index: "grown a Q b \<Longrightarrow> pa_index a \<le> pa_index b"
  using keeps_step(1) [OF grown_keeps] .

lemma grown_potential: "grown a Q b \<Longrightarrow> potential b \<le> potential a"
  using keeps_step(2) [OF grown_keeps] .

lemma made_keeps: "made a P (r, b) \<Longrightarrow> keeps a b"
proof -
  assume m: "made a P (r, b)"
  then have k: "keeps a (push r b)" by (rule grew_keeps [OF made_grew])
  show "keeps a b" using k made_ok [OF m]
    by (simp add: keeps_def cursor_kept_def finds_def) (simp add: push_def)
qed

lemma made_scratch: "made a P (r, b) \<Longrightarrow> pa_scratch b = pa_scratch a"
  by (simp add: made_def grew_def)

lemma reads_mark: "reads a b \<Longrightarrow> mark_scratch b = mark_scratch a"
  by (simp add: reads_def mark_scratch_def)

lemma made_mark: "made a P (r, b) \<Longrightarrow> mark_scratch b = mark_scratch a"
  using made_scratch by (simp add: mark_scratch_def)

subsection \<open>Tokens of a rule\<close>

lemma keeps_said:
  assumes "ok st" "keeps st st1" "k \<le> pa_index st"
  shows "spelled (pa_tree st1) k = spelled (pa_tree st) k" "tr_tokens (pa_tree st1) ! k = tr_tokens (pa_tree st) ! k"
  using keeps_spelled [OF assms(1,2), of k] ok_index [OF assms(1)] assms(3) by simp_all

text \<open>Something was read after the first token of the rule.\<close>

definition later :: "parser \<Rightarrow> parser \<Rightarrow> (nat \<Rightarrow> bool) \<Rightarrow> bool" where
  "later st0 st P \<longleftrightarrow> (\<exists>k. pa_index st0 < k \<and> k < pa_index st \<and> P k)"

lemma within_later:
  "later st0 st P \<Longrightarrow> nd_first n = pa_index st0 \<Longrightarrow> nd_last n = last_consumed (pa_index st0) st \<Longrightarrow> within n P"
  by (auto simp: later_def within_def last_consumed_def)

text \<open>The end of a rule that began in \<open>st0\<close>.\<close>

lemma closed_node_ok:
  assumes g: "grown st0 Q st"
    and shape: "\<And>ns. Q ns \<Longrightarrow> well_shaped kind (defect = No_defect) aux ns"
    and delimited: "\<And>ns. Q ns \<Longrightarrow> well_delimited (pa_tree st)
      ((node_over kind (pa_index st0) (last_consumed (pa_index st0) st))\<lparr>nd_error := defect, nd_aux := aux\<rparr>) ns"
  shows "made st0 (\<lambda>n. nd_kind n = kind) (closed_node kind (pa_index st0) aux defect (mark_scratch st0) st)"
    "pa_index (snd (closed_node kind (pa_index st0) aux defect (mark_scratch st0) st)) = pa_index st"
    "peek (snd (closed_node kind (pa_index st0) aux defect (mark_scratch st0) st)) = peek st"
proof -
  from g obtain ns where ns: "grew st0 ns st" "Q (nodes_of st ns)" by (auto simp: grown_def)
  then have f: "list_all (\<lambda>c. pa_index st0 \<le> nd_first c) (nodes_of st ns)"
    by (auto simp: grew_def spans_def list_all_iff)
  note b = last_consumed_bounds [OF grown_index [OF g]]
  show "made st0 (\<lambda>n. nd_kind n = kind) (closed_node kind (pa_index st0) aux defect (mark_scratch st0) st)"
    "pa_index (snd (closed_node kind (pa_index st0) aux defect (mark_scratch st0) st)) = pa_index st"
    "peek (snd (closed_node kind (pa_index st0) aux defect (mark_scratch st0) st)) = peek st"
    unfolding closed_node_def
    by (rule finish_node_ok [OF ns(1), where P = "\<lambda>n. nd_kind n = kind"];
        use b f shape [OF ns(2)] delimited [OF ns(2)] in simp)+
qed

lemma closed_node_plain:
  "closed_node kind first 0 No_defect mark st = finish_node (node_over kind first (last_consumed first st)) mark st"
  by (simp add: closed_node_def node_over_def)

subsection \<open>The recursion\<close>

definition rule_kinds :: "rule_name \<Rightarrow> node_kind set" where
  "rule_kinds nt = (case nt of N_list \<Rightarrow> {Compound_list} | N_pipeline \<Rightarrow> pipeline_kinds | N_command \<Rightarrow> command_kinds)"

fun rank :: "rule_name \<Rightarrow> nat" where
  "rank N_command = 0" | "rank N_pipeline = 1" | "rank N_list = 2"

definition parses :: "descent \<Rightarrow> rule_name \<Rightarrow> parser \<Rightarrow> bool" where
  "parses rec nt st \<longleftrightarrow> succeeds (rec nt st) (made st (\<lambda>n. nd_kind n \<in> rule_kinds nt))"

text \<open>The recursion serves every rule on less text, and the rules of a lower rank on as much.\<close>

definition serves :: "descent \<Rightarrow> nat \<Rightarrow> nat \<Rightarrow> bool" where
  "serves rec p k \<longleftrightarrow> (\<forall>nt st. ok st \<and> (potential st < p \<or> potential st = p \<and> rank nt < k) \<longrightarrow> parses rec nt st)"

lemma serves_less: "serves rec p k \<Longrightarrow> ok st \<Longrightarrow> potential st < p \<Longrightarrow> parses rec nt st"
  by (simp add: serves_def)

lemma serves_lower: "serves rec p k \<Longrightarrow> ok st \<Longrightarrow> potential st \<le> p \<Longrightarrow> rank nt < k \<Longrightarrow> parses rec nt st"
  by (auto simp: serves_def le_less)

lemma parsesE:
  assumes "parses rec nt st"
  obtains r st1 where "rec nt st = Some (r, st1)" "made st (\<lambda>n. nd_kind n \<in> rule_kinds nt) (r, st1)" "keeps st st1"
  using assms made_keeps by (auto simp: parses_def succeeds_def)

subsection \<open>Required lists\<close>

definition then_list :: "bool \<Rightarrow> (node list \<Rightarrow> bool) \<Rightarrow> node list \<Rightarrow> bool" where
  "then_list sound Q ns \<longleftrightarrow> (\<exists>ms l. ns = ms @ [l] \<and> Q ms \<and> is_list l \<and> (sound \<longrightarrow> is_full_list l))"

lemma push_required_list_ok:
  assumes g: "grown st0 Q st" and rec: "parses rec N_list st"
  shows "succeeds (push_required_list rec defect st) (\<lambda>(defect1, st1). keeps st st1 \<and>
    (defect1 = No_defect \<longrightarrow> defect = No_defect) \<and> grown st0 (then_list (defect1 = No_defect) Q) st1)"
proof -
  from rec obtain l st1 where l: "rec N_list st = Some (l, st1)" "made st (\<lambda>n. nd_kind n \<in> rule_kinds N_list) (l, st1)"
    "keeps st st1" by (rule parsesE)
  obtain defect1 st2 where d: "require_list l defect st1 = (defect1, st2)" by fastforce
  note q = require_list_ok [OF keeps_ok [OF l(3)] d]
  have m: "made st (\<lambda>n. is_list n \<and> (defect1 = No_defect \<longrightarrow> is_full_list n)) (l, st2)"
    using made_reads [OF l(2) q(1)] q(1,3)
    by (auto simp: made_def rule_kinds_def is_list_def is_full_list_def reads_def)
  have "grown st0 (then_list (defect1 = No_defect) Q) (push l st2)"
    by (rule grown_push [OF g m]) (auto simp: then_list_def)
  moreover have "keeps st (push l st2)" using grew_keeps [OF made_grew [OF m]] .
  ultimately show ?thesis using l d q(3) by (simp add: push_required_list_def)
qed

lemma body_after_ok:
  assumes g: "grown st0 Q st" and want: "want \<noteq> Kw_none"
    and rec: "\<And>st1. ok st1 \<Longrightarrow> potential st1 \<le> potential st \<Longrightarrow> parses rec N_list st1"
  shows "succeeds (body_after rec want defect st) (\<lambda>(defect1, st1). keeps st st1 \<and>
    (defect1 = No_defect \<longrightarrow> defect = No_defect) \<and>
    (defect1 \<noteq> No_defect \<and> grown st0 Q st1 \<or> grown st0 (then_list (defect1 = No_defect) Q) st1))"
proof -
  from require_word_ok [OF grown_ok [OF g] want, of defect]
  obtain taken defect1 st1 where r: "require_word want defect st = Some (taken, defect1, st1)" "reads st st1"
    "if taken then defect1 = defect \<and> spelled (pa_tree st1) (pa_index st) = want \<and> pa_index st < pa_index st1
     else defect1 \<noteq> No_defect \<and> pa_index st1 = pa_index st" by (auto elim: succeedsE)
  note g1 = grown_reads [OF g r(2)] and k = reads_keeps [OF r(2)]
  show ?thesis
  proof (cases taken)
    case True
    have "parses rec N_list st1" by (rule rec [OF grown_ok [OF g1] keeps_step(2) [OF k]])
    from push_required_list_ok [OF g1 this, of defect1] r True keeps_trans [OF k]
    show ?thesis by (auto simp: body_after_def elim!: succeeds_mono)
  next
    case False
    then show ?thesis using r g1 k by (simp add: body_after_def)
  qed
qed

subsection \<open>Compound commands\<close>

text \<open>The word that closes a construct.\<close>

lemma closing_word_ok:
  assumes g: "grown st0 Q st" and want: "want \<noteq> Kw_none" and past: "pa_index st0 < pa_index st"
  shows "succeeds (require_word want defect st) (\<lambda>(closed, defect1, st1). reads st st1 \<and> grown st0 Q st1 \<and>
    (defect1 = No_defect \<longrightarrow> defect = No_defect \<and> later st0 st1 (\<lambda>k. spelled (pa_tree st1) k = want)))"
proof -
  from require_word_ok [OF grown_ok [OF g] want, of defect]
  obtain taken defect1 st1 where r: "require_word want defect st = Some (taken, defect1, st1)" "reads st st1"
    "if taken then defect1 = defect \<and> spelled (pa_tree st1) (pa_index st) = want \<and> pa_index st < pa_index st1
     else defect1 \<noteq> No_defect \<and> pa_index st1 = pa_index st" by (auto elim: succeedsE)
  then show ?thesis using grown_reads [OF g r(2)] past
    by (auto simp: later_def split: if_splits)
qed

lemma closing_token_ok:
  assumes g: "grown st0 Q st" and want: "want \<noteq> T_end"
  shows "succeeds (require_token want defect st) (\<lambda>(closed, defect1, st1). reads st st1 \<and> grown st0 Q st1 \<and>
    (defect1 = No_defect \<longrightarrow> defect = No_defect \<and> pa_index st < pa_index st1 \<and>
       tk_kind (tr_tokens (pa_tree st1) ! pa_index st) = want))"
proof -
  from require_token_ok [OF grown_ok [OF g] want, of defect]
  obtain taken defect1 st1 where r: "require_token want defect st = Some (taken, defect1, st1)" "reads st st1"
    "if taken then defect1 = defect \<and> tk_kind (tr_tokens (pa_tree st1) ! pa_index st) = want \<and> pa_index st < pa_index st1
     else defect1 \<noteq> No_defect \<and> pa_index st1 = pa_index st" by (auto elim: succeedsE)
  then show ?thesis using grown_reads [OF g r(2)] by (auto split: if_splits)
qed

text \<open>The word a construct begins with.\<close>

lemma opening_word_ok:
  assumes ok: "ok st0" and kw: "peek_reserved st0 \<noteq> Kw_none"
  shows "succeeds (accept_keyword st0) (\<lambda>(first, st). first = pa_index st0 \<and> reads st0 st \<and>
    pa_index st0 < pa_index st \<and> potential st < potential st0 \<and>
    spelled (pa_tree st) (pa_index st0) = peek_reserved st0)"
proof -
  have "peek_kind st0 \<noteq> T_end" using peek_reserved_word [OF kw] by simp
  from accept_keyword_ok [OF ok this] obtain st where st: "accept_keyword st0 = Some (pa_index st0, st)"
    "reads st0 st" "pa_index st0 < pa_index st" by (auto elim: succeedsE)
  then show ?thesis using reads_less [OF st(2,3)] keeps_said(1) [OF ok reads_keeps [OF st(2)], of "pa_index st0"]
    by (simp add: peek_reserved_spelled)
qed

lemma keeps_opening:
  "ok st0 \<Longrightarrow> keeps st0 st \<Longrightarrow> spelled (pa_tree st) (pa_index st0) = peek_reserved st0"
  using keeps_said(1) [of st0 st "pa_index st0"] by (simp add: peek_reserved_spelled)

text \<open>A construct between two words is made, whatever is missing of it.\<close>

lemma bracketed_ok:
  assumes ok: "ok st0" and g: "grown st0 Q st"
    and closed: "defect = No_defect \<Longrightarrow> later st0 st (\<lambda>k. spelled (pa_tree st) k = closing)"
    and kind: "(kind, peek_reserved st0, closing) \<in> {(If_clause, Kw_if, Kw_fi), (While_loop, Kw_while, Kw_done),
      (Until_loop, Kw_until, Kw_done), (For_loop, Kw_for, Kw_done), (Case_clause, Kw_case, Kw_esac),
      (Brace_group, Kw_lbrace, Kw_rbrace)}"
    and shape: "\<And>ns. Q ns \<Longrightarrow> well_shaped kind (defect = No_defect) aux ns"
  shows "made st0 (\<lambda>n. nd_kind n \<in> compound_kinds)
    (closed_node kind (pa_index st0) aux defect (mark_scratch st0) st)"
proof -
  let ?n = "(node_over kind (pa_index st0) (last_consumed (pa_index st0) st))\<lparr>nd_error := defect, nd_aux := aux\<rparr>"
  have "bracketed (pa_tree st) ?n (peek_reserved st0) closing"
    using keeps_opening [OF ok grown_keeps [OF g]] within_later [OF closed, of ?n] by (auto simp: bracketed_def)
  then have "well_delimited (pa_tree st) ?n ns" for ns using kind by (auto simp: well_delimited_def)
  from closed_node_ok(1) [OF g shape this] kind show ?thesis
    by (auto simp: compound_kinds_def elim!: made_mono)
qed

lemma parse_while_or_until_ok:
  assumes ok: "ok st0" and kw: "peek_reserved st0 = (if is_until then Kw_until else Kw_while)"
    and rec: "serves rec (potential st0) k"
  shows "succeeds (parse_while_or_until is_until rec st0) (made st0 (\<lambda>n. nd_kind n \<in> compound_kinds))"
proof -
  from opening_word_ok [OF ok] kw obtain st where st: "accept_keyword st0 = Some (pa_index st0, st)" "reads st0 st"
    "pa_index st0 < pa_index st" "potential st < potential st0" by (fastforce elim: succeedsE split: if_splits)
  note g = grown_none [OF st(2)]
  from push_required_list_ok [OF g serves_less [OF rec grown_ok [OF g] st(4)], of No_defect]
  obtain d1 st1 where st1: "push_required_list rec No_defect st = Some (d1, st1)" "keeps st st1"
    and g1: "grown st0 (then_list (d1 = No_defect) (\<lambda>ns. ns = [])) st1" by (auto elim: succeedsE)
  have less: "potential s < potential st0" if "potential s \<le> potential st1" for s
    using that keeps_step(2) [OF st1(2)] st(4) by simp
  from body_after_ok [OF g1, of Kw_do rec d1] serves_less [OF rec _ less]
  obtain d2 st2 where st2: "body_after rec Kw_do d1 st1 = Some (d2, st2)" "keeps st1 st2"
    and d2: "d2 = No_defect \<Longrightarrow> d1 = No_defect"
    and g2: "d2 \<noteq> No_defect \<and> grown st0 (then_list (d1 = No_defect) (\<lambda>ns. ns = [])) st2 \<or>
      grown st0 (then_list (d2 = No_defect) (then_list (d1 = No_defect) (\<lambda>ns. ns = []))) st2"
    by (auto elim: succeedsE)
  define Q where "Q d ns \<longleftrightarrow> list_all is_list ns \<and> length ns \<le> 2 \<and>
    (d = No_defect \<longrightarrow> list_all is_full_list ns \<and> length ns = 2)" for d ns
  have g3: "grown st0 (Q d2) st2"
    using g2 d2 by (auto elim!: grown_mono simp: then_list_def Q_def)
  have past: "pa_index st0 < pa_index st2"
    using st(3) keeps_step(1) [OF st1(2)] keeps_step(1) [OF st2(2)] by simp
  from closing_word_ok [OF g3 _ past, of Kw_done d2]
  obtain closed d3 st3 where st3: "require_word Kw_done d2 st2 = Some (closed, d3, st3)" "grown st0 (Q d2) st3"
    "d3 = No_defect \<Longrightarrow> d2 = No_defect \<and> later st0 st3 (\<lambda>k. spelled (pa_tree st3) k = Kw_done)"
    by (auto elim: succeedsE)
  have "made st0 (\<lambda>n. nd_kind n \<in> compound_kinds)
      (closed_node (if is_until then Until_loop else While_loop) (pa_index st0) 0 d3 (mark_scratch st0) st3)"
    by (rule bracketed_ok [OF ok st3(2), where closing = Kw_done])
      (use st3(3) kw in \<open>auto simp: Q_def\<close>)
  then show ?thesis using st(1) st1(1) st2(1) st3(1) by (simp add: parse_while_or_until_def)
qed

definition if_parts :: "nat \<Rightarrow> parse_error \<Rightarrow> node list \<Rightarrow> bool" where
  "if_parts pairs defect ns \<longleftrightarrow>
     list_all is_list ns \<and> (defect = No_defect \<longrightarrow> list_all is_full_list ns \<and> length ns = 2 * pairs)"

lemma if_step_ok:
  assumes g: "grown st0 (if_parts pairs defect) st" and rec: "serves rec p k" and less: "potential st < p"
  shows "succeeds (if_step rec (pairs, defect, st)) (\<lambda>r. case r of
      Inl (pairs1, defect1, st1) \<Rightarrow> grown st0 (if_parts pairs1 defect1) st1 \<and> keeps st st1 \<and> potential st1 < potential st
    | Inr (pairs1, defect1, st1) \<Rightarrow> grown st0 (if_parts pairs1 defect1) st1 \<and> keeps st st1 \<and>
        (defect1 = No_defect \<longrightarrow> 0 < pairs1))"
proof -
  from push_required_list_ok [OF g serves_less [OF rec grown_ok [OF g] less], of defect]
  obtain d1 st1 where st1: "push_required_list rec defect st = Some (d1, st1)" "keeps st st1"
    "d1 = No_defect \<Longrightarrow> defect = No_defect"
    and g1: "grown st0 (then_list (d1 = No_defect) (if_parts pairs defect)) st1" by (auto elim: succeedsE)
  from require_word_ok [OF grown_ok [OF g1], of Kw_then d1]
  obtain taken d2 st2 where st2: "require_word Kw_then d1 st1 = Some (taken, d2, st2)" "reads st1 st2"
    "if taken then d2 = d1 \<and> spelled (pa_tree st2) (pa_index st1) = Kw_then \<and> pa_index st1 < pa_index st2
     else d2 \<noteq> No_defect \<and> pa_index st2 = pa_index st1" by (auto elim: succeedsE)
  note g2 = grown_reads [OF g1 st2(2)] and k2 = keeps_trans [OF st1(2) reads_keeps [OF st2(2)]]
  show ?thesis
  proof (cases taken)
    case False
    then have "grown st0 (if_parts pairs d2) st2" using st2(3)
      by (auto intro!: grown_mono [OF g2] simp: if_parts_def then_list_def)
    then show ?thesis using False st1(1) st2 k2 by (simp add: if_step_def)
  next
    case True
    have "potential st2 < p" using keeps_step(2) [OF k2] less by simp
    from push_required_list_ok [OF g2 serves_less [OF rec grown_ok [OF g2] this], of d2]
    obtain d3 st3 where st3: "push_required_list rec d2 st2 = Some (d3, st3)" "keeps st2 st3"
      "d3 = No_defect \<Longrightarrow> d2 = No_defect"
      and g3: "grown st0 (then_list (d3 = No_defect) (then_list (d1 = No_defect) (if_parts pairs defect))) st3"
      by (auto elim: succeedsE)
    from accept_ok [OF grown_ok [OF g3], of Kw_elif]
    obtain again st4 where st4: "accept Kw_elif st3 = Some (again, st4)" "reads st3 st4"
      "if again then spelled (pa_tree st4) (pa_index st3) = Kw_elif \<and> pa_index st3 < pa_index st4 else st4 = st3"
      by (auto elim: succeedsE)
    have "grown st0 (if_parts (pairs + 1) d3) st4"
      by (rule grown_mono [OF grown_reads [OF g3 st4(2)]])
        (use True st1(3) st2(3) st3(3) in \<open>auto simp: if_parts_def then_list_def\<close>)
    moreover have "keeps st st4" using k2 st3(2) reads_keeps [OF st4(2)] keeps_trans by blast
    moreover have "potential st4 < potential st" if again
      using that st4 reads_less [OF st4(2)] keeps_step(2) [OF k2] keeps_step(2) [OF st3(2)] by simp
    ultimately show ?thesis using True st1(1) st2(1) st3(1) st4(1) by (simp add: if_step_def)
  qed
qed

lemma parse_if_ok:
  assumes ok: "ok st0" and kw: "peek_reserved st0 = Kw_if" and rec: "serves rec (potential st0) k"
  shows "succeeds (parse_if rec st0) (made st0 (\<lambda>n. nd_kind n \<in> compound_kinds))"
proof -
  from opening_word_ok [OF ok] kw obtain st where st: "accept_keyword st0 = Some (pa_index st0, st)" "reads st0 st"
    "pa_index st0 < pa_index st" "potential st < potential st0" by (fastforce elim: succeedsE)
  let ?I = "\<lambda>(pairs, d, s). grown st0 (if_parts pairs d) s \<and> keeps st s"
  have "succeeds (loop (if_step rec) (0, No_defect, st)) (\<lambda>(pairs, d, s). grown st0 (if_parts pairs d) s \<and> keeps st s \<and>
      (d = No_defect \<longrightarrow> 0 < pairs))"
  proof (rule succeeds_loop [where I = ?I and f = "\<lambda>(pairs, d, s). potential s"])
    fix run assume "?I run"
    obtain pairs d s where run: "run = (pairs, d, s)" by (cases run)
    with \<open>?I run\<close> have I: "grown st0 (if_parts pairs d) s" "keeps st s" by simp_all
    have "potential s < potential st0" using keeps_step(2) [OF I(2)] st(4) by simp
    from if_step_ok [OF I(1) rec this]
    show "succeeds (if_step rec run) (\<lambda>r. case r of
        Inl run1 \<Rightarrow> ?I run1 \<and> (case run1 of (pairs, d, s) \<Rightarrow> potential s) < (case run of (pairs, d, s) \<Rightarrow> potential s)
      | Inr (pairs, d, s) \<Rightarrow> grown st0 (if_parts pairs d) s \<and> keeps st s \<and> (d = No_defect \<longrightarrow> 0 < pairs))"
      unfolding run by (rule succeeds_mono) (auto intro: keeps_trans [OF I(2)] split: sum.splits)
  next
    show "?I (0, No_defect, st)" using grown_none [OF st(2)] keeps_refl [OF reads_ok [OF st(2)]]
      by (auto simp: if_parts_def elim!: grown_mono)
  qed
  then obtain pairs d st1 where st1: "loop (if_step rec) (0, No_defect, st) = Some (pairs, d, st1)" "keeps st st1"
    and g1: "grown st0 (if_parts pairs d) st1" and pos: "d = No_defect \<Longrightarrow> 0 < pairs" by (auto elim: succeedsE)
  from accept_ok [OF grown_ok [OF g1], of Kw_else]
  obtain otherwise st2 where st2: "accept Kw_else st1 = Some (otherwise, st2)" "reads st1 st2"
    by (auto elim: succeedsE)
  note g2 = grown_reads [OF g1 st2(2)] and k2 = keeps_trans [OF st1(2) reads_keeps [OF st2(2)]]
  have less: "potential st2 < potential st0" using keeps_step(2) [OF k2] st(4) by simp
  define Q where "Q d ns \<longleftrightarrow> list_all is_list ns \<and>
    (d = No_defect \<longrightarrow> list_all is_full_list ns \<and> (length ns = 2 * pairs \<or> length ns = 2 * pairs + 1))" for d ns
  have "succeeds (if otherwise then push_required_list rec d st2 else Some (d, st2))
      (\<lambda>(d1, st3). keeps st2 st3 \<and> (d1 = No_defect \<longrightarrow> d = No_defect) \<and> grown st0 (Q d1) st3)"
  proof (cases otherwise)
    case True
    have "succeeds (push_required_list rec d st2)
        (\<lambda>(d1, st3). keeps st2 st3 \<and> (d1 = No_defect \<longrightarrow> d = No_defect) \<and> grown st0 (Q d1) st3)"
      by (rule succeeds_mono [OF push_required_list_ok [OF g2 serves_less [OF rec grown_ok [OF g2] less]]])
        (auto simp: Q_def if_parts_def then_list_def elim!: grown_mono)
    then show ?thesis using True by simp
  next
    case False
    have "grown st0 (Q d) st2" by (rule grown_mono [OF g2]) (simp add: Q_def if_parts_def)
    then show ?thesis using False keeps_refl [OF grown_ok [OF g2]] by simp
  qed
  then obtain d1 st3 where st3: "(if otherwise then push_required_list rec d st2 else Some (d, st2)) = Some (d1, st3)"
    "keeps st2 st3" "d1 = No_defect \<Longrightarrow> d = No_defect" and g3: "grown st0 (Q d1) st3" by (auto elim: succeedsE)
  have past: "pa_index st0 < pa_index st3"
    using st(3) keeps_step(1) [OF k2] keeps_step(1) [OF st3(2)] by simp
  from closing_word_ok [OF g3 _ past, of Kw_fi d1]
  obtain closed d2 st4 where st4: "require_word Kw_fi d1 st3 = Some (closed, d2, st4)" "grown st0 (Q d1) st4"
    "d2 = No_defect \<Longrightarrow> d1 = No_defect \<and> later st0 st4 (\<lambda>k. spelled (pa_tree st4) k = Kw_fi)"
    by (auto elim: succeedsE)
  have "made st0 (\<lambda>n. nd_kind n \<in> compound_kinds) (closed_node If_clause (pa_index st0) pairs d2 (mark_scratch st0) st4)"
    by (rule bracketed_ok [OF ok st4(2), where closing = Kw_fi])
      (use st4(3) kw st3(3) pos in \<open>auto simp: Q_def Suc_le_eq One_nat_def\<close>)
  then show ?thesis using st(1) st1(1) st2(1) st3(1) st4(1) by (simp add: parse_if_def)
qed

lemma parse_brace_group_ok:
  assumes ok: "ok st0" and kw: "peek_reserved st0 = Kw_lbrace" and rec: "serves rec (potential st0) k"
  shows "succeeds (parse_brace_group rec st0) (made st0 (\<lambda>n. nd_kind n \<in> compound_kinds))"
proof -
  from opening_word_ok [OF ok] kw obtain st where st: "accept_keyword st0 = Some (pa_index st0, st)" "reads st0 st"
    "pa_index st0 < pa_index st" "potential st < potential st0" by (fastforce elim: succeedsE)
  note g = grown_none [OF st(2)]
  from push_required_list_ok [OF g serves_less [OF rec grown_ok [OF g] st(4)], of No_defect]
  obtain d1 st1 where st1: "push_required_list rec No_defect st = Some (d1, st1)" "keeps st st1"
    and g1: "grown st0 (then_list (d1 = No_defect) (\<lambda>ns. ns = [])) st1" by (auto elim: succeedsE)
  have past: "pa_index st0 < pa_index st1" using st(3) keeps_step(1) [OF st1(2)] by simp
  from closing_word_ok [OF g1 _ past, of Kw_rbrace d1]
  obtain closed d2 st2 where st2: "require_word Kw_rbrace d1 st1 = Some (closed, d2, st2)"
    "grown st0 (then_list (d1 = No_defect) (\<lambda>ns. ns = [])) st2"
    "d2 = No_defect \<Longrightarrow> d1 = No_defect \<and> later st0 st2 (\<lambda>k. spelled (pa_tree st2) k = Kw_rbrace)"
    by (auto elim: succeedsE)
  have "made st0 (\<lambda>n. nd_kind n \<in> compound_kinds) (closed_node Brace_group (pa_index st0) 0 d2 (mark_scratch st0) st2)"
    by (rule bracketed_ok [OF ok st2(2), where closing = Kw_rbrace])
      (use st2(3) kw in \<open>auto simp: then_list_def\<close>)
  then show ?thesis using st(1) st1(1) st2(1) by (simp add: parse_brace_group_def)
qed

lemma parse_subshell_ok:
  assumes ok: "ok st0" and paren: "peek_kind st0 = T_lparen" and rec: "serves rec (potential st0) k"
  shows "succeeds (parse_subshell rec st0) (made st0 (\<lambda>n. nd_kind n \<in> compound_kinds))"
proof -
  from advance_reads [OF ok] paren obtain st where st: "advance st0 = Some (pa_index st0, st)" "reads st0 st"
    "pa_index st0 < pa_index st" by (fastforce elim: succeedsE)
  note g = grown_none [OF st(2)]
  from push_required_list_ok [OF g serves_less [OF rec grown_ok [OF g] reads_less [OF st(2,3)]], of No_defect]
  obtain d1 st1 where st1: "push_required_list rec No_defect st = Some (d1, st1)" "keeps st st1"
    and g1: "grown st0 (then_list (d1 = No_defect) (\<lambda>ns. ns = [])) st1" by (auto elim: succeedsE)
  have past: "pa_index st0 < pa_index st1" using st(3) keeps_step(1) [OF st1(2)] by simp
  from closing_token_ok [OF g1, of T_rparen d1]
  obtain closed d2 st2 where st2: "require_token T_rparen d1 st1 = Some (closed, d2, st2)"
    "grown st0 (then_list (d1 = No_defect) (\<lambda>ns. ns = [])) st2"
    and d2: "d2 = No_defect \<Longrightarrow> d1 = No_defect \<and> pa_index st1 < pa_index st2 \<and>
      tk_kind (tr_tokens (pa_tree st2) ! pa_index st1) = T_rparen"
    by (auto elim: succeedsE)
  have open_paren: "tk_kind (tr_tokens (pa_tree st2) ! pa_index st0) = T_lparen"
    using keeps_said(2) [OF ok grown_keeps [OF st2(2)], of "pa_index st0"] paren by (simp add: peek_def)
  have "later st0 st2 (\<lambda>k. tk_kind (tr_tokens (pa_tree st2) ! k) = T_rparen)" if "d2 = No_defect"
    using d2 [OF that] past by (auto simp: later_def)
  note w = within_later [OF this]
  have "made st0 (\<lambda>n. nd_kind n = Subshell) (closed_node Subshell (pa_index st0) 0 d2 (mark_scratch st0) st2)"
    by (rule closed_node_ok(1) [OF st2(2)])
      (use d2 open_paren w in \<open>auto simp: then_list_def well_delimited_def\<close>)
  then show ?thesis using st(1) st1(1) st2(1)
    by (auto simp: parse_subshell_def compound_kinds_def elim!: made_mono)
qed

subsection \<open>Words of a \<^verbatim>\<open>for\<close> and of a \<^verbatim>\<open>case\<close>\<close>

lemma grown_push_word:
  assumes g: "grown a Q b" and word: "peek_kind b = T_word" and R: "\<And>ns n. Q ns \<Longrightarrow> is_word role n \<Longrightarrow> R (ns @ [n])"
  shows "succeeds (push_word role b) (\<lambda>c. grown a R c \<and> keeps b c \<and> pa_index b < pa_index c \<and> potential c < potential b)"
proof -
  from push_word_ok [OF grown_ok [OF g] word, of role] obtain c w where c: "push_word role b = Some c"
    "grew b [w] c" "list_all (is_word role) (nodes_of c [w])" "pa_index b < pa_index c" by (auto elim: succeedsE)
  then have "grown b (\<lambda>ns. \<exists>n. ns = [n] \<and> is_word role n) c" by (auto simp: grown_def)
  from grown_trans [OF g this] have "grown a R c" by (rule grown_mono) (use R in auto)
  moreover have "potential c < potential b" using keeps_step(3) [OF grew_keeps [OF c(2)]] c(4) by simp
  ultimately show ?thesis using c grew_keeps [OF c(2)] by simp
qed

lemma push_words_ok:
  assumes "reads st0 st"
  shows "succeeds (push_words st) (\<lambda>st1. grown st0 (list_all (is_word Role_ordinary)) st1 \<and> keeps st st1)"
  unfolding push_words_def
proof (rule succeeds_loop [where I = "\<lambda>s. grown st0 (list_all (is_word Role_ordinary)) s \<and> keeps st s" and f = potential])
  fix s assume s: "grown st0 (list_all (is_word Role_ordinary)) s \<and> keeps st s"
  show "succeeds (if peek_kind s = T_word then do { s1 \<leftarrow> push_word Role_ordinary s; Some (Inl s1) } else Some (Inr s))
      (\<lambda>r. case r of Inl s1 \<Rightarrow> (grown st0 (list_all (is_word Role_ordinary)) s1 \<and> keeps st s1) \<and> potential s1 < potential s
        | Inr s1 \<Rightarrow> grown st0 (list_all (is_word Role_ordinary)) s1 \<and> keeps st s1)"
  proof (cases "peek_kind s = T_word")
    case True
    from grown_push_word [OF conjunct1 [OF s] True, of Role_ordinary "list_all (is_word Role_ordinary)"]
    obtain s1 where "push_word Role_ordinary s = Some s1" "grown st0 (list_all (is_word Role_ordinary)) s1" "keeps s s1"
      "potential s1 < potential s" by (auto elim: succeedsE)
    then show ?thesis using True s keeps_trans [of st s s1] by simp
  qed (use s in simp)
next
  show "grown st0 (list_all (is_word Role_ordinary)) st \<and> keeps st st"
    using grown_mono [OF grown_none [OF assms], of "list_all (is_word Role_ordinary)"] keeps_refl [OF reads_ok [OF assms]]
    by simp
qed

definition patterns_of :: "nat \<Rightarrow> node list \<Rightarrow> bool" where
  "patterns_of k ns \<longleftrightarrow> list_all (is_word Role_pattern) ns \<and> length ns = k"

lemma push_patterns_ok:
  assumes r: "reads st0 st"
  shows "succeeds (push_patterns st) (\<lambda>(k, st1). grown st0 (patterns_of k) st1 \<and> keeps st st1)"
  unfolding push_patterns_def
proof (rule succeeds_loop [where I = "\<lambda>(k, s). grown st0 (patterns_of k) s \<and> keeps st s" and f = "\<lambda>(k, s). potential s"])
  fix run :: "nat \<times> parser" assume run_ok: "case run of (k, s) \<Rightarrow> grown st0 (patterns_of k) s \<and> keeps st s"
  obtain k s where run: "run = (k, s)" by (cases run)
  from run_ok have s: "grown st0 (patterns_of k) s" "keeps st s" by (simp_all add: run)
  show "succeeds (case run of (patterns, st) \<Rightarrow> if peek_kind st \<noteq> T_word then Some (Inr (patterns, st))
       else do {
         st1 \<leftarrow> push_word Role_pattern st;
         if peek_kind st1 \<noteq> T_pipe then Some (Inr (patterns + 1, st1))
         else do { r \<leftarrow> advance st1; Some (Inl (patterns + 1, snd r)) } })
      (\<lambda>r. case r of
          Inl run1 \<Rightarrow> (case run1 of (k, s) \<Rightarrow> grown st0 (patterns_of k) s \<and> keeps st s) \<and>
            (case run1 of (k, s) \<Rightarrow> potential s) < (case run of (k, s) \<Rightarrow> potential s)
        | Inr (k, s) \<Rightarrow> grown st0 (patterns_of k) s \<and> keeps st s)"
  proof (cases "peek_kind s = T_word")
    case True
    from grown_push_word [OF s(1) True, of Role_pattern "patterns_of (k + 1)"]
    obtain s1 where s1: "push_word Role_pattern s = Some s1" "grown st0 (patterns_of (k + 1)) s1" "keeps s s1"
      "potential s1 < potential s" by (auto simp: patterns_of_def elim: succeedsE)
    note k1 = keeps_trans [OF s(2) s1(3)]
    from advance_reads [OF grown_ok [OF s1(2)]] obtain i s2 where s2: "advance s1 = Some (i, s2)" "reads s1 s2"
      by (auto elim: succeedsE)
    have "keeps st s2" "potential s2 < potential s"
      using keeps_trans [OF k1 reads_keeps [OF s2(2)]] keeps_step(2) [OF reads_keeps [OF s2(2)]] s1(4) by simp_all
    then show ?thesis using True s1 s2 k1 grown_reads [OF s1(2) s2(2)] by (simp add: run)
  qed (use s in \<open>simp add: run\<close>)
next
  show "case (0, st) of (k, s) \<Rightarrow> grown st0 (patterns_of k) s \<and> keeps st s"
    using grown_mono [OF grown_none [OF r], of "patterns_of 0"] keeps_refl [OF reads_ok [OF r]]
    by (simp add: patterns_of_def)
qed

lemma parse_for_ok:
  assumes ok: "ok st0" and kw: "peek_reserved st0 = Kw_for" and rec: "serves rec (potential st0) k"
  shows "succeeds (parse_for rec st0) (made st0 (\<lambda>n. nd_kind n \<in> compound_kinds))"
proof -
  let ?st0 = "st0\<lparr>pa_plain_word := True\<rparr>"
  have r0: "reads st0 ?st0" by (rule reads_plain_word [OF ok])
  have same: "peek_reserved ?st0 = peek_reserved st0" "pa_index ?st0 = pa_index st0" "potential ?st0 = potential st0"
    by (simp_all add: peek_reserved_def peek_def token_text_at_def token_at_def potential_def left_to_read_def alias_values_def)
  from opening_word_ok [OF reads_ok [OF r0]] kw obtain st where st: "accept_keyword ?st0 = Some (pa_index st0, st)"
    "reads ?st0 st" "pa_index st0 < pa_index st" "potential st < potential st0"
    by (fastforce simp: same elim: succeedsE)
  let ?st = "st\<lparr>pa_plain_word := False\<rparr>"
  have r: "reads st0 ?st"
    by (rule reads_trans [OF reads_trans [OF r0 st(2)] reads_plain_word [OF reads_ok [OF st(2)]]])
  have "succeeds (for_name ?st) (\<lambda>(name, d, st1). reads ?st st1)"
  proof (cases "peek_kind ?st = T_word")
    case True
    from advance_reads [OF reads_ok [OF r]] show ?thesis using True by (auto simp: for_name_def elim: succeedsE)
  next
    case False
    obtain d st1 where "record_missing Missing_operand No_defect ?st = (d, st1)" by fastforce
    with record_missing_ok [OF reads_ok [OF r] _ this] False show ?thesis by (simp add: for_name_def)
  qed
  then obtain name d st1 where st1: "for_name ?st = Some (name, d, st1)" "reads ?st st1" by (auto elim: succeedsE)
  from skip_newlines_ok [OF reads_ok [OF st1(2)]] obtain st2 where st2: "skip_newlines st1 = Some st2" "reads st1 st2"
    by (auto elim: succeedsE)
  from accept_ok [OF reads_ok [OF st2(2)], of Kw_in] obtain has_in st3 where
    st3: "accept Kw_in st2 = Some (has_in, st3)" "reads st2 st3" by (auto elim: succeedsE)
  have r3: "reads ?st st3" using st1(2) st2(2) st3(2) reads_trans by blast
  define W where "W has_in ns \<longleftrightarrow> list_all (is_word Role_ordinary) ns \<and> (\<not> has_in \<longrightarrow> ns = [])" for has_in ns
  have "succeeds (if has_in then push_words st3 else Some st3) (\<lambda>s. grown st0 (W has_in) s \<and> keeps st3 s)"
    using push_words_ok [OF reads_trans [OF r r3]] keeps_refl [OF reads_ok [OF r3]]
      grown_mono [OF grown_none [OF reads_trans [OF r r3]], of "W False"]
    by (cases has_in) (simp_all add: W_def [abs_def])
  then obtain st4 where st4: "(if has_in then push_words st3 else Some st3) = Some st4" "grown st0 (W has_in) st4"
    "keeps st3 st4" by (auto elim: succeedsE)
  from skip_separators_ok [OF grown_ok [OF st4(2)]] obtain st5 where st5: "skip_separators st4 = Some st5" "reads st4 st5"
    by (auto elim: succeedsE)
  note g5 = grown_reads [OF st4(2) st5(2)]
  have k5: "keeps ?st st5" using reads_keeps [OF r3] st4(3) reads_keeps [OF st5(2)] keeps_trans by blast
  have less: "potential s < potential st0" if "potential s \<le> potential st5" for s
  proof -
    have "potential ?st = potential st" by (simp add: potential_def left_to_read_def alias_values_def peek_def)
    then show ?thesis using that keeps_step(2) [OF k5] st(4) by simp
  qed
  from body_after_ok [OF g5, of Kw_do rec d] serves_less [OF rec _ less]
  obtain d2 st6 where st6: "body_after rec Kw_do d st5 = Some (d2, st6)" "keeps st5 st6"
    and g6: "d2 \<noteq> No_defect \<and> grown st0 (W has_in) st6 \<or> grown st0 (then_list (d2 = No_defect) (W has_in)) st6"
    by (auto elim: succeedsE)
  define Q where "Q d ns \<longleftrightarrow> (\<exists>ws ls. ns = ws @ ls \<and> W has_in ws \<and> list_all is_list ls \<and> length ls \<le> 1 \<and>
    (d = No_defect \<longrightarrow> list_all is_full_list ls \<and> length ls = 1))" for d ns
  have g7: "grown st0 (Q d2) st6"
    using g6
  proof
    assume "d2 \<noteq> No_defect \<and> grown st0 (W has_in) st6"
    moreover have "Q d2 ns" if "W has_in ns" "d2 \<noteq> No_defect" for ns
      using that unfolding Q_def by (intro exI [of _ ns] exI [of _ "[]"]) simp
    ultimately show ?thesis by (blast intro: grown_mono)
  next
    assume "grown st0 (then_list (d2 = No_defect) (W has_in)) st6"
    then show ?thesis
    proof (rule grown_mono)
      fix ns assume "then_list (d2 = No_defect) (W has_in) ns"
      then obtain ws l where "ns = ws @ [l]" "W has_in ws" "is_list l" "d2 = No_defect \<longrightarrow> is_full_list l"
        by (auto simp: then_list_def)
      then show "Q d2 ns" unfolding Q_def by (intro exI [of _ ws] exI [of _ "[l]"]) (simp add: One_nat_def)
    qed
  qed
  have past: "pa_index st0 < pa_index st6" using st(3) keeps_step(1) [OF k5] keeps_step(1) [OF st6(2)] by simp
  from closing_word_ok [OF g7 _ past, of Kw_done d2]
  obtain closed d3 st7 where st7: "require_word Kw_done d2 st6 = Some (closed, d3, st7)" "grown st0 (Q d2) st7"
    "d3 = No_defect \<Longrightarrow> d2 = No_defect \<and> later st0 st7 (\<lambda>k. spelled (pa_tree st7) k = Kw_done)"
    by (auto elim: succeedsE)
  have "made st0 (\<lambda>n. nd_kind n \<in> compound_kinds)
      (closed_node For_loop (pa_index st0) (name OR (if has_in then top_bit else 0)) d3 (mark_scratch st0) st7)"
  proof (rule bracketed_ok [OF ok st7(2), where closing = Kw_done])
    fix ns assume "Q d2 ns"
    then obtain ws ls where "ns = ws @ ls" "W has_in ws" "list_all is_list ls" "length ls \<le> 1"
      "d2 = No_defect \<longrightarrow> list_all is_full_list ls \<and> length ls = 1" unfolding Q_def by blast
    then show "well_shaped For_loop (d3 = No_defect) (name OR (if has_in then top_bit else 0)) ns"
      using st7(3) by (simp add: W_def del: if_split) blast
  qed (use st7(3) kw in simp_all)
  then show ?thesis using st(1) st1(1) st2(1) st3(1) st4(1) st5(1) st6(1) st7(1) by (simp add: parse_for_def del: if_split)
qed

lemma parse_case_item_ok:
  assumes ok: "ok st0" and rec: "\<And>s. ok s \<Longrightarrow> potential s \<le> potential st0 \<Longrightarrow> parses rec N_list s"
  shows "succeeds (parse_case_item rec st0) (made st0 (\<lambda>n. nd_kind n = Case_item))"
proof -
  have "succeeds (if peek_kind st0 = T_lparen then do { r \<leftarrow> advance st0; Some (snd r) } else Some st0) (reads st0)"
    using advance_reads [OF ok] reads_refl [OF ok] by (auto elim: succeedsE)
  then obtain st where st: "(if peek_kind st0 = T_lparen then do { r \<leftarrow> advance st0; Some (snd r) } else Some st0) = Some st"
    "reads st0 st" by (auto elim: succeedsE)
  from push_patterns_ok [OF st(2)] obtain k st1 where st1: "push_patterns st = Some (k, st1)"
    "grown st0 (patterns_of k) st1" "keeps st st1" by (auto elim: succeedsE)
  from closing_token_ok [OF st1(2), of T_rparen No_defect]
  obtain closed d st2 where st2: "require_token T_rparen No_defect st1 = Some (closed, d, st2)" "reads st1 st2"
    "grown st0 (patterns_of k) st2"
    and d: "d = No_defect \<Longrightarrow> pa_index st1 < pa_index st2 \<and> tk_kind (tr_tokens (pa_tree st2) ! pa_index st1) = T_rparen"
    by (auto elim: succeedsE)
  from rec [OF grown_ok [OF st2(3)] grown_potential [OF st2(3)]]
  obtain l st3 where st3: "rec N_list st2 = Some (l, st3)" "made st2 (\<lambda>n. nd_kind n \<in> rule_kinds N_list) (l, st3)"
    "keeps st2 st3" by (rule parsesE)
  let ?Q = "\<lambda>ns. \<exists>ws l. ns = ws @ [l] \<and> list_all (is_word Role_pattern) ws \<and> length ws = k \<and> is_list l"
  have g: "grown st0 ?Q (push l st3)"
    by (rule grown_push [OF st2(3) st3(2)]) (auto simp: patterns_of_def rule_kinds_def is_list_def)
  let ?aux = "k OR (if peek_kind st3 = T_semi_and then top_bit else 0)"
  have m: "made st0 (\<lambda>n. nd_kind n = Case_item)
      (closed_node Case_item (pa_index st0) ?aux d (mark_scratch st0) (push l st3))"
  proof (rule closed_node_ok(1) [OF g])
    fix ns assume "?Q ns"
    then show "well_shaped Case_item (d = No_defect) ?aux ns" by auto
    have "pa_index st0 \<le> pa_index st1 \<and> pa_index st1 < pa_index st3 \<and>
        tk_kind (tr_tokens (pa_tree st3) ! pa_index st1) = T_rparen" if "d = No_defect"
      using d [OF that] keeps_said(2) [OF grown_ok [OF st2(3)] st3(3), of "pa_index st1"]
        grown_index [OF st1(2)] keeps_step(1) [OF st3(3)] by simp
    then show "well_delimited (pa_tree (push l st3)) ((node_over Case_item (pa_index st0) (last_consumed (pa_index st0) (push l st3)))
        \<lparr>nd_error := d, nd_aux := ?aux\<rparr>) ns"
      by (auto simp: well_delimited_def last_consumed_def intro!: exI [of _ "pa_index st1"])
  qed
  then show ?thesis using st(1) st1(1) st2(1) st3(1) by (simp add: parse_case_item_def del: if_split)
qed

definition case_parts :: "node list \<Rightarrow> bool" where
  "case_parts ns \<longleftrightarrow> (\<exists>ss items. ns = ss @ items \<and> length ss \<le> 1 \<and> list_all (is_word Role_case_subject) ss \<and>
     list_all (\<lambda>n. nd_kind n = Case_item) items)"

lemma case_parts_item: "case_parts ns \<Longrightarrow> nd_kind n = Case_item \<Longrightarrow> case_parts (ns @ [n])"
proof -
  assume "case_parts ns" and n: "nd_kind n = Case_item"
  then obtain ss items where "ns = ss @ items" "length ss \<le> 1" "list_all (is_word Role_case_subject) ss"
    "list_all (\<lambda>n. nd_kind n = Case_item) items" by (auto simp: case_parts_def)
  then show "case_parts (ns @ [n])" using n unfolding case_parts_def
    by (intro exI [of _ ss] exI [of _ "items @ [n]"]) simp
qed

lemma case_step_ok:
  assumes g: "grown st0 case_parts st" and rec: "serves rec p k" and less: "potential st < p"
  shows "succeeds (case_step rec st) (\<lambda>r. case r of
      Inl st1 \<Rightarrow> grown st0 case_parts st1 \<and> keeps st st1 \<and> potential st1 < potential st
    | Inr st1 \<Rightarrow> grown st0 case_parts st1 \<and> keeps st st1)"
proof (cases "peek_kind st = T_end \<or> peek_reserved st = Kw_esac")
  case True
  then show ?thesis using g keeps_refl [OF grown_ok [OF g]] by (simp add: case_step_def)
next
  case False
  have "parses rec N_list s" if "ok s" "potential s \<le> potential st" for s
    using serves_less [OF rec that(1)] that(2) less by simp
  from parse_case_item_ok [OF grown_ok [OF g] this] obtain item st1 where
    st1: "parse_case_item rec st = Some (item, st1)" "made st (\<lambda>n. nd_kind n = Case_item) (item, st1)"
    by (auto elim: succeedsE)
  have g1: "grown st0 case_parts (push item st1)" by (rule grown_push [OF g st1(2), where R = case_parts, OF case_parts_item])
  have k1: "keeps st (push item st1)" by (rule grew_keeps [OF made_grew [OF st1(2)]])
  have "succeeds (if peek_kind st1 = T_dsemi \<or> peek_kind st1 = T_semi_and
      then do { r \<leftarrow> advance (push item st1); Some (snd r) } else Some (push item st1)) (reads (push item st1))"
    using advance_reads [OF grown_ok [OF g1]] reads_refl [OF grown_ok [OF g1]] by (auto elim: succeedsE)
  then obtain st2 where st2: "(if peek_kind st1 = T_dsemi \<or> peek_kind st1 = T_semi_and
      then do { r \<leftarrow> advance (push item st1); Some (snd r) } else Some (push item st1)) = Some st2"
    "reads (push item st1) st2" by (auto elim: succeedsE)
  from skip_separators_ok [OF reads_ok [OF st2(2)]] obtain st3 where st3: "skip_separators st2 = Some st3" "reads st2 st3"
    by (auto elim: succeedsE)
  note r = reads_trans [OF st2(2) st3(2)]
  have k: "keeps st st3" by (rule keeps_trans [OF k1 reads_keeps [OF r]])
  show ?thesis using False st1(1) st2(1) st3(1) grown_reads [OF g1 r] k keeps_step(3) [OF k]
    by (simp add: case_step_def del: if_split)
qed

lemma parse_case_ok:
  assumes ok: "ok st0" and kw: "peek_reserved st0 = Kw_case" and rec: "serves rec (potential st0) k"
  shows "succeeds (parse_case rec st0) (made st0 (\<lambda>n. nd_kind n \<in> compound_kinds))"
proof -
  from opening_word_ok [OF ok] kw obtain st where st: "accept_keyword st0 = Some (pa_index st0, st)" "reads st0 st"
    "pa_index st0 < pa_index st" "potential st < potential st0" by (fastforce elim: succeedsE)
  have "succeeds (if peek_kind st = T_word then push_word Role_case_subject st else Some st)
      (\<lambda>s. grown st0 case_parts s \<and> keeps st s)"
  proof (cases "peek_kind st = T_word")
    case True
    have "case_parts (ns @ [n])" if "ns = []" "is_word Role_case_subject n" for ns n
      using that unfolding case_parts_def by (intro exI [of _ "[n]"] exI [of _ "[]"]) (simp add: One_nat_def)
    from grown_push_word [OF grown_none [OF st(2)] True, of Role_case_subject case_parts, OF this] show ?thesis
      using True by (auto elim: succeeds_mono)
  next
    case False
    have "case_parts ns" if "ns = []" for ns using that unfolding case_parts_def by simp
    from grown_mono [OF grown_none [OF st(2)] this] False keeps_refl [OF reads_ok [OF st(2)]] show ?thesis by simp
  qed
  then obtain st1 where st1: "(if peek_kind st = T_word then push_word Role_case_subject st else Some st) = Some st1"
    "grown st0 case_parts st1" "keeps st st1" by (auto elim: succeedsE)
  from skip_newlines_ok [OF grown_ok [OF st1(2)]] obtain st2 where st2: "skip_newlines st1 = Some st2" "reads st1 st2"
    by (auto elim: succeedsE)
  from require_word_ok [OF reads_ok [OF st2(2)], of Kw_in No_defect]
  obtain taken d st3 where st3: "require_word Kw_in No_defect st2 = Some (taken, d, st3)" "reads st2 st3"
    by (auto elim: succeedsE)
  from skip_separators_ok [OF reads_ok [OF st3(2)]] obtain st4 where st4: "skip_separators st3 = Some st4" "reads st3 st4"
    by (auto elim: succeedsE)
  have r4: "reads st1 st4" using st2(2) st3(2) st4(2) reads_trans by blast
  note g4 = grown_reads [OF st1(2) r4] and k4 = keeps_trans [OF st1(3) reads_keeps [OF r4]]
  have "succeeds (loop (case_step rec) st4) (\<lambda>s. grown st0 case_parts s \<and> keeps st s)"
  proof (rule succeeds_loop [where I = "\<lambda>s. grown st0 case_parts s \<and> keeps st s" and f = potential])
    fix s assume s: "grown st0 case_parts s \<and> keeps st s"
    then have "potential s < potential st0" using keeps_step(2) [of st s] st(4) by simp
    from case_step_ok [OF conjunct1 [OF s] rec this]
    show "succeeds (case_step rec s) (\<lambda>r. case r of
        Inl s1 \<Rightarrow> (grown st0 case_parts s1 \<and> keeps st s1) \<and> potential s1 < potential s
      | Inr s1 \<Rightarrow> grown st0 case_parts s1 \<and> keeps st s1)"
      by (rule succeeds_mono) (auto intro: keeps_trans [OF conjunct2 [OF s]] split: sum.splits)
  qed (use g4 k4 in simp)
  then obtain st5 where st5: "loop (case_step rec) st4 = Some st5" "grown st0 case_parts st5" "keeps st st5"
    by (auto elim: succeedsE)
  have past: "pa_index st0 < pa_index st5" using st(3) keeps_step(1) [OF st5(3)] by simp
  from closing_word_ok [OF st5(2) _ past, of Kw_esac d]
  obtain closed d1 st6 where st6: "require_word Kw_esac d st5 = Some (closed, d1, st6)" "grown st0 case_parts st6"
    "d1 = No_defect \<Longrightarrow> later st0 st6 (\<lambda>k. spelled (pa_tree st6) k = Kw_esac)"
    by (auto elim: succeedsE)
  have "made st0 (\<lambda>n. nd_kind n \<in> compound_kinds) (closed_node Case_clause (pa_index st0) 0 d1 (mark_scratch st0) st6)"
    by (rule bracketed_ok [OF ok st6(2), where closing = Kw_esac])
      (use st6(3) kw in \<open>auto simp: case_parts_def\<close>)
  then show ?thesis using st(1) st1(1) st2(1) st3(1) st4(1) st5(1) st6(1) by (simp add: parse_case_def del: if_split)
qed

subsection \<open>Commands\<close>

text \<open>A redirection gathered.\<close>

lemma grown_push_redirect:
  assumes g: "grown a Q b" and start: "starts_redirect (peek_kind b)"
    and R: "\<And>ns n. Q ns \<Longrightarrow> nd_kind n \<in> redirect_kinds \<Longrightarrow> R (ns @ [n])"
  shows "succeeds (parse_redirect b) (\<lambda>(n, c). grown a R (push n c) \<and> keeps b (push n c) \<and>
    potential (push n c) < potential b)"
proof -
  from parse_redirect_ok [OF grown_ok [OF g] start] obtain n c where c: "parse_redirect b = Some (n, c)"
    "made b (\<lambda>n. nd_kind n \<in> redirect_kinds) (n, c)" "pa_index b < pa_index c" by (auto elim: succeedsE)
  have k: "keeps b (push n c)" by (rule grew_keeps [OF made_grew [OF c(2)]])
  have "grown a R (push n c)" by (rule grown_push [OF g c(2)]) (rule R)
  then show ?thesis using c(1,3) k keeps_step(3) [OF k] by simp
qed

lemma attach_trailing_redirects_ok:
  assumes m: "made st0 (\<lambda>n. nd_kind n \<in> compound_kinds) r"
  shows "succeeds (attach_trailing_redirects r) (made st0 (\<lambda>n. nd_kind n \<in> compound_kinds))"
proof -
  obtain compound st where r: "r = (compound, st)" by fastforce
  note m = m [unfolded r]
  show ?thesis
  proof (cases "starts_redirect (peek_kind st)")
    case False
    then show ?thesis using m by (simp add: r attach_trailing_redirects_def)
  next
    case True
    let ?st = "push compound st"
    note ok = grew_ok [OF made_grew [OF m]]
    let ?Q = "list_all (\<lambda>n. nd_kind n \<in> redirect_kinds)"
    let ?I = "\<lambda>s. \<exists>ns. grew ?st ns s \<and> ?Q (nodes_of s ns) \<and> (ns = [] \<longrightarrow> starts_redirect (peek_kind s))"
    have "succeeds (loop (\<lambda>st. if starts_redirect (peek_kind st)
        then do { (n, st1) \<leftarrow> parse_redirect st; Some (Inl (push n st1)) } else Some (Inr st)) ?st)
      (\<lambda>s. \<exists>ns. grew ?st ns s \<and> ?Q (nodes_of s ns) \<and> ns \<noteq> [])"
    proof (rule succeeds_loop [where I = ?I and f = potential])
      fix s assume I: "?I s"
      then have g: "grown ?st ?Q s" by (auto simp: grown_def)
      show "succeeds (if starts_redirect (peek_kind s)
          then do { (n, st1) \<leftarrow> parse_redirect s; Some (Inl (push n st1)) } else Some (Inr s))
        (\<lambda>r. case r of Inl s1 \<Rightarrow> ?I s1 \<and> potential s1 < potential s
          | Inr s1 \<Rightarrow> \<exists>ns. grew ?st ns s1 \<and> ?Q (nodes_of s1 ns) \<and> ns \<noteq> [])"
      proof (cases "starts_redirect (peek_kind s)")
        case True
        from grown_push_redirect [OF g True, where R = "\<lambda>ns. ?Q ns \<and> ns \<noteq> []"] obtain n s1 where
          "parse_redirect s = Some (n, s1)" "grown ?st (\<lambda>ns. ?Q ns \<and> ns \<noteq> []) (push n s1)"
          "potential (push n s1) < potential s" by (auto elim: succeedsE)
        then show ?thesis using True by (fastforce simp: grown_def)
      qed (use I in auto)
    next
      show "?I ?st" using reads_grew [OF reads_refl [OF ok]] True by (intro exI [of _ "[]"]) simp
    qed
    then obtain ns st1 where lp: "loop (\<lambda>st. if starts_redirect (peek_kind st)
        then do { (n, st1) \<leftarrow> parse_redirect st; Some (Inl (push n st1)) } else Some (Inr st)) ?st = Some st1"
      and g: "grew ?st ns st1" and ns: "?Q (nodes_of st1 ns)" "ns \<noteq> []" by (auto elim: succeedsE)
    let ?c = "tr_nodes (pa_tree st) ! compound"
    have c: "compound < length (tr_nodes (pa_tree st))" "pa_index st0 \<le> nd_first ?c" "nd_last ?c \<le> pa_index st"
      "nd_kind ?c \<in> compound_kinds"
      using m by (simp_all add: made_def grew_def spans_def)
    have same: "tr_nodes (pa_tree st1) ! compound = ?c"
      using keeps_node [OF grew_keeps [OF g]] c(1) by simp
    have "nd_first ?c \<le> nd_last ?c" using ok c(1) by (simp add: ok_def ready_def well_formed_node_def Let_def)
    then have le: "nd_first ?c \<le> pa_index st" using c(3) by simp
    then have later: "list_all (\<lambda>n. nd_first ?c \<le> nd_first n) (nodes_of st1 ns)"
      using g by (auto simp: grew_def spans_def list_all_iff)
    have g0: "grew st0 (compound # ns) st1" using grew_trans [OF made_grew [OF m] g] by simp
    note b = last_consumed_bounds [of "nd_first ?c" st1]
    have le1: "nd_first ?c \<le> pa_index st1" using le keeps_step(1) [OF grew_keeps [OF g]] by simp
    have kinds: "nd_kind ?c \<noteq> Compound_list" using c(4) by (auto simp: compound_kinds_def)
    let ?n = "node_over Brace_group (nd_first ?c) (last_consumed (nd_first ?c) st1)"
    have "made st0 (\<lambda>n. nd_kind n \<in> compound_kinds) (finish_node ?n (mark_scratch st0) st1)"
      by (rule finish_node_ok(1) [OF g0, where P = "\<lambda>n. nd_kind n \<in> compound_kinds"])
        (use b c later le1 ns kinds same in
          \<open>simp_all add: well_delimited_def carries_redirects_def compound_kinds_def list_all_iff\<close>)
    then show ?thesis using lp True made_mark [OF m] same by (simp add: r attach_trailing_redirects_def)
  qed
qed

lemma parts_word: "command_parts seen ns \<Longrightarrow> is_word (if seen then Role_ordinary else Role_command_name) n \<Longrightarrow>
    command_parts True (ns @ [n])"
  by (cases seen) (auto intro: parts_name parts_argument)

lemma command_word_ok:
  assumes g: "grown st0 (command_parts seen) st" and word: "peek_kind st = T_word"
  shows "succeeds (command_word mark seen st) (\<lambda>r. case r of
      Inl (seen1, st1) \<Rightarrow> grown st0 (command_parts seen1) st1 \<and> potential st1 < potential st
    | Inr st1 \<Rightarrow> False)"
proof -
  note ok = grown_ok [OF g]
  have "succeeds (if \<not> seen \<and> mark < mark_scratch st \<and> \<not> looks_like_assignment (token_text_at st (pa_index st))
            then substitute_word st else Some st) (\<lambda>s. reads st s \<and> (pa_index s = pa_index st \<longrightarrow> s = st))"
    using substitute_word_ok [OF ok] reads_refl [OF ok] by auto
  then obtain st1 where st1: "(if \<not> seen \<and> mark < mark_scratch st \<and> \<not> looks_like_assignment (token_text_at st (pa_index st))
            then substitute_word st else Some st) = Some st1" "reads st st1" "pa_index st1 = pa_index st \<Longrightarrow> st1 = st"
    by (auto elim: succeedsE)
  show ?thesis
  proof (cases "pa_index st1 = pa_index st")
    case False
    then show ?thesis using st1 grown_reads [OF g st1(2)] keeps_step(3) [OF reads_keeps [OF st1(2)]]
      by (simp add: command_word_def del: if_split)
  next
    case True
    then have s1: "st1 = st" by (rule st1(3))
    from advance_reads [OF ok] word obtain st2 where st2: "advance st = Some (pa_index st, st2)" "reads st st2"
      "pa_index st < pa_index st2" by (fastforce elim: succeedsE)
    define assigns where "assigns \<longleftrightarrow> \<not> seen \<and> looks_like_assignment (token_text_at st2 (pa_index st))"
    define kind where "kind = (if assigns then Assignment_node else Word_node)"
    define role where "role = (if assigns \<or> seen then Role_ordinary else Role_command_name)"
    define P where "P n \<longleftrightarrow> nd_kind n = kind \<and> nd_aux n = role_code role" for n :: node
    obtain w st3 where w: "word_node (pa_index st) kind role st2 = (w, st3)" by fastforce
    have m: "made st P (w, st3)" "pa_index st3 = pa_index st2"
      using word_node_ok(1) [where P = P, OF st2(2) ok word, of kind role]
        word_node_ok(2) [where P = P, OF st2(2) ok word, of kind role] w
      by (auto simp: P_def kind_def)
    have "grown st0 (command_parts (seen \<or> \<not> assigns)) (push w st3)"
    proof (rule grown_push [OF g m(1)])
      fix ns n assume "command_parts seen ns" "P n"
      then show "command_parts (seen \<or> \<not> assigns) (ns @ [n])"
        by (auto simp: P_def kind_def role_def assigns_def is_word_def intro: parts_assignment parts_word split: if_splits)
    qed
    moreover have "potential (push w st3) < potential st"
      using keeps_step(3) [OF made_keeps [OF m(1)]] m(2) st2(3) by simp
    ultimately show ?thesis using st1(1) st2(1) w unfolding s1
      by (auto simp: command_word_def assigns_def kind_def role_def split: if_splits)
  qed
qed

lemma command_step_ok:
  assumes g: "grown st0 (command_parts seen) st"
  shows "succeeds (command_step mark (seen, st)) (\<lambda>r. case r of
      Inl (seen1, st1) \<Rightarrow> grown st0 (command_parts seen1) st1 \<and> potential st1 < potential st
    | Inr st1 \<Rightarrow> grown st0 (\<lambda>ns. \<exists>seen. command_parts seen ns) st1)"
proof (cases "ends_command (peek_kind st) \<or> mark_scratch st = mark \<and> at_list_terminator st")
  case True
  moreover have "grown st0 (\<lambda>ns. \<exists>seen. command_parts seen ns) st" by (rule grown_mono [OF g]) auto
  ultimately show ?thesis by (simp add: command_step_def)
next
  case stays: False
  then have ne: "peek_kind st \<noteq> T_end" by (auto simp: ends_command_def)
  show ?thesis
  proof (cases "starts_redirect (peek_kind st)")
    case True
    from grown_push_redirect [OF g True, where R = "command_parts seen"] obtain n st1 where
      "parse_redirect st = Some (n, st1)" "grown st0 (command_parts seen) (push n st1)" "potential (push n st1) < potential st"
      by (auto intro: parts_redirect elim: succeedsE)
    then show ?thesis using stays True by (auto simp: command_step_def)
  next
    case no_redirect: False
    show ?thesis
    proof (cases "peek_kind st = T_word")
      case True
      from command_word_ok [OF g True, of mark] show ?thesis using stays no_redirect True
        by (auto simp: command_step_def elim!: succeeds_mono split: sum.splits)
    next
      case False
      from advance_as_error_ok [OF grown_ok [OF g] ne] obtain n st1 where st1: "advance_as_error st = Some (n, st1)"
        "made st (\<lambda>n. nd_kind n = Error_node) (n, st1)" "pa_index st < pa_index st1" by (auto elim: succeedsE)
      have "grown st0 (command_parts seen) (push n st1)"
        by (rule grown_push [OF g st1(2)]) (auto simp: redirect_kinds_def intro: parts_redirect)
      then show ?thesis using stays no_redirect False st1 keeps_step(3) [OF made_keeps [OF st1(2)]]
        by (auto simp: command_step_def)
    qed
  qed
qed

lemma parse_command_ok:
  assumes ok: "ok st0"
  shows "succeeds (parse_command st0) (made st0 (\<lambda>n. nd_kind n = Simple_command))"
proof -
  have "succeeds (loop (command_step (mark_scratch st0)) (False, st0)) (grown st0 (\<lambda>ns. \<exists>seen. command_parts seen ns))"
  proof (rule succeeds_loop [where I = "\<lambda>(seen, s). grown st0 (command_parts seen) s" and f = "\<lambda>(seen, s). potential s"])
    fix run assume I: "case run of (seen, s) \<Rightarrow> grown st0 (command_parts seen) s"
    obtain seen s where run: "run = (seen, s)" by (cases run)
    from I have "grown st0 (command_parts seen) s" by (simp add: run)
    from command_step_ok [OF this, of "mark_scratch st0"]
    show "succeeds (command_step (mark_scratch st0) run) (\<lambda>r. case r of
        Inl run1 \<Rightarrow> (case run1 of (seen, s) \<Rightarrow> grown st0 (command_parts seen) s) \<and>
          (case run1 of (seen, s) \<Rightarrow> potential s) < (case run of (seen, s) \<Rightarrow> potential s)
      | Inr s \<Rightarrow> grown st0 (\<lambda>ns. \<exists>seen. command_parts seen ns) s)"
      unfolding run by (rule succeeds_mono) (auto split: sum.splits)
  next
    show "case (False, st0) of (seen, s) \<Rightarrow> grown st0 (command_parts seen) s"
      using grown_mono [OF grown_none [OF reads_refl [OF ok]], of "command_parts False"] by (simp add: parts_none)
  qed
  then obtain st where st: "loop (command_step (mark_scratch st0)) (False, st0) = Some st"
    "grown st0 (\<lambda>ns. \<exists>seen. command_parts seen ns) st" by (auto elim: succeedsE)
  then show ?thesis using st(1) closed_node_ok(1) [OF st(2), where kind = Simple_command and defect = No_defect and aux = 0]
    by (simp add: parse_command_def closed_node_plain well_delimited_def)
qed

lemma parse_function_definition_ok:
  assumes ok: "ok st0" and word: "peek_kind st0 = T_word" and rec: "serves rec (potential st0) k"
  shows "succeeds (parse_function_definition rec st0) (made st0 (\<lambda>n. nd_kind n = Function_definition))"
proof -
  from advance_reads [OF ok] word obtain st where st: "advance st0 = Some (pa_index st0, st)" "reads st0 st"
    "pa_index st0 < pa_index st" by (fastforce elim: succeedsE)
  from advance_reads [OF reads_ok [OF st(2)]] obtain i1 st1 where st1: "advance st = Some (i1, st1)" "reads st st1"
    by (auto elim: succeedsE)
  from advance_reads [OF reads_ok [OF st1(2)]] obtain i2 st2 where st2: "advance st1 = Some (i2, st2)" "reads st1 st2"
    by (auto elim: succeedsE)
  from skip_separators_ok [OF reads_ok [OF st2(2)]] obtain st3 where st3: "skip_separators st2 = Some st3" "reads st2 st3"
    by (auto elim: succeedsE)
  have r: "reads st st3" using st1(2) st2(2) st3(2) reads_trans by blast
  note r3 = reads_trans [OF st(2) r]
  have "potential st3 < potential st0"
    using reads_less [OF r3] keeps_step(1) [OF reads_keeps [OF r]] st(3) by simp
  from serves_less [OF rec reads_ok [OF r3] this, of N_command] obtain body st4 where
    st4: "rec N_command st3 = Some (body, st4)" "made st3 (\<lambda>n. nd_kind n \<in> rule_kinds N_command) (body, st4)"
    by (rule parsesE)
  have g: "grown st0 (\<lambda>ns. \<exists>n. ns = [n] \<and> nd_kind n \<in> command_kinds) (push body st4)"
    by (rule grown_push [OF grown_none [OF r3] st4(2)]) (simp add: rule_kinds_def)
  have "tk_kind (tr_tokens (pa_tree st4) ! pa_index st0) = T_word"
    using keeps_said(2) [OF ok grown_keeps [OF g], of "pa_index st0"] word by (simp add: peek_def)
  then show ?thesis using st(1) st1(1) st2(1) st3(1) st4(1) reads_mark [OF r3]
      closed_node_ok(1) [OF g, where kind = Function_definition and defect = No_defect and aux = "pa_index st0"]
    by (simp add: parse_function_definition_def well_delimited_def)
qed

lemma parse_command_or_compound_ok:
  assumes ok: "ok st0" and rec: "serves rec (potential st0) k"
  shows "succeeds (parse_command_or_compound rec st0) (made st0 (\<lambda>n. nd_kind n \<in> command_kinds))"
proof -
  from substitute_word_ok [OF ok] obtain st where st: "substitute_word st0 = Some st" "reads st0 st"
    by (auto elim: succeedsE)
  note ok1 = reads_ok [OF st(2)]
  have rec1: "serves rec (potential st) 0"
    using rec keeps_step(2) [OF reads_keeps [OF st(2)]] by (auto simp: serves_def)
  have compound: "succeeds (do { r \<leftarrow> m; attach_trailing_redirects r }) (made st0 (\<lambda>n. nd_kind n \<in> command_kinds))"
    if "succeeds m (made st (\<lambda>n. nd_kind n \<in> compound_kinds))" for m
  proof (rule succeeds_then [OF that])
    fix r assume "made st (\<lambda>n. nd_kind n \<in> compound_kinds) r"
    from attach_trailing_redirects_ok [OF this]
    show "succeeds (attach_trailing_redirects r) (made st0 (\<lambda>n. nd_kind n \<in> command_kinds))"
      by (rule succeeds_mono) (auto intro: reads_made [OF st(2)] elim!: made_mono simp: command_kinds_def)
  qed
  have simple: "succeeds m (made st0 (\<lambda>n. nd_kind n \<in> command_kinds))"
    if "succeeds m (made st (\<lambda>n. nd_kind n = kind))" "kind \<in> command_kinds" for m kind
    by (rule succeeds_mono [OF that(1)]) (use that(2) in \<open>auto intro: reads_made [OF st(2)] elim!: made_mono\<close>)
  have word: "peek_kind st = T_word" if "at_function_definition st"
    using that by (auto simp: at_function_definition_def split: if_splits option.splits)
  show ?thesis
    unfolding parse_command_or_compound_def st(1)
    using compound [OF parse_subshell_ok [OF ok1 _ rec1]] simple [OF parse_function_definition_ok [OF ok1 word rec1]]
      compound [OF parse_if_ok [OF ok1 _ rec1]] compound [OF parse_while_or_until_ok [OF ok1 _ rec1, of False]]
      compound [OF parse_while_or_until_ok [OF ok1 _ rec1, of True]] compound [OF parse_for_ok [OF ok1 _ rec1]]
      compound [OF parse_case_ok [OF ok1 _ rec1]] compound [OF parse_brace_group_ok [OF ok1 _ rec1]]
      simple [OF parse_command_ok [OF ok1]]
    by (simp add: command_kinds_def)
qed

subsection \<open>Pipelines and lists\<close>

lemma parse_pipeline_ok:
  assumes ok: "ok st0" and rec: "serves rec (potential st0) 1"
  shows "succeeds (parse_pipeline rec st0) (made st0 (\<lambda>n. nd_kind n \<in> pipeline_kinds))"
proof -
  from substitute_word_ok [OF ok] obtain st where st: "substitute_word st0 = Some st" "reads st0 st"
    by (auto elim: succeedsE)
  from accept_ok [OF reads_ok [OF st(2)], of Kw_bang]
  obtain negated st1 where st1: "accept Kw_bang st = Some (negated, st1)" "reads st st1"
    "if negated then spelled (pa_tree st1) (pa_index st) = Kw_bang \<and> pa_index st < pa_index st1 else st1 = st"
    by (auto elim: succeedsE)
  note r1 = reads_trans [OF st(2) st1(2)] and le = reads_index [OF st(2)]
  show ?thesis
  proof (cases negated)
    case True
    then have bang: "spelled (pa_tree st1) (pa_index st) = Kw_bang" "pa_index st < pa_index st1" using st1(3) by simp_all
    have "potential st1 < potential st0" using reads_less [OF r1] bang(2) le by simp
    from serves_less [OF rec reads_ok [OF r1] this, of N_pipeline] obtain inner st2 where
      st2: "rec N_pipeline st1 = Some (inner, st2)" "made st1 (\<lambda>n. nd_kind n \<in> rule_kinds N_pipeline) (inner, st2)"
      by (rule parsesE)
    have g: "grown st0 (\<lambda>ns. \<exists>n. ns = [n] \<and> nd_kind n \<in> pipeline_kinds) (push inner st2)"
      by (rule grown_push [OF grown_none [OF r1] st2(2)]) (simp add: rule_kinds_def)
    have said: "spelled (pa_tree st2) (pa_index st) = Kw_bang" "pa_index st < pa_index st2"
      using keeps_said(1) [OF reads_ok [OF r1] made_keeps [OF st2(2)], of "pa_index st"] bang
        keeps_step(1) [OF made_keeps [OF st2(2)]] by simp_all
    have "made st0 (\<lambda>n. nd_kind n = Negation)
        (closed_node Negation (pa_index st0) 0 No_defect (mark_scratch st0) (push inner st2))"
    proof (rule closed_node_ok(1) [OF g])
      show "well_delimited (pa_tree (push inner st2)) ((node_over Negation (pa_index st0)
          (last_consumed (pa_index st0) (push inner st2)))\<lparr>nd_error := No_defect, nd_aux := 0\<rparr>) ns" for ns
        using said le by (cases "pa_index st = pa_index st0")
          (auto simp: well_delimited_def within_def last_consumed_def intro!: exI [of _ "pa_index st"])
    qed simp
    then show ?thesis using True st(1) st1(1) st2(1) reads_mark [OF r1]
      by (auto simp: parse_pipeline_def pipeline_kinds_def elim!: made_mono)
  next
    case False
    have serve: "parses rec N_command s" if "ok s" "potential s \<le> potential st1" for s
      using serves_lower [OF rec that(1), of N_command] that(2) keeps_step(2) [OF reads_keeps [OF r1]] by simp
    from serve [OF reads_ok [OF r1]] obtain first_command st2 where
      st2: "rec N_command st1 = Some (first_command, st2)"
        "made st1 (\<lambda>n. nd_kind n \<in> rule_kinds N_command) (first_command, st2)"
      by (auto elim: parsesE)
    let ?Q = "\<lambda>ns. ns \<noteq> [] \<and> list_all (\<lambda>n. nd_kind n \<in> command_kinds) ns"
    let ?loop = "loop (\<lambda>st. if peek_kind st \<noteq> T_pipe then Some (Inr st)
         else do {
           r \<leftarrow> advance st;
           st1 \<leftarrow> skip_linebreak (snd r);
           (n, st2) \<leftarrow> rec N_command st1;
           Some (Inl (push n st2)) }) (push first_command st2)"
    have g2: "grown st1 ?Q (push first_command st2)"
      by (rule grown_push [OF grown_none [OF reads_refl [OF reads_ok [OF r1]]] st2(2)]) (simp add: rule_kinds_def)
    have "succeeds ?loop (grown st1 ?Q)"
    proof (rule succeeds_loop [where I = "grown st1 ?Q" and f = potential, OF g2])
      fix s assume g: "grown st1 ?Q s"
      show "succeeds (if peek_kind s \<noteq> T_pipe then Some (Inr s)
          else do {
            r \<leftarrow> advance s;
            st1 \<leftarrow> skip_linebreak (snd r);
            (n, st2) \<leftarrow> rec N_command st1;
            Some (Inl (push n st2)) })
        (\<lambda>r. case r of Inl s1 \<Rightarrow> grown st1 ?Q s1 \<and> potential s1 < potential s | Inr s1 \<Rightarrow> grown st1 ?Q s1)"
      proof (cases "peek_kind s = T_pipe")
        case True
        with advance_reads [OF grown_ok [OF g]] obtain i s1 where s1: "advance s = Some (i, s1)" "reads s s1"
          "pa_index s < pa_index s1" by (fastforce elim: succeedsE)
        from skip_linebreak_ok [OF reads_ok [OF s1(2)]] obtain s2 where s2: "skip_linebreak s1 = Some s2" "reads s1 s2"
          by (auto elim: succeedsE)
        note r2 = reads_trans [OF s1(2) s2(2)]
        note g2 = grown_reads [OF g r2]
        from serve [OF reads_ok [OF r2] grown_potential [OF g2]] obtain n s3 where
          s3: "rec N_command s2 = Some (n, s3)" "made s2 (\<lambda>n. nd_kind n \<in> rule_kinds N_command) (n, s3)" "keeps s2 s3"
          by (rule parsesE)
        have "grown st1 ?Q (push n s3)" by (rule grown_push [OF g2 s3(2)]) (simp add: rule_kinds_def)
        moreover have "potential s3 < potential s"
          using reads_less [OF s1(2,3)] keeps_step(2) [OF reads_keeps [OF s2(2)]] keeps_step(2) [OF s3(3)] by simp
        ultimately show ?thesis using True s1(1) s2(1) s3(1) by simp
      qed (use g in simp)
    qed
    then obtain st3 where st3: "?loop = Some st3" "grown st1 ?Q st3" by (auto elim: succeedsE)
    have pipe: "parse_pipeline rec st0 = Some (if mark_scratch st3 - mark_scratch st1 = 1 then
        (pa_scratch st3 ! mark_scratch st1, st3\<lparr>pa_scratch := take (mark_scratch st1) (pa_scratch st3)\<rparr>)
      else closed_node Pipeline (pa_index st0) 0 No_defect (mark_scratch st1) st3)"
      using False st(1) st1(1) st2(1) st3(1) by (simp add: parse_pipeline_def del: if_split)
    from st3(2) obtain ns where ns: "grew st1 ns st3" "?Q (nodes_of st3 ns)" by (auto simp: grown_def)
    have sc: "pa_scratch st3 = pa_scratch st1 @ ns" using ns(1) by (simp add: grew_def)
    show ?thesis
    proof (cases "length ns = 1")
      case True
      then obtain n where n: "ns = [n]" by (auto simp: One_nat_def length_Suc_conv)
      have "push n (st3\<lparr>pa_scratch := pa_scratch st1\<rparr>) = st3" using sc n by (simp add: push_def)
      then have "made st1 (\<lambda>n. nd_kind n \<in> command_kinds) (n, st3\<lparr>pa_scratch := pa_scratch st1\<rparr>)"
        using ns by (simp add: made_def n)
      from reads_made [OF r1 this] show ?thesis using sc n
        by (auto simp: pipe mark_scratch_def pipeline_kinds_def elim!: made_mono)
    next
      case False
      let ?R = "\<lambda>ns. 2 \<le> length ns \<and> (\<forall>n \<in> set ns. nd_kind n \<in> command_kinds)"
      have "2 \<le> length ns" using False ns(2) by (cases ns; cases "tl ns") (auto simp: One_nat_def)
      then have "grown st1 ?R st3" using ns by (auto simp: grown_def list_all_iff intro!: exI [of _ ns])
      from reads_grown [OF r1 this] have g: "grown st0 ?R st3" .
      have "made st0 (\<lambda>n. nd_kind n = Pipeline) (closed_node Pipeline (pa_index st0) 0 No_defect (mark_scratch st0) st3)"
        by (rule closed_node_ok(1) [OF g]) (simp_all add: well_delimited_def)
      then show ?thesis using False sc reads_mark [OF r1]
        by (auto simp: pipe mark_scratch_def pipeline_kinds_def elim!: made_mono)
    qed
  qed
qed

end
