(* ===== verification/GrammarTotal.thy ===== *)
theory GrammarTotal
  imports GrammarMakes
begin

text \<open>
  And-or lists, items and lists, and the recursion itself: on every parser state that is ready to be parsed, the
  three recurring rules return one well-formed node.
\<close>

declare One_nat_def [simp del]

subsection \<open>And-or lists\<close>

lemma ok_scratch [simp]: "ok (st\<lparr>pa_scratch := xs\<rparr>) = ok st"
  by (simp add: ok_def ready_def looking_def)

lemma keeps_scratch: "keeps (a\<lparr>pa_scratch := xs\<rparr>) (b\<lparr>pa_scratch := ys\<rparr>) = keeps a b"
  by (simp add: keeps_def finds_def potential_def left_to_read_def alias_values_def peek_def cursor_kept_def)

lemma grew_scratch: "grew a ns b \<Longrightarrow> grew (a\<lparr>pa_scratch := xs\<rparr>) ns (b\<lparr>pa_scratch := xs @ ns\<rparr>)"
  by (simp add: grew_def keeps_scratch list_all_iff spans_def)

lemma node_bounds:
  assumes "ok st" "n < length (tr_nodes (pa_tree st))"
  shows "nd_first (tr_nodes (pa_tree st) ! n) \<le> nd_last (tr_nodes (pa_tree st) ! n)"
  using assms by (simp add: ok_def ready_def well_formed_node_def Let_def)

lemma made_bounds:
  assumes "made st0 P (r, st)"
  shows "r < length (tr_nodes (pa_tree st))" "pa_index st0 \<le> nd_first (tr_nodes (pa_tree st) ! r)"
    "nd_first (tr_nodes (pa_tree st) ! r) \<le> nd_last (tr_nodes (pa_tree st) ! r)"
    "nd_last (tr_nodes (pa_tree st) ! r) \<le> pa_index st" "P (tr_nodes (pa_tree st) ! r)"
  using assms node_bounds [OF made_ok [OF assms], of r] by (simp_all add: made_def grew_def spans_def)

lemma join_and_or_ok:
  assumes l: "made st0 (\<lambda>n. nd_kind n \<in> and_or_kinds) (left, st1)" and r1: "reads st1 st2"
    and r: "made st2 (\<lambda>n. nd_kind n \<in> pipeline_kinds) (right, st3)"
    and oper: "oper < pa_index st2" "tk_kind (tr_tokens (pa_tree st2) ! oper) \<in> {T_and_if, T_or_if}"
  shows "made st0 (\<lambda>n. nd_kind n \<in> and_or_kinds) (join_and_or oper left right st3)"
    "pa_index (snd (join_and_or oper left right st3)) = pa_index st3"
    "potential (snd (join_and_or oper left right st3)) = potential st3"
proof -
  note l2 = made_reads [OF l r1] and k3 = made_keeps [OF r]
  let ?stv = "st3\<lparr>pa_scratch := pa_scratch st0 @ [left, right]\<rparr>"
  let ?l = "tr_nodes (pa_tree st3) ! left" and ?r = "tr_nodes (pa_tree st3) ! right"
  define m where "m = (node_over And_or (nd_first ?l) (nd_last ?r))
    \<lparr>nd_start := length (tr_children (pa_tree st3)), nd_count := 2, nd_aux := oper\<rparr>"
  have sc: "pa_scratch st2 = pa_scratch st0" by (rule made_scratch [OF l2])
  have "grew (push left st2) [right] ?stv"
    using grew_scratch [OF made_grew [OF r], of "pa_scratch st0 @ [left]"] sc by (simp add: push_def)
  from grew_trans [OF made_grew [OF l2] this] have g: "grew st0 [left, right] ?stv" by simp
  have same: "?l = tr_nodes (pa_tree st2) ! left" by (rule keeps_node [OF k3 made_bounds(1) [OF l2]])
  have le: "nd_first ?l \<le> nd_first ?r" "pa_index st0 \<le> nd_first ?l" "nd_first ?r \<le> nd_last ?r" "nd_last ?r \<le> pa_index st3"
    using made_bounds [OF l2] made_bounds [OF r] by (simp_all add: same)
  have kinds: "nd_kind ?l \<in> and_or_kinds" "nd_kind ?r \<in> pipeline_kinds"
    using made_bounds(5) [OF l2] made_bounds(5) [OF r] by (simp_all add: same)
  have tok: "tk_kind (tr_tokens (pa_tree st3) ! oper) \<in> {T_and_if, T_or_if}"
    "oper < length (tr_tokens (pa_tree st3))"
    using oper keeps_said(2) [OF made_ok [OF l2] k3, of oper] ok_index [OF made_ok [OF r]] keeps_step(1) [OF k3] by simp_all
  have j: "join_and_or oper left right st3 = (length (tr_nodes (pa_tree ?stv)), with_node st0 [left, right] m ?stv)"
    using made_scratch [OF r] sc
    by (simp add: join_and_or_def add_children_def new_node_def add_node_def with_node_def m_def)
  have "ready (with_node st0 [left, right] m ?stv)"
    by (rule with_node_well_formed [OF g])
      (use le kinds tok in \<open>simp_all add: m_def well_delimited_def children_of_def with_node_def\<close>)
  from with_node_made [OF g this, where P = "\<lambda>n. nd_kind n \<in> and_or_kinds"] le
  show "made st0 (\<lambda>n. nd_kind n \<in> and_or_kinds) (join_and_or oper left right st3)"
    by (simp add: j m_def and_or_kinds_def)
  show "pa_index (snd (join_and_or oper left right st3)) = pa_index st3"
    "potential (snd (join_and_or oper left right st3)) = potential st3"
    by (simp_all add: j with_node_same) (simp add: potential_def left_to_read_def alias_values_def peek_def)
qed

lemma parse_and_or_ok:
  assumes ok: "ok st0" and rec: "\<And>s. ok s \<Longrightarrow> potential s \<le> potential st0 \<Longrightarrow> parses rec N_pipeline s"
  shows "succeeds (parse_and_or rec st0) (made st0 (\<lambda>n. nd_kind n \<in> and_or_kinds))"
proof -
  let ?M = "made st0 (\<lambda>n. nd_kind n \<in> and_or_kinds)"
  have start: "succeeds (rec N_pipeline st0) ?M"
    by (rule succeeds_mono [OF rec [OF ok order_refl, unfolded parses_def]])
      (auto simp: rule_kinds_def and_or_kinds_def elim!: made_mono)
  have "succeeds (loop (\<lambda>(left, st). if peek_kind st \<noteq> T_and_if \<and> peek_kind st \<noteq> T_or_if then Some (Inr (left, st))
       else do {
         (oper, st1) \<leftarrow> advance st;
         st2 \<leftarrow> skip_linebreak st1;
         (right, st3) \<leftarrow> rec N_pipeline st2;
         Some (Inl (join_and_or oper left right st3)) }) r) ?M" if "?M r" for r
  proof (rule succeeds_loop [where I = ?M and f = "\<lambda>(left, s). potential s", OF that])
    fix run assume I: "?M run"
    obtain left s where run: "run = (left, s)" by (cases run)
    note m = I [unfolded run]
    note oks = made_ok [OF m]
    show "succeeds (case run of (left, st) \<Rightarrow>
        if peek_kind st \<noteq> T_and_if \<and> peek_kind st \<noteq> T_or_if then Some (Inr (left, st))
        else do {
          (oper, st1) \<leftarrow> advance st;
          st2 \<leftarrow> skip_linebreak st1;
          (right, st3) \<leftarrow> rec N_pipeline st2;
          Some (Inl (join_and_or oper left right st3)) })
      (\<lambda>r. case r of Inl run1 \<Rightarrow> ?M run1 \<and>
          (case run1 of (left, s) \<Rightarrow> potential s) < (case run of (left, s) \<Rightarrow> potential s)
        | Inr run1 \<Rightarrow> ?M run1)"
    proof (cases "peek_kind s \<noteq> T_and_if \<and> peek_kind s \<noteq> T_or_if")
      case False
      with advance_reads [OF oks] obtain s1 where s1: "advance s = Some (pa_index s, s1)" "reads s s1"
        "pa_index s < pa_index s1" by (fastforce elim: succeedsE)
      from skip_linebreak_ok [OF reads_ok [OF s1(2)]] obtain s2 where s2: "skip_linebreak s1 = Some s2" "reads s1 s2"
        by (auto elim: succeedsE)
      note r2 = reads_trans [OF s1(2) s2(2)]
      have "potential s2 \<le> potential st0"
        using keeps_step(2) [OF reads_keeps [OF r2]] keeps_step(2) [OF made_keeps [OF m]] by simp
      from rec [OF reads_ok [OF r2] this] obtain right s3 where s3: "rec N_pipeline s2 = Some (right, s3)"
        "made s2 (\<lambda>n. nd_kind n \<in> rule_kinds N_pipeline) (right, s3)" by (rule parsesE)
      have m3: "made s2 (\<lambda>n. nd_kind n \<in> pipeline_kinds) (right, s3)" using s3(2) by (simp add: rule_kinds_def)
      have oper: "pa_index s < pa_index s2" "tk_kind (tr_tokens (pa_tree s2) ! pa_index s) \<in> {T_and_if, T_or_if}"
        using s1(3) reads_index [OF s2(2)] reads_peek_token [OF oks r2] False by auto
      have "potential s3 < potential s"
        using reads_less [OF r2 oper(1)] keeps_step(2) [OF made_keeps [OF s3(2)]] by simp
      then show ?thesis using False s1(1) s2(1) s3(1) join_and_or_ok [OF m r2 m3 oper]
        by (auto simp: run split: prod.split)
    qed (use I in \<open>simp add: run\<close>)
  qed
  from succeeds_then [OF start this] show ?thesis by (simp add: parse_and_or_def)
qed

subsection \<open>Items and lists\<close>

lemma parse_list_item_ok:
  assumes ok: "ok st0" and rec: "\<And>s. ok s \<Longrightarrow> potential s \<le> potential st0 \<Longrightarrow> parses rec N_pipeline s"
  shows "succeeds (parse_list_item rec st0) (made st0 (\<lambda>n. nd_kind n \<in> item_kinds))"
proof -
  from parse_and_or_ok [OF ok rec] obtain item st where st: "parse_and_or rec st0 = Some (item, st)"
    "made st0 (\<lambda>n. nd_kind n \<in> and_or_kinds) (item, st)" by (auto elim: succeedsE)
  show ?thesis
  proof (cases "peek_kind st = T_amp")
    case False
    then show ?thesis using st by (auto simp: parse_list_item_def item_kinds_def elim!: made_mono)
  next
    case True
    with advance_reads [OF made_ok [OF st(2)]] obtain i st1 where st1: "advance st = Some (i, st1)" "reads st st1"
      "pa_index st < pa_index st1" by (fastforce elim: succeedsE)
    note m = made_reads [OF st(2) st1(2)]
    note b = made_bounds [OF m]
    have last: "nd_last (tr_nodes (pa_tree st1) ! item) \<le> pa_index st1 - 1"
      using made_bounds(4) [OF st(2)] st1(2,3) by (simp add: reads_def)
    let ?n = "node_over Async_list (nd_first (tr_nodes (pa_tree st1) ! item)) (pa_index st1 - 1)"
    have "made st0 (\<lambda>n. nd_kind n \<in> item_kinds) (finish_node ?n (mark_scratch st0) (push item st1))"
      by (rule finish_node_ok(1) [OF made_grew [OF m], where P = "\<lambda>n. nd_kind n \<in> item_kinds"])
        (use b last in \<open>simp_all add: well_delimited_def item_kinds_def\<close>)
    then show ?thesis using True st(1) st1(1,3) made_mark [OF m] by (simp add: parse_list_item_def)
  qed
qed

abbreviation items :: "node list \<Rightarrow> bool" where
  "items \<equiv> list_all (\<lambda>n. nd_kind n \<in> item_kinds)"

lemma push_list_item_ok:
  assumes g: "grown st0 items st" and ne: "peek_kind st \<noteq> T_end"
    and rec: "\<And>s. ok s \<Longrightarrow> potential s \<le> potential st \<Longrightarrow> parses rec N_pipeline s"
  shows "succeeds (push_list_item rec st) (\<lambda>st1. grown st0 items st1 \<and> keeps st st1 \<and> pa_index st < pa_index st1)"
proof -
  from parse_list_item_ok [OF grown_ok [OF g] rec] obtain item st1 where st1: "parse_list_item rec st = Some (item, st1)"
    "made st (\<lambda>n. nd_kind n \<in> item_kinds) (item, st1)" by (auto elim: succeedsE)
  have g1: "grown st0 items (push item st1)" by (rule grown_push [OF g st1(2)]) simp
  have k1: "keeps st (push item st1)" by (rule grew_keeps [OF made_grew [OF st1(2)]])
  show ?thesis
  proof (cases "pa_index st1 = pa_index st")
    case False
    then show ?thesis using st1(1) g1 k1 keeps_step(1) [OF k1] by (simp add: push_list_item_def)
  next
    case True
    have "tr_tokens (pa_tree (push item st1)) ! pa_index st = peek st"
      using keeps_said(2) [OF grown_ok [OF g] k1, of "pa_index st"] by (simp add: peek_def)
    then have "peek_kind (push item st1) \<noteq> T_end" using True ne by (simp add: peek_def)
    from advance_as_error_ok [OF grown_ok [OF g1] this] obtain n st2 where
      st2: "advance_as_error (push item st1) = Some (n, st2)"
        "made (push item st1) (\<lambda>n. nd_kind n = Error_node) (n, st2)" "pa_index (push item st1) < pa_index st2"
      by (auto elim: succeedsE)
    have g2: "grown st0 items (push n st2)" by (rule grown_push [OF g1 st2(2)]) (simp add: item_kinds_def)
    have "keeps st (push n st2)" by (rule keeps_trans [OF k1 grew_keeps [OF made_grew [OF st2(2)]]])
    then show ?thesis using True st1(1) st2 g2 by (simp add: push_list_item_def)
  qed
qed

lemma list_step_ok:
  assumes g: "grown st0 items st" and rec: "\<And>s. ok s \<Longrightarrow> potential s \<le> potential st \<Longrightarrow> parses rec N_pipeline s"
  shows "succeeds (list_step rec st) (\<lambda>r. case r of
      Inl st1 \<Rightarrow> grown st0 items st1 \<and> keeps st st1 \<and> potential st1 < potential st
    | Inr st1 \<Rightarrow> grown st0 items st1 \<and> keeps st st1)"
proof (cases "is_separator (peek_kind st)")
  case True
  then have "peek_kind st \<noteq> T_end" by (auto simp: is_separator_def)
  with advance_reads [OF grown_ok [OF g]] obtain i st1 where st1: "advance st = Some (i, st1)" "reads st st1"
    "pa_index st < pa_index st1" by (fastforce elim: succeedsE)
  then show ?thesis using True grown_reads [OF g st1(2)] reads_less [OF st1(2,3)] by (simp add: list_step_def reads_keeps)
next
  case False
  from substitute_word_ok [OF grown_ok [OF g]] obtain st1 where st1: "substitute_word st = Some st1" "reads st st1"
    "pa_index st1 = pa_index st \<Longrightarrow> st1 = st" by (auto elim: succeedsE)
  note g1 = grown_reads [OF g st1(2)] and k1 = reads_keeps [OF st1(2)]
  show ?thesis
  proof (cases "is_separator (peek_kind st1)")
    case True
    then have "pa_index st1 \<noteq> pa_index st" using st1(3) False by auto
    then show ?thesis using False True st1(1) g1 k1 keeps_step(3) [OF k1] by (simp add: list_step_def)
  next
    case no_sep: False
    show ?thesis
    proof (cases "peek_kind st1 \<in> {T_end, T_rparen, T_dsemi, T_semi_and} \<or> at_list_terminator st1")
      case True
      then show ?thesis using False no_sep st1(1) g1 k1 by (auto simp: list_step_def)
    next
      case stays: False
      have "parses rec N_pipeline s" if "ok s" "potential s \<le> potential st1" for s
        using rec [OF that(1)] that(2) keeps_step(2) [OF k1] by simp
      from push_list_item_ok [OF g1 _ this] stays obtain st2 where st2: "push_list_item rec st1 = Some st2"
        "grown st0 items st2" "keeps st1 st2" "pa_index st1 < pa_index st2" by (auto elim: succeedsE)
      have "potential st2 < potential st"
        using keeps_step(3) [OF st2(3)] st2(4) keeps_step(2) [OF k1] by simp
      then show ?thesis using False no_sep stays st1(1) st2 keeps_trans [OF k1 st2(3)] by (simp add: list_step_def)
    qed
  qed
qed

lemma parse_compound_list_ok:
  assumes ok: "ok st0" and rec: "serves rec (potential st0) 2"
  shows "succeeds (parse_compound_list rec st0) (made st0 (\<lambda>n. nd_kind n = Compound_list))"
proof -
  have "succeeds (loop (list_step rec) st0) (grown st0 items)"
  proof (rule succeeds_loop [where I = "grown st0 items" and f = potential])
    fix s assume g: "grown st0 items s"
    have "parses rec N_pipeline s1" if "ok s1" "potential s1 \<le> potential s" for s1
      using serves_lower [OF rec that(1), of N_pipeline] that(2) grown_potential [OF g] by simp
    from list_step_ok [OF g this]
    show "succeeds (list_step rec s) (\<lambda>r. case r of
        Inl s1 \<Rightarrow> grown st0 items s1 \<and> potential s1 < potential s | Inr s1 \<Rightarrow> grown st0 items s1)"
      by (rule succeeds_mono) (auto split: sum.splits)
  next
    show "grown st0 items st0" by (rule grown_mono [OF grown_none [OF reads_refl [OF ok]]]) simp
  qed
  then obtain st where st: "loop (list_step rec) st0 = Some st" "grown st0 items st" by (auto elim: succeedsE)
  then show ?thesis using closed_node_ok(1) [OF st(2), where kind = Compound_list and defect = No_defect and aux = 0]
    by (simp add: parse_compound_list_def well_delimited_def list_all_iff)
qed

subsection \<open>The recursion returns\<close>

lemma parse_nt_ok: "ok st \<Longrightarrow> parses parse_nt nt st"
proof (induction "(potential st, rank nt)" arbitrary: nt st rule: wf_induct_rule [OF wf_lex_prod [OF wf_less wf_less]])
  case (1 nt st)
  have serve: "serves parse_nt (potential st) (rank nt)"
    using 1 by (auto simp: serves_def)
  have "succeeds (parse_rule parse_nt nt st) (made st (\<lambda>n. nd_kind n \<in> rule_kinds nt))"
    using parse_compound_list_ok [OF 1(2)] parse_pipeline_ok [OF 1(2)] parse_command_or_compound_ok [OF 1(2)] serve
    by (cases nt) (simp_all add: parse_rule_def rule_kinds_def)
  then show ?case by (simp add: parses_def parse_nt.simps [of nt st])
qed

end
