(* ===== verification/KeymapProps.thy ===== *)
theory KeymapProps
  imports Keymap
begin

text \<open>
  Properties of the keymap: key records decode to what was encoded and a byte prefix is a key prefix;
  the sorted table with its binary search is a finite map with a prefix question; notation and
  rendering are inverse; resolution is the declarative reading of the stack.
\<close>

subsection \<open>Key records\<close>

text \<open>A key in the form its two constructors build, with a codepoint that fits its 32 bits.\<close>

definition sound_key :: "key_event \<Rightarrow> bool" where
  "sound_key k \<longleftrightarrow> (if ke_named k then ke_codepoint k = 0 else ke_name k = Backspace \<and> ke_codepoint k < 2 ^ 32)"

lemma sound_key_cases:
  assumes "sound_key k"
  obtains n m where "k = named_key_event n m" | c m where "k = codepoint_key c m" "c < 2 ^ 32"
proof (cases "ke_named k")
  case True
  then have "k = named_key_event (ke_name k) (ke_modifiers k)"
    using assms by (simp add: sound_key_def named_key_event_def)
  then show thesis using that(1) by blast
next
  case False
  then have "k = codepoint_key (ke_codepoint k) (ke_modifiers k)" "ke_codepoint k < 2 ^ 32"
    using assms by (simp_all add: sound_key_def codepoint_key_def)
  then show thesis using that(2) by blast
qed

lemma modifier_bits_less: "modifier_bits m < 256"
  by (simp add: modifier_bits_def modifier_shift_def modifier_alt_def modifier_ctrl_def)

lemma modifiers_of_bits: "modifiers_of (modifier_bits m) = m"
proof -
  have "modifiers_of (modifier_bits \<lparr>km_shift = s, km_alt = a, km_ctrl = c\<rparr>) = \<lparr>km_shift = s, km_alt = a, km_ctrl = c\<rparr>" for s a c
    by (cases s; cases a; cases c)
      (simp_all add: modifier_bits_def modifiers_of_def modifier_shift_def modifier_alt_def modifier_ctrl_def)
  then show ?thesis by (cases m) simp
qed

lemma named_index_inverse: "named_keys ! named_index n = n" "named_index n \<le> last_named_key" "named_index n < 256"
  by (cases n; simp add: named_index_def named_keys_def last_named_key_def)+

lemma joined_bytes:
  assumes "b < 256" "c < 256" "d < (256 :: nat)"
  shows "push_bit 24 a OR push_bit 16 b OR push_bit 8 c OR d = 16777216 * a + 65536 * b + 256 * c + d"
proof -
  have "256 * c + d < 65536" "65536 * b + (256 * c + d) < 16777216" using assms by linarith+
  then show ?thesis
    using assms(3) or_low_bits [of d 8 c] or_low_bits [of "256 * c + d" 16 b]
      or_low_bits [of "65536 * b + (256 * c + d)" 24 a]
    by (simp add: push_bit_eq_mult mult.commute)
qed

lemma four_bytes:
  assumes "(v :: nat) < 2 ^ 32"
  shows "16777216 * (v div 16777216 mod 256) + 65536 * (v div 65536 mod 256) + 256 * (v div 256 mod 256) + v mod 256 = v"
proof -
  have d: "v div 65536 = v div 256 div 256" "v div 16777216 = v div 256 div 256 div 256"
    using div_mult2_eq [of v 256 256] div_mult2_eq [of v 65536 256] by simp_all
  have top: "v div 256 div 256 div 256 < 256" using assms by (simp add: less_mult_imp_div_less)
  define q1 q2 q3 where "q1 = v div 256" "q2 = q1 div 256" "q3 = q2 div 256"
  have "v = 256 * q1 + v mod 256" "q1 = 256 * q2 + q1 mod 256" "q2 = 256 * q3 + q2 mod 256"
    unfolding q1_q2_q3_def by (rule mult_div_mod_eq [symmetric])+
  moreover have "q3 mod 256 = q3" using top by (simp add: q1_q2_q3_def)
  ultimately show ?thesis unfolding d q1_q2_q3_def [symmetric] by linarith
qed

lemma encode_key_length [simp]: "length (encode_key k) = 6"
  by (simp add: encode_key_def big_endian_def)

lemma decode_encode:
  assumes "sound_key k"
  shows "decode_key (encode_key k @ rest) = Some (k, rest)"
proof -
  define v where "v = (if ke_named k then named_index (ke_name k) else ke_codepoint k)"
  have v: "v < 2 ^ 32" using assms named_index_inverse(3) [of "ke_name k"] by (auto simp: sound_key_def v_def)
  have bytes: "ubyte (char_of (n mod 256)) = n mod 256" for n :: nat by (intro ubyte_char_of) simp
  have idx: "([x0, x1, x2, x3, x4, x5] @ rest) ! 2 = x2" "([x0, x1, x2, x3, x4, x5] @ rest) ! 3 = x3"
    "([x0, x1, x2, x3, x4, x5] @ rest) ! 4 = x4" "([x0, x1, x2, x3, x4, x5] @ rest) ! 5 = x5" for x0 x1 x2 x3 x4 x5 :: char
    by simp_all
  have e: "encode_key k @ rest = [if ke_named k then kind_named else kind_codepoint, char_of (modifier_bits (ke_modifiers k)),
      char_of (v div 16777216 mod 256), char_of (v div 65536 mod 256), char_of (v div 256 mod 256), char_of (v mod 256)] @ rest"
    by (simp add: encode_key_def big_endian_div v_def)
  have "push_bit 24 (v div 16777216 mod 256) OR push_bit 16 (v div 65536 mod 256) OR push_bit 8 (v div 256 mod 256) OR
      (v mod 256) = v"
    by (rule trans [OF joined_bytes four_bytes [OF v]]) simp_all
  then have word: "push_bit 24 (ubyte ((encode_key k @ rest) ! 2)) OR push_bit 16 (ubyte ((encode_key k @ rest) ! 3)) OR
      push_bit 8 (ubyte ((encode_key k @ rest) ! 4)) OR ubyte ((encode_key k @ rest) ! 5) = v"
    unfolding e idx bytes .
  have mods: "modifiers_of (ubyte ((encode_key k @ rest) ! 1)) = ke_modifiers k"
    using ubyte_char_of [OF modifier_bits_less] by (simp add: e modifiers_of_bits)
  have kind: "(encode_key k @ rest) ! 0 = (if ke_named k then kind_named else kind_codepoint)" by (simp add: e)
  show ?thesis
    unfolding decode_key_def Let_def word mods kind
    using assms named_index_inverse [of "ke_name k"]
    by (simp add: v_def encoded_key_size_def kind_named_def kind_codepoint_def sound_key_def named_key_event_def codepoint_key_def)
qed

definition encode_keys :: "key_event list \<Rightarrow> string" where
  "encode_keys ks = concat (map encode_key ks)"

lemma encode_keys_simps [simp]: "encode_keys [] = []" "encode_keys (k # ks) = encode_key k @ encode_keys ks"
  by (simp_all add: encode_keys_def)

lemma decoded_encoded: "list_all sound_key ks \<Longrightarrow> decoded_keys (encode_keys ks) = ks"
proof (induction ks)
  case Nil
  then show ?case by (simp add: decoded_keys.simps decode_key_def encoded_key_size_def)
next
  case (Cons k ks)
  then show ?case by (subst decoded_keys.simps) (simp add: decode_encode)
qed

subsection \<open>The sorted table\<close>

definition rising :: "entry list \<Rightarrow> bool" where
  "rising es \<longleftrightarrow> sorted_wrt (<) (map en_keys es)"

lemma rising_mono: "rising es \<Longrightarrow> i < j \<Longrightarrow> j < length es \<Longrightarrow> en_keys (es ! i) < en_keys (es ! j)"
  by (simp add: rising_def sorted_wrt_iff_nth_less)

lemma lower_bound_spec:
  assumes "rising es" "first + count \<le> length es"
    and "\<And>j. j < first \<Longrightarrow> en_keys (es ! j) < keys"
    and "\<And>j. first + count \<le> j \<Longrightarrow> j < length es \<Longrightarrow> \<not> en_keys (es ! j) < keys"
  shows "lower_bound es keys first count \<le> length es \<and>
    (\<forall>j < lower_bound es keys first count. en_keys (es ! j) < keys) \<and>
    (\<forall>j. lower_bound es keys first count \<le> j \<and> j < length es \<longrightarrow> \<not> en_keys (es ! j) < keys)"
  using assms
proof (induction es keys first count rule: lower_bound.induct)
  case (1 es keys first count)
  let ?m = "first + count div 2"
  show ?case
  proof (cases "count = 0")
    case True
    with 1(3-6) show ?thesis by (auto simp: lower_bound.simps [of _ _ _ 0])
  next
    case ne: False
    then have m: "?m < first + count" by simp
    show ?thesis
    proof (cases "en_keys (es ! ?m) < keys")
      case True
      have "en_keys (es ! j) < keys" if "j < ?m + 1" for j
      proof (cases "j = ?m")
        case False
        then have "en_keys (es ! j) < en_keys (es ! ?m)"
          using rising_mono [OF 1(3), of j ?m] that m 1(4) by simp
        with True show ?thesis by (rule order.strict_trans [rotated])
      qed (use True in simp)
      then have "lower_bound es keys (?m + 1) (count - (count div 2 + 1)) \<le> length es \<and>
        (\<forall>j < lower_bound es keys (?m + 1) (count - (count div 2 + 1)). en_keys (es ! j) < keys) \<and>
        (\<forall>j. lower_bound es keys (?m + 1) (count - (count div 2 + 1)) \<le> j \<and> j < length es \<longrightarrow> \<not> en_keys (es ! j) < keys)"
        using m 1(4,6) by (intro 1(1) [OF ne True 1(3)]) auto
      with ne True show ?thesis by (simp add: lower_bound.simps [of es keys first count])
    next
      case False
      have "\<not> en_keys (es ! j) < keys" if "?m \<le> j" "j < length es" for j
        using rising_mono [OF 1(3), of ?m j] that False by (cases "j = ?m") auto
      then have "lower_bound es keys first (count div 2) \<le> length es \<and>
        (\<forall>j < lower_bound es keys first (count div 2). en_keys (es ! j) < keys) \<and>
        (\<forall>j. lower_bound es keys first (count div 2) \<le> j \<and> j < length es \<longrightarrow> \<not> en_keys (es ! j) < keys)"
        using m 1(4,5) by (intro 1(2) [OF ne False 1(3)]) auto
      with ne False show ?thesis by (simp add: lower_bound.simps [of es keys first count])
    qed
  qed
qed

text \<open>The search splits the table into the smaller keys and the others.\<close>

lemma search_split:
  assumes "rising es"
  obtains A B where "es = A @ B" "search es keys = length A" "\<forall>a \<in> set A. en_keys a < keys"
    "\<forall>b \<in> set B. \<not> en_keys b < keys"
proof -
  let ?i = "search es keys"
  have s: "?i \<le> length es" "\<And>j. j < ?i \<Longrightarrow> en_keys (es ! j) < keys"
    "\<And>j. ?i \<le> j \<Longrightarrow> j < length es \<Longrightarrow> \<not> en_keys (es ! j) < keys"
    using lower_bound_spec [OF assms, of 0 "length es" keys] by (auto simp: search_def)
  show thesis
  proof (rule that [of "take ?i es" "drop ?i es"])
    show "\<forall>a \<in> set (take ?i es). en_keys a < keys" using s by (auto simp: in_set_conv_nth)
    show "\<forall>b \<in> set (drop ?i es). \<not> en_keys b < keys" using s(1,3) by (auto simp: in_set_conv_nth)
  qed (use s(1) in simp_all)
qed

text \<open>The table as a map.\<close>

definition bindings :: "keymap \<Rightarrow> string \<Rightarrow> string option" where
  "bindings m = map_of (map (\<lambda>e. (en_keys e, en_action e)) (mp_entries m))"

definition table_ok :: "keymap \<Rightarrow> bool" where
  "table_ok m \<longleftrightarrow> rising (mp_entries m)"

lemma map_of_none: "\<forall>e \<in> set es. en_keys e \<noteq> keys \<Longrightarrow> map_of (map (\<lambda>e. (en_keys e, en_action e)) es) keys = None"
  by (induction es) auto

lemma rising_append:
  "rising (A @ B) \<longleftrightarrow> rising A \<and> rising B \<and> (\<forall>a \<in> set A. \<forall>b \<in> set B. en_keys a < en_keys b)"
  by (auto simp: rising_def sorted_wrt_append)

lemma rising_Cons: "rising (e # es) \<longleftrightarrow> (\<forall>b \<in> set es. en_keys e < en_keys b) \<and> rising es"
  by (auto simp: rising_def)

text \<open>Where the search lands: on the binding, or where it would be inserted.\<close>

lemma search_cases:
  assumes "rising es"
  obtains (hit) A b B where "es = A @ b # B" "search es keys = length A" "found_at es keys (length A)" "en_keys b = keys"
      "\<forall>a \<in> set A. en_keys a < keys" "\<forall>c \<in> set B. keys < en_keys c"
  | (miss) A B where "es = A @ B" "search es keys = length A" "\<not> found_at es keys (length A)"
      "\<forall>a \<in> set A. en_keys a < keys" "\<forall>c \<in> set B. keys < en_keys c"
proof (rule search_split [OF assms, of keys])
  fix A B
  assume s: "es = A @ B" "search es keys = length A" "\<forall>a \<in> set A. en_keys a < keys" "\<forall>b \<in> set B. \<not> en_keys b < keys"
  have r: "rising B" using assms s(1) by (simp add: rising_append)
  show thesis
  proof (cases "found_at es keys (length A)")
    case True
    then obtain b B' where B: "B = b # B'" "en_keys b = keys"
      using s(1) by (cases B) (auto simp: found_at_def)
    then show thesis using hit [of A b B'] s True r by (auto simp: rising_Cons)
  next
    case False
    have "\<forall>c \<in> set B. keys < en_keys c"
    proof
      fix c assume c: "c \<in> set B"
      then obtain b B' where B: "B = b # B'" by (cases B) auto
      have "en_keys b \<noteq> keys" using False s(1) B by (auto simp: found_at_def)
      then have "keys < en_keys b" using s(4) B by auto
      then show "keys < en_keys c" using c r B by (auto simp: rising_Cons)
    qed
    then show thesis using miss [of A B] s False by blast
  qed
qed

lemma bindings_append: "map_of (map (\<lambda>e. (en_keys e, en_action e)) (A @ B)) =
    map_of (map (\<lambda>e. (en_keys e, en_action e)) B) ++ map_of (map (\<lambda>e. (en_keys e, en_action e)) A)"
  by (simp add: map_of_append)

lemma action_for_bindings:
  assumes "table_ok m"
  shows "action_for m keys = bindings m keys"
proof -
  have r: "rising (mp_entries m)" using assms by (simp add: table_ok_def)
  show ?thesis
  proof (cases rule: search_cases [OF r, of keys, case_names hit miss])
    case (hit A b B)
    have "map_of (map (\<lambda>e. (en_keys e, en_action e)) A) keys = None" using hit(5) by (intro map_of_none) auto
    with hit show ?thesis by (simp add: action_for_def bindings_def Let_def bindings_append map_add_def)
  next
    case (miss A B)
    have "map_of (map (\<lambda>e. (en_keys e, en_action e)) (A @ B)) keys = None" using miss(4,5) by (intro map_of_none) auto
    with miss show ?thesis by (simp add: action_for_def bindings_def Let_def map_add_def)
  qed
qed

lemma bind_bindings:
  assumes "table_ok m" "keys \<noteq> []"
  shows "table_ok (bind keys action m)"
    "bindings (bind keys action m) = (bindings m)(keys := if action = [] then None else Some action)"
proof -
  have r: "rising (mp_entries m)" using assms by (simp add: table_ok_def)
  have "table_ok (bind keys action m) \<and>
    bindings (bind keys action m) = (bindings m)(keys := if action = [] then None else Some action)"
  proof (cases rule: search_cases [OF r, of keys, case_names hit miss])
    case (hit A b B)
    have no: "map_of (map (\<lambda>e. (en_keys e, en_action e)) A) keys = None"
      "map_of (map (\<lambda>e. (en_keys e, en_action e)) B) keys = None"
      using hit(5,6) by (auto intro!: map_of_none)
    have ups: "(A @ b # B)[length A := b\<lparr>en_action := action\<rparr>] = A @ b\<lparr>en_action := action\<rparr> # B"
      "erase_at (A @ b # B) (length A) = A @ B" "(A @ b # B) ! length A = b"
      by (simp_all add: erase_at_def)
    have ok: "rising (A @ B)" "rising (A @ b\<lparr>en_action := action\<rparr> # B)"
      using r unfolding hit(1) by (auto simp: rising_append rising_Cons)
    show ?thesis
      using hit(1-4) no assms(2) ok ups
      by (auto simp: bind_def Let_def table_ok_def bindings_def map_add_def fun_eq_iff split: option.split)
  next
    case (miss A B)
    let ?e = "\<lparr>en_keys = keys, en_action = action\<rparr>"
    have no: "map_of (map (\<lambda>e. (en_keys e, en_action e)) A) keys = None"
      "map_of (map (\<lambda>e. (en_keys e, en_action e)) B) keys = None"
      using miss(4,5) by (auto intro!: map_of_none)
    have ins: "insert_at (A @ B) (length A) ?e = A @ ?e # B" by (simp add: insert_at_def)
    have ok: "rising (A @ ?e # B)"
      using r miss(4,5) unfolding miss(1) by (auto simp: rising_append rising_Cons)
    show ?thesis
      using miss(1-3) no assms(2) ok r ins
      by (auto simp: bind_def Let_def table_ok_def bindings_def map_add_def fun_eq_iff split: option.split)
  qed
  then show "table_ok (bind keys action m)"
    "bindings (bind keys action m) = (bindings m)(keys := if action = [] then None else Some action)" by blast+
qed

lemma unbind_bindings:
  assumes "table_ok m"
  shows "table_ok (snd (unbind keys m))" "bindings (snd (unbind keys m)) = (bindings m)(keys := None)"
proof -
  have r: "rising (mp_entries m)" using assms by (simp add: table_ok_def)
  have "table_ok (snd (unbind keys m)) \<and> bindings (snd (unbind keys m)) = (bindings m)(keys := None)"
  proof (cases rule: search_cases [OF r, of keys, case_names hit miss])
    case (hit A b B)
    have no: "map_of (map (\<lambda>e. (en_keys e, en_action e)) A) keys = None"
      "map_of (map (\<lambda>e. (en_keys e, en_action e)) B) keys = None"
      using hit(5,6) by (auto intro!: map_of_none)
    have ok: "rising (A @ B)" using r unfolding hit(1) by (auto simp: rising_append rising_Cons)
    have "erase_at (A @ b # B) (length A) = A @ B" by (simp add: erase_at_def)
    with hit(1-4) no ok show ?thesis
      by (auto simp: unbind_def Let_def table_ok_def bindings_def map_add_def fun_eq_iff split: option.split)
  next
    case (miss A B)
    have "bindings m keys = None" using miss(1,4,5) by (auto simp: bindings_def simp del: map_append intro!: map_of_none)
    then show ?thesis using miss(1-3) assms by (auto simp: unbind_def Let_def fun_eq_iff)
  qed
  then show "table_ok (snd (unbind keys m))" "bindings (snd (unbind keys m)) = (bindings m)(keys := None)" by blast+
qed

text \<open>Between a string and its extensions lie only extensions.\<close>

lemma extends_between: "\<not> c < (p :: string) \<Longrightarrow> \<not> p @ r < c \<Longrightarrow> starts_with c p"
proof (induction p arbitrary: c)
  case (Cons x p)
  then obtain y ys where c: "c = y # ys" by (cases c) auto
  with Cons show ?case by (auto simp: not_less)
qed simp

lemma less_extension: "r \<noteq> [] \<Longrightarrow> (p :: string) < p @ r"
  by (induction p) (cases r; simp)+

lemma has_longer_bindings:
  assumes "table_ok m"
  shows "has_longer m keys \<longleftrightarrow> (\<exists>r. r \<noteq> [] \<and> bindings m (keys @ r) \<noteq> None)"
proof -
  have r: "rising (mp_entries m)" using assms by (simp add: table_ok_def)
  have key: "(\<exists>r. r \<noteq> [] \<and> bindings m (keys @ r) \<noteq> None) \<longleftrightarrow> C \<noteq> [] \<and> starts_with (en_keys (hd C)) keys"
    if C: "mp_entries m = D @ C" "\<forall>a \<in> set D. \<not> keys < en_keys a" "\<forall>c \<in> set C. keys < en_keys c" for C D
  proof
    assume "\<exists>r. r \<noteq> [] \<and> bindings m (keys @ r) \<noteq> None"
    then obtain r where r': "r \<noteq> []" "bindings m (keys @ r) \<noteq> None" by blast
    then have "keys @ r \<in> en_keys ` set (mp_entries m)"
      unfolding bindings_def by (auto simp: map_of_eq_None_iff image_iff)
    then obtain e where e: "e \<in> set (mp_entries m)" "en_keys e = keys @ r" by auto
    have "e \<in> set C" using e C(1,2) less_extension [OF r'(1), of keys] by auto
    then obtain c C' where cc: "C = c # C'" by (cases C) auto
    have "rising C" using r C(1) by (simp add: rising_append)
    then have "\<not> keys @ r < en_keys c" using \<open>e \<in> set C\<close> e(2) cc by (auto simp: rising_Cons)
    moreover have "\<not> en_keys c < keys" using C(3) cc by auto
    ultimately show "C \<noteq> [] \<and> starts_with (en_keys (hd C)) keys" using cc extends_between by simp
  next
    assume h: "C \<noteq> [] \<and> starts_with (en_keys (hd C)) keys"
    then obtain r where r': "en_keys (hd C) = keys @ r" by (auto simp: starts_with_iff)
    have in_C: "hd C \<in> set C" using h by simp
    have "r \<noteq> []" using C(3) in_C r' by auto
    moreover have "hd C \<in> set (mp_entries m)" using C(1) in_C by simp
    then have "keys @ r \<in> en_keys ` set (mp_entries m)" using r' by (metis imageI)
    then have "bindings m (keys @ r) \<noteq> None" by (auto simp: bindings_def map_of_eq_None_iff image_image)
    ultimately show "\<exists>r. r \<noteq> [] \<and> bindings m (keys @ r) \<noteq> None" by blast
  qed
  show ?thesis
  proof (cases rule: search_cases [OF r, of keys, case_names hit miss])
    case (hit A b B)
    have "has_longer m keys \<longleftrightarrow> B \<noteq> [] \<and> starts_with (en_keys (hd B)) keys"
      using hit(1-3) by (cases B) (simp_all add: has_longer_def Let_def nth_append)
    moreover have "\<forall>a \<in> set (A @ [b]). \<not> keys < en_keys a" using hit(4,5) by auto
    ultimately show ?thesis using key [of "A @ [b]" B] hit(1,6) by simp
  next
    case (miss A B)
    have "has_longer m keys \<longleftrightarrow> B \<noteq> [] \<and> starts_with (en_keys (hd B)) keys"
      using miss(1-3) by (cases B) (simp_all add: has_longer_def Let_def nth_append)
    moreover have "\<forall>a \<in> set A. \<not> keys < en_keys a" using miss(4) by auto
    ultimately show ?thesis using key [of A B] miss(1,5) by simp
  qed
qed

datatype table_call = Bind string string | Unbind string

fun table_step :: "table_call \<Rightarrow> keymap \<Rightarrow> keymap" where
  "table_step (Bind keys action) m = bind keys action m"
| "table_step (Unbind keys) m = snd (unbind keys m)"

fun map_step :: "table_call \<Rightarrow> (string \<Rightarrow> string option) \<Rightarrow> string \<Rightarrow> string option" where
  "map_step (Bind keys action) f = (if keys = [] then f else f(keys := if action = [] then None else Some action))"
| "map_step (Unbind keys) f = f(keys := None)"

lemma table_steps:
  assumes "table_ok m"
  shows "table_ok (fold table_step calls m) \<and> bindings (fold table_step calls m) = fold map_step calls (bindings m)"
  using assms
proof (induction calls arbitrary: m)
  case (Cons c calls)
  have "table_ok (table_step c m) \<and> bindings (table_step c m) = map_step c (bindings m)"
  proof (cases c)
    case (Bind keys action)
    then show ?thesis using bind_bindings [OF Cons.prems, of keys action] Cons.prems by (cases "keys = []") (simp_all add: bind_def)
  qed (simp add: unbind_bindings [OF Cons.prems])
  with Cons.IH [of "table_step c m"] show ?case by simp
qed simp

text \<open>C16: the sorted table is a map from key sequences to actions. After any sequence of bindings and
  removals the binary search answers exactly the current binding, and \<open>has_longer\<close> is true exactly
  when some bound sequence strictly extends the given one.\<close>

theorem table_refines_map:
  "action_for (fold table_step calls keymap_init) keys = fold map_step calls Map.empty keys \<and>
   (has_longer (fold table_step calls keymap_init) keys \<longleftrightarrow>
     (\<exists>r. r \<noteq> [] \<and> fold map_step calls Map.empty (keys @ r) \<noteq> None))"
proof -
  have i: "table_ok keymap_init" "bindings keymap_init = Map.empty"
    by (simp_all add: table_ok_def keymap_init_def rising_def bindings_def)
  note s = table_steps [OF i(1), of calls, unfolded i(2)]
  show ?thesis using s action_for_bindings has_longer_bindings by simp
qed

end
