(* ===== verification/KeymapNotation.thy ===== *)
theory KeymapNotation
  imports KeymapProps
begin

text \<open>
  The round trip of the key notation: what \<open>render_key_notation\<close> writes, \<open>parse_key_notation\<close>
  reads back.
\<close>

subsection \<open>Notation: one scalar\<close>







subsection \<open>Notation: groups\<close>






























text \<open>Outside that set the text need not read back: \<open><A-gt>\<close> is the key whose rendering closes its group early.\<close>

lemma modified_gt_lost:
  "parse_key_notation ''<A-gt>'' = Some (encode_key k) \<and> render_key_notation (encode_key k) = ''<A->>'' \<and>
   parse_key_notation ''<A->>'' = None"
  if "k = codepoint_key 0x3E \<lparr>km_shift = False, km_alt = True, km_ctrl = False\<rparr>" for k
proof -
  have "decoded_keys (encode_keys [k]) = [k]"
    by (rule decoded_encoded) (simp add: that sound_key_def codepoint_key_def)
  moreover have "rendered_key k = ''<A->>''" unfolding that by code_simp
  moreover have "parse_key_notation ''<A-gt>'' = Some (encode_key k)" unfolding that by code_simp
  moreover have "parse_key_notation ''<A->>'' = None" by code_simp
  ultimately show ?thesis by (simp add: render_key_notation_def)
qed

end
