(* ===== verification/KeymapResolve.thy ===== *)
theory KeymapResolve
  imports KeymapProps
begin

text \<open>
  Resolution of a key sequence against the keymap stack, read declaratively.
\<close>

subsection \<open>Resolution\<close>

text \<open>The keymaps a walk consults: topmost first, up to and with the first opaque one.\<close>

fun visible :: "keymap_registry \<Rightarrow> string list \<Rightarrow> keymap list" where
  "visible maps [] = []"
| "visible maps (layer # below) =
    (case find_keymap maps layer of
       None \<Rightarrow> visible maps below
     | Some m \<Rightarrow> if mp_opaque m then [m] else m # visible maps below)"

definition first_some :: "('a \<Rightarrow> 'b option) \<Rightarrow> 'a list \<Rightarrow> 'b option" where
  "first_some f xs = (case find (\<lambda>x. f x \<noteq> None) xs of None \<Rightarrow> None | Some x \<Rightarrow> f x)"

lemma first_some_simps [simp]:
  "first_some f [] = None" "first_some f (x # xs) = (if f x = None then first_some f xs else f x)"
  by (simp_all add: first_some_def)

definition declared_default :: "keymap \<Rightarrow> string option" where
  "declared_default m = (if mp_default_action m = [] then None else Some (mp_default_action m))"

lemma walk_layers_visible:
  "walk_layers maps layers candidate seen =
    \<lparr>fd_exact = (if fd_exact seen = None then first_some (\<lambda>m. action_for m candidate) (visible maps layers) else fd_exact seen),
     fd_fallback = (if fd_fallback seen = None then first_some declared_default (visible maps layers) else fd_fallback seen),
     fd_prefix = (fd_prefix seen \<or> (\<exists>m \<in> set (visible maps layers). has_longer m candidate)),
     fd_floored = (fd_floored seen \<and> \<not> (\<exists>m \<in> set (visible maps layers). mp_opaque m))\<rparr>"
proof (induction layers arbitrary: seen)
  case (Cons layer layers)
  show ?case
  proof (cases "find_keymap maps layer")
    case None
    with Cons show ?thesis by simp
  next
    case (Some m)
    then show ?thesis
      by (cases "mp_opaque m") (auto simp: Cons see_keymap_def declared_default_def Let_def)
  qed
qed simp

definition settled :: "keymap list \<Rightarrow> string \<Rightarrow> bool \<Rightarrow> resolution" where
  "settled ms candidate printable =
     (case first_some (\<lambda>m. action_for m candidate) ms of
        Some action \<Rightarrow> Dispatch action
      | None \<Rightarrow>
        if length candidate \<noteq> encoded_key_size then Unbound
        else (case first_some declared_default ms of
            Some action \<Rightarrow> Dispatch action
          | None \<Rightarrow> if list_all (\<lambda>m. \<not> mp_opaque m) ms \<and> printable then Dispatch ''self_insert'' else Unbound))"

lemma settle_walk: "settle (walk_stack maps layers candidate) candidate printable = settled (visible maps (rev layers)) candidate printable"
  by (simp add: settle_def settled_def walk_stack_def walk_layers_visible found_init_def list_all_iff split: option.split) auto

text \<open>C17: resolution reads the stack top-down to the first opaque keymap. Any longer binding in sight holds
  the keys; otherwise the topmost exact binding is dispatched; otherwise a single key goes to the topmost
  declared default, or types itself when it is printable and no opaque keymap was met; anything else is
  unbound. When the hold expires the same holds without the longer bindings.\<close>

theorem resolution_reads_stack:
  "resolve_keys maps layers candidate printable =
     (if list_ex (\<lambda>m. has_longer m candidate) (visible maps (rev layers)) then Hold
      else settled (visible maps (rev layers)) candidate printable) \<and>
   resolve_expired_keys maps layers candidate =
     settled (visible maps (rev layers)) candidate
       (length candidate = encoded_key_size \<and>
        (case decode_key candidate of None \<Rightarrow> False | Some (key, rest) \<Rightarrow> is_self_inserting key))"
proof -
  have p: "fd_prefix (walk_stack maps layers candidate) = list_ex (\<lambda>m. has_longer m candidate) (visible maps (rev layers))"
    by (simp add: walk_stack_def walk_layers_visible found_init_def list_ex_iff)
  show ?thesis
    by (auto simp: resolve_keys_def resolve_expired_keys_def Let_def p settle_walk split: option.split)
qed

text \<open>What lies below an opaque keymap cannot be seen. Replacing everything below it changes no
  resolution, before or after the hold.\<close>

theorem opaque_hides_below:
  assumes "find_keymap maps layer = Some m" "mp_opaque m"
  shows "resolve_keys maps (lower @ layer # upper) candidate printable =
      resolve_keys maps (lower' @ layer # upper) candidate printable \<and>
    resolve_expired_keys maps (lower @ layer # upper) candidate =
      resolve_expired_keys maps (lower' @ layer # upper) candidate"
proof -
  have "visible maps (xs @ layer # ys) = visible maps (xs @ layer # ys')" for xs ys ys'
    by (induction xs) (simp_all add: assms split: option.split)
  then have "visible maps (rev (lower @ layer # upper)) = visible maps (rev (lower' @ layer # upper))" by simp
  then show ?thesis
    by (simp only: resolve_keys_def resolve_expired_keys_def walk_stack_def walk_layers_visible Let_def)
qed

theorem opaque_hides_below_witness:
  "resolve_keys [(''pager'', default_keymap [] [] True ''pager_filter_key''), (''emacs'', keymap_init)]
     [''emacs'', ''pager''] (encode_key (codepoint_key 0x61 no_modifiers)) True =
   resolve_keys [(''pager'', default_keymap [] [] True ''pager_filter_key''), (''emacs'', keymap_init)]
     [''pager''] (encode_key (codepoint_key 0x61 no_modifiers)) True"
proof -
  let ?m = "default_keymap [] [] True ''pager_filter_key''"
  let ?maps = "[(''pager'', ?m), (''emacs'', keymap_init)]"
  have "find_keymap ?maps ''pager'' = Some ?m" "mp_opaque ?m" by (simp_all add: find_keymap_def default_keymap_def)
  from opaque_hides_below [OF this, of "[''emacs'']" "[]" _ True "[]"] show ?thesis by simp
qed

end
