(* ===== verification/LexerSubst.thy ===== *)
theory LexerSubst
  imports LexerProps
begin

text \<open>
  Command substitutions: the scan ends at the closer of the construct it was handed, and
  \<open>command_sub_interior\<close> names exactly what lies between the delimiters.
\<close>

subsection \<open>The scan closes what it opened\<close>

text \<open>A step keeps the closer of the outermost level, or closes that level at its closer.\<close>

definition keeps_outermost :: "string \<Rightarrow> scan \<Rightarrow> scan \<Rightarrow> bool" where
  "keeps_outermost s st st1 \<longleftrightarrow>
     (if sc_stack st1 = [] then sc_at st1 = sc_at st + 1 \<and> s ! sc_at st = lv_closer (last (sc_stack st))
      else lv_closer (last (sc_stack st1)) = lv_closer (last (sc_stack st)))"

lemma keeps_same: "sc_stack st \<noteq> [] \<Longrightarrow> sc_stack st1 = sc_stack st \<Longrightarrow> keeps_outermost s st st1"
  by (simp add: keeps_outermost_def)

lemma keeps_open: "sc_stack st \<noteq> [] \<Longrightarrow> keeps_outermost s st (open_level closer after ordinary arithmetic st)"
  by (simp add: keeps_outermost_def open_level_def)

lemma keeps_close: "sc_stack st \<noteq> [] \<Longrightarrow> s ! sc_at st = lv_closer (hd (sc_stack st)) \<Longrightarrow> keeps_outermost s st (close_level st)"
  by (cases "sc_stack st") (auto simp: keeps_outermost_def close_level_def)

lemma keeps_dollar: "sc_stack st \<noteq> [] \<Longrightarrow> keeps_outermost s st (scan_dollar s cur st)"
  by (auto simp: scan_dollar_def open_expansion_def keeps_same keeps_open split: option.split if_splits)

lemma keeps_plain: "sc_stack st \<noteq> [] \<Longrightarrow> keeps_outermost s st (scan_plain s cur st)"
  by (simp add: scan_plain_def keeps_same keeps_open)

lemma keeps_case_word:
  assumes "sc_stack st \<noteq> []" "scan_case_word s base (hd (sc_stack st)) st = Some found"
  shows "keeps_outermost s st found"
  using assms by (cases "sc_stack st") (auto simp: scan_case_word_def keeps_outermost_def split: if_splits)

lemma keeps_if:
  "(b \<Longrightarrow> keeps_outermost s st x) \<Longrightarrow> (\<not> b \<Longrightarrow> keeps_outermost s st y) \<Longrightarrow> keeps_outermost s st (if b then x else y)"
  by simp

lemma step_keeps:
  assumes "sc_stack st \<noteq> []"
  shows "keeps_outermost s st (scan_step s base (hd (sc_stack st)) st)"
  unfolding scan_step_def
proof (intro keeps_if, goal_cases)
  case 3
  then show ?case using assms by (simp add: keeps_close)
next
  case 12
  then show ?case using keeps_case_word [OF assms, of s base]
    by (cases "scan_case_word s base (hd (sc_stack st)) st") (simp_all add: assms keeps_plain)
qed (simp_all add: assms keeps_same keeps_open keeps_dollar keeps_plain scan_here_doc_def scan_newline_def case_prod_beta)

lemma loop_closes:
  assumes "sc_stack st \<noteq> []" "sc_stack (scan_loop s base st) = []"
  shows "sc_at st < sc_at (scan_loop s base st) \<and> s ! (sc_at (scan_loop s base st) - 1) = lv_closer (last (sc_stack st))"
  using assms
proof (induction s base st rule: scan_loop.induct)
  case (1 s base st)
  have cond: "sc_stack st \<noteq> [] \<and> sc_at st < length s"
    using 1(2) 1(3) [unfolded scan_loop.simps [of s base st]] by (auto split: if_splits)
  let ?st = "scan_step s base (hd (sc_stack st)) st"
  have step: "scan_loop s base st = scan_loop s base ?st" by (subst scan_loop.simps) (simp add: cond)
  have on: "sc_at st < sc_at ?st" using scan_step_onward cond by (simp add: onward_def)
  note keeps = step_keeps [OF 1(2), of s base]
  show ?case
  proof (cases "sc_stack ?st = []")
    case True
    then have "scan_loop s base ?st = ?st" by (subst scan_loop.simps) simp
    then show ?thesis using keeps True on unfolding step by (simp add: keeps_outermost_def)
  next
    case False
    then show ?thesis using 1(1) [OF cond False] 1(3) keeps on unfolding step by (simp add: keeps_outermost_def)
  qed
qed

lemma substitution_closes:
  assumes "p < length s" "s ! p = CHR ''$''" "char_at s (past_continuations s (p + 1)) = CHR ''(''"
    "skip_quoted_or_expansion s p False = (q, True)"
  shows "past_continuations s (p + 1) + 1 < q \<and> q \<le> length s \<and> s ! (q - 1) = CHR '')''"
proof -
  let ?a = "past_continuations s (p + 1)"
  obtain opened where o: "open_expansion s ?a False (scan_init p) = Some opened"
    using assms(3) by (simp add: open_expansion_def)
  then have opened: "sc_at opened = ?a + 1" "sc_stack opened \<noteq> []" "lv_closer (last (sc_stack opened)) = CHR '')''"
    using assms(3) by (auto simp: open_expansion_def open_level_def scan_init_def kMaxScanNesting_def split: if_splits)
  have "skip_quoted_or_expansion s p False = scan_answer s (scan_loop s p opened)"
    using assms o not_quote_before [OF assms(3)] by (simp add: skip_quoted_or_expansion_def char_at_def [of s p])
  then have "sc_stack (scan_loop s p opened) = []" "sc_at (scan_loop s p opened) = q"
    using assms(4) by (auto simp: scan_answer_def split: if_splits)
  with loop_closes [OF opened(2), of s p] opened skip_expansion_onward [OF assms(1,2,3)] not_quote_before [OF assms(3)] assms(4)
  show ?thesis by (simp add: onward_def)
qed

subsection \<open>The interior\<close>

lemma substr_one: "p < length s \<Longrightarrow> substr s p 1 = [s ! p]"
  by (simp add: substr_def take_Suc_conv_app_nth hd_drop_conv_nth One_nat_def take_Suc)

lemma delimited_text:
  assumes "p + 1 \<le> a" "a + 1 \<le> e" "e < length s"
  shows "substr s p (e + 1 - p) = s ! p # substr s (p + 1) (a - (p + 1)) @ s ! a # substr s (a + 1) (e - (a + 1)) @ [s ! e]"
proof -
  have "substr s p (e + 1 - p) = substr s p 1 @ substr s (p + 1) (a - (p + 1)) @ substr s a 1 @ substr s (a + 1) (e - (a + 1)) @ substr s e 1"
    using assms substr_glue [of p "p + 1" "e + 1" s] substr_glue [of "p + 1" a "e + 1" s] substr_glue [of a "a + 1" "e + 1" s]
      substr_glue [of "a + 1" e "e + 1" s] by simp
  then show ?thesis using assms by (simp add: substr_one)
qed

lemma dollar_command_sub:
  assumes "ld_kind (lex_dollar_segment s mode p) = Seg_command_sub" "ld_error (lex_dollar_segment s mode p) = No_error"
  shows "char_at s (past_continuations s (p + 1)) = CHR ''(''" "snd (skip_quoted_or_expansion s p False)"
    "ld_end (lex_dollar_segment s mode p) = fst (skip_quoted_or_expansion s p False)"
  using assms by (auto simp: lex_dollar_segment_def lex_arithmetic_segment_def segment_or_def Let_def case_prod_beta split: if_splits)

lemma segment_dollar: "s ! p = CHR ''$'' \<Longrightarrow> lex_word_segment s mode p = lex_dollar_segment s mode p"
  by (simp add: lex_word_segment_def tilde_eligible_def)

text \<open>C22: the interior of a command substitution is what lies between its delimiters. For a complete \<open>$(...)\<close>
  segment of any interior mode the named span is inside the source, and the segment reads \<open>$\<close>, line
  continuations, \<open>(\<close>, that span, and the closing \<open>)\<close>.\<close>

theorem interior_is_between_delimiters:
  assumes "mode \<in> {Word_interior, Assignment_interior, Double_quote_interior, Here_doc_body}"
    "lx_position lx < length (lx_source lx)" "next_token mode lx = (t, lx1)"
    "tk_kind t = Seg_command_sub" "tk_error t = No_error" "lx_source lx ! tk_offset t = CHR ''$''"
  shows "\<exists>opened stop continuations. command_sub_interior (lx_source lx) t = Some (opened, stop) \<and>
    opened \<le> stop \<and> stop < length (lx_source lx) \<and> gap continuations \<and>
    token_text (lx_source lx) t =
      ''$'' @ continuations @ ''('' @ substr (lx_source lx) opened (stop - opened) @ '')''"
proof -
  let ?s = "lx_source lx" and ?p = "lx_position lx"
  let ?a = "past_continuations ?s (?p + 1)" and ?q = "ld_end (lex_dollar_segment ?s mode ?p)"
  have off: "tk_offset t = ?p" using next_token_shape(5) [OF _ assms(3)] assms(1,2) by (simp add: interior_def)
  have dollar: "?s ! ?p = CHR ''$''" using assms(6) off by simp
  have t: "t = (token_of ?p (lex_dollar_segment ?s mode ?p))\<lparr>tk_preceded_by_blank := False\<rparr>"
    using assms(1,2,3) segment_dollar [OF dollar] by (auto simp: next_token_def interior_def lexed_token_def)
  note seg = dollar_command_sub [of ?s mode ?p]
  have paren: "char_at ?s ?a = CHR ''(''" and closed: "skip_quoted_or_expansion ?s ?p False = (?q, True)"
    using seg assms(4,5) unfolding t by (simp_all add: token_of_def prod_eq_iff)
  note ends = substitution_closes [OF assms(2) dollar paren closed]
  have a: "?p + 1 \<le> ?a" "?a < length ?s" "?s ! ?a = CHR ''(''"
    using past_continuations_ge [of "?p + 1" ?s] char_at_in [OF paren] paren by (simp_all add: char_at_def)
  have fields: "tk_offset t = ?p" "tk_length t = ?q - ?p" "end_offset t = ?q"
    using a ends by (simp_all add: t token_of_def end_offset_def)
  have span: "?a + 1 \<le> ?q - 1" "?q - 1 < length ?s" "\<not> ?q - 1 < ?a + 1" using ends by linarith+
  have last: "?q - 1 + 1 = ?q" using ends by linarith
  have "command_sub_interior ?s t = Some (?a + 1, ?q - 1)"
    using span assms(2,4,5) dollar a ends by (simp add: command_sub_interior_def command_sub_open_def fields min_def Let_def)
  moreover have "token_text ?s t = ''$'' @ substr ?s (?p + 1) (?a - (?p + 1)) @ ''('' @ substr ?s (?a + 1) (?q - 1 - (?a + 1)) @ '')''"
    using delimited_text [OF a(1) span(1,2), unfolded last] a ends dollar by (simp add: token_text_def fields)
  moreover have "gap (substr ?s (?p + 1) (?a - (?p + 1)))" by (rule past_continuations_gap)
  ultimately show ?thesis using span by blast
qed

theorem interior_is_between_delimiters_witness:
  "\<exists>opened stop continuations.
     command_sub_interior ''$(a)b'' (fst (next_token Word_interior (lexer_at ''$(a)b'' 0))) = Some (opened, stop) \<and>
     token_text ''$(a)b'' (fst (next_token Word_interior (lexer_at ''$(a)b'' 0))) =
       ''$'' @ continuations @ ''('' @ substr ''$(a)b'' opened (stop - opened) @ '')''"
proof -
  let ?r = "next_token Word_interior (lexer_at ''$(a)b'' 0)"
  have r: "tk_kind (fst ?r) = Seg_command_sub \<and> tk_error (fst ?r) = No_error \<and> tk_offset (fst ?r) = 0" by code_simp
  have s: "lx_source (lexer_at ''$(a)b'' 0) = ''$(a)b''" "lx_position (lexer_at ''$(a)b'' 0) = 0" by (simp_all add: lexer_at_def)
  from interior_is_between_delimiters [of Word_interior "lexer_at ''$(a)b'' 0" "fst ?r" "snd ?r", unfolded s] r
  show ?thesis by auto
qed

end
