(* ===== verification/ParserTotal.thy ===== *)
theory ParserTotal
  imports GrammarTotal
begin

text \<open>
  Programs: the body of a script, the interiors of its command substitutions, and the two entry points.  For every
  source and every finite alias table they return, and what they return is a tree whose nodes are all well formed.
\<close>

declare One_nat_def [simp]

subsection \<open>The body of a program\<close>

lemma parses_pipeline: "ok st \<Longrightarrow> parses parse_nt N_pipeline st"
  by (rule parse_nt_ok)

text \<open>Where the cursor of the input stands when a body ends: at its end, or past the newline that ended it.\<close>

definition past :: "parser \<Rightarrow> parser \<Rightarrow> bool" where
  "past st0 st \<longleftrightarrow>
     (cursor_kept st0 \<longrightarrow> peek_kind st = T_end \<or> pa_cursor st0 < pa_cursor st \<and> pa_cursor st \<le> length (tr_source (pa_tree st)))"

lemma cursor_bound: "ok st \<Longrightarrow> cursor_kept st \<Longrightarrow> pa_cursor st \<le> length (tr_source (pa_tree st))"
  by (auto simp: ok_def ready_def cursor_kept_def lexer_ok_def)

lemma body_step_ok:
  assumes g: "grown st0 items st"
  shows "succeeds (body_step one_command st) (\<lambda>r. case r of
      Inl st1 \<Rightarrow> grown st0 items st1 \<and> potential st1 < potential st
    | Inr st1 \<Rightarrow> grown st0 items st1 \<and> past st0 st1)"
proof (cases "peek_kind st = T_end")
  case True
  then show ?thesis using g by (simp add: body_step_def past_def)
next
  case ne: False
  note ok = grown_ok [OF g]
  show ?thesis
  proof (cases "is_separator (peek_kind st)")
    case True
    from advance_reads [OF ok] ne obtain i st1 where st1: "advance st = Some (i, st1)" "reads st st1"
      "pa_index st < pa_index st1" "pa_stack st = [] \<longrightarrow> lx_position (pa_lexer st) \<le> pa_cursor st1"
      by (auto elim: succeedsE)
    have "past st0 st1" if "pa_stack st = []"
    proof -
      have "pa_cursor st0 < pa_cursor st1 \<and> pa_cursor st1 \<le> length (tr_source (pa_tree st1))" if c: "cursor_kept st0"
      proof -
        have "cursor_kept st" "pa_cursor st0 \<le> pa_cursor st" "cursor_kept st1"
          using c grown_keeps [OF g] reads_keeps [OF st1(2)] by (simp_all add: keeps_def)
        then show ?thesis using st1(4) \<open>pa_stack st = []\<close> ne cursor_bound [OF reads_ok [OF st1(2)]]
          by (auto simp: cursor_kept_def)
      qed
      then show ?thesis by (simp add: past_def)
    qed
    then show ?thesis using ne True st1(1) grown_reads [OF g st1(2)] reads_less [OF st1(2,3)]
      by (simp add: body_step_def)
  next
    case False
    from push_list_item_ok [OF g ne parse_nt_ok] obtain st1 where st1: "push_list_item parse_nt st = Some st1"
      "grown st0 items st1" "keeps st st1" "pa_index st < pa_index st1" by (auto elim: succeedsE)
    then show ?thesis using ne False keeps_step(3) [OF st1(3)] by (simp add: body_step_def)
  qed
qed

text \<open>What a body leaves in the parser, its cursor apart.\<close>

lemma finish_node_cursor:
  "finish_node n mark (st\<lparr>pa_cursor := c\<rparr>) =
     (fst (finish_node n mark st), (snd (finish_node n mark st))\<lparr>pa_cursor := c\<rparr>)"
  by (simp add: finish_node_def commit_children_def new_node_def add_node_def add_children_def)

lemma parse_body_ok:
  assumes ok: "ok st0"
  shows "succeeds (parse_body one_command st0) (\<lambda>(root, st). \<exists>st1 c. st = st1\<lparr>pa_cursor := c\<rparr> \<and>
    made st0 (\<lambda>n. nd_kind n = Program) (root, st1) \<and>
    (cursor_kept st0 \<longrightarrow> c = length (tr_source (pa_tree st0)) \<or> pa_cursor st0 < c \<and> c \<le> length (tr_source (pa_tree st0))))"
proof -
  have "succeeds (loop (body_step one_command) st0) (\<lambda>s. grown st0 items s \<and> past st0 s)"
  proof (rule succeeds_loop [where I = "grown st0 items" and f = potential])
    show "succeeds (body_step one_command s) (\<lambda>r. case r of
        Inl s1 \<Rightarrow> grown st0 items s1 \<and> potential s1 < potential s | Inr s1 \<Rightarrow> grown st0 items s1 \<and> past st0 s1)"
      if "grown st0 items s" for s by (rule body_step_ok [OF that])
    show "grown st0 items st0" by (rule grown_mono [OF grown_none [OF reads_refl [OF ok]]]) simp
  qed
  then obtain st where st: "loop (body_step one_command) st0 = Some st" "grown st0 items st" "past st0 st"
    by (auto elim: succeedsE)
  from st(2) obtain ns where ns: "grew st0 ns st" "items (nodes_of st ns)" by (auto simp: grown_def)
  have first: "list_all (\<lambda>c. pa_index st0 \<le> nd_first c) (nodes_of st ns)"
    using ns(1) by (auto simp: grew_def spans_def list_all_iff)
  let ?n = "node_over Program (pa_index st0) (pa_index st)"
  have m: "made st0 (\<lambda>n. nd_kind n = Program) (finish_node ?n (mark_scratch st0) st)"
    by (rule finish_node_ok(1) [OF ns(1), where P = "\<lambda>n. nd_kind n = Program"])
      (use first ns(2) grown_index [OF st(2)] in \<open>simp_all add: well_delimited_def list_all_iff\<close>)
  define c where "c = (if peek_kind st = T_end then length (tr_source (pa_tree st)) else pa_cursor st)"
  have src: "tr_source (pa_tree st) = tr_source (pa_tree st0)"
    using grown_keeps [OF st(2)] by (simp add: keeps_def extends_def)
  have "(if peek_kind st = T_end then st\<lparr>pa_cursor := length (tr_source (pa_tree st))\<rparr> else st) = st\<lparr>pa_cursor := c\<rparr>"
    by (simp add: c_def)
  moreover obtain root st1 where f: "finish_node ?n (mark_scratch st0) st = (root, st1)" by fastforce
  ultimately have "parse_body one_command st0 = Some (root, st1\<lparr>pa_cursor := c\<rparr>)"
    using st(1) by (simp add: parse_body_def finish_node_cursor)
  moreover have "cursor_kept st0 \<longrightarrow> c = length (tr_source (pa_tree st0)) \<or>
      pa_cursor st0 < c \<and> c \<le> length (tr_source (pa_tree st0))"
    using st(3) by (auto simp: past_def c_def src)
  ultimately show ?thesis using m [unfolded f] by auto
qed

subsection \<open>Sound trees\<close>

text \<open>The nodes no other node has as its child: the program, and one for every interior parsed.\<close>

definition tree_roots :: "tree \<Rightarrow> nat list" where
  "tree_roots tr = (case tr_root tr of None \<Rightarrow> [] | Some r \<Rightarrow> [r]) @ List.map_filter sub_root (tr_sub_parses tr)"

definition interior_ok :: "tree \<Rightarrow> sub_parse \<Rightarrow> bool" where
  "interior_ok tr s \<longleftrightarrow> sub_depth s < kMaxSubParseDepth \<and> span_end (sub_interior s) \<le> length (tr_source tr)"

definition interior_parsed :: "tree \<Rightarrow> sub_parse \<Rightarrow> bool" where
  "interior_parsed tr s \<longleftrightarrow>
     (case sub_root s of
        None \<Rightarrow> False
      | Some r \<Rightarrow> nd_kind (tr_nodes tr ! r) = Program \<and> sub_node_begin s \<le> r \<and> r < sub_node_end s \<and>
          sub_node_end s \<le> length (tr_nodes tr))"

text \<open>A parser between bodies: the first \<open>k\<close> interiors are parsed, the others are still to be.\<close>

definition settled_upto :: "nat \<Rightarrow> parser \<Rightarrow> bool" where
  "settled_upto k st \<longleftrightarrow>
     ready st \<and> k \<le> length (tr_sub_parses (pa_tree st)) \<and>
     (\<forall>s \<in> set (tr_sub_parses (pa_tree st)). interior_ok (pa_tree st) s) \<and>
     (\<forall>s \<in> set (take k (tr_sub_parses (pa_tree st))). interior_parsed (pa_tree st) s) \<and>
     (\<forall>s \<in> set (drop k (tr_sub_parses (pa_tree st))). sub_root s = None) \<and>
     mset (tr_children (pa_tree st)) + mset (tree_roots (pa_tree st)) = mset [0..<length (tr_nodes (pa_tree st))]"

lemma map_filter_none: "(\<forall>x \<in> set xs. f x = None) \<Longrightarrow> List.map_filter f xs = []"
  by (induction xs) (auto simp: List.map_filter_simps)

lemma map_filter_append [simp]: "List.map_filter f (xs @ ys) = List.map_filter f xs @ List.map_filter f ys"
  by (simp add: List.map_filter_def)

text \<open>The depths still to be paid for: they fall whenever an interior is parsed, whatever it contains.\<close>

definition to_parse :: "nat \<times> parser \<Rightarrow> nat multiset" where
  "to_parse run = (case run of (k, st) \<Rightarrow>
     image_mset (\<lambda>s. kMaxSubParseDepth - sub_depth s) (mset (drop k (tr_sub_parses (pa_tree st)))))"

lemma interior_parsed_grows:
  "interior_parsed tr s \<Longrightarrow> prefix (tr_nodes tr) (tr_nodes tr1) \<Longrightarrow> interior_parsed tr1 s"
  by (auto simp: interior_parsed_def prefix_length_le prefix_nth dest!: prefix_length_le split: option.splits)

lemma made_new:
  assumes m: "made a P (r, b)"
  shows "length (tr_nodes (pa_tree a)) \<le> r"
proof -
  have g: "grew a [r] (push r b)" by (rule made_grew [OF m])
  then obtain more where "tr_children (pa_tree b) = tr_children (pa_tree a) @ more"
    by (auto simp: grew_def keeps_def extends_def prefix_def)
  then have "mset more + {#r#} = mset [length (tr_nodes (pa_tree a))..<length (tr_nodes (pa_tree b))]"
    using g by (simp add: grew_def)
  then have "r \<in># mset [length (tr_nodes (pa_tree a))..<length (tr_nodes (pa_tree b))]" by (metis add_mset_add_single union_single_eq_member)
  then show ?thesis by simp
qed

lemma interior_step_ready:
  assumes "ready st" "interior_ok (pa_tree st) entry"
  shows "ready (st\<lparr>pa_sub_depth := d, pa_lexer := lexer_at (take (span_end (sub_interior entry)) (tr_source (pa_tree st)))
                   (sp_offset (sub_interior entry)), pa_index := 0\<rparr>)"
  using assms by (auto simp: ready_def lexer_ok_def lexer_at_def interior_ok_def span_end_def)

lemma parse_interior_ok:
  assumes st: "settled_upto k st" and k: "k < length (tr_sub_parses (pa_tree st))"
  shows "succeeds (parse_interior k st) (\<lambda>st1. settled_upto (k + 1) st1 \<and> extends (pa_tree st) (pa_tree st1) \<and>
    tr_root (pa_tree st1) = tr_root (pa_tree st) \<and> (to_parse (k + 1, st1), to_parse (k, st)) \<in> mult less_than)"
proof -
  define subs where "subs = tr_sub_parses (pa_tree st)"
  define entry where "entry = subs ! k"
  have k: "k < length subs" using k by (simp add: subs_def)
  have subs: "subs = take k subs @ entry # drop (k + 1) subs" unfolding entry_def by (rule id_take_nth_drop [OF k, unfolded Suc_eq_plus1])
  have ok: "interior_ok (pa_tree st) entry" using st k by (simp add: settled_upto_def entry_def subs_def)
  let ?st = "st\<lparr>pa_sub_depth := sub_depth entry + 1,
      pa_lexer := lexer_at (take (span_end (sub_interior entry)) (tr_source (pa_tree st))) (sp_offset (sub_interior entry)),
      pa_index := 0\<rparr>"
  have "ready ?st" by (rule interior_step_ready [OF _ ok]) (use st in \<open>simp add: settled_upto_def\<close>)
  from fill_ok [OF this] obtain st1 where st1: "fill ?st = Some st1" "drawn_ok ?st st1" by (auto elim: succeedsE)
  then have "ok st1" and d: "drew ?st st1" by (simp_all add: ok_def drawn_ok_def)
  from parse_body_ok [OF this(1), of False] obtain root st2 c where
    st2: "parse_body False st1 = Some (root, st2\<lparr>pa_cursor := c\<rparr>)" and m: "made st1 (\<lambda>n. nd_kind n = Program) (root, st2)"
    by (auto elim: succeedsE)
  note kp = made_keeps [OF m] and b = made_bounds [OF m] and new = made_new [OF m]
  define tr where "tr = pa_tree st2"
  define entry1 where "entry1 = entry\<lparr>sub_root := Some root, sub_node_begin := length (tr_nodes (pa_tree st1)),
      sub_node_end := length (tr_nodes tr)\<rparr>"
  from kp obtain found where found: "tr_sub_parses tr = subs @ found"
    "\<forall>s \<in> set found. sub_depth s = sub_depth entry + 1 \<and> sub_root s = None \<and> interior_ok tr s"
    using d by (fastforce simp: keeps_def finds_def drew_def tr_def subs_def interior_ok_def extends_def)
  define st3 where "st3 = st2\<lparr>pa_cursor := c, pa_pending := [],
      pa_tree := tr\<lparr>tr_sub_parses := take k subs @ entry1 # drop (k + 1) subs @ found\<rparr>\<rparr>"
  have upd: "(subs @ found)[k := entry1] = take k subs @ entry1 # drop (k + 1) subs @ found"
    using k by (simp add: list_update_append upd_conv_take_nth_drop)
  have "set_sub_parse_result k root (length (tr_nodes (pa_tree st1))) (length (tr_nodes tr)) tr =
      tr\<lparr>tr_sub_parses := take k subs @ entry1 # drop (k + 1) subs @ found\<rparr>"
    unfolding upd [symmetric] using k by (simp add: set_sub_parse_result_def found(1) nth_append entry_def entry1_def)
  then have run: "parse_interior k st = Some st3"
    using st1(1) st2 by (simp add: parse_interior_def st3_def tr_def entry_def subs_def)
  have e: "extends (pa_tree st) tr" using d kp unfolding keeps_def drew_def tr_def
    by (auto intro: extends_trans)
  then have e3: "extends (pa_tree st) (pa_tree st3)" by (simp add: st3_def extends_def)
  have root3: "tr_root (pa_tree st3) = tr_root (pa_tree st)"
    using d kp by (simp add: st3_def keeps_def drew_def tr_def)
  have nodes: "tr_nodes (pa_tree st1) = tr_nodes (pa_tree st)" "tr_children (pa_tree st1) = tr_children (pa_tree st)"
    using d by (simp_all add: drew_def)
  have "ready st3"
  proof -
    have r2: "ready st2" using made_ok [OF m] by (simp add: ok_def)
    have e2: "extends tr (pa_tree st3)" by (simp add: st3_def extends_def)
    have sp: "text_space (pa_tree st3) = text_space tr" "tokens_placed (pa_tree st3) = tokens_placed tr"
      by (simp_all add: st3_def text_space_def tokens_placed_def)
    have len: "length (tr_nodes (pa_tree st3)) = length (tr_nodes tr)" by (simp add: st3_def)
    have "\<forall>j < length (tr_nodes (pa_tree st3)). well_formed_node (pa_tree st3) j"
      unfolding len using well_formed_node_extends [OF e2] r2 by (simp add: ready_def tr_def)
    then show ?thesis using r2 sp by (simp add: ready_def tr_def) (simp add: st3_def tr_def)
  qed
  moreover have "interior_parsed (pa_tree st3) s" if "s \<in> set (take k subs @ [entry1])" for s
  proof -
    have "interior_parsed tr entry1" using b new nodes by (simp add: interior_parsed_def entry1_def tr_def)
    moreover have "interior_parsed tr s" if "s \<in> set (take k subs)"
    proof (rule interior_parsed_grows)
      show "interior_parsed (pa_tree st) s" using st that by (simp add: settled_upto_def subs_def)
      show "prefix (tr_nodes (pa_tree st)) (tr_nodes tr)" using e by (simp add: extends_def)
    qed
    ultimately have "interior_parsed tr s" using that by auto
    then show ?thesis by (simp add: st3_def interior_parsed_def split: option.splits)
  qed
  moreover have "mset (tr_children (pa_tree st3)) + mset (tree_roots (pa_tree st3)) = mset [0..<length (tr_nodes (pa_tree st3))]"
  proof -
    let ?n = "length (tr_nodes (pa_tree st))" and ?n3 = "length (tr_nodes tr)"
    have none: "List.map_filter sub_root (drop k subs) = []" "List.map_filter sub_root (drop (k + 1) subs @ found) = []"
    proof -
      have "\<forall>s \<in> set (drop k subs). sub_root s = None" using st by (simp add: settled_upto_def subs_def)
      then show "List.map_filter sub_root (drop k subs) = []" by (rule map_filter_none)
      have "set (drop (k + 1) subs) \<subseteq> set (drop k subs)" by (simp add: set_drop_subset_set_drop)
      then show "List.map_filter sub_root (drop (k + 1) subs @ found) = []"
        using \<open>\<forall>s \<in> set (drop k subs). sub_root s = None\<close> found(2) by (intro map_filter_none) auto
    qed
    have "List.map_filter sub_root subs = List.map_filter sub_root (take k subs)"
      using none(1) by (metis append_Nil2 append_take_drop_id map_filter_append)
    then have "tree_roots (pa_tree st3) = tree_roots (pa_tree st) @ [root]"
      using none(2) root3 unfolding tree_roots_def
      by (simp add: st3_def entry1_def subs_def [symmetric] List.map_filter_simps)
    moreover have "mset (tr_children tr) + {#root#} = mset (tr_children (pa_tree st)) + mset [?n..<?n3]"
      using made_grew [OF m] nodes by (simp add: grew_def tr_def)
    moreover have "mset (tr_children (pa_tree st)) + mset (tree_roots (pa_tree st)) = mset [0..<?n]"
      using st by (simp add: settled_upto_def)
    moreover have "mset [0..<?n3] = mset [0..<?n] + mset [?n..<?n3]"
    proof -
      have "?n \<le> ?n3" using e by (simp add: extends_def prefix_length_le)
      then have "[0..<?n3] = [0..<?n] @ [?n..<?n3]" by (metis le_add_diff_inverse le_add1 add_0 upt_add_eq_append)
      then show ?thesis by (metis mset_append)
    qed
    ultimately show ?thesis by (simp add: st3_def) (metis (no_types, lifting) add.assoc add.commute add_mset_add_single)
  qed
  moreover have "k + 1 \<le> length (tr_sub_parses (pa_tree st3))" using k by (simp add: st3_def)
  moreover have "\<forall>s \<in> set (tr_sub_parses (pa_tree st3)). interior_ok (pa_tree st3) s"
  proof -
    have "\<forall>s \<in> set subs. interior_ok tr s"
      using st e by (auto simp: settled_upto_def subs_def interior_ok_def extends_def)
    then show ?thesis using found(2) ok e
      by (auto simp: st3_def interior_ok_def entry1_def extends_def dest: in_set_takeD in_set_dropD)
  qed
  moreover have "take (k + 1) (tr_sub_parses (pa_tree st3)) = take k subs @ [entry1]"
    "drop (k + 1) (tr_sub_parses (pa_tree st3)) = drop (k + 1) subs @ found"
    using k by (simp_all add: st3_def One_nat_def)
  moreover have "\<forall>s \<in> set (drop (k + 1) subs @ found). sub_root s = None"
  proof -
    have "set (drop (k + 1) subs) \<subseteq> set (drop k subs)" by (simp add: set_drop_subset_set_drop)
    then show ?thesis using st found(2) by (auto simp: settled_upto_def subs_def)
  qed
  ultimately have "settled_upto (k + 1) st3" unfolding settled_upto_def by metis
  moreover have "(to_parse (k + 1, st3), to_parse (k, st)) \<in> mult less_than"
  proof -
    let ?left = "\<lambda>s. kMaxSubParseDepth - sub_depth s"
    have "drop k subs = entry # drop (k + 1) subs" using k by (simp add: entry_def Cons_nth_drop_Suc)
    then have "to_parse (k, st) = image_mset ?left (mset (drop (k + 1) subs)) + {#?left entry#}"
      by (simp add: to_parse_def subs_def)
    moreover have "to_parse (k + 1, st3) = image_mset ?left (mset (drop (k + 1) subs)) + image_mset ?left (mset found)"
      using \<open>drop (k + 1) (tr_sub_parses (pa_tree st3)) = drop (k + 1) subs @ found\<close> by (simp add: to_parse_def)
    moreover have "\<forall>x \<in># image_mset ?left (mset found). \<exists>y \<in># {#?left entry#}. (x, y) \<in> less_than"
      using found(2) ok by (auto simp: interior_ok_def)
    ultimately show ?thesis using one_step_implies_mult [of "{#?left entry#}"] by simp
  qed
  ultimately show ?thesis using run e3 root3 by simp
qed

text \<open>What the parser leaves when everything is parsed.\<close>

definition sound_tree :: "tree \<Rightarrow> bool" where
  "sound_tree tr \<longleftrightarrow>
     (\<forall>i < length (tr_nodes tr). well_formed_node tr i) \<and>
     (\<forall>s \<in> set (tr_sub_parses tr). interior_ok tr s \<and> interior_parsed tr s) \<and>
     mset (tr_children tr) + mset (tree_roots tr) = mset [0..<length (tr_nodes tr)] \<and>
     (\<exists>r. tr_root tr = Some r \<and> nd_kind (tr_nodes tr ! r) = Program)"

lemma settled_sound:
  assumes "settled_upto k st" "length (tr_sub_parses (pa_tree st)) \<le> k" "tr_root (pa_tree st) = Some r"
    "nd_kind (tr_nodes (pa_tree st) ! r) = Program"
  shows "sound_tree (pa_tree st)"
  using assms by (auto simp: settled_upto_def sound_tree_def ready_def)

definition rooted :: "tree \<Rightarrow> tree \<Rightarrow> bool" where
  "rooted tr0 tr \<longleftrightarrow> tr_source tr = tr_source tr0 \<and>
     (\<exists>r. tr_root tr = Some r \<and> r < length (tr_nodes tr) \<and> nd_kind (tr_nodes tr ! r) = Program)"

lemma rooted_extends:
  "rooted tr0 tr \<Longrightarrow> extends tr tr1 \<Longrightarrow> tr_root tr1 = tr_root tr \<Longrightarrow> rooted tr0 tr1"
  using prefix_length_le [of "tr_nodes tr" "tr_nodes tr1"] by (auto simp: rooted_def extends_def prefix_nth)

lemma settled_same:
  assumes "settled_upto k st" "pa_lexer st1 = pa_lexer st" "set (pa_stack st1) \<subseteq> set (pa_stack st)"
    "pa_tree st1 = (pa_tree st)\<lparr>tr_top_level_end := sealed\<rparr>"
  shows "settled_upto k st1"
proof -
  have e: "extends (pa_tree st) (pa_tree st1)" by (simp add: assms(4) extends_def)
  have r: "ready st" using assms(1) by (simp add: settled_upto_def)
  have sp: "text_space (pa_tree st1) = text_space (pa_tree st)" "tokens_placed (pa_tree st1) = tokens_placed (pa_tree st)"
    by (simp_all add: assms(4) text_space_def tokens_placed_def)
  have len: "length (tr_nodes (pa_tree st1)) = length (tr_nodes (pa_tree st))" by (simp add: assms(4))
  have "\<forall>j < length (tr_nodes (pa_tree st1)). well_formed_node (pa_tree st1) j"
    unfolding len using well_formed_node_extends [OF e] r by (simp add: ready_def)
  moreover have "lexer_ok (pa_lexer st1)" "length (lx_source (pa_lexer st1)) \<le> length (tr_source (pa_tree st1))"
    "\<forall>f \<in> set (pa_stack st1). frame_ok (tr_region_end (pa_tree st1)) f"
    using r assms(2,3,4) by (auto simp: ready_def)
  ultimately have "ready st1" using r sp by (simp add: ready_def)
  then show ?thesis using assms(1)
    by (simp add: settled_upto_def assms(4) tree_roots_def interior_ok_def interior_parsed_def cong: option.case_cong)
qed

lemma parse_sub_interiors_ok:
  assumes st0: "settled_upto 0 st0" and root: "rooted tr0 (pa_tree st0)"
  shows "succeeds (parse_sub_interiors st0) (\<lambda>st1. sound_tree (pa_tree st1) \<and> tr_source (pa_tree st1) = tr_source tr0 \<and>
    pa_cursor st1 = pa_cursor st0)"
proof -
  let ?st = "st0\<lparr>pa_tree := seal_top_level (pa_tree st0)\<rparr>"
  have s: "settled_upto 0 ?st" by (rule settled_same [OF st0]) (simp_all add: seal_top_level_def)
  have r: "rooted tr0 (pa_tree ?st)"
    by (rule rooted_extends [OF root]) (simp_all add: seal_top_level_def extends_def)
  show ?thesis
  proof (cases "tr_sub_parses (pa_tree ?st) = []")
    case True
    from r obtain root where "tr_root (pa_tree ?st) = Some root" "nd_kind (tr_nodes (pa_tree ?st) ! root) = Program"
      "tr_source (pa_tree ?st) = tr_source tr0"
      by (auto simp: rooted_def)
    with settled_sound [OF s _ this(1,2)] True show ?thesis by (simp add: parse_sub_interiors_def)
  next
    case False
    let ?st1 = "?st\<lparr>pa_aliases := None, pa_in_sub_parse := True, pa_stack := [], pa_pending := []\<rparr>"
    have "settled_upto 0 ?st1" by (rule settled_same [OF st0]) (simp_all add: seal_top_level_def)
    then have I: "(\<lambda>(k, s). settled_upto k s \<and> rooted tr0 (pa_tree s)) (0, ?st1)" using r by simp
    have "succeeds (loop interior_step (0, ?st1)) (\<lambda>s. sound_tree (pa_tree s) \<and> tr_source (pa_tree s) = tr_source tr0)"
    proof (rule succeeds_loop_wf [where I = "\<lambda>(k, s). settled_upto k s \<and> rooted tr0 (pa_tree s)"
          and R = "inv_image (mult less_than) to_parse", OF _ I])
      show "wf (inv_image (mult less_than) to_parse)" by (intro wf_inv_image wf_mult wf_less_than)
    next
      fix run assume I: "case run of (k, s) \<Rightarrow> settled_upto k s \<and> rooted tr0 (pa_tree s)"
      obtain k s where run: "run = (k, s)" by (cases run)
      have s: "settled_upto k s" "rooted tr0 (pa_tree s)" using I by (simp_all add: run)
      show "succeeds (interior_step run) (\<lambda>r. case r of
          Inl run1 \<Rightarrow> (case run1 of (k, s) \<Rightarrow> settled_upto k s \<and> rooted tr0 (pa_tree s)) \<and>
            (run1, run) \<in> inv_image (mult less_than) to_parse
        | Inr s1 \<Rightarrow> sound_tree (pa_tree s1) \<and> tr_source (pa_tree s1) = tr_source tr0)"
      proof (cases "length (tr_sub_parses (pa_tree s)) \<le> k")
        case True
        from s(2) obtain root where "tr_root (pa_tree s) = Some root" "nd_kind (tr_nodes (pa_tree s) ! root) = Program"
          "tr_source (pa_tree s) = tr_source tr0" by (auto simp: rooted_def)
        with settled_sound [OF s(1) True this(1,2)] True show ?thesis by (simp add: interior_step_def run)
      next
        case False
        from parse_interior_ok [OF s(1)] False obtain s1 where s1: "parse_interior k s = Some s1" "settled_upto (k + 1) s1"
          "extends (pa_tree s) (pa_tree s1)" "tr_root (pa_tree s1) = tr_root (pa_tree s)"
          "(to_parse (k + 1, s1), to_parse (k, s)) \<in> mult less_than" by (auto elim: succeedsE)
        with False rooted_extends [OF s(2) s1(3,4)] show ?thesis by (simp add: interior_step_def run)
      qed
    qed
    then obtain st1 where "loop interior_step (0, ?st1) = Some st1" "sound_tree (pa_tree st1)"
      "tr_source (pa_tree st1) = tr_source tr0" by (auto elim: succeedsE)
    then show ?thesis using False by (simp add: parse_sub_interiors_def)
  qed
qed

lemma new_parser_ok:
  assumes "start \<le> length source"
  shows "succeeds (new_parser source aliases start) (\<lambda>st. ok st \<and> cursor_kept st \<and> start \<le> pa_cursor st \<and>
    tr_source (pa_tree st) = source \<and> tr_nodes (pa_tree st) = [] \<and> tr_children (pa_tree st) = [] \<and>
    tr_sub_parses (pa_tree st) = [] \<and> tr_root (pa_tree st) = None \<and> pa_sub_depth st = 0)"
proof -
  let ?st = "\<lparr>pa_lexer = lexer_at source start, pa_tree = tree_init source, pa_scratch = [], pa_pending = [],
           pa_stack = [], pa_aliases = aliases, pa_plain_word = False, pa_index = 0, pa_cursor = start,
           pa_in_sub_parse = False, pa_sub_depth = 0\<rparr>"
  have "ready ?st" using assms
    by (simp add: ready_def lexer_ok_def lexer_at_def tree_init_def text_space_def tokens_placed_def)
  from fill_ok [OF this] show ?thesis unfolding new_parser_def
    by (rule succeeds_mono) (auto simp: drawn_ok_def drew_def ok_def tree_init_def extends_def lexer_at_def)
qed

text \<open>Both entry points: a body from a position on, then its interiors.\<close>

lemma parse_from_ok:
  assumes "start \<le> length source"
  shows "succeeds (do { st \<leftarrow> new_parser source aliases start; r \<leftarrow> parse_body one_command st;
      parse_sub_interiors (set_root r) })
    (\<lambda>st. sound_tree (pa_tree st) \<and> tr_source (pa_tree st) = source \<and>
      (pa_cursor st = length source \<or> start < pa_cursor st \<and> pa_cursor st \<le> length source))"
proof -
  from new_parser_ok [OF assms] obtain st where st: "new_parser source aliases start = Some st" "ok st" "cursor_kept st"
    "start \<le> pa_cursor st" "tr_source (pa_tree st) = source" "tr_nodes (pa_tree st) = []" "tr_children (pa_tree st) = []"
    "tr_sub_parses (pa_tree st) = []" "tr_root (pa_tree st) = None" "pa_sub_depth st = 0"
    by (fastforce elim: succeedsE)
  from parse_body_ok [OF st(2), of one_command] st(3) obtain root st1 c where
    st1: "parse_body one_command st = Some (root, st1\<lparr>pa_cursor := c\<rparr>)" and m: "made st (\<lambda>n. nd_kind n = Program) (root, st1)"
    and c: "c = length (tr_source (pa_tree st)) \<or> pa_cursor st < c \<and> c \<le> length (tr_source (pa_tree st))"
    by (auto elim: succeedsE)
  note k = made_keeps [OF m] and b = made_bounds [OF m]
  define st2 where "st2 = set_root (root, st1\<lparr>pa_cursor := c\<rparr>)"
  have st2: "st2 = st1\<lparr>pa_cursor := c, pa_tree := (pa_tree st1)\<lparr>tr_root := Some root\<rparr>\<rparr>" by (simp add: st2_def set_root_def)
  have r1: "ready st1" using made_ok [OF m] by (simp add: ok_def)
  have e: "extends (pa_tree st1) (pa_tree st2)" by (simp add: st2 extends_def)
  have src: "tr_source (pa_tree st1) = source" using k st(5) by (simp add: keeps_def extends_def)
  have sp: "text_space (pa_tree st2) = text_space (pa_tree st1)" "tokens_placed (pa_tree st2) = tokens_placed (pa_tree st1)"
    by (simp_all add: st2 text_space_def tokens_placed_def)
  have len: "length (tr_nodes (pa_tree st2)) = length (tr_nodes (pa_tree st1))" by (simp add: st2)
  have "\<forall>j < length (tr_nodes (pa_tree st2)). well_formed_node (pa_tree st2) j"
    unfolding len using well_formed_node_extends [OF e] r1 by (simp add: ready_def)
  then have "ready st2" using r1 sp by (simp add: ready_def) (simp add: st2)
  moreover have subs: "\<forall>s \<in> set (tr_sub_parses (pa_tree st1)). sub_root s = None \<and> interior_ok (pa_tree st2) s"
    using k st(5,8,10) by (auto simp: keeps_def finds_def interior_ok_def st2 src)
  moreover have "mset (tr_children (pa_tree st2)) + mset (tree_roots (pa_tree st2)) = mset [0..<length (tr_nodes (pa_tree st2))]"
  proof -
    have "List.map_filter sub_root (tr_sub_parses (pa_tree st1)) = []" using subs by (intro map_filter_none) simp
    then have "tree_roots (pa_tree st2) = [root]" by (simp add: tree_roots_def st2)
    then show ?thesis using made_grew [OF m] st(6,7) by (simp add: grew_def st2)
  qed
  ultimately have "settled_upto 0 st2" by (simp add: settled_upto_def) (simp add: st2)
  moreover have "rooted (pa_tree st1) (pa_tree st2)" using b by (simp add: rooted_def st2)
  ultimately have "succeeds (parse_sub_interiors st2) (\<lambda>st3. sound_tree (pa_tree st3) \<and>
      tr_source (pa_tree st3) = tr_source (pa_tree st1) \<and> pa_cursor st3 = pa_cursor st2)"
    by (rule parse_sub_interiors_ok)
  then obtain st3 where "parse_sub_interiors st2 = Some st3" "sound_tree (pa_tree st3)"
    "tr_source (pa_tree st3) = source" "pa_cursor st3 = c" by (auto simp: src st2 elim: succeedsE)
  then show ?thesis using st(1,4,5) st1 c by (simp add: st2_def)  auto
qed

lemma parse_ok: "succeeds (parse source aliases) (\<lambda>tr. sound_tree tr \<and> tr_source tr = source)"
proof -
  from parse_from_ok [of 0 source aliases False] obtain st r st1 where "new_parser source aliases 0 = Some st"
    "parse_body False st = Some r" "parse_sub_interiors (set_root r) = Some st1" "sound_tree (pa_tree st1)"
    "tr_source (pa_tree st1) = source"
    by (auto simp: succeeds_def bind_eq_Some_conv)
  then show ?thesis by (simp add: parse_def)
qed

lemma parse_next_command_ok:
  assumes "position \<le> length source"
  shows "succeeds (parse_next_command source position aliases) (\<lambda>(tr, p). sound_tree tr \<and> tr_source tr = source \<and>
    (p = length source \<or> position < p \<and> p \<le> length source))"
proof -
  from parse_from_ok [OF assms, of aliases True] obtain st r st1 where "new_parser source aliases position = Some st"
    "parse_body True st = Some r" "parse_sub_interiors (set_root r) = Some st1" "sound_tree (pa_tree st1)"
    "tr_source (pa_tree st1) = source" "pa_cursor st1 = length source \<or> position < pa_cursor st1 \<and> pa_cursor st1 \<le> length source"
    by (fastforce simp: succeeds_def bind_eq_Some_conv)
  then show ?thesis by (simp add: parse_next_command_def)
qed

end
