(* ===== verification/ParserProps.thy ===== *)
theory ParserProps
  imports ParserTotal
begin

text \<open>
  What the parser promises of every source and every alias table: it returns, and its tree is a tree, of the shape
  and between the words that \<^verbatim>\<open>src/syntax/ast.h\<close> describes.
\<close>

declare One_nat_def [simp del]

subsection \<open>Reading a parsed tree\<close>

definition children_before :: "tree \<Rightarrow> bool" where
  "children_before tr \<longleftrightarrow>
     list_all (\<lambda>i. list_all (\<lambda>c. c < i) (children_of tr (tr_nodes tr ! i))) [0..<length (tr_nodes tr)]"

text \<open>The whole tree below its roots: every node is the child of one node, or a root, and is so once.\<close>

definition is_forest :: "tree \<Rightarrow> bool" where
  "is_forest tr \<longleftrightarrow>
     children_before tr \<and> mset (tr_children tr) + mset (tree_roots tr) = mset [0..<length (tr_nodes tr)]"

definition every_node :: "(node \<Rightarrow> node list \<Rightarrow> bool) \<Rightarrow> tree \<Rightarrow> bool" where
  "every_node P tr \<longleftrightarrow> list_all (\<lambda>n. P n (children_nodes tr n)) (tr_nodes tr)"

lemma every_node_iff: "every_node P tr \<longleftrightarrow> (\<forall>i < length (tr_nodes tr). P (tr_nodes tr ! i) (children_nodes tr (tr_nodes tr ! i)))"
  by (simp add: every_node_def list_all_length)

lemma sound_tree_nodes: "sound_tree tr \<Longrightarrow> i < length (tr_nodes tr) \<Longrightarrow> well_formed_node tr i"
  by (simp add: sound_tree_def)

lemma sound_children:
  "sound_tree tr \<Longrightarrow> i < length (tr_nodes tr) \<Longrightarrow> c \<in> set (children_of tr (tr_nodes tr ! i)) \<Longrightarrow> c < i"
  by (auto dest!: sound_tree_nodes simp: well_formed_node_def Let_def)

lemma sound_root:
  assumes "sound_tree tr"
  obtains r where "tr_root tr = Some r" "r < length (tr_nodes tr)" "nd_kind (tr_nodes tr ! r) = Program"
proof -
  from assms obtain r where r: "tr_root tr = Some r" "nd_kind (tr_nodes tr ! r) = Program" by (auto simp: sound_tree_def)
  have "mset (tr_children tr) + mset (tree_roots tr) = mset [0..<length (tr_nodes tr)]"
    using assms by (simp add: sound_tree_def)
  moreover have "r \<in># mset (tree_roots tr)" by (simp add: tree_roots_def r)
  ultimately have "r \<in># mset [0..<length (tr_nodes tr)]" by (metis union_iff)
  with that r show thesis by simp
qed

text \<open>The search for the node at an offset goes down for as long as a child contains it.\<close>

lemma deepest_node_returns:
  assumes tr: "sound_tree tr"
  shows "n < length (tr_nodes tr) \<Longrightarrow> span_contains (span_of tr (tr_nodes tr ! n)) offset \<Longrightarrow>
    succeeds (deepest_node tr offset n) (\<lambda>m. m < length (tr_nodes tr) \<and>
      span_contains (span_of tr (tr_nodes tr ! m)) offset \<and> child_containing tr offset (tr_nodes tr ! m) = None)"
proof (induction n rule: less_induct)
  case (less n)
  show ?case
  proof (cases "child_containing tr offset (tr_nodes tr ! n)")
    case None
    then show ?thesis using less.prems by (subst deepest_node.simps) simp
  next
    case (Some c)
    then have c: "c \<in> set (children_of tr (tr_nodes tr ! n))" "span_contains (span_of tr (tr_nodes tr ! c)) offset"
      by (auto simp: child_containing_def find_Some_iff)
    have "c < n" by (rule sound_children [OF tr less.prems(1) c(1)])
    with less.IH [OF this] c(2) less.prems(1) Some show ?thesis by (subst deepest_node.simps) simp
  qed
qed

definition deepest_at :: "tree \<Rightarrow> nat \<Rightarrow> nat option \<Rightarrow> bool" where
  "deepest_at tr offset r =
     (case r of
        None \<Rightarrow> (case tr_root tr of None \<Rightarrow> False | Some root \<Rightarrow> \<not> span_contains (span_of tr (tr_nodes tr ! root)) offset)
      | Some n \<Rightarrow> n < length (tr_nodes tr) \<and> span_contains (span_of tr (tr_nodes tr ! n)) offset \<and>
          list_all (\<lambda>c. \<not> span_contains (span_of tr (tr_nodes tr ! c)) offset) (children_of tr (tr_nodes tr ! n)))"

lemma node_at_ok: "sound_tree tr \<Longrightarrow> succeeds (node_at tr offset) (deepest_at tr offset)"
proof -
  assume tr: "sound_tree tr"
  then obtain r where r: "tr_root tr = Some r" "r < length (tr_nodes tr)" by (rule sound_root)
  then have "tr_nodes tr \<noteq> []" by auto
  with r deepest_node_returns [OF tr r(2), of offset] show ?thesis
    by (auto simp: node_at_def deepest_at_def succeeds_def child_containing_def find_None_iff list_all_iff)
qed

lemma sound_is_forest: "sound_tree tr \<Longrightarrow> is_forest tr"
  using sound_children [of tr] by (simp add: is_forest_def children_before_def list_all_iff) (simp add: sound_tree_def)

lemma sound_every_node:
  assumes "sound_tree tr"
  shows "every_node (\<lambda>n ns. well_shaped (nd_kind n) (nd_error n = No_defect) (nd_aux n) ns) tr"
    "every_node (\<lambda>n ns. nd_first n \<le> nd_last n \<and> nd_last n < length (tr_tokens tr) \<and> well_delimited tr n ns) tr"
  using sound_tree_nodes [OF assms] by (simp_all add: every_node_iff well_formed_node_def Let_def)

lemma parse_sound: "\<exists>tr. parse source aliases = Some tr \<and> sound_tree tr"
  using parse_ok [of source aliases] by (auto simp: succeeds_def)

subsection \<open>The promises\<close>

text \<open>C34: \<open>parse\<close> returns on every source and with every alias table, a cyclic one included, and its tree keeps
  the source it was given: the run that never ends is not one of them.\<close>

theorem parse_returns: "\<exists>tr. parse source aliases = Some tr \<and> tr_source tr = source"
  using parse_ok [of source aliases] by (auto simp: succeeds_def)

text \<open>C35: The nodes of a parse form a tree: a child always comes before its parent, and every node is the child of
  exactly one node or the root of the program or of one interior, and that exactly once; no node is lost and none
  is shared.\<close>

theorem parse_is_forest: "\<exists>tr. parse source aliases = Some tr \<and> is_forest tr"
  using parse_sound sound_is_forest by blast


text \<open>C37: A construct begins with the word or the token it is named after and spans only tokens there are; a node
  whose closing word, parenthesis or pattern end is missing always carries a defect, so a compound command without
  one is closed by the word its opening calls for.\<close>

theorem parse_accepts_only_closed:
  "\<exists>tr. parse source aliases = Some tr \<and>
     every_node (\<lambda>n ns. nd_first n \<le> nd_last n \<and> nd_last n < length (tr_tokens tr) \<and> well_delimited tr n ns) tr"
  using parse_sound sound_every_node(2) by blast


text \<open>C39: Reading one command from a position before the end of the script returns, and the position it hands back
  is further on and at most the end: a caller that reads command after command comes to the end.\<close>

theorem parse_next_command_moves:
  assumes "position < length source"
  shows "\<exists>tr position1. parse_next_command source position aliases = Some (tr, position1) \<and> sound_tree tr \<and>
    position < position1 \<and> position1 \<le> length source"
proof -
  have "position \<le> length source" using assms by simp
  from parse_next_command_ok [OF this, of aliases] obtain tr p where "parse_next_command source position aliases = Some (tr, p)"
    "sound_tree tr" "p = length source \<or> position < p \<and> p \<le> length source" by (auto simp: succeeds_def)
  with assms show ?thesis by auto
qed

theorem parse_next_command_moves_witness:
  "\<exists>tr position1. parse_next_command ''ls; cat'' (3::nat) (Some [(''cat'', ''cat -n '')]) = Some (tr, position1) \<and>
    sound_tree tr \<and> 3 < position1 \<and> position1 \<le> 7"
  using parse_next_command_moves [of 3 "''ls; cat''" "Some [(''cat'', ''cat -n '')]"] by (simp add: numeral_eq_Suc)

text \<open>C40: Looking up an offset in a parsed tree returns: a node whose span contains the offset and none of whose
  children contains it, or nothing when the offset is outside the program.\<close>

theorem node_at_finds_deepest:
  "\<exists>tr r. parse source aliases = Some tr \<and> node_at tr offset = Some r \<and> deepest_at tr offset r"
  using parse_sound [of source aliases] node_at_ok by (metis succeedsE)

end
