(* ===== verification/Reinput.thy ===== *)
theory Reinput
  imports ExpanderWords
begin

text \<open>
  What \<open>export\<close>, \<open>readonly\<close>, \<open>alias\<close> and \<open>trap\<close> print (\<open>src/runtime/builtins.cpp\<close>) is meant to be
  read back.  The lexer takes a printed value as one word, and expanding that word gives the bytes
  that were printed.
\<close>

subsection \<open>What is printed\<close>

definition print_single_quoted :: "string \<Rightarrow> string" where
  "print_single_quoted s =
     single_quote # concat (map (\<lambda>c. if c = single_quote then [single_quote, backslash, single_quote, single_quote] else [c]) s)
       @ [single_quote]"

definition print_declaration :: "string \<Rightarrow> variable_row \<Rightarrow> string" where
  "print_declaration keyword row =
     keyword @ '' '' @ vr_name row @ (if vr_assigned row then ''='' @ print_single_quoted (vr_value row) else []) @ [newline]"

definition print_alias :: "string \<Rightarrow> string \<Rightarrow> string" where
  "print_alias name aliased = name @ ''='' @ print_single_quoted aliased @ [newline]"

subsection \<open>Its segments\<close>

lemma print_single_quoted_simps:
  "print_single_quoted [] = [single_quote, single_quote]"
  "c \<noteq> single_quote \<Longrightarrow> print_single_quoted (c # s) = single_quote # c # tl (print_single_quoted s)"
  "print_single_quoted (single_quote # s) = [single_quote, single_quote, backslash, single_quote] @ print_single_quoted s"
  by (simp_all add: print_single_quoted_def)

lemma print_run:
  assumes "single_quote \<notin> set a"
  shows "print_single_quoted (a @ s) = single_quote # a @ tl (print_single_quoted s)"
  using assms
proof (induction a)
  case Nil
  then show ?case by (simp add: print_single_quoted_def)
next
  case (Cons c a)
  then show ?case by (auto simp: print_single_quoted_def)
qed

text \<open>The runs between quotes, each a single-quoted segment, with an escaped quote between two of them.\<close>

function quoted_segments :: "string \<Rightarrow> (token_kind \<times> token_error \<times> string) list" where
  "quoted_segments s =
     (Seg_single_quoted, No_error, single_quote # takeWhile (\<lambda>c. c \<noteq> single_quote) s @ [single_quote]) #
     (case dropWhile (\<lambda>c. c \<noteq> single_quote) s of [] \<Rightarrow> []
      | q # rest \<Rightarrow> (Seg_literal, No_error, [backslash, single_quote]) # quoted_segments rest)"
  by pat_completeness auto

termination
proof (relation "measure length", goal_cases)
  case (2 s q rest)
  then have "length (q # rest) \<le> length s" by (metis length_dropWhile_le)
  then show ?case by simp
qed simp

declare quoted_segments.simps [simp del]

lemma dropWhile_stops: "dropWhile (\<lambda>c. c \<noteq> x) v = q # rest \<Longrightarrow> q = x"
  by (induction v) (auto split: if_splits)

lemma run_and_rest: "dropWhile (\<lambda>c. c \<noteq> x) v = q # rest \<Longrightarrow> v = takeWhile (\<lambda>c. c \<noteq> x) v @ [x] @ rest"
  by (induction v) (auto split: if_splits)

lemma quoted_segments_cases:
  "dropWhile (\<lambda>c. c \<noteq> single_quote) v = [] \<Longrightarrow>
     quoted_segments v = [(Seg_single_quoted, No_error, single_quote # takeWhile (\<lambda>c. c \<noteq> single_quote) v @ [single_quote])]"
  "dropWhile (\<lambda>c. c \<noteq> single_quote) v = q # rest \<Longrightarrow>
     quoted_segments v = (Seg_single_quoted, No_error, single_quote # takeWhile (\<lambda>c. c \<noteq> single_quote) v @ [single_quote]) #
       (Seg_literal, No_error, [backslash, single_quote]) # quoted_segments rest"
  by (subst quoted_segments.simps, simp del: dropWhile_eq_Nil_conv)+

lemma seek_run:
  assumes "drop p s = a @ q # rest" "list_all (\<lambda>c. \<not> stops c) a" "stops q"
  shows "seek s stops p = p + length a"
  using assms by (simp add: seek_def takeWhile_append2 list_all_iff)

lemma drop_run:
  assumes "drop p s = a @ rest" "p \<le> length s"
  shows "drop (p + length a) s = rest" "p + length a \<le> length s" "substr s p (length a) = a"
proof -
  show "drop (p + length a) s = rest" using assms(1) by (metis append_eq_conv_conj drop_drop add.commute)
  have "length (drop p s) = length a + length rest" using assms(1) by simp
  then show "p + length a \<le> length s" using assms(2) by simp
  show "substr s p (length a) = a" using assms(1) by (simp add: substr_def)
qed

lemma single_quoted_segment:
  assumes "drop p s = single_quote # a @ single_quote # rest" "single_quote \<notin> set a" "\<not> quotes_are_bytes mode"
  shows "lex_word_segment s mode p = whole Seg_single_quoted (p + length a + 2)"
proof -
  note d = drop_Cons_at [OF assms(1)]
  have e: "drop (p + 1) s = a @ single_quote # rest" using d(3) .
  have "seek s (\<lambda>b. b = single_quote) (p + 1) = p + 1 + length a"
    by (rule seek_run [OF e]) (use assms(2) in \<open>auto simp: list_all_iff\<close>)
  moreover have "p + 1 + length a < length s"
  proof -
    have "length (drop p s) = length a + length rest + 2" using assms(1) by simp
    then show ?thesis by simp
  qed
  ultimately show ?thesis using d(2) assms(3)
    by (simp add: lex_word_segment_def segment_or_def quote_closed_def past_closer_def)
qed

lemma escaped_quote_segment:
  assumes "drop p s = backslash # single_quote # single_quote # rest" "\<not> quotes_are_bytes mode"
  shows "lex_word_segment s mode p = whole Seg_literal (p + 2)"
proof -
  note d = drop_Cons_at [OF assms(1)]
  note d1 = drop_Cons_at [OF d(3)]
  have d2: "p + 2 < length s" "s ! (p + 2) = single_quote" using drop_Cons_at [OF d1(3)] by (simp_all add: add.assoc)
  have "literal_end s mode p (p + 2) = p + 2"
    using d2 assms(2) by (subst literal_end.simps) simp
  then have "literal_end s mode p p = p + 2"
    using d d1 by (subst literal_end.simps) simp
  then show ?thesis using d by (simp add: lex_word_segment_def tilde_eligible_def)
qed

lemma printed_segments_from:
  assumes "drop p s = print_single_quoted v" "interior mode" "\<not> quotes_are_bytes mode"
  shows "segments_from mode s p = quoted_segments v"
  using assms(1)
proof (induction v arbitrary: p rule: quoted_segments.induct)
  case (1 v)
  let ?a = "takeWhile (\<lambda>c. c \<noteq> single_quote) v"
  have v: "v = ?a @ dropWhile (\<lambda>c. c \<noteq> single_quote) v" by simp
  have a: "single_quote \<notin> set ?a" by (auto dest: set_takeWhileD)
  have d: "drop p s = single_quote # ?a @ tl (print_single_quoted (dropWhile (\<lambda>c. c \<noteq> single_quote) v))"
    using 1(2) print_run [OF a, of "dropWhile (\<lambda>c. c \<noteq> single_quote) v"] by simp
  show ?case
  proof (cases "dropWhile (\<lambda>c. c \<noteq> single_quote) v")
    case Nil
    have d: "drop p s = (single_quote # ?a @ [single_quote]) @ []" using d by (simp only: Nil print_single_quoted_simps) simp
    have p: "p < length s" by (rule drop_Cons_at(1)) (use d in simp)
    note r = drop_run [OF d order.strict_implies_order [OF p]]
    have seg: "lex_word_segment s mode p = whole Seg_single_quoted (p + length ?a + 2)"
      by (rule single_quoted_segment [OF _ a assms(3)]) (use d in simp)
    have stop: "p + length ?a + 2 = length s" "length s - p = length ?a + 2" using r(1,2) by simp_all
    have "substr s p (length ?a + 2) = single_quote # ?a @ [single_quote]" using r(3) by simp
    then have "segments_from mode s p = [(Seg_single_quoted, No_error, single_quote # ?a @ [single_quote])]"
      using segments_from_step [OF assms(2) p] segments_from_end [OF assms(2), of s] seg stop
      by (simp only: whole_fields)
    then show ?thesis by (simp only: quoted_segments_cases(1) [OF Nil])
  next
    case (Cons q rest)
    then have q: "q = single_quote" by (rule dropWhile_stops)
    have d: "drop p s = (single_quote # ?a @ [single_quote]) @ backslash # single_quote # print_single_quoted rest"
      using d by (simp only: Cons q print_single_quoted_simps) simp
    have p: "p < length s" by (rule drop_Cons_at(1)) (use d in simp)
    note r = drop_run [OF d order.strict_implies_order [OF p]]
    let ?p1 = "p + length ?a + 2"
    have seg: "lex_word_segment s mode p = whole Seg_single_quoted ?p1"
      by (rule single_quoted_segment [OF _ a assms(3)]) (use d in simp)
    have d1: "drop ?p1 s = backslash # single_quote # print_single_quoted rest" using r(1) by (simp add: add.assoc)
    have "drop ?p1 s = backslash # single_quote # single_quote # tl (print_single_quoted rest)"
      using d1 by (simp add: print_single_quoted_def)
    from escaped_quote_segment [OF this assms(3)] have seg1: "lex_word_segment s mode ?p1 = whole Seg_literal (?p1 + 2)" .
    note n1 = drop_Cons_at [OF d1]
    have d2: "drop (?p1 + 2) s = print_single_quoted rest" using drop_Cons_at(3) [OF n1(3)] by (simp add: add.assoc)
    have two: "substr s ?p1 2 = [backslash, single_quote]" using d1 by (simp add: substr_def numeral_2_eq_2)
    have "?p1 + 2 - ?p1 = 2" "?p1 - p = length ?a + 2" by simp_all
    moreover have "substr s p (length ?a + 2) = single_quote # ?a @ [single_quote]" using r(3) by simp
    ultimately have "segments_from mode s p = (Seg_single_quoted, No_error, single_quote # ?a @ [single_quote]) #
        (Seg_literal, No_error, [backslash, single_quote]) # quoted_segments rest"
      using segments_from_step [OF assms(2) p] segments_from_step [OF assms(2) n1(1)] seg seg1 two 1(1) [OF Cons d2]
      by (simp only: whole_fields)
    then show ?thesis by (simp only: quoted_segments_cases(2) [OF Cons])
  qed
qed

subsection \<open>Its expansion\<close>

lemma quoted_segments_expand:
  assumes "\<not> ec_pattern ctx" "\<not> ec_double_quoted ctx"
  shows "\<exists>st1. expand_segments x rec ctx (quoted_segments v) status st = (status, st1) \<and> adds v st st1 \<and> es_started st1"
proof (induction v arbitrary: st rule: quoted_segments.induct)
  case (1 v)
  let ?a = "takeWhile (\<lambda>c. c \<noteq> single_quote) v"
  define s1 where "s1 = (append_quoted ?a ctx st)\<lparr>es_started := True\<rparr>\<lparr>es_saw_other := True\<rparr>"
  have seg: "expand_segment x rec ctx Seg_single_quoted (single_quote # ?a @ [single_quote]) st =
      (Exp_ok, True, (append_quoted ?a ctx st)\<lparr>es_started := True\<rparr>)"
    by (simp add: expand_segment_def expand_single_quoted_def substr_def One_nat_def)
  have first: "adds ?a st s1" "es_started s1"
    using adds_started [OF append_quoted_adds [OF assms(1)]] by (simp_all add: s1_def)
  show ?case
  proof (cases "dropWhile (\<lambda>c. c \<noteq> single_quote) v")
    case Nil
    then have "?a = v" by (metis append_Nil2 takeWhile_dropWhile_id)
    then have "adds v st s1" using first(1) by metis
    moreover have "expand_segments x rec ctx (quoted_segments v) status st = (status, s1)"
      unfolding quoted_segments_cases(1) [OF Nil] by (simp add: seg is_unterminated_substitution_def s1_def)
    ultimately show ?thesis using first(2) by metis
  next
    case (Cons q rest)
    then have q: "q = single_quote" by (rule dropWhile_stops)
    define s2 where "s2 = (append_quoted [single_quote] ctx s1)\<lparr>es_saw_other := True\<rparr>"
    have lit: "expand_segment x rec ctx Seg_literal [backslash, single_quote] s1 = (Exp_ok, True, append_quoted [single_quote] ctx s1)"
      using assms(2) by (simp add: expand_segment_def expand_literal_def globbable_if_def escapes_def)
    have second: "adds [single_quote] s1 s2" using append_quoted_adds [OF assms(1)] by (simp add: s2_def)
    obtain st1 where st1: "expand_segments x rec ctx (quoted_segments rest) status s2 = (status, st1)" "adds rest s2 st1" "es_started st1"
      using 1 [OF Cons, of s2] by blast
    have "v = ?a @ [single_quote] @ rest" by (rule run_and_rest [OF Cons])
    moreover have "adds (?a @ [single_quote] @ rest) st st1" by (rule adds_trans [OF first(1) adds_trans [OF second st1(2)]])
    moreover have "expand_segments x rec ctx (quoted_segments v) status st = (status, st1)"
      using seg lit st1(1)
      by (simp add: quoted_segments_cases(2) [OF Cons] is_unterminated_substitution_def s1_def [symmetric] s2_def [symmetric])
    ultimately show ?thesis using st1(3) by metis
  qed
qed

subsection \<open>Its word\<close>

lemma word_run:
  assumes "drop p s = a @ single_quote # rest" "single_quote \<notin> set a" "0 < p" "s ! (p - 1) = single_quote"
  shows "word_loop s True (p - 1) literal = word_loop s True (p + length a + 1) False"
proof -
  have "length (drop p s) = length a + length rest + 1" using assms(1) by simp
  then have len: "p + length a < length s" by simp
  have "seek s (\<lambda>b. b = single_quote) p = p + length a"
    by (rule seek_run [OF assms(1)]) (use assms(2) in \<open>auto simp: list_all_iff\<close>)
  then have "word_step_at s True (p - 1) = Word_goes (p + length a + 1) False"
    using assms(3,4) len by (simp add: word_step_at_def closed_or_def quote_closed_def past_closer_def)
  then show ?thesis using len assms(3) by (subst word_loop.simps) simp
qed

lemma printed_word:
  assumes "drop p s = print_single_quoted v @ rest" "rest = [] \<or> is_word_terminator (hd rest) \<and> hd rest \<noteq> single_quote"
  shows "ld_kind (word_loop s True p literal) = T_word \<and> ld_end (word_loop s True p literal) = p + length (print_single_quoted v) \<and>
    ld_error (word_loop s True p literal) = No_error"
  using assms(1)
proof (induction v arbitrary: p literal rule: quoted_segments.induct)
  case (1 v)
  let ?a = "takeWhile (\<lambda>c. c \<noteq> single_quote) v" and ?b = "dropWhile (\<lambda>c. c \<noteq> single_quote) v"
  have a: "single_quote \<notin> set ?a" by (auto dest: set_takeWhileD)
  have pr: "print_single_quoted v = single_quote # ?a @ tl (print_single_quoted ?b)"
    using print_run [OF a, of ?b] by simp
  show ?case
  proof (cases ?b)
    case Nil
    have d: "drop p s = single_quote # ?a @ single_quote # rest" using 1(2) pr by (simp add: Nil print_single_quoted_simps)
    note n = drop_Cons_at [OF d]
    have loop: "word_loop s True p literal = word_loop s True (p + length ?a + 2) False"
      using word_run [OF n(3) a, of literal] n(2) by (simp add: add.assoc)
    have e: "drop (p + length ?a + 2) s = rest"
      using drop_run(1) [of p s "single_quote # ?a @ [single_quote]" rest] d n(1) by (simp add: add.assoc)
    have "word_loop s True (p + length ?a + 2) False = whole T_word (p + length ?a + 2)"
    proof (cases rest)
      case Nil
      then have "length s \<le> p + length ?a + 2" using e by simp
      then show ?thesis by (subst word_loop.simps) (simp add: whole_def)
    next
      case (Cons c cs)
      note f = drop_Cons_at [OF e [unfolded Cons]]
      have "is_word_terminator c" using assms(2) Cons by simp
      then have "word_step_at s True (p + length ?a + 2) = Word_stops"
        using f by (auto simp: word_step_at_def is_word_terminator_def)
      then show ?thesis using f(1) by (subst word_loop.simps) (simp add: whole_def)
    qed
    then show ?thesis using loop pr by (simp add: Nil print_single_quoted_simps)
  next
    case (Cons q r)
    then have q: "q = single_quote" by (rule dropWhile_stops)
    have d: "drop p s = single_quote # ?a @ single_quote # backslash # single_quote # print_single_quoted r @ rest"
      using 1(2) pr by (simp add: Cons q print_single_quoted_simps)
    note n = drop_Cons_at [OF d]
    let ?p1 = "p + length ?a + 2"
    have loop: "word_loop s True p literal = word_loop s True ?p1 False"
      using word_run [OF n(3) a, of literal] n(2) by (simp add: add.assoc)
    have e: "drop ?p1 s = backslash # single_quote # print_single_quoted r @ rest"
      using drop_run(1) [of p s "single_quote # ?a @ [single_quote]" "backslash # single_quote # print_single_quoted r @ rest"] d n(1)
      by (simp add: add.assoc)
    note f = drop_Cons_at [OF e]
    note g = drop_Cons_at [OF f(3)]
    have "word_step_at s True ?p1 = Word_goes (?p1 + 2) False"
      using f(1,2) g(1,2) by (simp add: word_step_at_def char_at_def)
    then have step: "word_loop s True ?p1 False = word_loop s True (?p1 + 2) False"
      using f(1) by (subst word_loop.simps) simp
    have e2: "drop (?p1 + 2) s = print_single_quoted r @ rest" using g(3) by (simp add: add.assoc)
    show ?thesis using 1(1) [OF Cons e2, of False] loop step pr
      by (simp add: Cons q print_single_quoted_simps print_single_quoted_def)
  qed
qed

subsection \<open>Reading it back\<close>

lemma printed_text:
  assumes "mode = Word_interior \<or> mode = Assignment_interior" "ec_mode ctx = mode" "\<not> ec_pattern ctx" "\<not> ec_double_quoted ctx"
  shows "\<exists>st1. expand_text x (Suc n) ctx (print_single_quoted v) st = (Exp_ok, st1) \<and> adds v st st1 \<and> es_started st1"
proof -
  have "segments_of mode (print_single_quoted v) = quoted_segments v"
    unfolding segments_of_from by (rule printed_segments_from) (use assms(1) in \<open>auto simp: interior_def quotes_are_bytes_def\<close>)
  then show ?thesis using quoted_segments_expand [OF assms(3,4)] assms(2) by simp
qed

lemma printed_value:
  "\<exists>st1. expand_value x In_assignment (print_single_quoted v) st = (v, st1) \<and> es_host st1 = es_host st"
proof -
  define ctx where "ctx = (value_ctx In_assignment)\<lparr>ec_split := False, ec_fields := False\<rparr>"
  have "ec_mode ctx = Assignment_interior" "\<not> ec_pattern ctx" "\<not> ec_double_quoted ctx"
    by (simp_all add: ctx_def value_ctx_def expand_context_init_def)
  from printed_text [OF _ this, of x 255 v "value_start st"] obtain st1 where
    "expand_text x kMaxExpansionDepth ctx (print_single_quoted v) (value_start st) = (Exp_ok, st1)" "adds v (value_start st) st1"
    by (auto simp: kMaxExpansionDepth_def)
  then show ?thesis
    by (auto simp: expand_value_def expand_to_value_def ctx_def [symmetric] adds_def value_start_def put_back_def)
qed

text \<open>A printed value reads back as its bytes.  Whatever a value holds, quotes, blanks, patterns or dollars, the
  form \<open>trap\<close>, \<open>alias\<close> and \<open>export\<close> print it in expands to exactly that one field in any role but a \<open>case\<close> pattern,
  and the shell's state is left alone.\<close>

theorem printed_values_read_back:
  assumes "role \<noteq> Role_pattern" "expand_word x role False (print_single_quoted v) st = (status, st1)"
  shows "status = Exp_ok \<and> es_host st1 = es_host st \<and> es_out st1 = es_out st @ [v]"
proof -
  define b where "b = (xp_glob_enabled x \<and> \<not> one_value_role role)"
  have "ec_mode (word_ctx role) = Word_interior" "\<not> ec_pattern (word_ctx role)" "\<not> ec_double_quoted (word_ctx role)"
    using assms(1) by (auto simp: word_ctx_def expand_context_init_def)
  from printed_text [OF _ this, of x 255 v "word_start b st"] obtain s2 where
    "expand_text x kMaxExpansionDepth (word_ctx role) (print_single_quoted v) (word_start b st) = (Exp_ok, s2)"
    "adds v (word_start b st) s2" "es_started s2"
    by (auto simp: kMaxExpansionDepth_def)
  from one_field_word [OF this(1) b_def this(2,3) assms(2)] show ?thesis .
qed

text \<open>The words of a line.\<close>

definition words_from :: "string \<Rightarrow> nat \<Rightarrow> string list" where
  "words_from s p = map (token_text s) (lex_all Command (lexer_at s p))"

lemma words_from_step:
  assumes "p = Lexer.skip_blanks s p0" "p0 \<le> length s" "p < length s" "lex_outside_word s Command p = d"
  shows "words_from s p0 = substr s p (ld_end d - p) # words_from s (ld_end d)"
proof -
  have n: "next_token Command (lexer_at s p0) =
      ((token_of p d)\<lparr>tk_preceded_by_blank := (p \<noteq> p0)\<rparr>, (lexer_at s (ld_end d))\<lparr>lx_incomplete := ld_incomplete d\<rparr>)"
    using assms by (simp add: next_token_def lexer_at_def lexed_token_def interior_def)
  have "ld_kind d \<noteq> T_end" using outside_word_kind [of p s Command] assms(3,4) by simp
  then have "lex_all Command (lexer_at s p0) =
      (token_of p d)\<lparr>tk_preceded_by_blank := (p \<noteq> p0)\<rparr> # lex_all Command (lexer_at s (ld_end d))"
    using assms(2) by (subst lex_all.simps) (simp add: n lex_all_incomplete, simp add: lexer_at_def token_of_def)
  then show ?thesis by (simp add: words_from_def token_of_def token_text_def)
qed

definition word_byte :: "char \<Rightarrow> bool" where
  "word_byte c \<longleftrightarrow> c \<notin> {single_quote, double_quote, backslash, CHR ''$'', backquote} \<and> \<not> is_word_terminator c"

lemma word_plain_run:
  assumes "drop p s = a @ rest" "list_all word_byte a" "p \<le> length s"
  shows "\<exists>l. word_loop s True p literal = word_loop s True (p + length a) l"
  using assms
proof (induction a arbitrary: p literal)
  case (Cons c a)
  note d = drop_Cons_at [of p s c "a @ rest"]
  have "word_step_at s True p = Word_goes (p + 1) (\<not> needs_expansion c)"
    using Cons.prems d by (simp add: word_step_at_def word_byte_def)
  then have "word_loop s True p literal = word_loop s True (p + 1) (literal \<and> \<not> needs_expansion c)"
    using Cons.prems d by (subst word_loop.simps) simp
  moreover obtain l where "word_loop s True (p + 1) (literal \<and> \<not> needs_expansion c) = word_loop s True (p + 1 + length a) l"
    using Cons.IH [of "p + 1"] Cons.prems d by auto
  ultimately show ?case by auto
qed auto

lemma word_outside:
  assumes "drop p s = c # rest" "word_byte c" "c \<noteq> CHR ''#''" "\<not> is_digit_char c"
  shows "lex_outside_word s Command p = word_loop s True p True"
proof -
  have "c \<noteq> newline" using assms(2) by (auto simp: word_byte_def is_word_terminator_def)
  then show ?thesis using assms drop_Cons_at [OF assms(1)] by (simp add: lex_outside_word_def lex_word_def word_byte_def)
qed

lemma skip_blanks_none:
  assumes "drop p s = c # rest" "\<not> is_blank_char c" "c \<noteq> backslash"
  shows "Lexer.skip_blanks s p = p"
  using assms drop_Cons_at [OF assms(1)] by (subst Lexer.skip_blanks.simps) (simp add: seek_def past_continuations_none)

lemma skip_blanks_one:
  assumes "drop p s = CHR '' '' # c # rest" "\<not> is_blank_char c" "c \<noteq> backslash"
  shows "Lexer.skip_blanks s p = p + 1"
  using assms drop_Cons_at [OF assms(1)] drop_Cons_at [of "p + 1" s c rest]
  by (subst Lexer.skip_blanks.simps) (simp add: seek_def past_continuations_none is_blank_char_def)

lemma name_byte_is_word_byte: "is_valid_var_name_non_first_char c \<Longrightarrow> word_byte c \<and> c \<noteq> CHR ''#'' \<and> \<not> is_blank_char c \<and> c \<noteq> CHR ''=''"
  by (auto simp: is_valid_var_name_non_first_char_def word_byte_def is_word_terminator_def is_blank_char_def)

lemma word_stop:
  assumes "drop p s = c # rest" "is_word_terminator c"
  shows "word_loop s True p literal = (whole T_word p)\<lparr>ld_literal := literal\<rparr>"
proof -
  have "word_step_at s True p = Word_stops"
    using assms drop_Cons_at [OF assms(1)] by (auto simp: word_step_at_def is_word_terminator_def)
  then show ?thesis using drop_Cons_at(1) [OF assms(1)] by (subst word_loop.simps) simp
qed

lemma words_from_word:
  assumes "drop p s = w @ rest" "w = c # w1" "word_byte c" "c \<noteq> CHR ''#''" "\<not> is_digit_char c" "\<not> is_blank_char c"
    "p0 = p \<or> drop p0 s = CHR '' '' # w @ rest \<and> p = p0 + 1" "p \<le> length s" "ld_end (word_loop s True p True) = p + length w"
  shows "words_from s p0 = w # words_from s (p + length w)"
proof -
  have d: "drop p s = c # w1 @ rest" using assms(1,2) by simp
  have c: "c \<noteq> backslash" using assms(3) by (simp add: word_byte_def)
  have skip: "p = Lexer.skip_blanks s p0"
    using assms(7) skip_blanks_none [OF d assms(6) c] skip_blanks_one [of p0 s c "w1 @ rest"] assms(2,6) c by auto
  have p0: "p0 \<le> length s" using assms(7,8) by auto
  have "words_from s p0 = substr s p (ld_end (word_loop s True p True) - p) # words_from s (ld_end (word_loop s True p True))"
    by (rule words_from_step [OF skip p0 drop_Cons_at(1) [OF d] word_outside [OF d assms(3,4,5)]])
  then show ?thesis using assms(9) drop_run(3) [OF assms(1,8)] by simp
qed

lemma words_from_newline:
  assumes "drop p s = [newline]" "p \<le> length s"
  shows "words_from s p = [[newline]]"
proof -
  note n = drop_Cons_at [OF assms(1)]
  have skip: "p = Lexer.skip_blanks s p" using skip_blanks_none [OF assms(1)] by (simp add: is_blank_char_def)
  have d: "lex_outside_word s Command p = whole T_newline (p + 1)" using n(2) by (simp add: lex_outside_word_def)
  have e: "p + 1 = length s" using n(1,3) by simp
  have "words_from s (length s) = []"
  proof -
    have skip_ok: "length s \<le> Lexer.skip_blanks s (length s)" using skip_blanks_bounds [of "length s" s] by simp
    show ?thesis unfolding words_from_def
      by (subst lex_all.simps) (use skip_ok in \<open>simp add: next_token_def interior_def lexer_at_def lexed_token_def token_of_def\<close>)
  qed
  moreover have "substr s p 1 = [newline]" using assms(1) by (simp add: substr_def One_nat_def)
  ultimately show ?thesis using words_from_step [OF skip assms(2) n(1) d] e by simp
qed

lemma word_byte_run_ends:
  assumes "drop p s = a @ c # rest" "list_all word_byte a" "is_word_terminator c" "p \<le> length s"
  shows "ld_end (word_loop s True p True) = p + length a"
proof -
  obtain l where "word_loop s True p True = word_loop s True (p + length a) l"
    using word_plain_run [OF assms(1,2,4)] by blast
  moreover have "drop (p + length a) s = c # rest" by (rule drop_run(1) [OF assms(1,4)])
  ultimately show ?thesis using word_stop [OF _ assms(3)] by simp
qed

text \<open>C28: what \<open>export -p\<close> and \<open>readonly -p\<close> print restores the variable.  The printed line of a variable that has a
  value lexes as the utility's name, one operand and a newline; after that name the operand counts as an assignment
  to the variable; and expanding the text after its equals sign the way an assignment's is gives the value back.\<close>

theorem declarations_read_back:
  assumes "keyword = ''export'' \<or> keyword = ''readonly''" "var_name (vr_name row)" "vr_assigned row"
  shows "\<exists>operand. words_from (print_declaration keyword row) 0 = [keyword, operand, [newline]] \<and>
    operand_is_assignment (note_expanded_word keyword declaration_scan_init) operand \<and>
    takeWhile (\<lambda>c. c \<noteq> CHR ''='') operand = vr_name row \<and>
    fst (expand_value x In_assignment (tl (dropWhile (\<lambda>c. c \<noteq> CHR ''='') operand)) st) = vr_value row"
proof -
  let ?n = "vr_name row" and ?q = "print_single_quoted (vr_value row)" and ?s = "print_declaration keyword row"
  let ?k = "length keyword"
  define operand where "operand = ?n @ ''='' @ ?q"
  obtain c m where n: "?n = c # m" using assms(2) by (cases ?n) (auto simp: is_assignable_name_def)
  have bytes: "list_all is_valid_var_name_non_first_char ?n" using name_bytes [OF assms(2)] by (auto simp: list_all_iff)
  then have c: "word_byte c" "c \<noteq> CHR ''#''" "\<not> is_blank_char c" using name_byte_is_word_byte by (simp_all add: n)
  have digit: "\<not> is_digit_char c" using assms(2) name_first_facts(1) by (simp add: n is_assignable_name_def)
  have s: "?s = keyword @ CHR '' '' # operand @ [newline]" using assms(3) by (simp add: print_declaration_def operand_def)
  have len: "length ?s = ?k + 1 + length operand + 1" by (simp add: s)
  have first: "words_from ?s 0 = keyword # words_from ?s ?k"
  proof -
    have "ld_end (word_loop ?s True 0 True) = 0 + ?k"
      by (rule word_byte_run_ends [of _ _ _ "CHR '' ''" "operand @ [newline]"])
        (use assms(1) in \<open>auto simp: s word_byte_def is_word_terminator_def\<close>)
    then show ?thesis
      using words_from_word [of 0 ?s keyword "CHR '' '' # operand @ [newline]" "hd keyword" "tl keyword" 0] assms(1)
      by (auto simp: s word_byte_def is_word_terminator_def is_digit_char_def is_blank_char_def)
  qed
  have at_operand: "drop (?k + 1) ?s = operand @ [newline]" by (simp add: s)
  have second: "words_from ?s ?k = operand # words_from ?s (?k + 1 + length operand)"
  proof -
    have d: "drop (?k + 1) ?s = (?n @ ''='') @ ?q @ [newline]" using at_operand by (simp add: operand_def)
    have w: "list_all word_byte (?n @ ''='')"
      using bytes name_byte_is_word_byte by (auto simp: list_all_iff word_byte_def is_word_terminator_def)
    have le: "?k + 1 \<le> length ?s" using len by simp
    obtain l where "word_loop ?s True (?k + 1) True = word_loop ?s True (?k + 1 + length (?n @ ''='')) l"
      using word_plain_run [OF d w le] by blast
    moreover have "drop (?k + 1 + length (?n @ ''='')) ?s = ?q @ [newline]" by (rule drop_run(1) [OF d le])
    from printed_word [OF this, of l] have "ld_end (word_loop ?s True (?k + 1 + length (?n @ ''='')) l) =
        ?k + 1 + length (?n @ ''='') + length ?q" by (simp add: is_word_terminator_def)
    ultimately have "ld_end (word_loop ?s True (?k + 1) True) = ?k + 1 + length operand"
      by (simp add: operand_def)
    moreover have "operand = c # m @ ''='' @ ?q" by (simp add: operand_def n)
    ultimately show ?thesis
      using words_from_word [OF at_operand _ c(1,2) digit c(3), of "m @ ''='' @ ?q" ?k] le by (simp add: s)
  qed
  have third: "words_from ?s (?k + 1 + length operand) = [[newline]]"
    by (rule words_from_newline) (use drop_run(1) [OF at_operand] len in simp_all)
  have eq: "takeWhile (\<lambda>c. c \<noteq> CHR ''='') operand = ?n" "dropWhile (\<lambda>c. c \<noteq> CHR ''='') operand = ''='' @ ?q"
    using bytes name_byte_is_word_byte
    by (auto simp: operand_def takeWhile_append dropWhile_append list_all_iff)
  have "operand_is_assignment (note_expanded_word keyword declaration_scan_init) operand"
    using assms(1,2) eq(1) by (auto simp: operand_is_assignment_def note_expanded_word_def declaration_scan_init_def operand_def)
  moreover have "fst (expand_value x In_assignment (tl (dropWhile (\<lambda>c. c \<noteq> CHR ''='') operand)) st) = vr_value row"
    using printed_value [of x "vr_value row" st] eq(2) by auto
  moreover have "words_from ?s 0 = [keyword, operand, [newline]]" using first second third by simp
  ultimately show ?thesis using eq(1) by blast
qed

theorem declarations_read_back_witness:
  "\<exists>operand. words_from (print_declaration ''export'' \<lparr>vr_name = ''v'', vr_value = [single_quote, CHR ''$''], vr_assigned = True,
     vr_exported = True, vr_readonly = False\<rparr>) 0 = [''export'', operand, [newline]] \<and>
    fst (expand_value demo_ports In_assignment (tl (dropWhile (\<lambda>c. c \<noteq> CHR ''='') operand)) (expansion_init ())) = [single_quote, CHR ''$'']"
proof -
  let ?row = "\<lparr>vr_name = ''v'', vr_value = [single_quote, CHR ''$''], vr_assigned = True, vr_exported = True, vr_readonly = False\<rparr>"
  have "var_name (vr_name ?row)" by code_simp
  from declarations_read_back [of "''export''" ?row demo_ports "expansion_init ()", OF _ this] show ?thesis by auto
qed

end
