(* ===== verification/Spec2Isabelle.thy ===== *)
theory Spec2Isabelle
  imports Base CharUtils Numeric Pattern Arithmetic Args Invocation SourceMap TextBuffer Undo KillStore Decode Keymap ShellVars Glob Lexer Ast DecodeProps DecodeStream Expander ExpanderProps ExpanderShell ExpanderText ExpanderWords Grammar GrammarMakes GrammarRules GrammarTotal KeymapNotation KeymapProps KeymapResolve Keys LexerProps LexerSubst Parser ParserProps ParserReads ParserRules ParserTotal Partial Reinput TreeShape
begin

text \<open>
  Verification development of lesh, a POSIX shell in C++23 (\<^verbatim>\<open>src/\<close>), at one commit.

  \<^bold>\<open>The program.\<close>  A command line or a script becomes the words of commands in four stages, each a module
  of its own: \<^verbatim>\<open>src/runtime/invocation.cpp\<close> reads the shell's own command line, the lexer
  (\<^verbatim>\<open>src/syntax/lexer.cpp\<close>) cuts source text into tokens, the parser builds a tree of them, and the executor
  hands each word of the tree to the expander (\<^verbatim>\<open>src/runtime/expander.cpp\<close>), which calls the arithmetic
  evaluator, the pattern matcher and the directory walk and reads and writes the shell state.  Beside that stands
  the line editor (\<^verbatim>\<open>src/leshper/\<close>): terminal bytes are decoded to events, key events resolved against a stack
  of keymaps to actions, and the actions edit a text buffer under an undo history and a kill store.

  \<^bold>\<open>Common ground.\<close>
  \<^item> \<open>Base\<close>: bytes are \<open>char\<close>, a \<open>std::string\<close> or \<open>std::string_view\<close> is a \<open>string\<close>; signed and unsigned
    readings of a byte; substrings and searches; the rewrite collections; the locale \<open>keyed_store\<close>, what a map
    with \<open>get\<close> and \<open>put\<close> promises.  It is interpreted on the kill store and on the variable, alias and function tables.
  \<^item> \<open>CharUtils\<close> (\<^verbatim>\<open>substrate/char_utils.h\<close>), \<open>Numeric\<close> (\<^verbatim>\<open>substrate/numeric.h\<close>): name alphabets, and
    the one reader of numeric operands with its policy table, on 64-bit words.  \<open>Numeric\<close> shows that an operand is
    read as the integer it spells, clamped or refused at the bounds of its row.
  \<^item> \<open>Args\<close> (\<^verbatim>\<open>substrate/args.cpp\<close>) and \<open>Invocation\<close> (\<^verbatim>\<open>runtime/option_word.h\<close>, \<^verbatim>\<open>invocation.cpp\<close>):
    the option parser as a resumable cursor over \<open>argv\<close>.  It is shown equal to a declarative reading of the option
    grammar, and every stored number fits the type of the field it goes to.

  \<^bold>\<open>Syntax.\<close>
  \<^item> \<open>Lexer\<close> (\<^verbatim>\<open>syntax/token.h\<close>, \<^verbatim>\<open>lexer.h\<close>, \<^verbatim>\<open>lexer.cpp\<close>): tokens, the scan over nested quotes and
    expansions, here-document delimiters, \<open>$'...'\<close> decoding, and \<open>next_token\<close> in every mode.
  \<^item> \<open>LexerProps\<close>: every token moves on and stays in the source; the segments of a word flatten back to it; the
    comparison of a here-document delimiter is quote removal followed by comparison.  \<open>LexerSubst\<close>: the interior
    named for a complete command substitution is what lies between its delimiters.
  \<^item> \<open>SourceMap\<close> (\<^verbatim>\<open>syntax/source_map.h\<close>): offsets to lines and columns; the memo of the last query is
    invisible.
  \<^item> \<open>Partial\<close>: loops and recursion without a bound in sight are functions to \<open>option\<close>, \<open>None\<close> being the run
    that never ends; \<open>succeeds\<close> is total correctness for them.
  \<^item> \<open>Ast\<close> (\<^verbatim>\<open>syntax/ast.h\<close>), \<open>Parser\<close> and \<open>Grammar\<close> (\<^verbatim>\<open>syntax/parser.cpp\<close>): the tree, drawing tokens through
    the stack of alias bodies with comments and here-document bodies set aside, one function for every grammar rule
    with its error nodes, the interiors of command substitutions, \<open>parse\<close> and \<open>parse_next_command\<close>.  The rules take
    as an argument the function that parses lists, pipelines and commands; \<open>parse_nt\<close> ties the knot.
  \<^item> \<open>TreeShape\<close>: what the comments on \<open>node_kind\<close> promise of a node.  \<open>ParserReads\<close>: drawing a token returns,
    by a measure (\<open>potential\<close>) that weighs the text left in the input and in each alias body by the aliases that can
    still be entered from it.  \<open>ParserRules\<close>, \<open>GrammarRules\<close>, \<open>GrammarMakes\<close>, \<open>GrammarTotal\<close>: every rule returns one
    well-formed node and hands every node it made to one parent.  \<open>ParserTotal\<close>: both entry points, with a multiset
    of depths for the worklist of interiors.  \<open>ParserProps\<close>: the promises.
  \<^bold>\<open>Expansion.\<close>
  \<^item> \<open>Pattern\<close> (\<^verbatim>\<open>runtime/pattern.cpp\<close>): the iterative matcher with its single backtrack point, equal to the
    declarative meaning of patterns; the trims remove the shortest or longest affix that matches.
  \<^item> \<open>Arithmetic\<close> (\<^verbatim>\<open>runtime/arithmetic.cpp\<close>): the evaluator of \<open>$((...))\<close> on 64-bit words.  Its recursion is
    bounded by fuel, the length of the expression plus one at each level; \<open>evaluate_total\<close> shows that this always
    suffices.  Skipped operands are inert and the operators wrap as the comments promise.
  \<^item> \<open>ShellVars\<close> (\<^verbatim>\<open>runtime/shell_state.cpp\<close>): variables with their marks, aliases, functions, positional
    parameters and the option table; it interprets the locale \<open>variables_port\<close> of \<open>Arithmetic\<close>.
  \<^item> \<open>Glob\<close> (\<^verbatim>\<open>runtime/glob.cpp\<close>): the walk over the components of a pattern, over a directory reader and an
    \<open>lstat\<close> that are arguments; it finds exactly the pathnames of the inductive relation \<open>reaches\<close>.
  \<^item> \<open>Expander\<close> (\<^verbatim>\<open>runtime/expander.cpp\<close>): all of word expansion over ports, records of functions over a state
    of type \<open>'s\<close>: the parameters, the arithmetic variables, the command runner and the directory.  Nested words are
    expanded by fuel that is \<open>kMaxExpansionDepth\<close> (256), the code's own bound; past it the code, and the model,
    refuse.  A view into a variable read after the variable was overwritten, and an assertion of the code that would
    fail, set a mark (\<open>es_stale\<close> and the like) in place of undefined behaviour.
  \<^item> \<open>ExpanderProps\<close>: what every expansion keeps of the state, the collection \<open>behaves\<close>; errors are fatal; values
    leave the word around them alone.  \<open>ExpanderWords\<close>: unquoted parameters split into the POSIX fields
    (\<open>ifs_fields\<close>), double quotes preserve them.  \<open>ExpanderText\<close>: the literal fast path, the parser of \<open>${...}\<close>,
    \<open>$@\<close> and \<open>$*\<close>, the declaration scan, unset parameters.  \<open>ExpanderShell\<close>: the ports of the shell state, with the
    locale \<open>assignment_port\<close> and its interpretation \<open>shell_assignment\<close>.
  \<^item> \<open>Reinput\<close> (\<^verbatim>\<open>runtime/builtins.cpp\<close>): what \<open>export -p\<close>, \<open>readonly -p\<close> and \<open>alias\<close> print is lexed and expanded
    back to the name and value printed.

  \<^bold>\<open>Line editor.\<close>
  \<^item> \<open>TextBuffer\<close> (\<^verbatim>\<open>leshper/text.h\<close>), \<open>Undo\<close> (\<^verbatim>\<open>undo.h\<close>, \<open>apply_edit\<close> of \<^verbatim>\<open>editor.cpp\<close>), \<open>KillStore\<close>
    (\<^verbatim>\<open>kill_store.cpp\<close>): edits are replayed and undone; undoing everything restores the first text, redo inverts
    undo, a run of typing is one step.
  \<^item> \<open>Keys\<close> (\<^verbatim>\<open>event.h\<close>), \<open>Decode\<close> (\<^verbatim>\<open>decode.cpp\<close>), \<open>DecodeStream\<close>, \<open>DecodeProps\<close>: the decoder as a
    function of the bytes so far and the clock.  Cutting the input into reads differently changes nothing, typed text
    and pastes arrive as sent, and the deadline stands exactly while an ambiguous prefix is held.
  \<^item> \<open>Keymap\<close> (\<^verbatim>\<open>keymap.cpp\<close>), \<open>KeymapProps\<close>, \<open>KeymapNotation\<close>, \<open>KeymapResolve\<close>: the sorted table with its
    binary search refines a finite map, the notation reads back, and resolution is the declarative reading of the
    stack of maps.

  \<^bold>\<open>Conventions.\<close>  Offsets and indices the code keeps in 32 bits are natural numbers, under the code's own
  limit of 4 GiB on a source; numbers whose wrap-around matters are words.  Errors are values, and a status that the
  code returns is a value of a datatype.  Loops are recursive functions with a measure, except where fuel is named
  above.  A theorem with hypotheses has a witness, the theorem whose name ends in \<open>_witness\<close>.

  \<^bold>\<open>Not modelled.\<close>  Running commands: forks, pipes, waits, traps and signals (\<^verbatim>\<open>executor.cpp\<close>,
  \<^verbatim>\<open>signals.cpp\<close>), whose behaviour is that of the operating system calls they order; the command runner is a
  port of the expander.  The built-in utilities, but for what they print for re-input.  History files, the event
  loop, prompts, layout and drawing (\<^verbatim>\<open>src/ui\<close>, \<^verbatim>\<open>layout.cpp\<close>, \<^verbatim>\<open>surface.cpp\<close>), the action tables of the
  editing modes, fibers, and the allocation and logging substrate.  The prefix that a diagnostic carries is left out
  of the messages of the expander.
\<close>

end
